(* ===== verification/Prelude.thy ===== *)
theory Prelude
  imports Main
begin

text \<open>
  What every component shares: the collections its proofs draw on, the fallible result type,
  and generic facts on lists, options and maps.

  A computation of the source that can raise is a value of \<open>'e + 'a\<close>, the exception to the left;
  \<open>res_bind\<close> is the sequencing of two statements, the second skipped when the first raised.
\<close>

section \<open>Collections of facts\<close>

named_theorems str_simps \<open>string operations on concrete shapes\<close>
named_theorems path_simps \<open>path spelling and placement\<close>
named_theorems inv_intros \<open>an operation keeps its component's invariant\<close>
named_theorems inv_dests \<open>what a component's invariant gives\<close>

section \<open>Results\<close>

definition res_bind :: "'e + 'a \<Rightarrow> ('a \<Rightarrow> 'e + 'b) \<Rightarrow> 'e + 'b" where
  "res_bind r f = (case r of Inl e \<Rightarrow> Inl e | Inr a \<Rightarrow> f a)"

lemma res_bind_Inl [simp]: "res_bind (Inl e) f = Inl e"
  by (simp add: res_bind_def)

lemma res_bind_Inr [simp]: "res_bind (Inr a) f = f a"
  by (simp add: res_bind_def)

lemma res_bind_eq_Inr_iff: "res_bind r f = Inr b \<longleftrightarrow> (\<exists>a. r = Inr a \<and> f a = Inr b)"
  by (cases r) auto

lemma res_bind_eq_Inl_iff:
  "res_bind r f = Inl e \<longleftrightarrow> r = Inl e \<or> (\<exists>a. r = Inr a \<and> f a = Inl e)"
  by (cases r) auto

text \<open>A loop that carries a value and may raise from its body.\<close>

fun res_fold :: "('s \<Rightarrow> 'a \<Rightarrow> 'e + 's) \<Rightarrow> 'a list \<Rightarrow> 's \<Rightarrow> 'e + 's" where
  "res_fold f [] s = Inr s"
| "res_fold f (x # xs) s = res_bind (f s x) (res_fold f xs)"

lemma res_fold_append: "res_fold f (xs @ ys) s = res_bind (res_fold f xs s) (res_fold f ys)"
  by (induction xs arbitrary: s) (auto simp: res_bind_def split: sum.split)

text \<open>What every turn of the loop keeps, the loop keeps.\<close>

lemma res_fold_inv:
  assumes "res_fold f xs s = Inr s'" and "p s"
    and "\<And>s x s'. x \<in> set xs \<Longrightarrow> p s \<Longrightarrow> f s x = Inr s' \<Longrightarrow> p s'"
  shows "p s'"
  using assms by (induction xs arbitrary: s) (auto simp: res_bind_eq_Inr_iff)

section \<open>Lists\<close>

text \<open>The first element a test holds of, as \<open>next((x for x in xs if p(x)), None)\<close>.\<close>

definition first_of :: "('a \<Rightarrow> bool) \<Rightarrow> 'a list \<Rightarrow> 'a option" where
  "first_of p xs = List.find p xs"

lemma first_of_Nil [simp]: "first_of p [] = None"
  by (simp add: first_of_def)

lemma first_of_Cons [simp]: "first_of p (x # xs) = (if p x then Some x else first_of p xs)"
  by (simp add: first_of_def)

lemma first_of_SomeD: "first_of p xs = Some x \<Longrightarrow> x \<in> set xs \<and> p x"
  by (induction xs) (auto split: if_splits)

lemma first_of_None_iff: "first_of p xs = None \<longleftrightarrow> (\<forall>x\<in>set xs. \<not> p x)"
  by (induction xs) auto

text \<open>The first value a partial function has on a list: a loop returning from its body.\<close>

fun first_some :: "('a \<Rightarrow> 'b option) \<Rightarrow> 'a list \<Rightarrow> 'b option" where
  "first_some f [] = None"
| "first_some f (x # xs) = (case f x of None \<Rightarrow> first_some f xs | Some y \<Rightarrow> Some y)"

lemma first_some_None_iff: "first_some f xs = None \<longleftrightarrow> (\<forall>x\<in>set xs. f x = None)"
  by (induction xs) (auto split: option.splits)

lemma first_some_SomeD: "first_some f xs = Some y \<Longrightarrow> \<exists>x\<in>set xs. f x = Some y"
  by (induction xs) (auto split: option.splits)

lemma first_some_append:
  "first_some f (xs @ ys) = (case first_some f xs of None \<Rightarrow> first_some f ys | Some y \<Rightarrow> Some y)"
  by (induction xs) (auto split: option.splits)

text \<open>The elements of a list, each once, kept where it is first met.\<close>

lemma filter_id_conv': "(\<forall>x\<in>set xs. p x) \<Longrightarrow> filter p xs = xs"
  by (simp add: filter_id_conv)

lemma in_remove1D [dest]: "x \<in> set (remove1 y xs) \<Longrightarrow> x \<in> set xs"
  by (meson notin_set_remove1)

section \<open>Ordered dictionaries\<close>

text \<open>
  A \<open>dict\<close> whose order is read is an association list with distinct keys: storing at a key
  already there keeps its place, as Python does; storing at a new one appends.
\<close>

fun dict_get :: "('k \<times> 'v) list \<Rightarrow> 'k \<Rightarrow> 'v option" where
  "dict_get [] k = None"
| "dict_get ((k', v) # m) k = (if k' = k then Some v else dict_get m k)"

fun dict_put :: "'k \<Rightarrow> 'v \<Rightarrow> ('k \<times> 'v) list \<Rightarrow> ('k \<times> 'v) list" where
  "dict_put k v [] = [(k, v)]"
| "dict_put k v ((k', v') # m) = (if k' = k then (k, v) # m else (k', v') # dict_put k v m)"

fun dict_del :: "'k \<Rightarrow> ('k \<times> 'v) list \<Rightarrow> ('k \<times> 'v) list" where
  "dict_del k [] = []"
| "dict_del k ((k', v') # m) = (if k' = k then m else (k', v') # dict_del k m)"

abbreviation dict_keys :: "('k \<times> 'v) list \<Rightarrow> 'k list" where
  "dict_keys m \<equiv> map fst m"

definition dict_ok :: "('k \<times> 'v) list \<Rightarrow> bool" where
  "dict_ok m \<longleftrightarrow> distinct (dict_keys m)"

lemma dict_ok_Nil [simp]: "dict_ok []"
  by (simp add: dict_ok_def)

lemma dict_get_None_iff: "dict_get m k = None \<longleftrightarrow> k \<notin> set (dict_keys m)"
  by (induction m k rule: dict_get.induct) auto

lemma dict_get_absent: "k \<notin> fst ` set m \<Longrightarrow> dict_get m k = None"
  by (simp add: dict_get_None_iff)

lemma dict_get_map_of: "dict_get m k = map_of m k"
  by (induction m) auto

lemma dict_keys_put:
  "dict_keys (dict_put k v m) = (if k \<in> set (dict_keys m) then dict_keys m else dict_keys m @ [k])"
  by (induction k v m rule: dict_put.induct) auto

lemma dict_keys_del_subset: "set (dict_keys (dict_del k m)) \<subseteq> set (dict_keys m)"
  by (induction k m rule: dict_del.induct) auto

lemma dict_get_put [simp]:
  "dict_get (dict_put k v m) k' = (if k' = k then Some v else dict_get m k')"
  by (induction m) auto

lemma dict_ok_put [simp, intro]: "dict_ok m \<Longrightarrow> dict_ok (dict_put k v m)"
  by (auto simp: dict_ok_def dict_keys_put)

lemma dict_ok_del [simp, intro]: "dict_ok m \<Longrightarrow> dict_ok (dict_del k m)"
proof (induction m)
  case Nil
  then show ?case by simp
next
  case (Cons p m)
  then show ?case
    using dict_keys_del_subset [of k m] by (cases p) (fastforce simp: dict_ok_def)
qed

lemma dict_get_del:
  "dict_ok m \<Longrightarrow> dict_get (dict_del k m) k' = (if k' = k then None else dict_get m k')"
  by (induction k m rule: dict_del.induct)
     (auto simp: dict_ok_def dict_get_absent)

lemma dict_put_same: "dict_get m k = Some v \<Longrightarrow> dict_put k v m = m"
  by (induction m) (auto split: if_splits)

lemma dict_put_new: "k \<notin> set (dict_keys m) \<Longrightarrow> dict_put k v m = m @ [(k, v)]"
  by (induction m) auto

lemma dict_del_absent: "k \<notin> set (dict_keys m) \<Longrightarrow> dict_del k m = m"
  by (induction m) auto

lemma dict_get_in_set: "dict_get m k = Some v \<Longrightarrow> (k, v) \<in> set m"
  by (induction m) (auto split: if_splits)

lemma dict_ext_put: "dict_put k v (dict_put k v' m) = dict_put k v m"
  by (induction m) auto

end
