(* ===== verification/PyString.thy ===== *)
theory PyString
  imports Prelude
begin

text \<open>
  The part of Python's \<open>str\<close> and \<open>posixpath\<close> the program's components call. A string is a list
  of characters, each one code point up to U+00FF; what a method does above that is not modelled.
  Case is Latin-1's: \<open>lower\<close> and \<open>casefold\<close> agree but for the sharp s, which folds to two letters
  (the micro sign, whose fold lies above U+00FF and which nothing else here folds to, is left).
\<close>

section \<open>Tests and pieces\<close>

definition starts_with :: "string \<Rightarrow> string \<Rightarrow> bool" where
  "starts_with p s \<longleftrightarrow> take (length p) s = p"

definition remove_prefix :: "string \<Rightarrow> string \<Rightarrow> string" where
  "remove_prefix p s = (if starts_with p s then drop (length p) s else s)"

definition ends_with :: "string \<Rightarrow> string \<Rightarrow> bool" where
  "ends_with p s \<longleftrightarrow> starts_with (rev p) (rev s)"

fun contains_sub :: "string \<Rightarrow> string \<Rightarrow> bool" where
  "contains_sub p [] \<longleftrightarrow> p = []"
| "contains_sub p (c # s) \<longleftrightarrow> starts_with p (c # s) \<or> contains_sub p s"

lemma starts_with_append [simp]: "starts_with p (p @ s)"
  by (simp add: starts_with_def)

lemma starts_with_iff: "starts_with p s \<longleftrightarrow> (\<exists>t. s = p @ t)"
  unfolding starts_with_def by (metis append_eq_conv_conj)

lemma starts_with_Nil [simp]: "starts_with [] s"
  by (simp add: starts_with_def)

lemma starts_with_Nil2 [simp]: "starts_with p [] \<longleftrightarrow> p = []"
  by (auto simp: starts_with_def)

lemma starts_with_Cons [simp]: "starts_with (c # p) (d # s) \<longleftrightarrow> c = d \<and> starts_with p s"
  by (auto simp: starts_with_def)

lemma starts_with_self [simp]: "starts_with p p"
  by (simp add: starts_with_def)

lemma remove_prefix_append [simp]: "remove_prefix p (p @ s) = s"
  by (simp add: remove_prefix_def)

section \<open>Splitting\<close>

text \<open>\<open>s.partition(c)\<close>, \<open>s.rpartition(c)\<close> for a separator of one character.\<close>

definition py_partition :: "char \<Rightarrow> string \<Rightarrow> string \<times> bool \<times> string" where
  "py_partition c s = (takeWhile (\<lambda>x. x \<noteq> c) s, c \<in> set s, tl (dropWhile (\<lambda>x. x \<noteq> c) s))"

definition py_rpartition :: "char \<Rightarrow> string \<Rightarrow> string \<times> bool \<times> string" where
  "py_rpartition c s =
     (if c \<in> set s
      then (rev (tl (dropWhile (\<lambda>x. x \<noteq> c) (rev s))), True, rev (takeWhile (\<lambda>x. x \<noteq> c) (rev s)))
      else ([], False, s))"

text \<open>\<open>s.split(c)\<close> and \<open>c.join(xs)\<close>.\<close>

fun py_split :: "char \<Rightarrow> string \<Rightarrow> string list" where
  "py_split c [] = [[]]"
| "py_split c (x # s) =
     (if x = c then [] # py_split c s
      else case py_split c s of [] \<Rightarrow> [[x]] | w # ws \<Rightarrow> (x # w) # ws)"

fun py_join :: "string \<Rightarrow> string list \<Rightarrow> string" where
  "py_join c [] = []"
| "py_join c [w] = w"
| "py_join c (w # ws) = w @ c @ py_join c ws"

lemma py_partition_absent: "c \<notin> set s \<Longrightarrow> py_partition c s = (s, False, [])"
proof -
  assume c: "c \<notin> set s"
  then have "takeWhile (\<lambda>x. x \<noteq> c) s = s" "dropWhile (\<lambda>x. x \<noteq> c) s = []"
    by (auto simp: takeWhile_eq_all_conv dropWhile_eq_Nil_conv)
  with c show ?thesis unfolding py_partition_def by (simp only: list.sel)
qed

lemma py_partition_found: "c \<notin> set a \<Longrightarrow> py_partition c (a @ c # b) = (a, True, b)"
  by (simp add: py_partition_def takeWhile_append dropWhile_append)

lemma py_rpartition_absent: "c \<notin> set s \<Longrightarrow> py_rpartition c s = ([], False, s)"
  by (simp add: py_rpartition_def)

lemma py_rpartition_found: "c \<notin> set b \<Longrightarrow> py_rpartition c (a @ c # b) = (a, True, b)"
  by (simp add: py_rpartition_def takeWhile_append dropWhile_append)

lemma py_partition_parts:
  "py_partition c s = (a, f, b) \<Longrightarrow> s = (if f then a @ c # b else a) \<and> c \<notin> set a"
proof -
  assume p: "py_partition c s = (a, f, b)"
  show ?thesis
  proof (cases "c \<in> set s")
    case True
    then obtain u v where "s = u @ c # v" "c \<notin> set u"
      by (meson split_list_first)
    with p show ?thesis by (auto simp: py_partition_found)
  next
    case False
    with p show ?thesis by (auto simp: py_partition_absent)
  qed
qed

lemma py_rpartition_parts:
  "py_rpartition c s = (a, f, b) \<Longrightarrow> s = (if f then a @ c # b else b) \<and> c \<notin> set b"
proof -
  assume p: "py_rpartition c s = (a, f, b)"
  show ?thesis
  proof (cases "c \<in> set s")
    case True
    then obtain u v where "s = u @ c # v" "c \<notin> set v"
      by (meson split_list_last)
    with p show ?thesis by (auto simp: py_rpartition_found)
  next
    case False
    with p show ?thesis by (auto simp: py_rpartition_absent)
  qed
qed

lemma py_split_not_Nil [simp]: "py_split c s \<noteq> []"
  by (induction s) (auto split: list.splits)

lemma py_join_Cons: "ws \<noteq> [] \<Longrightarrow> py_join c (w # ws) = w @ c @ py_join c ws"
  by (cases ws) auto

lemma py_join_split [simp]: "py_join [c] (py_split c s) = s"
proof (induction s)
  case Nil
  then show ?case by simp
next
  case (Cons x s)
  obtain w ws where w: "py_split c s = w # ws"
    by (cases "py_split c s") auto
  with Cons show ?case
    by (cases ws) (auto simp: py_join_Cons)
qed

lemma py_split_plain: "c \<notin> set w \<Longrightarrow> py_split c w = [w]"
  by (induction w) auto

lemma py_split_first: "c \<notin> set w \<Longrightarrow> py_split c (w @ c # s) = w # py_split c s"
  by (induction w) auto

lemma py_split_join:
  "ws \<noteq> [] \<Longrightarrow> \<forall>w\<in>set ws. c \<notin> set w \<Longrightarrow> py_split c (py_join [c] ws) = ws"
proof (induction ws)
  case Nil
  then show ?case by simp
next
  case (Cons w ws)
  then show ?case
    by (cases "ws = []") (auto simp: py_join_Cons py_split_plain py_split_first)
qed

lemma py_split_parts: "w \<in> set (py_split c s) \<Longrightarrow> c \<notin> set w"
proof (induction s arbitrary: w)
  case Nil
  then show ?case by simp
next
  case (Cons x s)
  obtain u us where "py_split c s = u # us"
    by (cases "py_split c s") auto
  with Cons show ?case by (auto split: if_splits)
qed

section \<open>White space and case\<close>

definition is_space :: "char \<Rightarrow> bool" where
  "is_space c \<longleftrightarrow>
     (let n = (of_char c :: nat) in
      9 \<le> n \<and> n \<le> 13 \<or> 28 \<le> n \<and> n \<le> 32 \<or> n = 133 \<or> n = 160)"

definition py_lstrip :: "string \<Rightarrow> string" where
  "py_lstrip s = dropWhile is_space s"

definition py_rstrip :: "string \<Rightarrow> string" where
  "py_rstrip s = rev (dropWhile is_space (rev s))"

definition py_strip :: "string \<Rightarrow> string" where
  "py_strip s = py_rstrip (py_lstrip s)"

definition lstrip_char :: "char \<Rightarrow> string \<Rightarrow> string" where
  "lstrip_char c s = dropWhile (\<lambda>x. x = c) s"

definition rstrip_char :: "char \<Rightarrow> string \<Rightarrow> string" where
  "rstrip_char c s = rev (dropWhile (\<lambda>x. x = c) (rev s))"

definition is_upper :: "char \<Rightarrow> bool" where
  "is_upper c \<longleftrightarrow>
     (let n = (of_char c :: nat) in 65 \<le> n \<and> n \<le> 90 \<or> 192 \<le> n \<and> n \<le> 222 \<and> n \<noteq> 215)"

definition lower_char :: "char \<Rightarrow> char" where
  "lower_char c = (if is_upper c then char_of ((of_char c :: nat) + 32) else c)"

definition py_lower :: "string \<Rightarrow> string" where
  "py_lower s = map lower_char s"

definition casefold :: "string \<Rightarrow> string" where
  "casefold s = concat (map (\<lambda>c. if (of_char c :: nat) = 223 then ''ss'' else [lower_char c]) s)"

lemma casefold_Nil [simp]: "casefold [] = []"
  by (simp add: casefold_def)

lemma casefold_append: "casefold (s @ t) = casefold s @ casefold t"
  by (simp add: casefold_def)

lemma py_strip_Nil [simp]: "py_strip [] = []"
  by (simp add: py_strip_def py_lstrip_def py_rstrip_def)

lemma dropWhile_idem [simp]: "dropWhile p (dropWhile p s) = dropWhile p s"
  by (induction s) auto

lemma rstrip_char_idem [simp]: "rstrip_char c (rstrip_char c s) = rstrip_char c s"
  by (simp add: rstrip_char_def)

lemma rstrip_char_snoc:
  "rstrip_char c (s @ [d]) = (if d = c then rstrip_char c s else s @ [d])"
  by (simp add: rstrip_char_def)

lemma rstrip_char_Nil [simp]: "rstrip_char c [] = []"
  by (simp add: rstrip_char_def)

lemma rstrip_char_not_last: "s \<noteq> [] \<Longrightarrow> last s \<noteq> c \<Longrightarrow> rstrip_char c s = s"
  by (cases s rule: rev_cases) (auto simp: rstrip_char_snoc)

lemma rstrip_char_last: "rstrip_char c s \<noteq> [] \<Longrightarrow> last (rstrip_char c s) \<noteq> c"
  by (induction s rule: rev_induct) (auto simp: rstrip_char_snoc)

lemma rstrip_char_parts: "\<exists>n. s = rstrip_char c s @ replicate n c"
proof (induction s rule: rev_induct)
  case Nil
  then show ?case by simp
next
  case (snoc d s)
  then obtain n where n: "s = rstrip_char c s @ replicate n c" by blast
  show ?case
  proof (cases "d = c")
    case True
    from n have "s @ [c] = rstrip_char c s @ replicate (Suc n) c"
      by (metis append.assoc replicate_append_same replicate_Suc)
    with True show ?thesis by (metis rstrip_char_snoc)
  next
    case False
    then show ?thesis by (auto simp: rstrip_char_snoc intro: exI [of _ 0])
  qed
qed

lemma lstrip_char_parts: "\<exists>n. s = replicate n c @ lstrip_char c s"
proof (induction s)
  case Nil
  then show ?case by (simp add: lstrip_char_def)
next
  case (Cons d s)
  then obtain n where n: "s = replicate n c @ lstrip_char c s" by blast
  show ?case
  proof (cases "d = c")
    case True
    with n have "d # s = replicate (Suc n) c @ lstrip_char c (d # s)"
      by (simp add: lstrip_char_def)
    then show ?thesis by blast
  next
    case False
    then show ?thesis by (auto simp: lstrip_char_def intro: exI [of _ 0])
  qed
qed

section \<open>Paths\<close>

text \<open>\<open>posixpath.join\<close>, \<open>normpath\<close>, \<open>abspath\<close>, \<open>expanduser\<close>.\<close>

definition path_join :: "string \<Rightarrow> string \<Rightarrow> string" where
  "path_join a b =
     (if starts_with ''/'' b then b
      else if a = [] \<or> last a = CHR ''/'' then a @ b
      else a @ ''/'' @ b)"

text \<open>The components \<open>normpath\<close> keeps, the last kept first.\<close>

fun norm_comps :: "bool \<Rightarrow> string list \<Rightarrow> string list \<Rightarrow> string list" where
  "norm_comps rooted new [] = new"
| "norm_comps rooted new (w # ws) =
     (if w = [] \<or> w = ''.'' then norm_comps rooted new ws
      else if w \<noteq> ''..'' \<or> (\<not> rooted \<and> new = []) \<or> (new \<noteq> [] \<and> hd new = ''..'')
      then norm_comps rooted (w # new) ws
      else norm_comps rooted (tl new) ws)"

definition normpath :: "string \<Rightarrow> string" where
  "normpath p =
     (if p = [] then ''.''
      else let lead = (if starts_with ''//'' p \<and> \<not> starts_with ''///'' p then ''//''
                       else if starts_with ''/'' p then ''/'' else []);
               done = lead @ py_join ''/'' (rev (norm_comps (lead \<noteq> []) [] (py_split CHR ''/'' p)))
           in if done = [] then ''.'' else done)"

text \<open>Where a process is and whose home is where: \<open>home_of ''''\<close> is its own.\<close>

record surroundings =
  cwd :: string
  home_of :: "string \<Rightarrow> string option"

definition abspath :: "surroundings \<Rightarrow> string \<Rightarrow> string" where
  "abspath w p = normpath (if starts_with ''/'' p then p else path_join (cwd w) p)"

definition expanduser :: "surroundings \<Rightarrow> string \<Rightarrow> string" where
  "expanduser w p =
     (if \<not> starts_with ''~'' p then p
      else let name = takeWhile (\<lambda>c. c \<noteq> CHR ''/'') (tl p);
               rest = drop (length name) (tl p)
           in case home_of w name of
                None \<Rightarrow> p
              | Some home \<Rightarrow>
                  (let whole = rstrip_char CHR ''/'' home @ rest
                   in if whole = [] then ''/'' else whole))"

lemma path_join_below: "\<not> starts_with ''/'' b \<Longrightarrow> b \<noteq> [] \<Longrightarrow> \<exists>m. path_join a b = a @ m @ b"
  by (auto simp: path_join_def)

end
