(* ===== verification/PyFloat.thy ===== *)
theory PyFloat
  imports Complex_Main Prelude
begin

text \<open>
  Python's \<open>float\<close> as the budgets, bills and waits of the program use it: a finite value is an
  exact rational, and the infinities and NaN behave as IEEE 754 has them -- NaN loses every
  comparison, and an operation on it gives it again. What is left out is rounding: a sum of two
  finite values is their exact sum.
\<close>

datatype pyfloat = Fin rat | PInf | NInf | NaN

section \<open>Comparisons\<close>

fun f_lt :: "pyfloat \<Rightarrow> pyfloat \<Rightarrow> bool" where
  "f_lt NaN y = False"
| "f_lt x NaN = False"
| "f_lt (Fin a) (Fin b) = (a < b)"
| "f_lt (Fin a) PInf = True"
| "f_lt (Fin a) NInf = False"
| "f_lt PInf y = False"
| "f_lt NInf NInf = False"
| "f_lt NInf y = True"

fun f_eq :: "pyfloat \<Rightarrow> pyfloat \<Rightarrow> bool" where
  "f_eq NaN y = False"
| "f_eq x NaN = False"
| "f_eq x y = (x = y)"

definition f_le :: "pyfloat \<Rightarrow> pyfloat \<Rightarrow> bool" where
  "f_le x y \<longleftrightarrow> f_lt x y \<or> f_eq x y"

fun is_finite :: "pyfloat \<Rightarrow> bool" where
  "is_finite (Fin a) = True"
| "is_finite x = False"

definition is_nan :: "pyfloat \<Rightarrow> bool" where
  "is_nan x \<longleftrightarrow> x = NaN"

section \<open>Arithmetic\<close>

fun f_neg :: "pyfloat \<Rightarrow> pyfloat" where
  "f_neg (Fin a) = Fin (- a)"
| "f_neg PInf = NInf"
| "f_neg NInf = PInf"
| "f_neg NaN = NaN"

fun f_add :: "pyfloat \<Rightarrow> pyfloat \<Rightarrow> pyfloat" where
  "f_add NaN y = NaN"
| "f_add x NaN = NaN"
| "f_add (Fin a) (Fin b) = Fin (a + b)"
| "f_add PInf NInf = NaN"
| "f_add NInf PInf = NaN"
| "f_add PInf y = PInf"
| "f_add x PInf = PInf"
| "f_add NInf y = NInf"
| "f_add x NInf = NInf"

definition f_sub :: "pyfloat \<Rightarrow> pyfloat \<Rightarrow> pyfloat" where
  "f_sub x y = f_add x (f_neg y)"

fun f_sign :: "pyfloat \<Rightarrow> rat" where
  "f_sign (Fin a) = sgn a"
| "f_sign PInf = 1"
| "f_sign NInf = - 1"
| "f_sign NaN = 0"

definition f_inf :: "rat \<Rightarrow> pyfloat" where
  "f_inf s = (if s = 0 then NaN else if s < 0 then NInf else PInf)"

fun f_mul :: "pyfloat \<Rightarrow> pyfloat \<Rightarrow> pyfloat" where
  "f_mul NaN y = NaN"
| "f_mul x NaN = NaN"
| "f_mul (Fin a) (Fin b) = Fin (a * b)"
| "f_mul x y = f_inf (f_sign x * f_sign y)"

text \<open>\<open>min(x, y)\<close> and \<open>max(x, y)\<close>: the first, unless the second compares below or above it.\<close>

definition f_min :: "pyfloat \<Rightarrow> pyfloat \<Rightarrow> pyfloat" where
  "f_min x y = (if f_lt y x then y else x)"

definition f_max :: "pyfloat \<Rightarrow> pyfloat \<Rightarrow> pyfloat" where
  "f_max x y = (if f_lt x y then y else x)"

section \<open>Facts\<close>

lemma f_lt_irrefl [simp]: "\<not> f_lt x x"
  by (cases x) auto

lemma f_lt_NaN [simp]: "\<not> f_lt x NaN"
  by (cases x) auto

lemma f_eq_NaN [simp]: "\<not> f_eq x NaN"
  by (cases x) auto

lemma f_eq_iff: "f_eq x y \<longleftrightarrow> x = y \<and> x \<noteq> NaN"
  by (cases x; cases y) auto

lemma f_lt_PInf [simp]: "f_lt x PInf \<longleftrightarrow> x \<noteq> PInf \<and> x \<noteq> NaN"
  by (cases x) auto

lemma f_lt_from_PInf [simp]: "\<not> f_lt PInf y"
  by (cases y) auto

lemma f_lt_trans: "f_lt x y \<Longrightarrow> f_lt y z \<Longrightarrow> f_lt x z"
  by (cases x; cases y; cases z) auto

lemma f_le_refl: "x \<noteq> NaN \<Longrightarrow> f_le x x"
  by (cases x) (auto simp: f_le_def)

lemma f_le_Fin [simp]: "f_le (Fin a) (Fin b) \<longleftrightarrow> a \<le> b"
  by (auto simp: f_le_def)

lemma f_le_trans: "f_le x y \<Longrightarrow> f_le y z \<Longrightarrow> f_le x z"
  by (cases x; cases y; cases z) (auto simp: f_le_def)

lemma f_le_antisym: "f_le x y \<Longrightarrow> f_le y x \<Longrightarrow> x = y"
  by (cases x; cases y) (auto simp: f_le_def)

lemma f_not_lt: "x \<noteq> NaN \<Longrightarrow> y \<noteq> NaN \<Longrightarrow> \<not> f_lt x y \<longleftrightarrow> f_le y x"
  by (cases x; cases y) (auto simp: f_le_def)

lemma f_lt_le_trans: "f_lt x y \<Longrightarrow> f_le y z \<Longrightarrow> f_lt x z"
  by (cases x; cases y; cases z) (auto simp: f_le_def)

lemma f_le_lt_trans: "f_le x y \<Longrightarrow> f_lt y z \<Longrightarrow> f_lt x z"
  by (cases x; cases y; cases z) (auto simp: f_le_def)

lemma f_lt_imp_le: "f_lt x y \<Longrightarrow> f_le x y"
  by (simp add: f_le_def)

lemma f_le_NaN [simp]: "\<not> f_le NaN x" "\<not> f_le x NaN"
  by (simp_all add: f_le_def)

lemma f_le_PInf [simp]: "f_le x PInf \<longleftrightarrow> x \<noteq> NaN"
  by (cases x) (auto simp: f_le_def)

lemma f_le_from_PInf [simp]: "f_le PInf y \<longleftrightarrow> y = PInf"
  by (cases y) (auto simp: f_le_def)

lemma is_nan_simps [simp]: "is_nan NaN" "\<not> is_nan (Fin a)" "\<not> is_nan PInf" "\<not> is_nan NInf"
  by (simp_all add: is_nan_def)

lemma f_min_le: "x \<noteq> NaN \<Longrightarrow> y \<noteq> NaN \<Longrightarrow> f_le (f_min x y) x \<and> f_le (f_min x y) y"
  by (cases x; cases y) (auto simp: f_min_def f_le_def)

lemma f_min_cases: "f_min x y = x \<or> f_min x y = y"
  by (simp add: f_min_def)

lemma f_min_assoc_finite: "f_min (f_min (Fin a) (Fin b)) (Fin c) = f_min (Fin a) (f_min (Fin b) (Fin c))"
  by (simp add: f_min_def)

lemma f_max_nonneg: "x \<noteq> NaN \<Longrightarrow> f_le (Fin 0) (f_max x (Fin 0))"
  by (cases x) (auto simp: f_max_def f_le_def)

lemma f_sub_Fin [simp]: "f_sub (Fin a) (Fin b) = Fin (a - b)"
  by (simp add: f_sub_def)

lemma f_add_finite: "is_finite x \<Longrightarrow> is_finite y \<Longrightarrow> is_finite (f_add x y)"
  by (cases x; cases y) auto

lemma is_finite_iff: "is_finite x \<longleftrightarrow> (\<exists>a. x = Fin a)"
  by (cases x) auto

lemma f_sub_NaN: "is_finite x \<Longrightarrow> f_sub x y = NaN \<longleftrightarrow> y = NaN"
  by (cases x; cases y) (auto simp: f_sub_def)

end
