(* ===== verification/PyNumber.thy ===== *)
theory PyNumber
  imports PyString PyFloat
begin

text \<open>
  How Python spells its numbers and reads them back: \<open>str(int)\<close>, \<open>int(str)\<close> and \<open>float(str)\<close>,
  with the underscores, signs and white space they take, and \<open>int(float)\<close>. A decimal is read as
  the exact rational it spells; one past the largest double is the infinity Python reads it as.
\<close>

section \<open>Digits\<close>

definition is_digit :: "char \<Rightarrow> bool" where
  "is_digit c \<longleftrightarrow> 48 \<le> (of_char c :: nat) \<and> (of_char c :: nat) \<le> 57"

definition digit_val :: "char \<Rightarrow> nat" where
  "digit_val c = of_char c - 48"

definition digit_char :: "nat \<Rightarrow> char" where
  "digit_char n = char_of (48 + n)"

definition nat_of_digits :: "string \<Rightarrow> nat" where
  "nat_of_digits ds = foldl (\<lambda>n c. 10 * n + digit_val c) 0 ds"

fun show_nat :: "nat \<Rightarrow> string" where
  "show_nat n = (if n < 10 then [digit_char n] else show_nat (n div 10) @ [digit_char (n mod 10)])"

declare show_nat.simps [simp del]

definition show_int :: "int \<Rightarrow> string" where
  "show_int i = (if i < 0 then CHR ''-'' # show_nat (nat (- i)) else show_nat (nat i))"

lemma of_char_digit [simp]: "n < 10 \<Longrightarrow> (of_char (digit_char n) :: nat) = 48 + n"
  by (simp add: digit_char_def)

lemma is_digit_digit_char [simp]: "n < 10 \<Longrightarrow> is_digit (digit_char n)"
  by (simp add: is_digit_def)

lemma digit_val_digit_char [simp]: "n < 10 \<Longrightarrow> digit_val (digit_char n) = n"
  by (simp add: digit_val_def)

lemma nat_of_digits_Nil [simp]: "nat_of_digits [] = 0"
  by (simp add: nat_of_digits_def)

lemma nat_of_digits_snoc [simp]:
  "nat_of_digits (ds @ [c]) = 10 * nat_of_digits ds + digit_val c"
  by (simp add: nat_of_digits_def)

lemma show_nat_digits: "\<forall>c\<in>set (show_nat n). is_digit c"
proof (induction n rule: show_nat.induct)
  case (1 n)
  then show ?case by (subst show_nat.simps) auto
qed

lemma show_nat_not_Nil [simp]: "show_nat n \<noteq> []"
  by (subst show_nat.simps) simp

lemma nat_of_digits_show_nat [simp]: "nat_of_digits (show_nat n) = n"
proof (induction n rule: show_nat.induct)
  case (1 n)
  show ?case
  proof (cases "n < 10")
    case True
    then show ?thesis by (subst show_nat.simps) (simp add: nat_of_digits_def)
  next
    case False
    with 1 show ?thesis by (subst show_nat.simps) simp
  qed
qed

text \<open>A number of more than one digit does not begin with a zero.\<close>

lemma hd_show_nat_pos: "0 < n \<Longrightarrow> hd (show_nat n) \<noteq> CHR ''0''"
proof (induction n rule: show_nat.induct)
  case (1 n)
  show ?case
  proof (cases "n < 10")
    case True
    with 1 have "(of_char (digit_char n) :: nat) \<noteq> 48" by simp
    then have "digit_char n \<noteq> CHR ''0''" by auto
    with True show ?thesis by (subst show_nat.simps) simp
  next
    case False
    with 1 show ?thesis by (subst show_nat.simps) simp
  qed
qed

lemma show_nat_0: "show_nat 0 = ''0''"
  by code_simp

section \<open>Reading\<close>

text \<open>The digits a string begins with, single underscores between them left out.\<close>

fun digit_run :: "string \<Rightarrow> string \<times> string" where
  "digit_run [] = ([], [])"
| "digit_run (c # s) =
     (if is_digit c
      then (case s of
              u # d # s' \<Rightarrow>
                if u = CHR ''_'' \<and> is_digit d
                then (let (ds, r) = digit_run (d # s') in (c # ds, r))
                else (let (ds, r) = digit_run s in (c # ds, r))
            | _ \<Rightarrow> (let (ds, r) = digit_run s in (c # ds, r)))
      else ([], c # s))"

fun read_sign :: "string \<Rightarrow> bool \<times> string" where
  "read_sign [] = (False, [])"
| "read_sign (c # s) = (if c = CHR ''-'' then (True, s) else if c = CHR ''+'' then (False, s) else (False, c # s))"

text \<open>\<open>int(s)\<close>, \<open>None\<close> for the \<open>ValueError\<close>: more than 4300 digits is one too.\<close>

definition py_int_of :: "string \<Rightarrow> int option" where
  "py_int_of s =
     (case read_sign (py_strip s) of (neg, t) \<Rightarrow>
        (case digit_run t of (ds, r) \<Rightarrow>
           if ds = [] \<or> r \<noteq> [] \<or> 4300 < length ds then None
           else Some (if neg then - int (nat_of_digits ds) else int (nat_of_digits ds))))"

text \<open>Past this in magnitude a value is no double: it rounds to an infinity.\<close>

definition double_max :: rat where
  "double_max = 2 ^ 1024 - 2 ^ 970"

definition to_double :: "rat \<Rightarrow> pyfloat" where
  "to_double r = (if double_max \<le> r then PInf else if r \<le> - double_max then NInf else Fin r)"

definition scale10 :: "rat \<Rightarrow> int \<Rightarrow> rat" where
  "scale10 r e = (if 0 \<le> e then r * 10 ^ nat e else r / 10 ^ nat (- e))"

text \<open>The exponent after an \<open>e\<close>, and what is left; no \<open>e\<close> is the exponent 0.\<close>

definition read_exponent :: "string \<Rightarrow> (int \<times> string) option" where
  "read_exponent s =
     (case s of
        c # t \<Rightarrow>
          if c = CHR ''e'' \<or> c = CHR ''E''
          then (case read_sign t of (neg, u) \<Rightarrow>
                 (case digit_run u of (ds, r) \<Rightarrow>
                    if ds = [] then None
                    else Some (if neg then - int (nat_of_digits ds) else int (nat_of_digits ds), r)))
          else Some (0, s)
      | [] \<Rightarrow> Some (0, []))"

text \<open>An unsigned decimal: whole digits, a point and more digits, one of the two at least.\<close>

definition read_decimal :: "string \<Rightarrow> rat option" where
  "read_decimal s =
     (case digit_run s of (whole, r) \<Rightarrow>
       (case (if r \<noteq> [] \<and> hd r = CHR ''.'' then digit_run (tl r) else ([], r)) of (part, r') \<Rightarrow>
          if whole = [] \<and> part = [] then None
          else case read_exponent r' of
                 Some (e, []) \<Rightarrow>
                   Some (scale10 (of_nat (nat_of_digits (whole @ part))) (e - int (length part)))
               | _ \<Rightarrow> None))"

text \<open>\<open>float(s)\<close>, \<open>None\<close> for the \<open>ValueError\<close>.\<close>

definition py_float_of :: "string \<Rightarrow> pyfloat option" where
  "py_float_of s =
     (case read_sign (py_strip s) of (neg, t) \<Rightarrow>
        (let word = py_lower t in
         if word = ''inf'' \<or> word = ''infinity'' then Some (if neg then NInf else PInf)
         else if word = ''nan'' then Some NaN
         else map_option (\<lambda>r. to_double (if neg then - r else r)) (read_decimal t)))"

text \<open>\<open>int(x)\<close> of a float: towards zero, \<open>None\<close> for the error an infinity or NaN raises.\<close>

fun int_of_float :: "pyfloat \<Rightarrow> int option" where
  "int_of_float (Fin r) = Some (if 0 \<le> r then \<lfloor>r\<rfloor> else \<lceil>r\<rceil>)"
| "int_of_float x = None"

text \<open>\<open>float(n)\<close> of an integer, \<open>None\<close> for the \<open>OverflowError\<close>.\<close>

definition float_of_int :: "int \<Rightarrow> pyfloat option" where
  "float_of_int n = (if \<bar>of_int n\<bar> < double_max then Some (Fin (of_int n)) else None)"

lemma digit_run_all:
  "\<forall>c\<in>set ds. is_digit c \<Longrightarrow> r = [] \<or> (\<not> is_digit (hd r) \<and> hd r \<noteq> CHR ''_'') \<Longrightarrow>
   digit_run (ds @ r) = (ds, r)"
proof (induction ds)
  case Nil
  then show ?case by (cases r) auto
next
  case (Cons c ds)
  have u: "\<not> is_digit CHR ''_''" by (simp add: is_digit_def)
  show ?case
  proof (cases "ds @ r")
    case Nil
    with Cons show ?thesis by simp
  next
    case (Cons x xs)
    have "x \<noteq> CHR ''_''"
      using Cons Cons.prems u by (cases ds) auto
    with Cons.IH Cons.prems Cons show ?thesis
      by (cases xs) (auto split: prod.splits)
  qed
qed

lemma read_sign_digit: "is_digit c \<Longrightarrow> read_sign (c # s) = (False, c # s)"
  by (auto simp: is_digit_def)

end
