(* ===== verification/PyValue.thy ===== *)
theory PyValue
  imports PyNumber
begin

text \<open>
  Plain data: what \<open>json.loads\<close> and \<open>yaml.safe_load\<close> give back and the program looks through.
  A float carries the text it is spelled with beside its value. A mapping keeps its order and
  is keyed by strings.
\<close>

datatype pyval =
    VNone
  | VBool bool
  | VInt int
  | VFloat pyfloat string
  | VStr string
  | VList "pyval list"
  | VDict "(string \<times> pyval) list"

text \<open>Whether \<open>x or y\<close> is \<open>x\<close>.\<close>

fun truthy :: "pyval \<Rightarrow> bool" where
  "truthy VNone = False"
| "truthy (VBool b) = b"
| "truthy (VInt i) = (i \<noteq> 0)"
| "truthy (VFloat x t) = (x \<noteq> Fin 0)"
| "truthy (VStr s) = (s \<noteq> [])"
| "truthy (VList xs) = (xs \<noteq> [])"
| "truthy (VDict m) = (m \<noteq> [])"

definition or_else :: "pyval \<Rightarrow> pyval \<Rightarrow> pyval" where
  "or_else v w = (if truthy v then v else w)"

text \<open>\<open>m.get(k)\<close>, \<open>VNone\<close> for a key it has not.\<close>

definition get_or_none :: "(string \<times> pyval) list \<Rightarrow> string \<Rightarrow> pyval" where
  "get_or_none m k = (case dict_get m k of None \<Rightarrow> VNone | Some v \<Rightarrow> v)"

section \<open>\<open>str\<close> and \<open>repr\<close>\<close>

definition hex_digit :: "nat \<Rightarrow> char" where
  "hex_digit n = (if n < 10 then char_of (48 + n) else char_of (87 + n))"

definition is_printable :: "char \<Rightarrow> bool" where
  "is_printable c \<longleftrightarrow>
     (let n = (of_char c :: nat) in (32 \<le> n \<and> n < 127) \<or> (160 < n \<and> n \<noteq> 173))"

definition repr_char :: "char \<Rightarrow> char \<Rightarrow> string" where
  "repr_char q c =
     (let n = (of_char c :: nat) in
      if n = 92 \<or> c = q then [char_of (92::nat), c]
      else if n = 9 then [char_of (92::nat), CHR ''t'']
      else if n = 10 then [char_of (92::nat), CHR ''n'']
      else if n = 13 then [char_of (92::nat), CHR ''r'']
      else if is_printable c then [c]
      else [char_of (92::nat), CHR ''x'', hex_digit (n div 16), hex_digit (n mod 16)])"

definition py_repr_str :: "string \<Rightarrow> string" where
  "py_repr_str s =
     (let q = (if char_of (39::nat) \<in> set s \<and> CHR 0x22 \<notin> set s then CHR 0x22 else char_of (39::nat))
      in q # concat (map (repr_char q) s) @ [q])"

fun py_repr :: "pyval \<Rightarrow> string" where
  "py_repr VNone = ''None''"
| "py_repr (VBool b) = (if b then ''True'' else ''False'')"
| "py_repr (VInt i) = show_int i"
| "py_repr (VFloat x t) = t"
| "py_repr (VStr s) = py_repr_str s"
| "py_repr (VList xs) = ''['' @ py_join '', '' (map py_repr xs) @ '']''"
| "py_repr (VDict m) =
     ''{'' @ py_join '', '' (map (\<lambda>(k, v). py_repr_str k @ '': '' @ py_repr v) m) @ ''}''"

definition py_str :: "pyval \<Rightarrow> string" where
  "py_str v = (case v of VStr s \<Rightarrow> s | _ \<Rightarrow> py_repr v)"

lemma py_str_VStr [simp]: "py_str (VStr s) = s"
  by (simp add: py_str_def)

section \<open>\<open>int\<close> and \<open>float\<close>\<close>

text \<open>\<open>int(v)\<close> and \<open>float(v)\<close>, \<open>None\<close> for the \<open>TypeError\<close>, \<open>ValueError\<close> or \<open>OverflowError\<close>.\<close>

fun py_int :: "pyval \<Rightarrow> int option" where
  "py_int (VBool b) = Some (if b then 1 else 0)"
| "py_int (VInt i) = Some i"
| "py_int (VFloat x t) = int_of_float x"
| "py_int (VStr s) = py_int_of s"
| "py_int v = None"

fun py_float :: "pyval \<Rightarrow> pyfloat option" where
  "py_float (VBool b) = Some (Fin (if b then 1 else 0))"
| "py_float (VInt i) = float_of_int i"
| "py_float (VFloat x t) = Some x"
| "py_float (VStr s) = py_float_of s"
| "py_float v = None"

lemma get_or_none_put [simp]:
  "get_or_none (dict_put k v m) k' = (if k' = k then v else get_or_none m k')"
  by (simp add: get_or_none_def)

end
