(* ===== verification/Settings.thy ===== *)
theory Settings
  imports PyValue
begin

text \<open>
  \<open>hmz.coganchor.settings\<close>: the one settings file. Its state is what is on the disk at its path;
  \<open>changes\<close> reads it again, applies one change and puts the whole back, under the lock every
  writer takes -- so one \<open>changes\<close> is one step of the store, and what a writer read before it is
  not what it writes back. The lock's patience (a writer stopped for half a minute is not waited
  for) is not modelled.
\<close>

type_synonym mapping = "(string \<times> pyval) list"

datatype on_disk = Missing | Unreadable | NotYaml | Yaml pyval

datatype settings_error = CannotBeRead

definition reading :: "on_disk \<Rightarrow> mapping option" where
  "reading disk =
     (case disk of
        Missing \<Rightarrow> Some []
      | Unreadable \<Rightarrow> None
      | NotYaml \<Rightarrow> None
      | Yaml held \<Rightarrow> (case held of VNone \<Rightarrow> Some [] | VDict m \<Rightarrow> Some m | _ \<Rightarrow> None))"

definition read_settings :: "on_disk \<Rightarrow> mapping" where
  "read_settings disk = (case reading disk of None \<Rightarrow> [] | Some held \<Rightarrow> held)"

definition changes :: "(mapping \<Rightarrow> mapping) \<Rightarrow> on_disk \<Rightarrow> settings_error + on_disk" where
  "changes change disk =
     (case reading disk of
        None \<Rightarrow> Inl CannotBeRead
      | Some held \<Rightarrow> Inr (Yaml (VDict (change held))))"

section \<open>What a change keeps\<close>

lemma reading_Yaml_dict [simp]: "reading (Yaml (VDict m)) = Some m"
  by (simp add: reading_def)

lemma read_settings_Yaml_dict [simp]: "read_settings (Yaml (VDict m)) = m"
  by (simp add: read_settings_def)

lemma changes_Inr_iff:
  "changes f disk = Inr disk' \<longleftrightarrow> (\<exists>held. reading disk = Some held \<and> disk' = Yaml (VDict (f held)))"
  by (auto simp: changes_def split: option.splits)

lemma changes_reads: "changes f disk = Inr disk' \<Longrightarrow> read_settings disk' = f (read_settings disk)"
  by (auto simp: changes_Inr_iff read_settings_def)

text \<open>A change that only writes the part it is about leaves every other part as it was.\<close>

definition writes_only :: "string \<Rightarrow> (mapping \<Rightarrow> mapping) \<Rightarrow> bool" where
  "writes_only part f \<longleftrightarrow> (\<forall>m k. k \<noteq> part \<longrightarrow> get_or_none (f m) k = get_or_none m k)"

lemma writes_only_put: "writes_only part (\<lambda>m. dict_put part (g m) m)"
  by (simp add: writes_only_def)

lemma changes_other_part:
  "changes f disk = Inr disk' \<Longrightarrow> writes_only part f \<Longrightarrow> k \<noteq> part \<Longrightarrow>
   get_or_none (read_settings disk') k = get_or_none (read_settings disk) k"
  by (simp add: changes_reads writes_only_def)


section \<open>A part of the file and who writes it\<close>

text \<open>
  A writer of one part: whatever it changes, it leaves every other part of the mapping as it was. A part
  that is itself a mapping under keys says more: what stands under a key after a change is what the change
  makes of what stood there where it is that key's, and what stood there where it is another's.
\<close>

locale settings_part =
  fixes part :: string and change :: "'c \<Rightarrow> mapping \<Rightarrow> mapping"
  assumes only_its_part: "writes_only part (change c)"
begin

lemma change_keeps: "k \<noteq> part \<Longrightarrow> get_or_none (change c m) k = get_or_none m k"
  using only_its_part by (simp add: writes_only_def)

lemma commit_keeps:
  "changes (change c) disk = Inr disk' \<Longrightarrow> k \<noteq> part \<Longrightarrow>
   get_or_none (read_settings disk') k = get_or_none (read_settings disk) k"
  by (rule changes_other_part [OF _ only_its_part])

lemma all_keep: "k \<noteq> part \<Longrightarrow> get_or_none (fold change cs m) k = get_or_none m k"
  by (induction cs arbitrary: m) (auto simp: change_keeps)

end

locale keyed_part = settings_part part change
  for part :: string and change :: "'c \<Rightarrow> mapping \<Rightarrow> mapping" +
  fixes entries_ok :: "mapping \<Rightarrow> bool" and under :: "mapping \<Rightarrow> 'k \<Rightarrow> 'v option"
    and key_of :: "'c \<Rightarrow> 'k" and becomes :: "'c \<Rightarrow> 'v option \<Rightarrow> 'v option"
  assumes part_decides: "get_or_none m part = get_or_none m' part \<Longrightarrow> under m = under m' \<and> entries_ok m = entries_ok m'"
    and change_ok: "entries_ok m \<Longrightarrow> entries_ok (change c m)"
    and change_under: "entries_ok m \<Longrightarrow> under (change c m) k = (if k = key_of c then becomes c (under m k) else under m k)"
begin

text \<open>Its own writes and those of other parts, in any order.\<close>

definition written_by :: "'c + (mapping \<Rightarrow> mapping) \<Rightarrow> mapping \<Rightarrow> mapping" where
  "written_by w m = (case w of Inl c \<Rightarrow> change c m | Inr f \<Rightarrow> f m)"

definition elsewhere :: "'c + (mapping \<Rightarrow> mapping) \<Rightarrow> bool" where
  "elsewhere w = (case w of Inl c \<Rightarrow> True | Inr f \<Rightarrow> \<exists>p. p \<noteq> part \<and> writes_only p f)"

definition own_writes :: "'k \<Rightarrow> ('c + (mapping \<Rightarrow> mapping)) list \<Rightarrow> 'c list" where
  "own_writes k ws = concat (map (\<lambda>w. case w of Inl c \<Rightarrow> (if key_of c = k then [c] else []) | Inr f \<Rightarrow> []) ws)"

lemma other_writes: "p \<noteq> part \<Longrightarrow> writes_only p f \<Longrightarrow> under (f m) = under m \<and> entries_ok (f m) = entries_ok m"
  by (rule part_decides) (simp add: writes_only_def)

lemma interleaved:
  "entries_ok m \<Longrightarrow> list_all elsewhere ws \<Longrightarrow>
   under (fold written_by ws m) k = fold becomes (own_writes k ws) (under m k) \<and> entries_ok (fold written_by ws m)"
proof (induction ws arbitrary: m)
  case (Cons w ws)
  show ?case
  proof (cases w)
    case (Inl c)
    then show ?thesis using Cons.IH [of "change c m"] Cons.prems
      by (simp add: written_by_def own_writes_def change_ok change_under)
  next
    case (Inr f)
    then obtain p where "p \<noteq> part" "writes_only p f" using Cons.prems by (auto simp: elsewhere_def)
    from other_writes [OF this, of m] show ?thesis using Inr Cons.IH [of "f m"] Cons.prems
      by (simp add: written_by_def own_writes_def)
  qed
qed (simp add: own_writes_def)

end

end
