(* ===== verification/Backends.thy ===== *)
theory Backends
  imports Settings
begin

text \<open>
  \<open>hmz.coganchor.spelling\<close> and the part of \<open>hmz.coganchor.backends\<close> that names a backend: how an
  agent is written on a command line and read back, which CLI a name stands for, the CLIs
  somebody added in the settings, and which kind of failure a stopped turn was.

  Of each row of the table of CLIs only its name and its aliases are kept; what the operations
  below need of a row besides -- its ladder of efforts, its failure signatures, the line that
  installs it -- is an argument of theirs, and so is \<open>re.search\<close>. The cache of the settings file's
  last reading is not modelled: the file is read each time.
\<close>

section \<open>Where a model ends and its effort begins\<close>

definition is_letter :: "char \<Rightarrow> bool" where
  "is_letter c \<longleftrightarrow>
     (let n = (of_char c :: nat) in (65 \<le> n \<and> n \<le> 90) \<or> (97 \<le> n \<and> n \<le> 122))"

definition is_joint :: "char \<Rightarrow> bool" where
  "is_joint c \<longleftrightarrow> c = CHR ''-'' \<or> c = CHR ''_'' \<or> c = CHR '' ''"

text \<open>\<open>_EFFORT.fullmatch\<close>: words of letters, one joint between each two; the flag says whether
  the character before was a letter.\<close>

fun effort_run :: "bool \<Rightarrow> string \<Rightarrow> bool" where
  "effort_run b [] = b"
| "effort_run b (c # s) =
     (if is_letter c then effort_run True s
      else if is_joint c \<and> b then effort_run False s
      else False)"

definition spelled_effort :: "string \<Rightarrow> bool" where
  "spelled_effort s = effort_run False s"

definition parted :: "string \<Rightarrow> string \<times> string" where
  "parted said =
     (case py_rpartition CHR '':'' said of (model, colon, effort) \<Rightarrow>
        if colon \<and> (py_strip effort = [] \<or> spelled_effort (py_strip effort))
        then (model, effort) else (said, []))"

section \<open>The backends there are\<close>

definition AUTO :: string where
  "AUTO = ''auto''"

definition written :: "string \<Rightarrow> string" where
  "written effort = (if effort = [] then AUTO else effort)"

definition permitted :: "string \<Rightarrow> string" where
  "permitted permission = (if permission = [] then ''as configured'' else permission)"

definition SWARM :: string where
  "SWARM = ''swarm''"

definition UNSAID :: string where
  "UNSAID = ''as configured''"

record profile =
  pname :: string
  aliases :: "string list"

definition takes :: "string list \<Rightarrow> string list \<Rightarrow> bool \<Rightarrow> string \<Rightarrow> bool" where
  "takes efforts beyond swarms effort =
     (let rung = (if swarms then remove_prefix SWARM effort else effort) in
      if rung = [] \<or> rung = AUTO then True
      else if efforts = [] \<or> efforts = [UNSAID] then True
      else rung \<in> set efforts \<or> rung \<in> set beyond)"

definition PROFILES :: "profile list" where
  "PROFILES =
    [\<lparr>pname = ''claude'', aliases = [''claude'', ''claude-code'']\<rparr>,
     \<lparr>pname = ''agy'', aliases = [''agy'', ''antigravity'']\<rparr>,
     \<lparr>pname = ''codex'', aliases = [''codex'']\<rparr>,
     \<lparr>pname = ''dsh'', aliases = [''dsh'', ''deepseek-harness'']\<rparr>,
     \<lparr>pname = ''grok'', aliases = [''grok'', ''grok-build'', ''grokbuild'']\<rparr>,
     \<lparr>pname = ''kimi'', aliases = [''kimi'', ''kimi-code'']\<rparr>,
     \<lparr>pname = ''pi'', aliases = [''pi'']\<rparr>,
     \<lparr>pname = ''omp'', aliases = [''omp'', ''oh-my-pi'']\<rparr>,
     \<lparr>pname = ''qwen'', aliases = [''qwen'', ''qwen-code'']\<rparr>,
     \<lparr>pname = ''opencode'', aliases = [''opencode'']\<rparr>,
     \<lparr>pname = ''mimo'', aliases = [''mimo'', ''mimocode'', ''mimo-code'']\<rparr>,
     \<lparr>pname = ''cursor-agent'', aliases = [''cursor-agent'', ''cursor-cli'']\<rparr>,
     \<lparr>pname = ''mcode'', aliases = [''mcode'', ''minimax'', ''minimax-code'']\<rparr>,
     \<lparr>pname = ''litellm'', aliases = [''litellm'']\<rparr>]"

definition SPOKEN :: string where
  "SPOKEN = ''clis''"

fun strings_of :: "pyval \<Rightarrow> string list" where
  "strings_of (VList xs) = filter (\<lambda>s. py_strip s \<noteq> []) (map py_str xs)"
| "strings_of v = []"

text \<open>The command one entry of the settings gives: the entry itself, or a mapping's.\<close>

definition command_of :: "pyval \<Rightarrow> string list option" where
  "command_of entry =
     (case (case entry of VDict said \<Rightarrow> get_or_none said ''command'' | _ \<Rightarrow> entry) of
        VList argv \<Rightarrow> (if argv = [] then None else Some (map py_str argv))
      | _ \<Rightarrow> None)"

definition speaking :: "on_disk \<Rightarrow> (string \<times> string list) list" where
  "speaking disk =
     (case get_or_none (read_settings disk) SPOKEN of
        VDict held \<Rightarrow>
          concat (map (\<lambda>(name, entry).
                         case command_of entry of None \<Rightarrow> [] | Some given \<Rightarrow> [(name, given)]) held)
      | _ \<Rightarrow> [])"

definition speaks :: "string \<Rightarrow> profile" where
  "speaks name = \<lparr>pname = name, aliases = [name]\<rparr>"

definition profiles :: "on_disk \<Rightarrow> profile list" where
  "profiles disk = PROFILES @ map (\<lambda>(name, _). speaks name) (speaking disk)"

definition named :: "on_disk \<Rightarrow> string \<Rightarrow> profile option" where
  "named disk backend = first_of (\<lambda>one. backend \<in> set (aliases one)) (profiles disk)"

definition installing :: "(profile \<Rightarrow> string) \<Rightarrow> on_disk \<Rightarrow> string \<Rightarrow> string" where
  "installing installs disk backend =
     (case named disk backend of
        Some p \<Rightarrow>
          if installs p \<noteq> [] then installs p
          else ''install '' @ pname p @ '' and put it on PATH''
      | None \<Rightarrow> ''install '' @ backend @ '' and put it on PATH'')"

section \<open>The CLIs somebody added\<close>

datatype remember_error = NoCommand | AlreadyDriven string | CalledOtherwise string string

text \<open>\<open>PurePath(p).name\<close>: the last piece that is a name, \<open>..\<close> among them.\<close>

definition pure_name :: "string \<Rightarrow> string" where
  "pure_name p =
     (case rev (filter (\<lambda>w. w \<noteq> [] \<and> w \<noteq> ''.'') (py_split CHR ''/'' p)) of
        [] \<Rightarrow> [] | w # _ \<Rightarrow> w)"

definition said_of :: "pyval \<Rightarrow> mapping" where
  "said_of v = (case v of VDict m \<Rightarrow> m | _ \<Rightarrow> [])"

text \<open>The change \<open>_write\<close> makes, and whether the entry was there.\<close>

definition write_change :: "string \<Rightarrow> string list option \<Rightarrow> mapping \<Rightarrow> mapping" where
  "write_change name argv settled =
     (let entries = said_of (get_or_none settled SPOKEN);
          said = said_of (get_or_none entries name);
          hosts = strings_of (get_or_none said ''hosts'');
          state = strings_of (get_or_none said ''state'');
          left = dict_del name entries;
          now = (case argv of
                   None \<Rightarrow> left
                 | Some words \<Rightarrow>
                     dict_put name
                       (if hosts \<noteq> [] \<or> state \<noteq> []
                        then VDict [(''command'', VList (map VStr words)),
                                    (''hosts'', VList (map VStr hosts)),
                                    (''state'', VList (map VStr state))]
                        else VList (map VStr words)) left)
      in dict_put SPOKEN (VDict now) settled)"

definition write_cli ::
    "string \<Rightarrow> string list option \<Rightarrow> on_disk \<Rightarrow> settings_error + (bool \<times> on_disk)" where
  "write_cli name argv disk =
     (case changes (write_change name argv) disk of
        Inl e \<Rightarrow> Inl e
      | Inr disk' \<Rightarrow>
          Inr (name \<in> set (dict_keys (said_of (get_or_none (read_settings disk) SPOKEN))), disk'))"

definition remember ::
    "string \<Rightarrow> string list \<Rightarrow> on_disk \<Rightarrow> (remember_error + settings_error) + (string \<times> on_disk)" where
  "remember name command disk =
     (let named_as = py_strip name;
          argv = filter (\<lambda>one. py_strip one \<noteq> []) command in
      case argv of
        [] \<Rightarrow> Inl (Inl NoCommand)
      | first # _ \<Rightarrow>
          (let runs = pure_name first in
           if \<exists>one\<in>set PROFILES. runs \<in> set (aliases one) then Inl (Inl (AlreadyDriven runs))
           else
             (let named_as = (if named_as = [] then runs else named_as) in
              if named_as \<noteq> runs then Inl (Inl (CalledOtherwise first named_as))
              else case write_cli named_as (Some argv) disk of
                     Inl e \<Rightarrow> Inl (Inr e)
                   | Inr (_, disk') \<Rightarrow> Inr (named_as, disk'))))"

definition forget :: "string \<Rightarrow> on_disk \<Rightarrow> settings_error + (bool \<times> on_disk)" where
  "forget name disk =
     (if name \<notin> set (dict_keys (speaking disk)) then Inr (False, disk)
      else write_cli name None disk)"

section \<open>Reading one agent\<close>

definition is_ident_start :: "char \<Rightarrow> bool" where
  "is_ident_start c \<longleftrightarrow>
     (let n = (of_char c :: nat) in
      is_letter c \<or> n = 95 \<or> n = 170 \<or> n = 181 \<or> n = 186 \<or>
      192 \<le> n \<and> n \<le> 214 \<or> 216 \<le> n \<and> n \<le> 246 \<or> 248 \<le> n)"

definition is_identifier :: "string \<Rightarrow> bool" where
  "is_identifier s \<longleftrightarrow>
     s \<noteq> [] \<and> is_ident_start (hd s) \<and>
     (\<forall>c\<in>set s. is_ident_start c \<or> is_digit c \<or> (of_char c :: nat) = 183)"

datatype read_error = NotAPlace string | SeveralAgents | NoAccount | NotAnAgent

definition read_agent ::
    "on_disk \<Rightarrow> string \<Rightarrow> read_error + (string \<times> profile \<times> string \<times> string \<times> string)" where
  "read_agent disk spec =
     (case py_partition CHR ''='' spec of (before, filled, rest) \<Rightarrow>
      let name = (if filled then py_strip before else []);
          body = (if filled then rest else spec) in
      if filled \<and> \<not> is_identifier name then Inl (NotAPlace name)
      else if CHR '','' \<in> set body then Inl SeveralAgents
      else
        (case py_partition CHR ''/'' body of (backend, _, said) \<Rightarrow>
         case parted said of (model, effort) \<Rightarrow>
         case py_partition CHR ''@'' backend of (cli, asked, provider) \<Rightarrow>
           if asked \<and> py_strip provider = [] then Inl NoAccount
           else case named disk (py_strip cli) of
                  None \<Rightarrow> Inl NotAnAgent
                | Some profile \<Rightarrow>
                    if py_strip model = [] then Inl NotAnAgent
                    else
                      (let rung = py_strip effort in
                       Inr (name, profile, py_strip model, (if rung = AUTO then [] else rung),
                            py_strip provider))))"

section \<open>What a stopped turn failed with\<close>

text \<open>
  \<open>searched says held\<close> is \<open>re.search(says, held, re.IGNORECASE)\<close> answering; \<open>own\<close> the signatures of
  the backend's profile, none for a name nothing answers to; \<open>shared\<close> those every backend has.
\<close>

definition keep_end :: "string \<Rightarrow> string" where
  "keep_end s = drop (length s - 4096) s"

definition sign_in ::
    "(string \<Rightarrow> string \<Rightarrow> bool) \<Rightarrow> (string \<times> string) list \<Rightarrow> string \<Rightarrow> string option" where
  "sign_in searched signs held =
     (if held = [] then None
      else case first_of (\<lambda>(fault, says). searched says held) signs of
             None \<Rightarrow> None
           | Some (fault, _) \<Rightarrow> if fault = [] then None else Some fault)"

definition trouble ::
    "(string \<Rightarrow> string \<Rightarrow> bool) \<Rightarrow> (profile \<Rightarrow> (string \<times> string) list) \<Rightarrow> (string \<times> string) list \<Rightarrow>
     on_disk \<Rightarrow> string \<Rightarrow> string list \<Rightarrow> int \<Rightarrow> string \<Rightarrow> string" where
  "trouble searched own shared disk backend said status journal =
     (if status = 126 \<or> status = 127 then ''missing''
      else if status < 0 \<or> 128 < status \<and> status \<le> 128 + 64 then ''killed''
      else
        (let mine = (case named disk backend of None \<Rightarrow> [] | Some p \<Rightarrow> own p);
             streams = map keep_end (said @ [journal]) in
         case first_some (\<lambda>signs. first_some (sign_in searched signs) streams) [mine, shared] of
           None \<Rightarrow> [] | Some fault \<Rightarrow> fault))"

section \<open>Spelling an agent\<close>

lemma letter_not_space: "is_letter c \<Longrightarrow> \<not> is_space c"
  by (auto simp: is_letter_def is_space_def Let_def)

lemma letter_not_punct:
  "is_letter c \<Longrightarrow> c \<noteq> CHR '':'' \<and> c \<noteq> CHR '','' \<and> c \<noteq> CHR ''='' \<and> c \<noteq> CHR ''/'' \<and> c \<noteq> CHR ''@''"
  by (auto simp: is_letter_def Let_def)

lemma effort_run_chars: "effort_run b s \<Longrightarrow> c \<in> set s \<Longrightarrow> is_letter c \<or> is_joint c"
  by (induction b s rule: effort_run.induct) (auto split: if_splits)

lemma effort_run_last: "effort_run b s \<Longrightarrow> s \<noteq> [] \<Longrightarrow> is_letter (last s)"
proof (induction b s rule: effort_run.induct)
  case (1 b)
  then show ?case by simp
next
  case (2 b c s)
  then show ?case by (cases s) (auto split: if_splits)
qed

lemma dropWhile_kept: "s = [] \<or> \<not> p (hd s) \<Longrightarrow> dropWhile p s = s"
  by (cases s) auto

lemma strip_clean:
  "s \<noteq> [] \<Longrightarrow> \<not> is_space (hd s) \<Longrightarrow> \<not> is_space (last s) \<Longrightarrow> py_strip s = s"
  by (simp add: py_strip_def py_lstrip_def py_rstrip_def dropWhile_kept hd_rev)

lemma spelled_effort_strip: "spelled_effort s \<Longrightarrow> py_strip s = s"
proof -
  assume s: "spelled_effort s"
  then have "s \<noteq> []" by (auto simp: spelled_effort_def)
  moreover from s have "is_letter (hd s)"
    by (cases s) (auto simp: spelled_effort_def split: if_splits)
  moreover from s \<open>s \<noteq> []\<close> have "is_letter (last s)"
    by (simp add: spelled_effort_def effort_run_last)
  ultimately show ?thesis by (simp add: strip_clean letter_not_space)
qed

lemma spelled_effort_plain:
  "spelled_effort s \<Longrightarrow> CHR '':'' \<notin> set s \<and> CHR '','' \<notin> set s"
proof -
  assume s: "spelled_effort s"
  have "\<not> is_letter CHR '':''" "\<not> is_joint CHR '':''" "\<not> is_letter CHR '',''" "\<not> is_joint CHR '',''"
    by (simp_all add: is_letter_def is_joint_def)
  with s show ?thesis by (auto simp: spelled_effort_def dest: effort_run_chars)
qed

lemma spelled_effort_AUTO: "spelled_effort AUTO"
  by (simp add: spelled_effort_def AUTO_def is_letter_def)

lemma written_spelled: "e = [] \<or> spelled_effort e \<Longrightarrow> spelled_effort (written e)"
  by (auto simp: written_def spelled_effort_AUTO)

lemma parted_effort: "spelled_effort e \<Longrightarrow> parted (m @ CHR '':'' # e) = (m, e)"
  by (simp add: parted_def py_rpartition_found spelled_effort_plain spelled_effort_strip)

lemma identifier_char:
  "is_identifier s \<Longrightarrow> c \<in> set s \<Longrightarrow> is_ident_start c \<or> is_digit c \<or> (of_char c :: nat) = 183"
  by (auto simp: is_identifier_def)

lemma identifier_plain: "is_identifier s \<Longrightarrow> CHR ''='' \<notin> set s"
  by (auto simp: is_ident_start_def is_letter_def is_digit_def Let_def dest: identifier_char)

lemma ident_char_not_space:
  "is_ident_start c \<or> is_digit c \<or> (of_char c :: nat) = 183 \<Longrightarrow> \<not> is_space c"
  by (auto simp: is_ident_start_def is_letter_def is_digit_def is_space_def Let_def)

lemma identifier_strip: "is_identifier s \<Longrightarrow> py_strip s = s"
proof -
  assume i: "is_identifier s"
  then have "s \<noteq> []" by (simp add: is_identifier_def)
  with i have "\<not> is_space (hd s)" "\<not> is_space (last s)"
    using identifier_char [OF i, of "hd s"] identifier_char [OF i, of "last s"]
    by (simp_all add: ident_char_not_space)
  with \<open>s \<noteq> []\<close> show ?thesis by (rule strip_clean)
qed

text \<open>
  C10 (round trip). An agent written back as \<open>role=CLI[@ACCOUNT]/MODEL:EFFORT\<close>, the absence of an
  effort as \<open>auto\<close>, reads back as the same role, backend, model, effort and account -- whatever
  slashes and colons the model's own name holds.
\<close>

theorem read_agent_written:
  assumes "is_identifier role" and "named disk cli = Some p"
    and "py_strip cli = cli" and "CHR '','' \<notin> set cli" "CHR ''/'' \<notin> set cli" "CHR ''@'' \<notin> set cli"
    and "py_strip account = account" and "CHR '','' \<notin> set account" "CHR ''/'' \<notin> set account"
    and "model \<noteq> []" and "py_strip model = model" and "CHR '','' \<notin> set model"
    and "effort = [] \<or> spelled_effort effort" and "effort \<noteq> AUTO"
  shows "read_agent disk
           (role @ ''='' @ cli @ (if account = [] then [] else CHR ''@'' # account) @ ''/'' @
            model @ '':'' @ written effort) = Inr (role, p, model, effort, account)"
proof -
  let ?who = "cli @ (if account = [] then [] else CHR ''@'' # account)"
  let ?body = "?who @ CHR ''/'' # model @ CHR '':'' # written effort"
  have eff: "spelled_effort (written effort)" using assms(13) by (rule written_spelled)
  have role: "py_partition CHR ''='' (role @ CHR ''='' # ?body) = (role, True, ?body)"
    using identifier_plain [OF assms(1)] by (rule py_partition_found)
  have body: "py_partition CHR ''/'' ?body = (?who, True, model @ CHR '':'' # written effort)"
    by (rule py_partition_found) (use assms(5,9) in auto)
  have who: "py_partition CHR ''@'' ?who = (cli, account \<noteq> [], account)"
    using assms(6) by (auto simp: py_partition_absent py_partition_found)
  have comma: "CHR '','' \<notin> set ?body"
    using assms(4,8,12) spelled_effort_plain [OF eff] by auto
  have said: "parted (model @ CHR '':'' # written effort) = (model, written effort)"
    using eff by (rule parted_effort)
  have rung: "(if py_strip (written effort) = AUTO then [] else py_strip (written effort)) = effort"
    using assms(14) spelled_effort_strip [OF eff] by (auto simp: written_def)
  have "read_agent disk (role @ CHR ''='' # ?body) = Inr (role, p, model, effort, account)"
    unfolding read_agent_def
    by (simp only: role prod.case Let_def if_True identifier_strip [OF assms(1)] assms(1) comma
        body said who assms(2,3,7,10,11) rung simp_thms if_False option.case)
  then show ?thesis by simp
qed

theorem read_agent_written_witness:
  "read_agent Missing ''coder=qwen-code@work/org/qwen3:latest:auto''
     = Inr (''coder'', \<lparr>pname = ''qwen'', aliases = [''qwen'', ''qwen-code'']\<rparr>,
            ''org/qwen3:latest'', [], ''work'')"
proof -
  have n: "named Missing ''qwen-code'' = Some \<lparr>pname = ''qwen'', aliases = [''qwen'', ''qwen-code'']\<rparr>"
    by (simp add: named_def profiles_def PROFILES_def)
  have i: "is_identifier ''coder''"
    by (simp add: is_identifier_def is_ident_start_def is_letter_def)
  have st: "py_strip ''qwen-code'' = ''qwen-code''" "py_strip ''work'' = ''work''"
      "py_strip ''org/qwen3:latest'' = ''org/qwen3:latest''"
    by (simp_all add: py_strip_def py_lstrip_def py_rstrip_def is_space_def)
  show ?thesis
    using read_agent_written [OF i n st(1) _ _ _ st(2) _ _ _ st(3), of "[]"]
    by (simp add: AUTO_def written_def)
qed

section \<open>The names of the CLIs\<close>

text \<open>A name Humanize's own table answers to is that row's, whatever the settings hold.\<close>

lemma first_of_append:
  "first_of p (xs @ ys) = (case first_of p xs of None \<Rightarrow> first_of p ys | Some x \<Rightarrow> Some x)"
  by (induction xs) auto

lemma named_built_in:
  "first_of (\<lambda>one. b \<in> set (aliases one)) PROFILES = Some p \<Longrightarrow> named disk b = Some p"
  by (simp add: named_def profiles_def first_of_append)

lemma named_added:
  assumes "\<forall>one\<in>set PROFILES. b \<notin> set (aliases one)" and "b \<in> set (dict_keys (speaking disk))"
  shows "named disk b = Some (speaks b)"
proof -
  have none: "first_of (\<lambda>one. b \<in> set (aliases one)) PROFILES = None"
    using assms(1) by (simp add: first_of_None_iff)
  have "first_of (\<lambda>one. b \<in> set (aliases one)) (map (\<lambda>(name, _). speaks name) xs) = Some (speaks b)"
    if "b \<in> set (dict_keys xs)" for xs :: "(string \<times> string list) list"
    using that by (induction xs) (auto simp: speaks_def)
  with assms(2) none show ?thesis
    by (simp add: named_def profiles_def first_of_append)
qed

lemma command_of_strings: "argv \<noteq> [] \<Longrightarrow> command_of (VList (map VStr argv)) = Some argv"
  by (simp add: command_of_def o_def)

lemma command_of_declared:
  "argv \<noteq> [] \<Longrightarrow>
   command_of (VDict [(''command'', VList (map VStr argv)), h, s]) = Some argv"
  by (simp add: command_of_def get_or_none_def o_def)

lemma speaking_write:
  assumes "changes (write_change name (Some argv)) disk = Inr disk'" and "argv \<noteq> []"
  shows "name \<in> set (dict_keys (speaking disk'))"
proof -
  let ?old = "said_of (get_or_none (read_settings disk) SPOKEN)"
  let ?was = "said_of (get_or_none ?old name)"
  let ?hosts = "strings_of (get_or_none ?was ''hosts'')"
  let ?state = "strings_of (get_or_none ?was ''state'')"
  define v where "v = (if ?hosts \<noteq> [] \<or> ?state \<noteq> []
      then VDict [(''command'', VList (map VStr argv)), (''hosts'', VList (map VStr ?hosts)),
                  (''state'', VList (map VStr ?state))]
      else VList (map VStr argv))"
  define m where "m = dict_del name ?old"
  have v: "command_of v = Some argv"
    using assms(2) by (simp add: v_def command_of_strings command_of_declared)
  have m: "read_settings disk' = dict_put SPOKEN (VDict (dict_put name v m)) (read_settings disk)"
    using changes_reads [OF assms(1)] by (simp add: write_change_def Let_def v_def m_def)
  have "(name, v) \<in> set (dict_put name v m)"
    by (rule dict_get_in_set) simp
  with m v show ?thesis
    by (force simp: speaking_def)
qed

text \<open>
  A CLI \<open>remember\<close> accepts is, from then on, the backend its name stands for; and
  it never answers to a name Humanize drives a backend by already.
\<close>

theorem remember_names_it:
  assumes "remember name command disk = Inr (called, disk')"
  shows "named disk' called = Some (speaks called) \<and>
         (\<forall>one\<in>set PROFILES. called \<notin> set (aliases one))"
proof -
  obtain first rest where argv: "filter (\<lambda>one. py_strip one \<noteq> []) command = first # rest"
    using assms by (cases "filter (\<lambda>one. py_strip one \<noteq> []) command") (auto simp: remember_def)
  from assms argv have free: "\<forall>one\<in>set PROFILES. called \<notin> set (aliases one)"
    by (auto simp: remember_def Let_def split: if_splits sum.splits)
  from assms argv have "changes (write_change called (Some (first # rest))) disk = Inr disk'"
    by (auto simp: remember_def write_cli_def Let_def split: if_splits sum.splits)
  then have "called \<in> set (dict_keys (speaking disk'))"
    by (rule speaking_write) simp
  with free have "named disk' called = Some (speaks called)" by (rule named_added)
  with free show ?thesis by blast
qed

theorem remember_names_it_witness:
  "(case remember [] [''/opt/my/agent'', ''--acp''] Missing of
      Inr (called, disk') \<Rightarrow> called = ''agent'' \<and> named disk' called = Some (speaks ''agent'')
    | Inl _ \<Rightarrow> False)"
proof -
  let ?m = "dict_put SPOKEN (VDict [(''agent'', VList [VStr ''/opt/my/agent'', VStr ''--acp''])]) []"
  have "remember [] [''/opt/my/agent'', ''--acp''] Missing = Inr (''agent'', Yaml (VDict ?m))"
    by (simp add: remember_def py_strip_def py_lstrip_def py_rstrip_def is_space_def pure_name_def
        PROFILES_def write_cli_def changes_def reading_def write_change_def get_or_none_def
        said_of_def Let_def)
  then show ?thesis using remember_names_it [of "[]"] by simp
qed

end
