(* ===== verification/Clocks.thy ===== *)
theory Clocks
  imports Prelude
begin

text \<open>
  \<open>_Clock\<close> of \<open>hmz.runtime.flowing.engine\<close>: a call's own deadline. A clock acts on the task its call
  runs in by cancelling it; the task counts the cancels asked of it (\<open>Task.cancelling\<close>), and
  anybody else may ask for one besides. Each function below takes the clock with that count, and,
  where the source reads it, whether the call has ended. The callback standing on the loop is
  \<open>Timer\<close> (\<open>call_later\<close> of \<open>expire\<close>), \<open>Soon\<close> (\<open>call_soon\<close> of \<open>_fire\<close>) or none.
\<close>

datatype handle = NoHandle | Timer | Soon

record clock =
  ctask :: nat
  base :: nat
  graceful :: bool
  inflight :: int
  expired :: bool
  fired :: bool
  handle :: handle

type_synonym ticking = "clock \<times> nat"

definition clock_made :: "nat \<Rightarrow> nat \<Rightarrow> bool \<Rightarrow> clock" where
  "clock_made task cancelling grace =
     \<lparr>ctask = task, base = cancelling, graceful = grace, inflight = 0, expired = False,
      fired = False, handle = Timer\<rparr>"

definition fire :: "bool \<Rightarrow> ticking \<Rightarrow> ticking" where
  "fire ended = (\<lambda>(c, n).
     let c = c\<lparr>handle := NoHandle\<rparr> in
     if \<not> ended then (c\<lparr>fired := True\<rparr>, n + 1) else (c, n))"

definition expire :: "bool \<Rightarrow> ticking \<Rightarrow> ticking" where
  "expire ended = (\<lambda>(c, n).
     let c = c\<lparr>handle := NoHandle\<rparr> in
     if ended \<or> expired c then (c, n)
     else
       (let c = c\<lparr>expired := True\<rparr> in
        if \<not> graceful c \<or> inflight c = 0 then fire ended (c, n) else (c, n)))"

definition turned :: "int \<Rightarrow> clock \<Rightarrow> clock" where
  "turned delta c =
     (let c = c\<lparr>inflight := inflight c + delta\<rparr> in
      if expired c \<and> inflight c = 0 \<and> \<not> fired c \<and> handle c = NoHandle
      then c\<lparr>handle := Soon\<rparr> else c)"

text \<open>Whether a cancel leaving the call is the deadline's: \<open>DurationExceeded\<close> in its place.\<close>

definition settle :: "ticking \<Rightarrow> bool \<times> ticking" where
  "settle = (\<lambda>(c, n).
     if \<not> fired c then (False, (c, n))
     else (\<not> (n - 1 > base c), (c\<lparr>fired := False\<rparr>, n - 1)))"

definition stop :: "ticking \<Rightarrow> ticking" where
  "stop = (\<lambda>(c, n).
     let c = c\<lparr>handle := NoHandle\<rparr> in
     if fired c then (c\<lparr>fired := False\<rparr>, n - 1) else (c, n))"

text \<open>A call leaving its function, by a cancel or not: \<open>settle\<close>, then the \<open>finally\<close>'s \<open>stop\<close>.\<close>

definition leaving :: "bool \<Rightarrow> ticking \<Rightarrow> bool \<times> ticking" where
  "leaving cancelled s =
     (let (timed_out, s) = (if cancelled then settle s else (False, s)) in (timed_out, stop s))"

section \<open>A clock as its call goes\<close>

text \<open>
  What may happen, one at a time: the loop runs the callback that stands; a turn under the call
  starts or ends; anybody else asks the task to stop, or takes such an ask back; the call leaves.
  \<open>others\<close> counts what anybody else asked and did not take back; \<open>idle\<close> remembers whether, since
  the deadline came, there was a moment with no turn under way.
\<close>

record watched =
  wclock :: clock
  count :: nat
  others :: nat
  over :: bool
  idle :: bool
  timed_out :: bool

definition watch_of :: "nat \<Rightarrow> nat \<Rightarrow> bool \<Rightarrow> watched" where
  "watch_of task n grace =
     \<lparr>wclock = clock_made task n grace, count = n, others = n, over = False, idle = False,
      timed_out = False\<rparr>"

definition rested :: "watched \<Rightarrow> watched" where
  "rested w = w\<lparr>idle := idle w \<or> (expired (wclock w) \<and> inflight (wclock w) = 0)\<rparr>"

inductive ticks :: "watched \<Rightarrow> watched \<Rightarrow> bool" where
  Deadline: "handle (wclock w) = Timer \<Longrightarrow> expire (over w) (wclock w, count w) = (c, n) \<Longrightarrow>
    ticks w (rested (w\<lparr>wclock := c, count := n\<rparr>))"
| Fires: "handle (wclock w) = Soon \<Longrightarrow> fire (over w) (wclock w, count w) = (c, n) \<Longrightarrow>
    ticks w (w\<lparr>wclock := c, count := n\<rparr>)"
| Turns: "\<not> over w \<Longrightarrow> ticks w (rested (w\<lparr>wclock := turned d (wclock w)\<rparr>))"
| Cancelled: "ticks w (w\<lparr>count := count w + 1, others := others w + 1\<rparr>)"
| Uncancelled: "others w > 0 \<Longrightarrow> ticks w (w\<lparr>count := count w - 1, others := others w - 1\<rparr>)"
| Leaves: "\<not> over w \<Longrightarrow> leaving cancelled (wclock w, count w) = (out, (c, n)) \<Longrightarrow>
    ticks w (w\<lparr>wclock := c, count := n, over := True, timed_out := out\<rparr>)"

inductive_cases ticksE: "ticks w w'"

definition tick_inv :: "nat \<Rightarrow> clock \<Rightarrow> nat \<Rightarrow> nat \<Rightarrow> bool \<Rightarrow> bool \<Rightarrow> bool" where
  "tick_inv n0 c n oth done quiet \<longleftrightarrow>
     base c = n0 \<and>
     n = oth + (if fired c then 1 else 0) \<and>
     (if done then \<not> fired c \<and> handle c = NoHandle
      else if \<not> expired c then \<not> fired c \<and> handle c = Timer
      else if fired c then handle c = NoHandle \<and> (graceful c \<longrightarrow> quiet)
      else graceful c \<and> (handle c = Soon \<and> quiet \<or> handle c = NoHandle \<and> inflight c \<noteq> 0))"

definition clock_inv :: "nat \<Rightarrow> watched \<Rightarrow> bool" where
  "clock_inv n0 w \<longleftrightarrow> tick_inv n0 (wclock w) (count w) (others w) (over w) (idle w)"

lemma clock_inv_start: "clock_inv n0 (watch_of task n0 grace)"
  by (simp add: clock_inv_def tick_inv_def watch_of_def clock_made_def)

lemma tick_inv_expire:
  assumes "tick_inv n0 c n oth done quiet" and "handle c = Timer"
    and "expire done (c, n) = (c', n')"
  shows "tick_inv n0 c' n' oth done (quiet \<or> expired c' \<and> inflight c' = 0)"
proof -
  have h: "\<not> done" "\<not> expired c" "\<not> fired c" "base c = n0" "n = oth"
    using assms(1,2) by (auto simp: tick_inv_def split: if_splits)
  show ?thesis
    using assms(3) h by (cases "graceful c \<and> inflight c \<noteq> 0")
      (simp_all add: expire_def fire_def tick_inv_def Let_def, auto)
qed

lemma tick_inv_fire:
  assumes "tick_inv n0 c n oth done quiet" and "handle c = Soon" and "fire done (c, n) = (c', n')"
  shows "tick_inv n0 c' n' oth done quiet"
proof -
  have h: "\<not> done" "expired c" "graceful c" "\<not> fired c" "base c = n0" "n = oth" "quiet"
    using assms(1,2) by (auto simp: tick_inv_def split: if_splits)
  from h(1) assms(3) have "c' = c\<lparr>handle := NoHandle, fired := True\<rparr>" "n' = n + 1"
    by (simp_all add: fire_def Let_def)
  with h show ?thesis by (simp add: tick_inv_def)
qed

lemma tick_inv_turned:
  assumes "tick_inv n0 c n oth False quiet"
  shows "tick_inv n0 (turned d c) n oth False
           (quiet \<or> expired (turned d c) \<and> inflight (turned d c) = 0)"
proof (cases "expired c \<and> inflight c + d = 0 \<and> \<not> fired c \<and> handle c = NoHandle")
  case True
  then have "turned d c = c\<lparr>inflight := 0, handle := Soon\<rparr>"
    by (simp add: turned_def Let_def)
  with True assms show ?thesis by (simp add: tick_inv_def)
next
  case False
  then have t: "turned d c = c\<lparr>inflight := inflight c + d\<rparr>"
    by (simp add: turned_def Let_def)
  show ?thesis
    using assms False unfolding t tick_inv_def by (cases "expired c"; cases "fired c") auto
qed

lemma tick_inv_leaving:
  assumes "tick_inv n0 c n oth False quiet" and "leaving cancelled (c, n) = (out, (c', n'))"
  shows "tick_inv n0 c' n' oth True quiet"
proof -
  have h: "base c = n0" "n = oth + (if fired c then 1 else 0)"
    using assms(1) by (simp_all add: tick_inv_def)
  have c': "c' = c\<lparr>handle := NoHandle, fired := False\<rparr>"
    using assms(2) by (cases "fired c"; cases cancelled)
      (auto simp: leaving_def settle_def stop_def Let_def)
  have n': "n' = oth"
    using assms(2) h(2) by (cases "fired c"; cases cancelled)
      (auto simp: leaving_def settle_def stop_def Let_def)
  show ?thesis by (simp add: tick_inv_def c' n' h(1))
qed

lemma clock_inv_step: "ticks w w' \<Longrightarrow> clock_inv n0 w \<Longrightarrow> clock_inv n0 w'"
proof (induction rule: ticks.induct)
  case (Deadline w c n)
  then show ?case
    using tick_inv_expire [of n0 "wclock w" "count w" "others w" "over w" "idle w" c n]
    by (simp add: clock_inv_def rested_def)
next
  case (Fires w c n)
  then show ?case
    using tick_inv_fire [of n0 "wclock w" "count w" "others w" "over w" "idle w" c n]
    by (simp add: clock_inv_def)
next
  case (Turns w d)
  then show ?case
    using tick_inv_turned [of n0 "wclock w" "count w" "others w" "idle w" d]
    by (simp add: clock_inv_def rested_def)
next
  case (Cancelled w)
  then show ?case by (simp add: clock_inv_def tick_inv_def)
next
  case (Uncancelled w)
  then show ?case by (simp add: clock_inv_def tick_inv_def)
next
  case (Leaves w cancelled out c n)
  then show ?case
    using tick_inv_leaving [of n0 "wclock w" "count w" "others w" "idle w" cancelled out c n]
    by (simp add: clock_inv_def)
qed

lemma clock_inv_reachable:
  "ticks\<^sup>*\<^sup>* (watch_of task n0 grace) w \<Longrightarrow> clock_inv n0 w"
  by (induction rule: rtranclp_induct) (auto intro: clock_inv_start clock_inv_step)


lemma fires_hard:
  "ticks (watch_of 0 2 False)
     (rested ((watch_of 0 2 False)\<lparr>wclock := (clock_made 0 2 False)\<lparr>handle := NoHandle, expired := True,
        fired := True\<rparr>, count := 3\<rparr>))"
  by (rule ticks.Deadline) (simp_all add: watch_of_def clock_made_def expire_def fire_def)


text \<open>
  C7 (safety). A graceful deadline stops its call only where, since the deadline came, there was a
  moment with no turn under way; a hard one has stopped it from the moment it came; and a graceful
  one with no turn left under way is about to.
\<close>

theorem clock_waits_for_turns:
  assumes "ticks\<^sup>*\<^sup>* (watch_of task n0 grace) w" and "\<not> over w" and "expired (wclock w)"
  shows "(graceful (wclock w) \<longrightarrow> fired (wclock w) \<longrightarrow> idle w) \<and>
         (\<not> graceful (wclock w) \<longrightarrow> fired (wclock w)) \<and>
         (inflight (wclock w) = 0 \<longrightarrow> fired (wclock w) \<or> handle (wclock w) = Soon)"
  using clock_inv_reachable [OF assms(1)] assms(2,3)
  by (auto simp: clock_inv_def tick_inv_def split: if_splits)

theorem clock_waits_for_turns_witness:
  "\<exists>w. ticks\<^sup>*\<^sup>* (watch_of 0 2 False) w \<and> \<not> over w \<and> expired (wclock w) \<and> fired (wclock w)"
proof -
  let ?w = "rested ((watch_of 0 2 False)\<lparr>wclock := (clock_made 0 2 False)\<lparr>handle := NoHandle,
      expired := True, fired := True\<rparr>, count := 3\<rparr>)"
  have r: "ticks\<^sup>*\<^sup>* (watch_of 0 2 False) ?w" using fires_hard by blast
  have o: "\<not> over ?w" "expired (wclock ?w)" "\<not> graceful (wclock ?w)"
    by (simp_all add: rested_def watch_of_def clock_made_def)
  show ?thesis
    using clock_waits_for_turns [OF r o(1,2)] o r by blast
qed

text \<open>
  A cancel leaving the call becomes \<open>DurationExceeded\<close> exactly where the deadline
  had fired and no more cancels of anybody else's stand than stood as the clock was set.
\<close>

theorem clock_settles_its_own:
  assumes "ticks\<^sup>*\<^sup>* (watch_of task n0 grace) w" and "leaving True (wclock w, count w) = (out, s)"
  shows "out \<longleftrightarrow> fired (wclock w) \<and> others w \<le> n0"
  using clock_inv_reachable [OF assms(1)] assms(2)
  by (cases "fired (wclock w)")
     (auto simp: clock_inv_def tick_inv_def leaving_def settle_def stop_def Let_def)

theorem clock_settles_its_own_witness:
  "\<exists>w. ticks\<^sup>*\<^sup>* (watch_of 0 2 False) w \<and> fst (leaving True (wclock w, count w))"
proof -
  let ?w = "rested ((watch_of 0 2 False)\<lparr>wclock := (clock_made 0 2 False)\<lparr>handle := NoHandle,
      expired := True, fired := True\<rparr>, count := 3\<rparr>)"
  have r: "ticks\<^sup>*\<^sup>* (watch_of 0 2 False) ?w" using fires_hard by blast
  have "fired (wclock ?w)" "others ?w \<le> 2"
    by (simp_all add: rested_def watch_of_def clock_made_def)
  then show ?thesis
    using clock_settles_its_own [OF r surjective_pairing] r by blast
qed

end
