(* ===== verification/CallTree.thy ===== *)
theory CallTree
  imports PyNumber Clocks
begin

text \<open>
  The calls of a run, and what they may spend: \<open>Budget\<close> of \<open>hmz.flows.agents\<close>, \<open>Call.check\<close>,
  \<open>Call.limits\<close>, \<open>Call.budget\<close>, \<open>Call.usage\<close> of \<open>hmz.runtime.flowing.engine\<close>, and \<open>limits_of\<close> and
  \<open>_Sink.add\<close> of \<open>hmz.runtime.flowing.viewing\<close>.

  A call is known by its place in the list of the run's calls, in the order they were made, so a
  call's parent stands before it. Clock readings are exact seconds. An exception keeps which limit
  it is of, or which flow has ended; its wording is left out.
\<close>

section \<open>Budgets\<close>

datatype graceful = OneFlag bool | Each bool bool bool

record budget =
  b_duration :: "rat option"
  b_cost :: "pyfloat option"
  b_tokens :: "int option"
  b_graceful :: graceful

record grace_flags =
  g_duration :: bool
  g_cost :: bool
  g_tokens :: bool

fun agreeing :: "graceful \<Rightarrow> graceful" where
  "agreeing (OneFlag b) = OneFlag b"
| "agreeing (Each d c t) = (if d = c \<and> c = t then OneFlag d else Each d c t)"

text \<open>\<open>Budget(...)\<close> as pydantic validates it, \<open>None\<close> where it refuses.\<close>

definition budget_made ::
    "rat option \<Rightarrow> pyfloat option \<Rightarrow> int option \<Rightarrow> graceful \<Rightarrow> budget option" where
  "budget_made duration cost tokens grace =
     (if (case duration of None \<Rightarrow> False | Some d \<Rightarrow> d < 0) then None
      else if (case cost of None \<Rightarrow> False | Some c \<Rightarrow> \<not> f_le (Fin 0) c) then None
      else if (case tokens of None \<Rightarrow> False | Some t \<Rightarrow> t < 0) then None
      else if duration = None \<and> cost = None \<and> tokens = None then None
      else Some \<lparr>b_duration = duration, b_cost = cost, b_tokens = tokens,
                 b_graceful = agreeing grace\<rparr>)"

definition graces :: "budget \<Rightarrow> grace_flags" where
  "graces b =
     (case b_graceful b of
        OneFlag f \<Rightarrow> \<lparr>g_duration = f, g_cost = f, g_tokens = f\<rparr>
      | Each d c t \<Rightarrow> \<lparr>g_duration = d, g_cost = c, g_tokens = t\<rparr>)"

section \<open>Calls\<close>

text \<open>What a call holds to release: a session it opened, or a temporary copy or scratch directory
  made through a driver, by its kind and its name. Each is told from the others by a number, as
  the source tells them by \<open>id\<close>.\<close>

datatype resource = Opened | Made nat string string

record call =
  parent :: "nat option"
  impl :: "string option"
  depth :: nat
  own :: "budget option"
  since :: rat
  deadline :: pyfloat
  cost :: pyfloat
  tokens :: int
  secs :: pyfloat
  live :: int
  ended :: bool
  jid :: int
  old :: int
  clock :: "clock option"
  res :: "(nat \<times> resource) list option"
  seqs :: "(string \<times> int) list"

datatype call_error =
    FlowCancelled "string option"
  | CostUncounted
  | CostExceeded
  | OutputTokensExceeded
  | DurationExceeded
  | FlowDepthExceeded

definition call_made ::
    "nat option \<Rightarrow> string option \<Rightarrow> nat \<Rightarrow> budget option \<Rightarrow> rat \<Rightarrow> pyfloat \<Rightarrow> call" where
  "call_made par ref deep budget now due =
     \<lparr>parent = par, impl = ref, depth = deep, own = budget, since = now, deadline = due,
      cost = Fin 0, tokens = 0, secs = Fin 0, live = 1, ended = False, jid = 0, old = 0,
      clock = None, res = None, seqs = []\<rparr>"

text \<open>A call and every call above it, the nearest first: what the loops over \<open>node.parent\<close> visit.\<close>

function above :: "call list \<Rightarrow> nat \<Rightarrow> nat list" where
  "above cs i =
     (if i < length cs
      then i # (case parent (cs ! i) of None \<Rightarrow> []
                | Some p \<Rightarrow> if p < i then above cs p else [])
      else [])"
  by pat_completeness auto
termination by (relation "measure snd") auto

declare above.simps [simp del]

definition tree_ok :: "call list \<Rightarrow> bool" where
  "tree_ok cs \<longleftrightarrow> (\<forall>i<length cs. \<forall>p. parent (cs ! i) = Some p \<longrightarrow> p < i)"

definition check :: "call list \<Rightarrow> nat \<Rightarrow> call_error + unit" where
  "check cs i =
     (case first_of (\<lambda>j. ended (cs ! j)) (above cs i) of
        Some j \<Rightarrow> Inl (FlowCancelled (impl (cs ! j)))
      | None \<Rightarrow> Inr ())"

section \<open>What a turn may spend\<close>

text \<open>A limit so far, and whether reaching it stops a turn at once.\<close>

type_synonym bound = "pyfloat \<times> bool"

definition tighter :: "bound \<Rightarrow> bound \<Rightarrow> bound" where
  "tighter new so_far =
     (if f_lt (fst new) (fst so_far) \<or> (snd new \<and> f_eq (fst new) (fst so_far)) then new else so_far)"

record pending =
  p_cost :: bound
  p_tokens :: bound
  p_until :: bound
  p_cut :: pyfloat

definition unlimited :: pending where
  "unlimited = \<lparr>p_cost = (PInf, False), p_tokens = (PInf, False), p_until = (PInf, False),
                p_cut = PInf\<rparr>"

text \<open>What one call's own budget leaves of each limit.\<close>

definition left_cost :: "call \<Rightarrow> budget \<Rightarrow> bound option" where
  "left_cost c b = map_option (\<lambda>l. (f_sub l (cost c), \<not> g_cost (graces b))) (b_cost b)"

definition left_tokens :: "call \<Rightarrow> budget \<Rightarrow> bound option" where
  "left_tokens c b =
     map_option (\<lambda>l. (Fin (of_int (l - tokens c)), \<not> g_tokens (graces b))) (b_tokens b)"

definition left_until :: "call \<Rightarrow> budget \<Rightarrow> bound option" where
  "left_until c b =
     map_option (\<lambda>d. (Fin (since c + d), \<not> g_duration (graces b))) (b_duration b)"

definition tighten :: "bound option \<Rightarrow> bound \<Rightarrow> bound" where
  "tighten new so_far = (case new of None \<Rightarrow> so_far | Some b \<Rightarrow> tighter b so_far)"

definition limits_step :: "call \<Rightarrow> pending \<Rightarrow> pending" where
  "limits_step c p =
     (case own c of
        None \<Rightarrow> p
      | Some b \<Rightarrow>
          p\<lparr>p_cost := tighten (left_cost c b) (p_cost p),
            p_tokens := tighten (left_tokens c b) (p_tokens p),
            p_until := tighten (left_until c b) (p_until p),
            p_cut := (case left_until c b of
                        Some (ends, hard) \<Rightarrow> if hard \<and> f_lt ends (p_cut p) then ends else p_cut p
                      | None \<Rightarrow> p_cut p)\<rparr>)"

fun limits_loop :: "call list \<Rightarrow> nat list \<Rightarrow> pending \<Rightarrow> call_error + pending" where
  "limits_loop cs [] p = Inr p"
| "limits_loop cs (i # is) p =
     (if ended (cs ! i) then Inl (FlowCancelled (impl (cs ! i)))
      else if \<not> is_finite (cost (cs ! i)) then Inl CostUncounted
      else limits_loop cs is (limits_step (cs ! i) p))"

record turn_limits =
  l_cost :: "pyfloat option"
  l_tokens :: "int option"
  l_deadline :: "pyfloat option"
  l_cost_graceful :: bool
  l_tokens_graceful :: bool
  l_deadline_graceful :: bool

definition limits_of :: "bound \<Rightarrow> bound \<Rightarrow> bound \<Rightarrow> turn_limits" where
  "limits_of c t d =
     \<lparr>l_cost = (if fst c = PInf then None else Some (f_max (fst c) (Fin 0))),
      l_tokens = (case int_of_float (fst t) of None \<Rightarrow> None | Some n \<Rightarrow> Some (max n 0)),
      l_deadline = (if fst d = PInf then None else Some (fst d)),
      l_cost_graceful = \<not> snd c, l_tokens_graceful = \<not> snd t, l_deadline_graceful = \<not> snd d\<rparr>"

text \<open>A turn's own limit against what the budgets over it leave: it wins a tie, hard if either is.\<close>

definition own_limit :: "bound option \<Rightarrow> bound \<Rightarrow> bound" where
  "own_limit new so_far =
     (case new of None \<Rightarrow> so_far
      | Some (v, hard) \<Rightarrow>
          if f_le v (fst so_far) then (v, hard \<or> (snd so_far \<and> f_eq v (fst so_far))) else so_far)"

definition own_cost :: "budget option \<Rightarrow> bound option" where
  "own_cost turn =
     (case turn of None \<Rightarrow> None
      | Some b \<Rightarrow> map_option (\<lambda>l. (l, \<not> g_cost (graces b))) (b_cost b))"

definition own_tokens :: "budget option \<Rightarrow> bound option" where
  "own_tokens turn =
     (case turn of None \<Rightarrow> None
      | Some b \<Rightarrow> map_option (\<lambda>l. (Fin (of_int l), \<not> g_tokens (graces b))) (b_tokens b))"

definition own_until :: "rat \<Rightarrow> budget option \<Rightarrow> bound option" where
  "own_until now turn =
     (case turn of None \<Rightarrow> None
      | Some b \<Rightarrow> map_option (\<lambda>d. (Fin (now + d), \<not> g_duration (graces b))) (b_duration b))"

text \<open>The soonest hard deadline there is, where the limits a driver is handed do not hold it.\<close>

definition held_to :: "bound option \<Rightarrow> bool \<Rightarrow> pyfloat \<Rightarrow> pyfloat option" where
  "held_to new hard_limits so_far =
     (let soonest = (case new of
                       Some (v, hard) \<Rightarrow> if hard \<and> f_lt v so_far then v else so_far
                     | None \<Rightarrow> so_far)
      in if hard_limits \<or> soonest = PInf then None else Some soonest)"

text \<open>What is left once the loop is over: the spent budgets refused, the turn's own applied.\<close>

definition limits_end ::
    "pyfloat \<Rightarrow> rat \<Rightarrow> budget option \<Rightarrow> pending \<Rightarrow> call_error + (turn_limits \<times> pyfloat option)" where
  "limits_end due now turn p =
     (if f_le due (Fin now) then Inl DurationExceeded
      else if f_le (fst (p_cost p)) (Fin 0) then Inl CostExceeded
      else if f_le (fst (p_tokens p)) (Fin 0) then Inl OutputTokensExceeded
      else
        (let c = own_limit (own_cost turn) (p_cost p);
             t = own_limit (own_tokens turn) (p_tokens p);
             d = own_limit (own_until now turn) (due, snd (p_until p))
         in Inr (limits_of c t d, held_to (own_until now turn) (snd d) (p_cut p))))"

definition limits ::
    "call list \<Rightarrow> nat \<Rightarrow> budget option \<Rightarrow> rat \<Rightarrow> call_error + (turn_limits \<times> pyfloat option)" where
  "limits cs i turn now =
     res_bind (limits_loop cs (above cs i) unlimited) (limits_end (deadline (cs ! i)) now turn)"

section \<open>Spending\<close>

definition spend :: "pyfloat \<Rightarrow> int \<Rightarrow> pyfloat \<Rightarrow> call \<Rightarrow> call" where
  "spend usd toks seconds c =
     c\<lparr>cost := f_add (cost c) usd, tokens := tokens c + toks, secs := f_add (secs c) seconds\<rparr>"

fun at_all :: "nat list \<Rightarrow> ('a \<Rightarrow> 'a) \<Rightarrow> 'a list \<Rightarrow> 'a list" where
  "at_all [] f cs = cs"
| "at_all (i # is) f cs = at_all is f (cs[i := f (cs ! i)])"

definition add :: "nat \<Rightarrow> pyfloat \<Rightarrow> int \<Rightarrow> pyfloat \<Rightarrow> call list \<Rightarrow> call list" where
  "add i usd toks seconds cs = at_all (above cs i) (spend usd toks seconds) cs"

definition usage :: "call list \<Rightarrow> nat \<Rightarrow> pyfloat \<times> pyfloat \<times> int" where
  "usage cs i = (secs (cs ! i), cost (cs ! i), tokens (cs ! i))"

text \<open>\<open>Call.budget\<close>: the least every budget over the call leaves, as it stood when the call began to
  spend -- what the call itself spent is not taken off -- each limit graceful where all are.\<close>

definition budget_step :: "call \<Rightarrow> call \<Rightarrow> pyfloat \<times> pyfloat \<times> grace_flags \<Rightarrow> pyfloat \<times> pyfloat \<times> grace_flags" where
  "budget_step me c = (\<lambda>(usd, toks, g).
     case own c of
       None \<Rightarrow> (usd, toks, g)
     | Some b \<Rightarrow>
         ((case b_cost b of
             None \<Rightarrow> usd
           | Some l \<Rightarrow> (let left = f_add (f_sub l (cost c)) (cost me) in
                        if is_nan left then Fin 0 else f_min usd left)),
          (case b_tokens b of
             None \<Rightarrow> toks
           | Some l \<Rightarrow> f_min toks (Fin (of_int (l - tokens c + tokens me)))),
          \<lparr>g_duration = g_duration g \<and> (b_duration b = None \<or> g_duration (graces b)),
           g_cost = g_cost g \<and> (b_cost b = None \<or> g_cost (graces b)),
           g_tokens = g_tokens g \<and> (b_tokens b = None \<or> g_tokens (graces b))\<rparr>))"

definition effective :: "call list \<Rightarrow> nat \<Rightarrow> budget" where
  "effective cs i =
     (let me = cs ! i;
          (usd, toks, g) = fold (\<lambda>j. budget_step me (cs ! j)) (above cs i)
             (PInf, PInf, \<lparr>g_duration = True, g_cost = True, g_tokens = True\<rparr>);
          duration = (case deadline me of Fin d \<Rightarrow> Some (max (d - since me) 0) | _ \<Rightarrow> None)
      in \<lparr>b_duration = duration,
          b_cost = (if usd = PInf \<and> (toks \<noteq> PInf \<or> (duration \<noteq> None \<and> duration \<noteq> Some 0))
                    then None else Some usd),
          b_tokens = (case int_of_float toks of None \<Rightarrow> None | Some n \<Rightarrow> Some (max n 0)),
          b_graceful = agreeing (Each (g_duration g) (g_cost g) (g_tokens g))\<rparr>)"

section \<open>The calls above a call\<close>

lemma above_mem:
  "j \<in> set (above cs i) \<longleftrightarrow>
   i < length cs \<and> (j = i \<or> (\<exists>p. parent (cs ! i) = Some p \<and> p < i \<and> j \<in> set (above cs p)))"
  using above.simps [of cs i] by (auto split: option.splits)

lemma above_in: "j \<in> set (above cs i) \<Longrightarrow> j \<le> i \<and> j < length cs"
proof (induction i rule: less_induct)
  case (less i)
  then show ?case by (subst (asm) (2) above_mem) fastforce
qed

lemma above_self: "i < length cs \<Longrightarrow> i \<in> set (above cs i)"
  by (subst above.simps) simp

lemma above_parent:
  "i < length cs \<Longrightarrow> parent (cs ! i) = Some p \<Longrightarrow> p < i \<Longrightarrow> above cs i = i # above cs p"
  by (subst above.simps) simp

lemma above_top: "i < length cs \<Longrightarrow> parent (cs ! i) = None \<Longrightarrow> above cs i = [i]"
  by (subst above.simps) simp

lemma above_out: "\<not> i < length cs \<Longrightarrow> above cs i = []"
  by (subst above.simps) simp

lemma above_cases:
  assumes "tree_ok cs" and "i < length cs"
  obtains "parent (cs ! i) = None" "above cs i = [i]"
  | p where "parent (cs ! i) = Some p" "p < i" "above cs i = i # above cs p"
  using assms by (cases "parent (cs ! i)") (auto simp: tree_ok_def above_top above_parent)

lemma above_distinct: "distinct (above cs i)"
proof (induction cs i rule: above.induct)
  case (1 cs i)
  then show ?case
    by (subst above.simps) (auto split: option.splits dest: above_in)
qed

text \<open>The calls above depend only on who is whose parent; later calls change nothing of it.\<close>

lemma above_cong:
  "length cs \<le> length cs' \<Longrightarrow> \<forall>j<length cs. parent (cs' ! j) = parent (cs ! j) \<Longrightarrow> i < length cs \<Longrightarrow>
   above cs' i = above cs i"
proof (induction i rule: less_induct)
  case (less i)
  then have i: "i < length cs'" "parent (cs' ! i) = parent (cs ! i)" by simp_all
  show ?case
  proof (cases "parent (cs ! i)")
    case None
    with i less.prems show ?thesis by (simp add: above_top)
  next
    case (Some p)
    show ?thesis
    proof (cases "p < i")
      case True
      with less have "above cs' p = above cs p" by simp
      with True Some i less.prems show ?thesis by (simp add: above_parent)
    next
      case False
      with Some i less.prems show ?thesis by (subst (1 2) above.simps) simp
    qed
  qed
qed

lemma above_trans: "j \<in> set (above cs i) \<Longrightarrow> set (above cs j) \<subseteq> set (above cs i)"
proof (induction cs i rule: above.induct)
  case (1 cs i)
  show ?case
  proof (cases "j = i")
    case False
    then obtain p where p: "i < length cs" "parent (cs ! i) = Some p" "p < i" "j \<in> set (above cs p)"
      using 1(2) by (subst (asm) above_mem) auto
    with 1(1) have "set (above cs j) \<subseteq> set (above cs p)" by blast
    with p show ?thesis by (auto simp: above_parent)
  qed simp
qed

section \<open>At every call of a chain\<close>

lemma length_at_all [simp]: "length (at_all is f cs) = length cs"
  by (induction "is" f cs rule: at_all.induct) auto

lemma nth_at_all:
  "distinct is \<Longrightarrow> j < length cs \<Longrightarrow>
   at_all is f cs ! j = (if j \<in> set is then f (cs ! j) else cs ! j)"
proof (induction "is" f cs rule: at_all.induct)
  case (2 i "is" f cs)
  then show ?case by (cases "i = j") (auto simp: nth_list_update)
qed simp

lemma length_add [simp]: "length (add i usd toks seconds cs) = length cs"
  by (simp add: add_def)

lemma nth_add:
  "j < length cs \<Longrightarrow>
   add i usd toks seconds cs ! j =
     (if j \<in> set (above cs i) then spend usd toks seconds (cs ! j) else cs ! j)"
  by (simp add: add_def nth_at_all above_distinct)

lemma spend_keeps [simp]:
  "parent (spend u t s c) = parent c" "own (spend u t s c) = own c" "since (spend u t s c) = since c"
  "deadline (spend u t s c) = deadline c" "ended (spend u t s c) = ended c"
  "impl (spend u t s c) = impl c"
  "cost (spend u t s c) = f_add (cost c) u" "tokens (spend u t s c) = tokens c + t"
  by (simp_all add: spend_def)

lemma above_add [simp]: "above (add i usd toks seconds cs) j = above cs j"
proof (cases "j < length cs")
  case True
  then show ?thesis by (intro above_cong) (auto simp: nth_add)
next
  case False
  then show ?thesis by (simp add: above_out)
qed

lemma check_Inr_iff: "check cs i = Inr () \<longleftrightarrow> (\<forall>j\<in>set (above cs i). \<not> ended (cs ! j))"
  by (auto simp: check_def first_of_None_iff [symmetric] split: option.splits)

end
