(* ===== verification/Budgets.thy ===== *)
theory Budgets
  imports CallTree
begin

text \<open>
  What \<open>Call.limits\<close> promises: the limits a turn is handed are the least any budget over it leaves,
  hard where a budget leaving the least is hard; a hard deadline is always held to; what is spent
  stays refused, however the run goes on; and spending counts at every call above and no other.
\<close>

section \<open>The least of the bounds\<close>

text \<open>What \<open>tighter\<close> keeps of the bounds seen so far.\<close>

definition least :: "bound set \<Rightarrow> bound \<Rightarrow> bool" where
  "least S r \<longleftrightarrow>
     fst r \<noteq> NaN \<and> (r = (PInf, False) \<or> r \<in> S) \<and>
     (\<forall>b\<in>S. f_le (fst r) (fst b) \<and> (snd b \<and> fst b = fst r \<longrightarrow> snd r))"

lemma least_empty: "least {} (PInf, False)"
  by (simp add: least_def)

lemma least_tighter:
  assumes "least S r" and "fst b \<noteq> NaN"
  shows "least (insert b S) (tighter b r)"
proof (cases "f_lt (fst b) (fst r) \<or> (snd b \<and> f_eq (fst b) (fst r))")
  case True
  then have le: "f_le (fst b) (fst r)" by (auto simp: f_le_def)
  have t: "tighter b r = b" using True by (simp add: tighter_def)
  have "snd b" if "b' \<in> S" "snd b'" "fst b' = fst b" for b'
  proof -
    have "f_le (fst r) (fst b)" using that assms(1) by (auto simp: least_def)
    with le have "fst b = fst r" by (rule f_le_antisym)
    with True show ?thesis by auto
  qed
  with assms le t show ?thesis
    by (auto simp: least_def f_le_refl intro: f_le_trans)
next
  case False
  then have t: "tighter b r = r" by (auto simp: tighter_def)
  have "f_le (fst r) (fst b)" using False assms by (auto simp: least_def f_not_lt)
  moreover have "snd r" if "snd b" "fst b = fst r"
    using False that assms(2) by (simp add: f_eq_iff)
  ultimately show ?thesis using assms by (auto simp: least_def t)
qed

text \<open>The bounds the budgets of some calls leave.\<close>

definition lefts :: "(call \<Rightarrow> budget \<Rightarrow> bound option) \<Rightarrow> call list \<Rightarrow> nat set \<Rightarrow> bound set" where
  "lefts f cs is = {x. \<exists>i\<in>is. \<exists>b. own (cs ! i) = Some b \<and> f (cs ! i) b = Some x}"

lemma lefts_insert:
  "lefts f cs (insert i is) =
     (case own (cs ! i) of None \<Rightarrow> lefts f cs is
      | Some b \<Rightarrow> (case f (cs ! i) b of None \<Rightarrow> lefts f cs is | Some x \<Rightarrow> insert x (lefts f cs is)))"
  by (auto simp: lefts_def split: option.splits)

lemma least_step:
  assumes "least (lefts f cs is) r" and "\<And>b x. own (cs ! i) = Some b \<Longrightarrow> f (cs ! i) b = Some x \<Longrightarrow> fst x \<noteq> NaN"
  shows "least (lefts f cs (insert i is))
           (case own (cs ! i) of None \<Rightarrow> r | Some b \<Rightarrow> tighten (f (cs ! i) b) r)"
  using assms by (auto simp: lefts_insert tighten_def least_tighter split: option.splits)

definition cut_of :: "bound set \<Rightarrow> pyfloat \<Rightarrow> bool" where
  "cut_of S soonest \<longleftrightarrow> soonest \<noteq> NaN \<and> (soonest = PInf \<or> (soonest, True) \<in> S) \<and> (\<forall>v. (v, True) \<in> S \<longrightarrow> f_le soonest v)"

lemma cut_of_empty: "cut_of {} PInf"
  by (simp add: cut_of_def)

lemma cut_of_insert:
  assumes "cut_of S soonest" and "v \<noteq> NaN"
  shows "cut_of (insert (v, hard) S) (if hard \<and> f_lt v soonest then v else soonest)"
proof (cases "hard \<and> f_lt v soonest")
  case True
  then have "f_le v soonest" by (simp add: f_le_def)
  with True assms show ?thesis by (auto simp: cut_of_def f_le_refl intro: f_le_trans)
next
  case False
  then have "f_le soonest v" if hard using that assms by (auto simp: cut_of_def f_not_lt)
  with False assms show ?thesis by (auto simp: cut_of_def)
qed

section \<open>The loop over the calls above\<close>

text \<open>A budget pydantic let be made: no limit of it is negative, or no number.\<close>

definition budget_ok :: "budget \<Rightarrow> bool" where
  "budget_ok b \<longleftrightarrow>
     (\<forall>d. b_duration b = Some d \<longrightarrow> 0 \<le> d) \<and> (\<forall>c. b_cost b = Some c \<longrightarrow> f_le (Fin 0) c) \<and>
     (\<forall>t. b_tokens b = Some t \<longrightarrow> 0 \<le> t)"

lemma budget_made_ok: "budget_made d c t g = Some b \<Longrightarrow> budget_ok b"
  by (auto simp: budget_made_def budget_ok_def split: if_splits option.splits)

definition budgets_ok :: "call list \<Rightarrow> bool" where
  "budgets_ok cs \<longleftrightarrow> (\<forall>c\<in>set cs. \<forall>b. own c = Some b \<longrightarrow> budget_ok b)"

lemma budgets_okD: "budgets_ok cs \<Longrightarrow> i < length cs \<Longrightarrow> own (cs ! i) = Some b \<Longrightarrow> budget_ok b"
  by (auto simp: budgets_ok_def)

lemma f_sub_not_NaN: "f_le (Fin 0) l \<Longrightarrow> is_finite c \<Longrightarrow> f_sub l c \<noteq> NaN"
  by (cases l; cases c) (auto simp: f_sub_def f_le_def)

definition pending_of :: "call list \<Rightarrow> nat set \<Rightarrow> pending \<Rightarrow> bool" where
  "pending_of cs is p \<longleftrightarrow>
     least (lefts left_cost cs is) (p_cost p) \<and> least (lefts left_tokens cs is) (p_tokens p) \<and>
     least (lefts left_until cs is) (p_until p) \<and> cut_of (lefts left_until cs is) (p_cut p)"

lemma pending_of_unlimited: "pending_of cs {} unlimited"
  by (simp add: pending_of_def unlimited_def least_empty cut_of_empty lefts_def)

lemma pending_of_step:
  assumes "pending_of cs is p" and "\<And>b. own (cs ! i) = Some b \<Longrightarrow> budget_ok b"
    and "is_finite (cost (cs ! i))"
  shows "pending_of cs (insert i is) (limits_step (cs ! i) p)"
proof (cases "own (cs ! i)")
  case None
  with assms(1) show ?thesis by (simp add: pending_of_def limits_step_def lefts_insert)
next
  case (Some b)
  have c: "fst x \<noteq> NaN" if "left_cost (cs ! i) b = Some x" for x
    using that assms(2) [OF Some] assms(3)
    by (auto simp: left_cost_def budget_ok_def dest: f_sub_not_NaN)
  have t: "fst x \<noteq> NaN" if "left_tokens (cs ! i) b = Some x" for x
    using that by (auto simp: left_tokens_def)
  have u: "fst x \<noteq> NaN" if "left_until (cs ! i) b = Some x" for x
    using that by (auto simp: left_until_def)
  have cut1: "cut_of (lefts left_until cs (insert i is))
      (case left_until (cs ! i) b of
         Some (ends, hard) \<Rightarrow> if hard \<and> f_lt ends (p_cut p) then ends else p_cut p
       | None \<Rightarrow> p_cut p)"
  proof (cases "left_until (cs ! i) b")
    case None
    with Some assms(1) show ?thesis by (simp add: pending_of_def lefts_insert)
  next
    case (Some x)
    then have n: "fst x \<noteq> NaN" by (rule u)
    obtain a h where x: "x = (a, h)" by (cases x)
    have c: "cut_of (lefts left_until cs is) (p_cut p)" using assms(1) by (simp add: pending_of_def)
    show ?thesis
      using cut_of_insert [OF c, of a h] n x Some \<open>own (cs ! i) = Some b\<close>
      by (simp add: lefts_insert)
  qed
  show ?thesis
    using assms(1) cut1 Some c t u
      least_step [of left_cost cs "is" "p_cost p" i] least_step [of left_tokens cs "is" "p_tokens p" i]
      least_step [of left_until cs "is" "p_until p" i]
    by (simp add: pending_of_def limits_step_def)
qed

lemma limits_loop_pending:
  assumes "limits_loop cs is p = Inr q" and "pending_of cs S p"
    and "\<And>i b. i \<in> set is \<Longrightarrow> own (cs ! i) = Some b \<Longrightarrow> budget_ok b"
  shows "pending_of cs (set is \<union> S) q"
  using assms
proof (induction cs "is" p arbitrary: S rule: limits_loop.induct)
  case (1 cs p)
  then show ?case by simp
next
  case (2 cs i "is" p)
  then have i: "\<not> ended (cs ! i)" "is_finite (cost (cs ! i))"
    and rest: "limits_loop cs is (limits_step (cs ! i) p) = Inr q"
    by (auto split: if_splits)
  have "pending_of cs (insert i S) (limits_step (cs ! i) p)"
    using 2(3,4) i by (intro pending_of_step) auto
  from 2(1) [OF i(1) _ rest this] i 2(4) show ?case by (simp add: insert_commute Un_commute) auto
qed

lemma limits_loop_Inr_iff:
  "(\<exists>q. limits_loop cs is p = Inr q) \<longleftrightarrow>
   (\<forall>i\<in>set is. \<not> ended (cs ! i) \<and> is_finite (cost (cs ! i)))"
  by (induction cs "is" p rule: limits_loop.induct) auto

lemma limits_pending:
  assumes "limits cs i turn now = Inr out" and "budgets_ok cs"
  obtains p where "pending_of cs (set (above cs i)) p"
    and "limits_end (deadline (cs ! i)) now turn p = Inr out"
proof -
  obtain p where p: "limits_loop cs (above cs i) unlimited = Inr p"
      "limits_end (deadline (cs ! i)) now turn p = Inr out"
    using assms(1) by (auto simp: limits_def res_bind_eq_Inr_iff)
  have "pending_of cs (set (above cs i) \<union> {}) p"
    using p(1) pending_of_unlimited
    by (rule limits_loop_pending) (use assms(2) in \<open>auto dest: above_in intro: budgets_okD\<close>)
  with p that show ?thesis by simp
qed

section \<open>What a turn is handed\<close>

text \<open>A limit as handed on, no limit being infinity.\<close>

definition value_of :: "pyfloat option \<Rightarrow> pyfloat" where
  "value_of l = (case l of None \<Rightarrow> PInf | Some v \<Rightarrow> v)"

text \<open>What a turn's own budget adds to the bounds over it.\<close>

definition with_own :: "bound set \<Rightarrow> bound option \<Rightarrow> bound set" where
  "with_own S new = (case new of None \<Rightarrow> S | Some b \<Rightarrow> insert b S)"

lemma limits_endD:
  assumes "limits_end due now turn p = Inr (l, held)"
  shows "\<not> f_le due (Fin now)" "\<not> f_le (fst (p_cost p)) (Fin 0)" "\<not> f_le (fst (p_tokens p)) (Fin 0)"
    and "l = limits_of (own_limit (own_cost turn) (p_cost p)) (own_limit (own_tokens turn) (p_tokens p))
               (own_limit (own_until now turn) (due, snd (p_until p)))"
    and "held = held_to (own_until now turn)
                  (snd (own_limit (own_until now turn) (due, snd (p_until p)))) (p_cut p)"
proof -
  show n: "\<not> f_le due (Fin now)" "\<not> f_le (fst (p_cost p)) (Fin 0)" "\<not> f_le (fst (p_tokens p)) (Fin 0)"
    using assms by (simp_all add: limits_end_def split: if_split_asm)
  show "l = limits_of (own_limit (own_cost turn) (p_cost p)) (own_limit (own_tokens turn) (p_tokens p))
               (own_limit (own_until now turn) (due, snd (p_until p)))"
    and "held = held_to (own_until now turn)
                  (snd (own_limit (own_until now turn) (due, snd (p_until p)))) (p_cut p)"
    using assms n by (simp_all add: limits_end_def Let_def)
qed

lemma least_own_limit:
  assumes "least S r" and "fst b \<noteq> NaN"
  shows "least (insert b S) (own_limit (Some b) r)"
proof (cases "f_le (fst b) (fst r)")
  case True
  have "snd r" if "b' \<in> S" "snd b'" "fst b' = fst b" for b'
  proof -
    have "f_le (fst r) (fst b)" using that assms(1) by (auto simp: least_def)
    with True have "fst b = fst r" by (rule f_le_antisym)
    with that assms(1) show ?thesis by (auto simp: least_def)
  qed
  moreover have "r \<in> S" if "snd r" using that assms(1) by (auto simp: least_def)
  ultimately show ?thesis
    using True assms
    by (cases b; cases r)
       (auto simp: least_def own_limit_def f_eq_iff f_le_refl intro: f_le_trans dest: f_le_antisym)
next
  case False
  then have "f_lt (fst r) (fst b)"
    using assms f_not_lt [of "fst r" "fst b"] by (auto simp: least_def)
  then have "f_le (fst r) (fst b)" "fst b \<noteq> fst r" by (auto simp: f_le_def)
  with False assms show ?thesis by (cases b) (auto simp: least_def own_limit_def)
qed

lemma least_turn:
  assumes "least S r" and "\<And>b. new = Some b \<Longrightarrow> fst b \<noteq> NaN"
  shows "least (with_own S new) (own_limit new r)"
proof (cases new)
  case None
  with assms(1) show ?thesis by (simp add: own_limit_def with_own_def)
next
  case (Some b)
  with assms show ?thesis by (simp add: with_own_def least_own_limit)
qed

lemma own_limit_pos:
  assumes "\<not> f_le (fst r) (Fin 0)" and "fst r \<noteq> NaN"
    and "\<And>v hard. new = Some (v, hard) \<Longrightarrow> f_le (Fin 0) v"
  shows "f_max (fst (own_limit new r)) (Fin 0) = fst (own_limit new r)"
proof -
  have "f_max v (Fin 0) = v" if "f_le (Fin 0) v" for v
    using that by (cases v) (auto simp: f_max_def f_le_def)
  moreover have "f_max (fst r) (Fin 0) = fst r"
    using assms(1,2) by (cases "fst r") (auto simp: f_max_def f_le_def)
  ultimately show ?thesis
    using assms(3) by (auto simp: own_limit_def split: option.splits)
qed

text \<open>
  The cost limit a turn is handed is the least that any budget over it, or its
  own, leaves; it stops the turn at once exactly where a budget leaving that least is hard; and
  there is none exactly where every cost budget over the turn is infinite.
\<close>

theorem limits_cost_least:
  assumes "limits cs i turn now = Inr (l, held)" and "budgets_ok cs"
    and "\<And>b. turn = Some b \<Longrightarrow> budget_ok b"
  shows "least (with_own (lefts left_cost cs (set (above cs i))) (own_cost turn))
           (value_of (l_cost l), \<not> l_cost_graceful l)"
proof -
  obtain p where p: "pending_of cs (set (above cs i)) p"
      "limits_end (deadline (cs ! i)) now turn p = Inr (l, held)"
    using assms(1,2) by (rule limits_pending)
  note out = limits_endD [OF p(2)]
  have nonneg: "f_le (Fin 0) v" if "own_cost turn = Some (v, hard)" for v hard
    using that assms(3) by (auto simp: own_cost_def budget_ok_def split: option.splits)
  have lp: "least (lefts left_cost cs (set (above cs i))) (p_cost p)"
    using p(1) by (simp add: pending_of_def)
  then have num: "fst (p_cost p) \<noteq> NaN" by (simp add: least_def)
  have "least (with_own (lefts left_cost cs (set (above cs i))) (own_cost turn))
      (own_limit (own_cost turn) (p_cost p))"
    using lp by (rule least_turn) (use nonneg in force)
  moreover have "value_of (l_cost l) = fst (own_limit (own_cost turn) (p_cost p))"
    using own_limit_pos [OF out(2) num nonneg] by (simp add: out(4) limits_of_def value_of_def)
  moreover have "(\<not> l_cost_graceful l) = snd (own_limit (own_cost turn) (p_cost p))"
    by (simp add: out(4) limits_of_def)
  ultimately show ?thesis by simp
qed

lemma int_of_float_of_int [simp]: "int_of_float (Fin (of_int n)) = Some n"
  by simp

definition whole :: "pyfloat \<Rightarrow> bool" where
  "whole x \<longleftrightarrow> x = PInf \<or> (\<exists>n. x = Fin (of_int n))"

lemma whole_of_int_diff [simp]: "whole (Fin (of_int a - of_int b))"
  unfolding whole_def by (metis of_int_diff)

lemma whole_of_int [simp]: "whole (Fin (of_int a))" "whole PInf"
  by (auto simp: whole_def)

lemma whole_value:
  assumes "whole x" and "f_le (Fin 0) x"
  shows "(case int_of_float x of None \<Rightarrow> PInf | Some n \<Rightarrow> Fin (of_int (max n 0))) = x"
  using assms by (auto simp: whole_def max_def)

text \<open>What the tokens limit stands for, as a bound.\<close>

definition tokens_bound :: "turn_limits \<Rightarrow> bound" where
  "tokens_bound l =
     ((case l_tokens l of None \<Rightarrow> PInf | Some n \<Rightarrow> Fin (of_int n)), \<not> l_tokens_graceful l)"

text \<open>
  The output tokens a turn is handed are likewise the fewest any budget over it,
  or its own, leaves, and stop the turn at once exactly where a budget leaving that few is hard.
\<close>

theorem limits_tokens_least:
  assumes "limits cs i turn now = Inr (l, held)" and "budgets_ok cs"
    and "\<And>b. turn = Some b \<Longrightarrow> budget_ok b"
  shows "least (with_own (lefts left_tokens cs (set (above cs i))) (own_tokens turn)) (tokens_bound l)"
proof -
  obtain p where p: "pending_of cs (set (above cs i)) p"
      "limits_end (deadline (cs ! i)) now turn p = Inr (l, held)"
    using assms(1,2) by (rule limits_pending)
  note out = limits_endD [OF p(2)]
  let ?r = "own_limit (own_tokens turn) (p_tokens p)"
  have new: "\<exists>n. v = Fin (of_int n) \<and> 0 \<le> n" if "own_tokens turn = Some (v, hard)" for v hard
    using that assms(3) by (auto simp: own_tokens_def budget_ok_def split: option.splits)
  have lp: "least (lefts left_tokens cs (set (above cs i))) (p_tokens p)"
    using p(1) by (simp add: pending_of_def)
  have main: "least (with_own (lefts left_tokens cs (set (above cs i))) (own_tokens turn)) ?r"
    using lp by (rule least_turn) (use new in force)
  have "whole (fst x)" if "x \<in> with_own (lefts left_tokens cs (set (above cs i))) (own_tokens turn)" for x
    using that new by (cases x) (auto simp: with_own_def lefts_def left_tokens_def split: option.splits)
  with main have w: "whole (fst ?r)" unfolding least_def by (metis fst_conv whole_of_int(2))
  have "f_le (Fin 0) (fst (p_tokens p))"
    using out(3) lp f_not_lt [of "Fin 0" "fst (p_tokens p)"] by (cases "fst (p_tokens p)") (auto simp: least_def f_le_def)
  then have "f_le (Fin 0) (fst ?r)"
    using new by (cases "own_tokens turn") (fastforce simp: own_limit_def)+
  with w have "(case int_of_float (fst ?r) of None \<Rightarrow> PInf | Some n \<Rightarrow> Fin (of_int (max n 0))) = fst ?r"
    by (rule whole_value)
  then have "tokens_bound l = ?r"
    by (cases "int_of_float (fst ?r)") (simp_all add: out(4) tokens_bound_def limits_of_def prod_eq_iff)
  with main show ?thesis by simp
qed

section \<open>Hard deadlines\<close>

text \<open>A call's deadline is no later than any budget over it leaves: what \<open>arm\<close> keeps.\<close>

definition due_ok :: "call list \<Rightarrow> nat \<Rightarrow> bool" where
  "due_ok cs i \<longleftrightarrow>
     deadline (cs ! i) \<noteq> NaN \<and>
     (\<forall>x\<in>lefts left_until cs (set (above cs i)). f_le (deadline (cs ! i)) (fst x))"

text \<open>The moment a turn is stopped at whatever it is doing: by its driver, which was handed the
  deadline as a hard one, or by the engine.\<close>

definition stops_by :: "turn_limits \<times> pyfloat option \<Rightarrow> pyfloat" where
  "stops_by out =
     (if \<not> l_deadline_graceful (fst out) then value_of (l_deadline (fst out)) else value_of (snd out))"

text \<open>
  Whatever the budgets over a turn and its own, and however graceful and hard ones mix,
  the turn is stopped no later than the soonest of the hard deadlines among them.
\<close>

lemma limits_hold_hard_deadlines:
  assumes "limits cs i turn now = Inr out" and "budgets_ok cs" and "due_ok cs i"
    and "(v, True) \<in> with_own (lefts left_until cs (set (above cs i))) (own_until now turn)"
  shows "f_le (stops_by out) v"
proof -
  obtain l held where o: "out = (l, held)" by (cases out)
  obtain p where p: "pending_of cs (set (above cs i)) p"
      "limits_end (deadline (cs ! i)) now turn p = Inr (l, held)"
    using assms(1,2) unfolding o by (rule limits_pending)
  let ?S = "lefts left_until cs (set (above cs i))"
  let ?due = "deadline (cs ! i)"
  let ?d = "own_limit (own_until now turn) (?due, snd (p_until p))"
  note fin = limits_endD [OF p(2)]
  have cut1: "cut_of ?S (p_cut p)" using p(1) by (simp add: pending_of_def)
  have numS: "fst x \<noteq> NaN" if "x \<in> ?S" for x using that by (auto simp: lefts_def left_until_def)
  have numT: "fst x \<noteq> NaN" if "own_until now turn = Some x" for x
    using that by (auto simp: own_until_def split: option.splits)
  have num: "v \<noteq> NaN" using assms(4) numS numT by (fastforce simp: with_own_def split: option.splits)
  have d: "value_of (l_deadline l) = fst ?d" "l_deadline_graceful l = (\<not> snd ?d)"
    by (auto simp: fin(4) limits_of_def value_of_def)
  have due: "f_le ?due w" if "(w, h) \<in> ?S" for w h using that assms(3) by (auto simp: due_ok_def)
  show ?thesis
  proof (cases "snd ?d")
    case True
    have "f_le (fst ?d) ?due \<and> (\<forall>w h. own_until now turn = Some (w, h) \<longrightarrow> f_le (fst ?d) w)"
    proof (cases "own_until now turn")
      case None
      with assms(3) show ?thesis by (simp add: own_limit_def due_ok_def f_le_refl)
    next
      case (Some x)
      with numT [OF Some] assms(3) f_not_lt [of ?due "fst x"] show ?thesis
        by (cases x) (auto simp: own_limit_def due_ok_def f_le_refl f_le_def f_eq_iff)
    qed
    then have "f_le (fst ?d) v"
      using assms(4) due by (auto simp: with_own_def split: option.splits intro: f_le_trans)
    with True d o show ?thesis by (simp add: stops_by_def)
  next
    case False
    let ?soonest = "case own_until now turn of
        Some (w, hard) \<Rightarrow> if hard \<and> f_lt w (p_cut p) then w else p_cut p | None \<Rightarrow> p_cut p"
    have "cut_of (with_own ?S (own_until now turn)) ?soonest"
    proof (cases "own_until now turn")
      case None
      with cut1 show ?thesis by (simp add: with_own_def)
    next
      case (Some x)
      obtain w h where x: "x = (w, h)" by (cases x)
      then have "w \<noteq> NaN" using numT [OF Some] by simp
      from cut_of_insert [OF cut1 this, of h] show ?thesis
        unfolding Some x by (simp add: with_own_def)
    qed
    then have "f_le ?soonest v" using assms(4) by (auto simp: cut_of_def)
    moreover have "value_of held = ?soonest"
      using False by (simp add: fin(5) held_to_def value_of_def Let_def)
    ultimately show ?thesis using False d o by (simp add: stops_by_def)
  qed
qed

section \<open>Refusals\<close>

definition spent_out :: "call \<Rightarrow> bool" where
  "spent_out c \<longleftrightarrow>
     (\<exists>b. own c = Some b \<and>
        ((\<exists>l. b_cost b = Some l \<and> f_le (f_sub l (cost c)) (Fin 0)) \<or>
         (\<exists>l. b_tokens b = Some l \<and> l \<le> tokens c)))"

lemma least_le_iff:
  assumes "least S r" and "b \<noteq> PInf"
  shows "f_le (fst r) b \<longleftrightarrow> (\<exists>x\<in>S. f_le (fst x) b)"
proof
  assume le: "f_le (fst r) b"
  have "fst r \<noteq> PInf" using le assms(2) by (cases b) (auto simp: f_le_def)
  with assms(1) have "r \<in> S" by (auto simp: least_def)
  with le show "\<exists>x\<in>S. f_le (fst x) b" by blast
next
  assume "\<exists>x\<in>S. f_le (fst x) b"
  then show "f_le (fst r) b" using assms(1) by (auto simp: least_def intro: f_le_trans)
qed

lemma Fin_not_PInf: "Fin a \<noteq> PInf"
  by simp

lemma bex_lefts:
  "(\<exists>x\<in>lefts f cs is. q x) \<longleftrightarrow> (\<exists>j\<in>is. \<exists>b. own (cs ! j) = Some b \<and> (\<exists>x. f (cs ! j) b = Some x \<and> q x))"
  by (auto simp: lefts_def)

lemma ex_map_option: "(\<exists>x. map_option g m = Some x \<and> q x) \<longleftrightarrow> (\<exists>l. m = Some l \<and> q (g l))"
  by (cases m) auto

lemma bex_left_cost:
  "(\<exists>x\<in>lefts left_cost cs is. f_le (fst x) z) \<longleftrightarrow>
   (\<exists>j\<in>is. \<exists>b. own (cs ! j) = Some b \<and> (\<exists>l. b_cost b = Some l \<and> f_le (f_sub l (cost (cs ! j))) z))"
  by (simp only: bex_lefts left_cost_def ex_map_option fst_conv)

lemma bex_left_tokens:
  "(\<exists>x\<in>lefts left_tokens cs is. f_le (fst x) (Fin 0)) \<longleftrightarrow>
   (\<exists>j\<in>is. \<exists>b. own (cs ! j) = Some b \<and> (\<exists>l. b_tokens b = Some l \<and> l \<le> tokens (cs ! j)))"
proof -
  have "of_int l - of_int t \<le> (0::rat) \<longleftrightarrow> l \<le> t" for l t by simp
  then show ?thesis
    by (simp only: bex_lefts left_tokens_def ex_map_option fst_conv of_int_diff f_le_Fin)
qed

lemma limits_end_refused_iff:
  "(\<exists>e. limits_end due now turn p = Inl e) \<longleftrightarrow>
   f_le due (Fin now) \<or> f_le (fst (p_cost p)) (Fin 0) \<or> f_le (fst (p_tokens p)) (Fin 0)"
  by (simp add: limits_end_def Let_def)

text \<open>
  A turn is refused exactly where a call above it is over, or spent what cannot be
  counted, or the deadline has come, or some budget above it has no cost or no tokens left.
\<close>

lemma limits_refused_iff:
  assumes "budgets_ok cs"
  shows "(\<exists>e. limits cs i turn now = Inl e) \<longleftrightarrow>
           (\<exists>j\<in>set (above cs i). ended (cs ! j) \<or> \<not> is_finite (cost (cs ! j)) \<or> spent_out (cs ! j)) \<or>
           f_le (deadline (cs ! i)) (Fin now)"
proof (cases "\<exists>j\<in>set (above cs i). ended (cs ! j) \<or> \<not> is_finite (cost (cs ! j))")
  case True
  then have "\<nexists>q. limits_loop cs (above cs i) unlimited = Inr q"
    by (auto simp: limits_loop_Inr_iff)
  then obtain e where "limits_loop cs (above cs i) unlimited = Inl e"
    by (cases "limits_loop cs (above cs i) unlimited") auto
  with True show ?thesis by (auto simp: limits_def)
next
  case False
  then obtain p where p: "limits_loop cs (above cs i) unlimited = Inr p"
    using limits_loop_Inr_iff [of cs "above cs i" unlimited] by blast
  have "pending_of cs (set (above cs i) \<union> {}) p"
    using p pending_of_unlimited
    by (rule limits_loop_pending) (use assms in \<open>auto dest: above_in intro: budgets_okD\<close>)
  then have least: "least (lefts left_cost cs (set (above cs i))) (p_cost p)"
      "least (lefts left_tokens cs (set (above cs i))) (p_tokens p)"
    by (simp_all add: pending_of_def)
  have "f_le (fst (p_cost p)) (Fin 0) \<or> f_le (fst (p_tokens p)) (Fin 0) \<longleftrightarrow>
             (\<exists>j\<in>set (above cs i). spent_out (cs ! j))"
    unfolding least(1) [THEN least_le_iff, OF Fin_not_PInf] least(2) [THEN least_le_iff, OF Fin_not_PInf]
      bex_left_cost bex_left_tokens spent_out_def by blast
  moreover have "(\<exists>e. limits cs i turn now = Inl e) \<longleftrightarrow>
      f_le (deadline (cs ! i)) (Fin now) \<or> f_le (fst (p_cost p)) (Fin 0) \<or>
      f_le (fst (p_tokens p)) (Fin 0)"
    by (simp add: limits_def p limits_end_refused_iff)
  ultimately show ?thesis using False by blast
qed

section \<open>Budgets on an example\<close>

text \<open>A flow given five dollars, a hundred tokens and a hard minute, three dollars spent; and the
  flow it called, given a graceful half minute.\<close>

definition budgeted :: "call list" where
  "budgeted =
     [(call_made None (Some ''a'') 1
        (Some \<lparr>b_duration = Some 60, b_cost = Some (Fin 5), b_tokens = Some 100,
               b_graceful = Each False True True\<rparr>) 0 (Fin 60))\<lparr>cost := Fin 3, tokens := 40\<rparr>,
      call_made (Some 0) (Some ''b'') 2
        (Some \<lparr>b_duration = Some 30, b_cost = None, b_tokens = None, b_graceful = OneFlag True\<rparr>)
        10 (Fin 40)]"

lemma budgeted_above: "above budgeted 0 = [0]" "above budgeted (Suc 0) = [Suc 0, 0]"
  by (simp_all add: budgeted_def call_made_def above.simps)

lemma budgeted_ok: "budgets_ok budgeted"
  by (simp add: budgeted_def budgets_ok_def call_made_def budget_ok_def)

lemma budgeted_limits:
  "limits budgeted (Suc 0) None 20 =
     Inr (\<lparr>l_cost = Some (Fin 2), l_tokens = Some 60, l_deadline = Some (Fin 40),
           l_cost_graceful = True, l_tokens_graceful = True, l_deadline_graceful = True\<rparr>,
          Some (Fin 60))"
  unfolding limits_def budgeted_above
  by (simp add: budgeted_def call_made_def unlimited_def limits_step_def left_cost_def
      left_tokens_def left_until_def graces_def tighten_def tighter_def limits_end_def own_limit_def
      own_cost_def own_tokens_def own_until_def limits_of_def held_to_def f_max_def Let_def)

theorem limits_cost_least_witness:
  "least (with_own (lefts left_cost budgeted {0, 1}) (own_cost None)) (Fin 2, False)"
proof -
  have "set (above budgeted (Suc 0)) = {0, 1}" by (auto simp: budgeted_above)
  then show ?thesis
    using limits_cost_least [OF budgeted_limits budgeted_ok] by (simp add: value_of_def)
qed

theorem limits_tokens_least_witness:
  "least (with_own (lefts left_tokens budgeted {0, 1}) (own_tokens None)) (Fin 60, False)"
proof -
  have "set (above budgeted (Suc 0)) = {0, 1}" by (auto simp: budgeted_above)
  then show ?thesis
    using limits_tokens_least [OF budgeted_limits budgeted_ok] by (simp add: tokens_bound_def)
qed

section \<open>What later states keep\<close>

definition grown :: "call \<Rightarrow> call \<Rightarrow> bool" where
  "grown c c' \<longleftrightarrow>
     parent c' = parent c \<and> own c' = own c \<and> impl c' = impl c \<and> since c' = since c \<and>
     deadline c' = deadline c \<and> depth c' = depth c \<and>
     (ended c \<longrightarrow> ended c') \<and> tokens c \<le> tokens c' \<and>
     (is_finite (cost c') \<longrightarrow> is_finite (cost c) \<and> f_le (cost c) (cost c'))"

lemma is_finite_le_self [simp]: "is_finite x \<Longrightarrow> f_le x x"
  by (cases x) (auto simp: f_le_def)

lemma grown_refl [simp]: "grown c c"
  by (simp add: grown_def)

lemma grown_trans: "grown a b \<Longrightarrow> grown b c \<Longrightarrow> grown a c"
  unfolding grown_def by (auto intro: f_le_trans)

definition later :: "call list \<Rightarrow> call list \<Rightarrow> bool" where
  "later cs cs' \<longleftrightarrow> length cs \<le> length cs' \<and> (\<forall>i<length cs. grown (cs ! i) (cs' ! i))"

lemma later_refl [simp]: "later cs cs"
  by (simp add: later_def)

lemma later_trans: "later a b \<Longrightarrow> later b c \<Longrightarrow> later a c"
  unfolding later_def by (meson grown_trans le_trans less_le_trans)

lemma later_update: "grown (cs ! i) c' \<Longrightarrow> later cs (cs[i := c'])"
  unfolding later_def by (metis eq_imp_le grown_refl length_list_update nth_list_update_eq nth_list_update_neq)

lemma later_append: "later cs (cs @ new)"
  by (auto simp: later_def nth_append)

lemma later_above: "later cs cs' \<Longrightarrow> i < length cs \<Longrightarrow> above cs' i = above cs i"
  by (rule above_cong) (auto simp: later_def grown_def)

definition dues_nested :: "call list \<Rightarrow> bool" where
  "dues_nested cs \<longleftrightarrow>
     (\<forall>i<length cs. deadline (cs ! i) \<noteq> NaN \<and>
        (\<forall>p. parent (cs ! i) = Some p \<longrightarrow>
           p < i \<and> f_le (deadline (cs ! i)) (deadline (cs ! p))))"

lemma dues_nested_above:
  assumes "dues_nested cs" and "j \<in> set (above cs i)"
  shows "f_le (deadline (cs ! i)) (deadline (cs ! j))"
  using assms(2)
proof (induction i rule: less_induct)
  case (less i)
  then have i: "i < length cs" "j = i \<or> (\<exists>p. parent (cs ! i) = Some p \<and> p < i \<and> j \<in> set (above cs p))"
    by (simp_all add: above_mem [of j cs i])
  from i(2) show ?case
  proof
    assume "j = i"
    with i(1) assms(1) show ?thesis by (simp add: dues_nested_def f_le_refl)
  next
    assume "\<exists>p. parent (cs ! i) = Some p \<and> p < i \<and> j \<in> set (above cs p)"
    then obtain p where p: "parent (cs ! i) = Some p" "p < i" "j \<in> set (above cs p)" by blast
    have "f_le (deadline (cs ! i)) (deadline (cs ! p))"
      using assms(1) i(1) p(1) by (simp add: dues_nested_def)
    with less.IH [OF p(2,3)] show ?thesis by (blast intro: f_le_trans)
  qed
qed

lemma spent_out_grown:
  assumes "grown c c'" and "spent_out c"
  shows "spent_out c' \<or> \<not> is_finite (cost c')"
proof (cases "is_finite (cost c')")
  case True
  with assms(1) have g: "own c' = own c" "tokens c \<le> tokens c'" "is_finite (cost c)"
      "f_le (cost c) (cost c')"
    by (simp_all add: grown_def)
  have "f_le (f_sub l (cost c')) (Fin 0)" if "f_le (f_sub l (cost c)) (Fin 0)" for l
    using that g(3,4) True by (cases l; cases "cost c"; cases "cost c'") (auto simp: f_sub_def)
  with g(1,2) assms(2) show ?thesis unfolding spent_out_def by fastforce
qed simp

lemma refused_later:
  assumes "limits cs i turn now = Inl e" and "later cs cs'" and "now \<le> now'"
    and "budgets_ok cs" and "budgets_ok cs'" and "dues_nested cs'"
    and "i \<in> set (above cs' k)" and "i < length cs"
  shows "\<exists>e'. limits cs' k turn' now' = Inl e'"
proof -
  have ab: "above cs' i = above cs i" using assms(2,8) by (rule later_above)
  then have up: "set (above cs i) \<subseteq> set (above cs' k)" using above_trans [OF assms(7)] by simp
  have g: "grown (cs ! j) (cs' ! j)" if "j \<in> set (above cs i)" for j
    using that assms(2) above_in [OF that] by (simp add: later_def)
  have "(\<exists>j\<in>set (above cs i). ended (cs ! j) \<or> \<not> is_finite (cost (cs ! j)) \<or> spent_out (cs ! j)) \<or>
        f_le (deadline (cs ! i)) (Fin now)"
    using assms(1) limits_refused_iff [OF assms(4), of i turn now] by blast
  then show ?thesis
  proof
    assume "\<exists>j\<in>set (above cs i). ended (cs ! j) \<or> \<not> is_finite (cost (cs ! j)) \<or> spent_out (cs ! j)"
    then obtain j where j: "j \<in> set (above cs i)"
        "ended (cs ! j) \<or> \<not> is_finite (cost (cs ! j)) \<or> spent_out (cs ! j)" by blast
    then have "ended (cs' ! j) \<or> \<not> is_finite (cost (cs' ! j)) \<or> spent_out (cs' ! j)"
      using g [OF j(1)] spent_out_grown [OF g [OF j(1)]] unfolding grown_def by blast
    with j(1) up show ?thesis unfolding limits_refused_iff [OF assms(5)] by blast
  next
    assume due: "f_le (deadline (cs ! i)) (Fin now)"
    have "deadline (cs' ! i) = deadline (cs ! i)"
      using assms(2,8) by (simp add: later_def grown_def)
    then have "f_le (deadline (cs' ! k)) (deadline (cs ! i))"
      using dues_nested_above [OF assms(6,7)] by simp
    with due assms(3) have "f_le (deadline (cs' ! k)) (Fin now')"
      by (meson f_le_Fin f_le_trans)
    then show ?thesis unfolding limits_refused_iff [OF assms(5)] by blast
  qed
qed

section \<open>Spending at every call above\<close>

lemma spend_grown:
  "(f_le (Fin 0) u \<or> u = NaN) \<Longrightarrow> 0 \<le> t \<Longrightarrow> grown c (spend u t s c)"
  by (cases "cost c"; cases u) (auto simp: grown_def spend_def f_le_def)

lemma add_later:
  "(f_le (Fin 0) u \<or> u = NaN) \<Longrightarrow> 0 \<le> t \<Longrightarrow> later cs (add i u t s cs)"
  by (auto simp: later_def nth_add spend_grown)

text \<open>What was reported, turn by turn, as the call it was taken in, and what each report said.\<close>

type_synonym report = "nat \<times> pyfloat \<times> int \<times> pyfloat"

definition reported :: "report list \<Rightarrow> call list \<Rightarrow> call list" where
  "reported rs cs = fold (\<lambda>(i, u, t, s). add i u t s) rs cs"

lemma reported_simps [simp]:
  "reported [] cs = cs"
  "reported ((i, u, t, s) # rs) cs = reported rs (add i u t s cs)"
  by (simp_all add: reported_def)

definition under :: "call list \<Rightarrow> nat \<Rightarrow> report \<Rightarrow> bool" where
  "under cs j = (\<lambda>(i, _). j \<in> set (above cs i))"

lemma under_add [simp]: "under (add i u t s cs) = under cs"
  by (simp add: under_def fun_eq_iff)

text \<open>
  After any reports, from whatever turns in whatever order, a call has spent what
  it had and exactly what was reported by the turns of calls it is above, itself among them.
\<close>

theorem reported_rolls_up:
  "j < length cs \<Longrightarrow>
   tokens (reported rs cs ! j) =
     tokens (cs ! j) + (\<Sum>(i, u, t, s) \<leftarrow> filter (under cs j) rs. t) \<and>
   cost (reported rs cs ! j) = fold (\<lambda>(i, u, t, s) c. f_add c u) (filter (under cs j) rs) (cost (cs ! j))"
proof (induction rs arbitrary: cs)
  case Nil
  then show ?case by simp
next
  case (Cons r rs)
  obtain i u t s where r: "r = (i, u, t, s)" by (cases r)
  from Cons.prems have "j < length (add i u t s cs)" by simp
  from Cons.IH [OF this] Cons.prems show ?case
    by (auto simp: r nth_add under_def)
qed

definition two_calls :: "call list" where
  "two_calls = [call_made None (Some ''a'') 1 None 0 PInf, call_made (Some 0) (Some ''b'') 2 None 0 PInf]"

lemma two_calls_above: "above two_calls 0 = [0]" "above two_calls (Suc 0) = [Suc 0, 0]"
  by (simp_all add: two_calls_def call_made_def above.simps)

theorem reported_rolls_up_witness:
  "tokens (reported [(1, Fin 2, 30, Fin 5), (0, Fin 1, 4, Fin 1)] two_calls ! 0) = 34"
proof -
  have "tokens (two_calls ! 0) = 0" "0 < length two_calls"
    by (simp_all add: two_calls_def call_made_def)
  then show ?thesis
    using reported_rolls_up [of 0 two_calls "[(1, Fin 2, 30, Fin 5), (0, Fin 1, 4, Fin 1)]"]
    by (simp add: under_def two_calls_above del: reported_simps)
qed

end
