(* ===== verification/Grants.thy ===== *)
theory Grants
  imports PyString "HOL-Library.Option_ord"
begin

text \<open>
  What an agent or an environment is granted, and what a flow's roles ask:
  \<open>Permission\<close> of \<open>hmz.flows.agents\<close>, \<open>Grant\<close>, \<open>AgentRole\<close> and \<open>EnvRole\<close> of
  \<open>hmz.runtime.flowing.declaring\<close>, and the checks of \<open>hmz.runtime.flowing.engine\<close> that hand a
  callee its views. A refusal keeps its exception and what it names; its wording is left out.
  A capability, a harness and a backend are named by strings, a tool or command line by a number
  that tells it from the others. Grants are interned in the source, so being the same object is
  being equal.
\<close>

section \<open>Permissions\<close>

datatype permission_kind = NOTHING | READ | EVERYTHING

fun rank :: "permission_kind \<Rightarrow> nat" where
  "rank NOTHING = 0"
| "rank READ = 1"
| "rank EVERYTHING = 2"

instantiation permission_kind :: linorder
begin

definition less_eq_permission_kind :: "permission_kind \<Rightarrow> permission_kind \<Rightarrow> bool" where
  "less_eq_permission_kind a b \<longleftrightarrow> rank a \<le> rank b"

definition less_permission_kind :: "permission_kind \<Rightarrow> permission_kind \<Rightarrow> bool" where
  "less_permission_kind a b \<longleftrightarrow> rank a < rank b"

instance
proof
  fix x y z :: permission_kind
  show "(x < y) = (x \<le> y \<and> \<not> y \<le> x)"
    by (auto simp: less_permission_kind_def less_eq_permission_kind_def)
  show "x \<le> x" by (simp add: less_eq_permission_kind_def)
  show "x \<le> y \<Longrightarrow> y \<le> z \<Longrightarrow> x \<le> z" by (simp add: less_eq_permission_kind_def)
  show "x \<le> y \<Longrightarrow> y \<le> x \<Longrightarrow> x = y"
    by (cases x; cases y; simp add: less_eq_permission_kind_def)
  show "x \<le> y \<or> y \<le> x" by (auto simp: less_eq_permission_kind_def)
qed

end

record permission =
  local_kind :: permission_kind
  user_kind :: permission_kind
  system_kind :: permission_kind
  online_kind :: permission_kind

fun kind_of :: "string \<Rightarrow> permission_kind option" where
  "kind_of said =
     (if said = ''none'' then Some NOTHING
      else if said = ''read'' then Some READ
      else if said = ''all'' then Some EVERYTHING
      else None)"

datatype permission_error = NotAKind string | NotNested | OnlineRead

text \<open>\<open>Permission(...)\<close> with \<open>__post_init__\<close>, its fields as they were said.\<close>

definition permission_made ::
    "string \<Rightarrow> string \<Rightarrow> string \<Rightarrow> string \<Rightarrow> permission_error + permission" where
  "permission_made l u s n =
     (case kind_of l of None \<Rightarrow> Inl (NotAKind ''local'') | Some loc \<Rightarrow>
      case kind_of u of None \<Rightarrow> Inl (NotAKind ''user'') | Some usr \<Rightarrow>
      case kind_of s of None \<Rightarrow> Inl (NotAKind ''system'') | Some sys \<Rightarrow>
      case kind_of n of None \<Rightarrow> Inl (NotAKind ''online'') | Some onl \<Rightarrow>
        if \<not> (loc \<ge> usr \<and> usr \<ge> sys) then Inl NotNested
        else if onl = READ then Inl OnlineRead
        else Inr \<lparr>local_kind = loc, user_kind = usr, system_kind = sys, online_kind = onl\<rparr>)"

definition covers :: "permission \<Rightarrow> permission \<Rightarrow> bool" where
  "covers p other \<longleftrightarrow>
     local_kind p \<ge> local_kind other \<and> user_kind p \<ge> user_kind other \<and>
     system_kind p \<ge> system_kind other \<and> online_kind p \<ge> online_kind other"

section \<open>Grants and roles\<close>

record grant =
  capabilities :: "string set"
  permits :: permission
  skills :: "string list"
  tools :: "nat list"
  clis :: "nat list"

datatype refusal_kind =
    CapabilityMissing "string set"
  | PermissionTooNarrow
  | HarnessMismatch
  | ResourceUnmet string
  | MissingRole
  | RequirementError

text \<open>A refusal names the role it is about.\<close>

type_synonym refused = "string \<times> refusal_kind"

text \<open>What a role made of each grant it was offered: \<open>None\<close> where it meets the role.\<close>

type_synonym memo = "(grant \<times> refusal_kind option) list"

record agent_role =
  rname :: string
  required :: bool
  auto :: bool
  harness :: "string option"
  rgrant :: grant
  seen :: memo

record env_role =
  ename :: string
  erequired :: bool
  eauto :: bool
  egrant :: grant
  cpu_count :: int
  memory :: int
  gpu_count :: int
  gpu_memory :: int
  resources :: bool
  eseen :: memo

record agent_driver =
  d_harness :: string
  d_provider :: string
  d_model :: string
  d_effort :: string
  d_capabilities :: "string set"

record env_driver =
  e_backend :: string
  e_capabilities :: "string set"
  e_cpu_count :: int
  e_memory :: int
  e_gpu_count :: int
  e_gpu_memory :: int

record agent_view =
  v_driver :: agent_driver
  v_grant :: grant
  v_role :: string

record env_view =
  ev_driver :: env_driver
  ev_grant :: grant
  ev_role :: string
  ev_chain :: string

text \<open>What a caller passed for an agent role: a view of an agent, one of an outworlder (whose
  source a number names), or neither.\<close>

datatype given = GivenAgent agent_view | GivenPerson nat | GivenOther
datatype handed = HandedAgent agent_view | HandedPerson nat string

definition agent_refusal :: "agent_role \<Rightarrow> grant \<Rightarrow> refusal_kind option" where
  "agent_refusal role g =
     (let lacking = capabilities (rgrant role) - capabilities g in
      if lacking \<noteq> {} then Some (CapabilityMissing lacking)
      else if \<not> covers (permits g) (permits (rgrant role)) then Some PermissionTooNarrow
      else None)"

definition env_refusal :: "env_role \<Rightarrow> grant \<Rightarrow> refusal_kind option" where
  "env_refusal role g =
     (let lacking = capabilities (egrant role) - capabilities g in
      if lacking \<noteq> {} then Some (CapabilityMissing lacking) else None)"

text \<open>The check of a grant through a role's memo: what it came to, and the memo then.\<close>

definition recalled ::
    "(grant \<Rightarrow> refusal_kind option) \<Rightarrow> memo \<Rightarrow> grant \<Rightarrow> refusal_kind option \<times> memo" where
  "recalled fresh memo g =
     (case dict_get memo g of
        Some kept \<Rightarrow> (kept, memo)
      | None \<Rightarrow> (fresh g, dict_put g (fresh g) memo))"

section \<open>Handing a callee its views\<close>

text \<open>\<open>_agent\<close>: the view, or the refusal, and the role with what it now remembers.\<close>

definition agent_given ::
    "bool \<Rightarrow> agent_role \<Rightarrow> given \<Rightarrow> (refused + handed) \<times> agent_role" where
  "agent_given full role given =
     (case given of
        GivenAgent view \<Rightarrow>
          if auto role then (Inl (rname role, CapabilityMissing {}), role)
          else if harness role \<noteq> None \<and> harness role \<noteq> Some (d_harness (v_driver view))
          then (Inl (rname role, HarnessMismatch), role)
          else
            (let g = v_grant view;
                 (refusal, role') =
                   (if g = rgrant role then (None, role)
                    else case recalled (agent_refusal role) (seen role) g of
                           (r, memo') \<Rightarrow> (r, role\<lparr>seen := memo'\<rparr>))
             in case refusal of
                  Some r \<Rightarrow> (Inl (rname role, r), role')
                | None \<Rightarrow>
                    (Inr (HandedAgent
                       \<lparr>v_driver = v_driver view,
                        v_grant = (if full then g\<lparr>tools := tools (rgrant role), clis := clis (rgrant role)\<rparr>
                                   else rgrant role),
                        v_role = rname role\<rparr>), role'))
      | GivenPerson source \<Rightarrow>
          if \<not> auto role \<and> (capabilities (rgrant role) \<noteq> {} \<or> harness role \<noteq> None)
          then (Inl (rname role, CapabilityMissing {}), role)
          else (Inr (HandedPerson source (rname role)), role)
      | GivenOther \<Rightarrow> (Inl (rname role, RequirementError), role))"

text \<open>What \<open>FlowImpl.__call__\<close> does for one agent role: the common case written out, a role
  nobody filled, and \<open>_agent\<close> otherwise. \<open>person\<close> is the run's own outworlder.\<close>

definition agent_filled ::
    "bool \<Rightarrow> nat \<Rightarrow> agent_role \<Rightarrow> given option \<Rightarrow> (refused + handed option) \<times> agent_role" where
  "agent_filled full person role given =
     (case given of
        None \<Rightarrow>
          (if auto role then (Inr (Some (HandedPerson person (rname role))), role)
           else if required role then (Inl (rname role, MissingRole), role)
           else (Inr None, role))
      | Some what \<Rightarrow>
          (case what of
             GivenAgent view \<Rightarrow>
               if \<not> auto role \<and> harness role = None \<and>
                  (v_grant view = rgrant role \<or>
                   (\<not> full \<and> dict_get (seen role) (v_grant view) = Some None))
               then (Inr (Some (HandedAgent
                        \<lparr>v_driver = v_driver view, v_grant = rgrant role, v_role = rname role\<rparr>)), role)
               else (case agent_given full role what of
                       (r, role') \<Rightarrow> (map_sum id Some r, role'))
           | _ \<Rightarrow> (case agent_given full role what of
                       (r, role') \<Rightarrow> (map_sum id Some r, role'))))"

definition meets :: "env_role \<Rightarrow> env_driver \<Rightarrow> refused + unit" where
  "meets role driver =
     (case first_of (\<lambda>(asked, has, what). has < asked)
             [(cpu_count role, e_cpu_count driver, ''CPUs''),
              (memory role, e_memory driver, ''bytes of memory''),
              (gpu_count role, e_gpu_count driver, ''GPUs''),
              (gpu_memory role, e_gpu_memory driver, ''bytes of memory per GPU'')] of
        Some (asked, has, what) \<Rightarrow> Inl (ename role, ResourceUnmet what)
      | None \<Rightarrow> Inr ())"

definition narrowed ::
    "env_role \<Rightarrow> env_driver \<Rightarrow> grant \<Rightarrow> string \<Rightarrow> (refused + env_view) \<times> env_role" where
  "narrowed role driver g chain =
     (let (refusal, role') =
            (if g = egrant role then (None, role)
             else case recalled (env_refusal role) (eseen role) g of
                    (r, memo') \<Rightarrow> (r, role\<lparr>eseen := memo'\<rparr>))
      in case refusal of
           Some r \<Rightarrow> (Inl (ename role, r), role')
         | None \<Rightarrow>
             (res_bind (if resources role then meets role driver else Inr ())
                (\<lambda>_. Inr \<lparr>ev_driver = driver, ev_grant = egrant role, ev_role = ename role,
                          ev_chain = chain\<rparr>), role'))"

definition LOCAL :: string where
  "LOCAL = ''local''"

definition env_given :: "env_role \<Rightarrow> env_view option \<Rightarrow> (refused + env_view) \<times> env_role" where
  "env_given role given =
     (case given of
        None \<Rightarrow> (Inl (ename role, RequirementError), role)
      | Some view \<Rightarrow>
          if eauto role \<and> e_backend (ev_driver view) \<noteq> LOCAL
          then (Inl (ename role, CapabilityMissing {}), role)
          else narrowed role (ev_driver view) (ev_grant view) (ev_chain view))"

text \<open>What \<open>FlowImpl.__call__\<close> does for one environment role; \<open>here\<close> answers for a role the runtime
  fills, with the run's own workspace.\<close>

definition serves_env :: "env_role \<Rightarrow> env_driver \<Rightarrow> refused + unit" where
  "serves_env role driver =
     (let lacking = capabilities (egrant role) - e_capabilities driver in
      if lacking \<noteq> {} then Inl (ename role, CapabilityMissing lacking) else Inr ())"

definition no_permission :: permission where
  "no_permission = \<lparr>local_kind = EVERYTHING, user_kind = READ, system_kind = READ,
                    online_kind = EVERYTHING\<rparr>"

definition here :: "env_driver \<Rightarrow> string \<Rightarrow> env_role \<Rightarrow> (refused + env_view) \<times> env_role" where
  "here driver chain role =
     (let g = \<lparr>capabilities = e_capabilities driver, permits = no_permission, skills = [],
               tools = [], clis = []\<rparr> in
      case (if \<not> capabilities (egrant role) \<subseteq> capabilities g then serves_env role driver
            else Inr ()) of
        Inl r \<Rightarrow> (Inl r, role)
      | Inr _ \<Rightarrow> narrowed role driver g chain)"

definition env_filled ::
    "env_driver \<Rightarrow> string \<Rightarrow> env_role \<Rightarrow> env_view option option \<Rightarrow>
     (refused + env_view option) \<times> env_role" where
  "env_filled workspace chain role given =
     (case given of
        None \<Rightarrow>
          (if eauto role then (case here workspace chain role of (r, role') \<Rightarrow> (map_sum id Some r, role'))
           else if erequired role then (Inl (ename role, MissingRole), role)
           else (Inr None, role))
      | Some what \<Rightarrow>
          (case what of
             Some view \<Rightarrow>
               if \<not> resources role \<and> (\<not> eauto role \<or> e_backend (ev_driver view) = LOCAL) \<and>
                  (ev_grant view = egrant role \<or> dict_get (eseen role) (ev_grant view) = Some None)
               then (Inr (Some \<lparr>ev_driver = ev_driver view, ev_grant = egrant role,
                                ev_role = ename role, ev_chain = ev_chain view\<rparr>), role)
               else (case env_given role what of (r, role') \<Rightarrow> (map_sum id Some r, role'))
           | None \<Rightarrow> (case env_given role what of (r, role') \<Rightarrow> (map_sum id Some r, role'))))"

text \<open>The roles one after the other, the first refusal ending it; a role left unfilled is no view.\<close>

fun fill :: "('r \<Rightarrow> (refused + 'v option) \<times> 'r) \<Rightarrow> 'r list \<Rightarrow> (refused + 'v list) \<times> 'r list" where
  "fill f [] = (Inr [], [])"
| "fill f (role # rest) =
     (case f role of
        (Inl e, role') \<Rightarrow> (Inl e, role' # rest)
      | (Inr v, role') \<Rightarrow>
          (case fill f rest of
             (Inl e, rest') \<Rightarrow> (Inl e, role' # rest')
           | (Inr vs, rest') \<Rightarrow> (Inr (case v of None \<Rightarrow> vs | Some x \<Rightarrow> x # vs), role' # rest')))"

definition LITELLM :: string where
  "LITELLM = ''litellm''"

definition serves :: "agent_role \<Rightarrow> agent_driver \<Rightarrow> refused + unit" where
  "serves role driver =
     (if harness role \<noteq> None \<and> harness role \<noteq> Some (d_harness driver)
      then Inl (rname role, HarnessMismatch)
      else
        (let lacking = capabilities (rgrant role) - d_capabilities driver in
         if lacking \<noteq> {} then Inl (rname role, CapabilityMissing lacking)
         else if clis (rgrant role) \<noteq> [] \<and> d_harness driver = LITELLM
         then Inl (rname role, CapabilityMissing {})
         else Inr ()))"

text \<open>\<open>_given\<close>: the roles as name, whether required and whether the runtime fills them.\<close>

definition given_refused ::
    "(string \<times> bool \<times> bool) list \<Rightarrow> string list \<Rightarrow> refused + unit" where
  "given_refused roles names =
     (case first_some (\<lambda>n. case dict_get roles n of
                             None \<Rightarrow> Some (n, RequirementError)
                           | Some (req, aut) \<Rightarrow> if aut then Some (n, RequirementError) else None) names of
        Some r \<Rightarrow> Inl r
      | None \<Rightarrow>
          (case first_of (\<lambda>(n, req, aut). req \<and> \<not> aut \<and> n \<notin> set names) roles of
             Some (n, _) \<Rightarrow> Inl (n, MissingRole)
           | None \<Rightarrow> Inr ()))"

section \<open>Facts\<close>

lemma covers_refl [simp]: "covers p p"
  by (simp add: covers_def)

lemma covers_trans: "covers p q \<Longrightarrow> covers q r \<Longrightarrow> covers p r"
  by (auto simp: covers_def intro: order_trans)

lemma covers_antisym: "covers p q \<Longrightarrow> covers q p \<Longrightarrow> p = q"
  by (auto simp: covers_def intro!: permission.equality)

definition nested :: "permission \<Rightarrow> bool" where
  "nested p \<longleftrightarrow> local_kind p \<ge> user_kind p \<and> user_kind p \<ge> system_kind p \<and> online_kind p \<noteq> READ"

lemma permission_made_nested: "permission_made l u s n = Inr p \<Longrightarrow> nested p"
  by (auto simp: permission_made_def nested_def split: option.splits if_splits)

text \<open>A grant meets a role's when it has the capabilities and covers the permission.\<close>

definition meets_grant :: "grant \<Rightarrow> grant \<Rightarrow> bool" where
  "meets_grant g asked \<longleftrightarrow>
     capabilities asked \<subseteq> capabilities g \<and> covers (permits g) (permits asked)"

lemma meets_grant_refl [simp]: "meets_grant g g"
  by (simp add: meets_grant_def)

lemma meets_grant_trans: "meets_grant a b \<Longrightarrow> meets_grant b c \<Longrightarrow> meets_grant a c"
  by (auto simp: meets_grant_def intro: covers_trans)

lemma agent_refusal_None_iff: "agent_refusal role g = None \<longleftrightarrow> meets_grant g (rgrant role)"
  by (auto simp: agent_refusal_def meets_grant_def Let_def)


definition memo_ok :: "(grant \<Rightarrow> refusal_kind option) \<Rightarrow> memo \<Rightarrow> bool" where
  "memo_ok fresh memo \<longleftrightarrow> (\<forall>g r. dict_get memo g = Some r \<longrightarrow> r = fresh g)"

lemma memo_ok_Nil [simp, intro]: "memo_ok fresh []"
  by (simp add: memo_ok_def)

lemma recalled_ok:
  assumes "memo_ok fresh memo" and "recalled fresh memo g = (r, memo')"
  shows "r = fresh g" and "memo_ok fresh memo'"
  using assms by (auto simp: recalled_def memo_ok_def split: option.splits if_splits)

lemma agent_refusal_seen [simp]: "agent_refusal (role\<lparr>seen := m\<rparr>) = agent_refusal role"
  by (simp add: agent_refusal_def fun_eq_iff)

lemma env_refusal_seen [simp]: "env_refusal (role\<lparr>eseen := m\<rparr>) = env_refusal role"
  by (simp add: env_refusal_def fun_eq_iff)

section \<open>What a callee is handed\<close>

text \<open>The same without the memo: what a role makes of what it is given, looked at afresh.\<close>

definition agent_afresh :: "bool \<Rightarrow> nat \<Rightarrow> agent_role \<Rightarrow> given option \<Rightarrow> refused + handed option" where
  "agent_afresh full person role given =
     (case given of
        None \<Rightarrow>
          if auto role then Inr (Some (HandedPerson person (rname role)))
          else if required role then Inl (rname role, MissingRole) else Inr None
      | Some (GivenAgent view) \<Rightarrow>
          if auto role then Inl (rname role, CapabilityMissing {})
          else if harness role \<noteq> None \<and> harness role \<noteq> Some (d_harness (v_driver view))
          then Inl (rname role, HarnessMismatch)
          else (case agent_refusal role (v_grant view) of
                  Some r \<Rightarrow> Inl (rname role, r)
                | None \<Rightarrow> Inr (Some (HandedAgent
                    \<lparr>v_driver = v_driver view,
                     v_grant = (if full then (v_grant view)\<lparr>tools := tools (rgrant role),
                                                           clis := clis (rgrant role)\<rparr>
                                else rgrant role),
                     v_role = rname role\<rparr>)))
      | Some (GivenPerson source) \<Rightarrow>
          if \<not> auto role \<and> (capabilities (rgrant role) \<noteq> {} \<or> harness role \<noteq> None)
          then Inl (rname role, CapabilityMissing {})
          else Inr (Some (HandedPerson source (rname role)))
      | Some GivenOther \<Rightarrow> Inl (rname role, RequirementError))"

lemma agent_refusal_own [simp]: "agent_refusal role (rgrant role) = None"
  by (simp add: agent_refusal_None_iff)

lemma agent_given_afresh:
  assumes "memo_ok (agent_refusal role) (seen role)"
  shows "map_sum id Some (fst (agent_given full role what)) = agent_afresh full person role (Some what)"
proof (cases what)
  case (GivenAgent view)
  obtain r memo' where r: "recalled (agent_refusal role) (seen role) (v_grant view) = (r, memo')"
    by (cases "recalled (agent_refusal role) (seen role) (v_grant view)")
  have "r = agent_refusal role (v_grant view)" by (rule recalled_ok(1) [OF assms r])
  with GivenAgent r show ?thesis
    by (simp add: agent_given_def agent_afresh_def Let_def split: option.splits)
next
  case (GivenPerson source)
  then show ?thesis by (simp add: agent_given_def agent_afresh_def)
next
  case GivenOther
  then show ?thesis by (simp add: agent_given_def agent_afresh_def)
qed

lemma agent_given_memo:
  assumes "memo_ok (agent_refusal role) (seen role)"
  shows "memo_ok (agent_refusal role) (seen (snd (agent_given full role what)))"
proof (cases what)
  case (GivenAgent view)
  obtain r memo' where r: "recalled (agent_refusal role) (seen role) (v_grant view) = (r, memo')"
    by (cases "recalled (agent_refusal role) (seen role) (v_grant view)")
  have "memo_ok (agent_refusal role) memo'" by (rule recalled_ok(2) [OF assms r])
  with GivenAgent r assms show ?thesis
    by (simp add: agent_given_def Let_def split: option.splits)
qed (use assms in \<open>simp_all add: agent_given_def\<close>)

lemma seen_meets:
  "memo_ok (agent_refusal role) (seen role) \<Longrightarrow> dict_get (seen role) g = Some None \<Longrightarrow>
   agent_refusal role g = None"
  by (auto simp: memo_ok_def)

text \<open>
  Filling a role through its memo and through the case written out for speed
  comes to what looking at the grant afresh does, and leaves a memo that still tells the truth.
\<close>

theorem agent_filled_afresh:
  assumes "memo_ok (agent_refusal role) (seen role)"
  shows "fst (agent_filled full person role given) = agent_afresh full person role given \<and>
         memo_ok (agent_refusal role) (seen (snd (agent_filled full person role given)))"
proof (cases given)
  case None
  with assms show ?thesis by (simp add: agent_filled_def agent_afresh_def)
next
  case (Some what)
  note slow = agent_given_afresh [OF assms, of full what person] agent_given_memo [OF assms, of full what]
  show ?thesis
  proof (cases what)
    case (GivenAgent view)
    show ?thesis
    proof (cases "\<not> auto role \<and> harness role = None \<and>
        (v_grant view = rgrant role \<or> \<not> full \<and> dict_get (seen role) (v_grant view) = Some None)")
      case True
      then have "agent_refusal role (v_grant view) = None"
        using seen_meets [OF assms] by auto
      with True Some GivenAgent assms show ?thesis
        by (auto simp: agent_filled_def agent_afresh_def)
    next
      case False
      with Some GivenAgent slow show ?thesis
        by (simp only: agent_filled_def option.case given.case if_False)
           (simp add: case_prod_beta)
    qed
  qed (use Some slow in \<open>simp_all add: agent_filled_def case_prod_beta\<close>)
qed

definition coder_role :: agent_role where
  "coder_role =
     \<lparr>rname = ''coder'', required = True, auto = False, harness = None,
      rgrant = \<lparr>capabilities = {''Steering''},
                permits = \<lparr>local_kind = EVERYTHING, user_kind = READ, system_kind = READ,
                           online_kind = NOTHING\<rparr>,
                skills = [], tools = [], clis = []\<rparr>,
      seen = []\<rparr>"

theorem agent_filled_afresh_witness:
  "fst (agent_filled False 0 coder_role (Some GivenOther)) = Inl (''coder'', RequirementError)"
  using agent_filled_afresh [of coder_role False 0 "Some GivenOther"]
  by (simp add: coder_role_def agent_afresh_def)

text \<open>
  C8 (safety). An agent handed to a callee holds what the callee's role declares, and no
  capability and no permission in any scope beyond what the caller held.
\<close>

theorem handed_no_more_than_held:
  assumes "memo_ok (agent_refusal role) (seen role)"
    and "fst (agent_filled full person role (Some (GivenAgent view))) = Inr (Some (HandedAgent v))"
  shows "meets_grant (v_grant v) (rgrant role) \<and> meets_grant (v_grant view) (v_grant v)"
proof -
  have "agent_afresh full person role (Some (GivenAgent view)) = Inr (Some (HandedAgent v))"
    using assms agent_filled_afresh by metis
  then have "agent_refusal role (v_grant view) = None"
    and "v_grant v = (if full then (v_grant view)\<lparr>tools := tools (rgrant role), clis := clis (rgrant role)\<rparr>
                      else rgrant role)"
    by (auto simp: agent_afresh_def split: if_splits option.splits)
  then show ?thesis
    by (auto simp: agent_refusal_None_iff meets_grant_def)
qed

theorem handed_no_more_than_held_witness:
  "\<exists>v. fst (agent_filled False 0 coder_role
          (Some (GivenAgent \<lparr>v_driver = \<lparr>d_harness = ''claude'', d_provider = [], d_model = ''m'',
                                       d_effort = [], d_capabilities = {''Steering''}\<rparr>,
                             v_grant = (rgrant coder_role)\<lparr>capabilities := {''Steering'', ''Goal''}\<rparr>,
                             v_role = ''lead''\<rparr>))) = Inr (Some (HandedAgent v)) \<and>
       meets_grant (v_grant v) (rgrant coder_role)"
proof -
  let ?view = "\<lparr>v_driver = \<lparr>d_harness = ''claude'', d_provider = [], d_model = ''m'',
                           d_effort = [], d_capabilities = {''Steering''}\<rparr>,
                v_grant = (rgrant coder_role)\<lparr>capabilities := {''Steering'', ''Goal''}\<rparr>,
                v_role = ''lead''\<rparr>"
  let ?v = "\<lparr>v_driver = v_driver ?view, v_grant = rgrant coder_role, v_role = ''coder''\<rparr>"
  have "fst (agent_filled False 0 coder_role (Some (GivenAgent ?view))) = Inr (Some (HandedAgent ?v))"
    by (simp add: agent_filled_def agent_given_def recalled_def coder_role_def agent_refusal_def
        Let_def insert_Diff_if)
  then show ?thesis
    using handed_no_more_than_held [of coder_role False 0 ?view ?v] by (auto simp: coder_role_def)
qed




end
