(* ===== verification/Calls.thy ===== *)
theory Calls
  imports Budgets Grants "HOL-Library.Multiset"
begin

text \<open>
  The life of a run's calls: \<open>FlowImpl.__call__\<close>, \<open>Call.hold\<close>, \<open>made\<close>, \<open>unmade\<close>, \<open>arm\<close>, \<open>turning\<close>,
  \<open>_finish\<close>, \<open>_cascade\<close> and \<open>_released\<close> of \<open>hmz.runtime.flowing.engine\<close>. A call's cleanup is a task of
  its own, so it goes on between the steps of other calls: \<open>Starting\<close> before the loop has run it,
  \<open>Releasing\<close> with what it has left to release, the last made first. A release that fails is
  logged and the next one made, so whether it failed is not kept. Cancel counts are per task.
  \<open>DEPTH\<close> bounds how deep flows call flows.
\<close>

section \<open>A run\<close>

datatype cascade = Starting nat | Releasing nat "(nat \<times> resource) list"

text \<open>A temporary copy or scratch directory written into the journal of a run that keeps one.\<close>

record tmp_note =
  t_id :: int
  t_env :: string
  t_kind :: string
  t_name :: string
  t_chain :: string

record run =
  calls :: "call list"
  holding :: "nat set"
  going :: "nat list"
  cascades :: "cascade list"
  released :: "(nat \<times> nat \<times> resource) list"
  cancels :: "nat \<Rightarrow> nat"
  journaling :: bool
  noted :: "tmp_note list"

definition DEPTH :: nat where
  "DEPTH = 64"

abbreviation call_at :: "run \<Rightarrow> nat \<Rightarrow> call" where
  "call_at r i \<equiv> calls r ! i"

definition at_call :: "nat \<Rightarrow> (call \<Rightarrow> call) \<Rightarrow> run \<Rightarrow> run" where
  "at_call i f r = r\<lparr>calls := (calls r)[i := f (call_at r i)]\<rparr>"

definition due_after :: "rat \<Rightarrow> budget option \<Rightarrow> pyfloat \<Rightarrow> pyfloat" where
  "due_after now b above_due =
     (case Option.bind b b_duration of
        None \<Rightarrow> above_due
      | Some d \<Rightarrow> if f_le above_due (Fin (now + d)) then above_due else Fin (now + d))"

text \<open>\<open>run_flow\<close>: the run's own call, above the top.\<close>

definition run_made :: "budget \<Rightarrow> rat \<Rightarrow> bool \<Rightarrow> run" where
  "run_made b now keeps =
     \<lparr>calls = [call_made None None 0 (Some b) now
                 (case b_duration b of None \<Rightarrow> PInf | Some d \<Rightarrow> Fin (now + d))],
      holding = {}, going = [], cascades = [], released = [], cancels = (\<lambda>_. 0),
      journaling = keeps, noted = []\<rparr>"

text \<open>\<open>Call.arm\<close>: the call's own deadline, where it is sooner than the one above it, and the clock of
  the task it runs in.\<close>

definition arm :: "nat \<Rightarrow> nat \<Rightarrow> budget \<Rightarrow> call \<Rightarrow> call" where
  "arm task asked b c =
     (case b_duration b of
        None \<Rightarrow> c
      | Some d \<Rightarrow>
          (let due = Fin (since c + d) in
           if f_le (deadline c) due then c
           else c\<lparr>deadline := due, clock := Some (clock_made task asked (g_duration (graces b)))\<rparr>))"

text \<open>The call put under the one making it: \<open>parent.live\<close>, the run's \<open>live\<close>, and its deadline.\<close>

definition entered ::
    "run \<Rightarrow> nat \<Rightarrow> string \<Rightarrow> budget option \<Rightarrow> rat \<Rightarrow> nat \<Rightarrow> nat \<times> run" where
  "entered r p ref b now task =
     (let i = length (calls r);
          made = call_made (Some p) (Some ref) (depth (call_at r p) + 1) b now (deadline (call_at r p));
          armed = (case b of None \<Rightarrow> made | Some its \<Rightarrow> arm task (cancels r task) its made);
          r = at_call p (\<lambda>c. c\<lparr>live := live c + 1\<rparr>) r
      in (i, r\<lparr>calls := calls r @ [armed], going := going r @ [i]\<rparr>))"

record flow =
  f_ref :: string
  f_full :: bool
  f_roles :: "agent_role list"
  f_eroles :: "env_role list"

datatype refusal = Stopped call_error | Refused refused

text \<open>\<open>FlowImpl.__call__\<close> up to the flow's own function: the calls above looked at, the depth, each
  role filled, and the call entered. \<open>given\<close> and \<open>places\<close> are what the caller passed by role; the
  flow comes back with what its roles remember. A flow that brings skills waits for them before it is
  entered and looks at the calls above again, which is this as of then.\<close>

definition call_flow ::
    "run \<Rightarrow> nat \<Rightarrow> flow \<Rightarrow> (string \<times> given) list \<Rightarrow> (string \<times> env_view option) list \<Rightarrow>
     env_driver \<times> string \<Rightarrow> nat \<Rightarrow> budget option \<Rightarrow> rat \<Rightarrow> nat \<Rightarrow>
     (refusal + (handed list \<times> env_view list \<times> nat \<times> run)) \<times> flow" where
  "call_flow r p f agents envs workspace person b now task =
     (case check (calls r) p of
        Inl e \<Rightarrow> (Inl (Stopped e), f)
      | Inr _ \<Rightarrow>
          if depth (call_at r p) + 1 > DEPTH then (Inl (Stopped FlowDepthExceeded), f)
          else
            (case fill (\<lambda>role. agent_filled (f_full f) person role (dict_get agents (rname role)))
                    (f_roles f) of
               (Inl e, roles) \<Rightarrow> (Inl (Refused e), f\<lparr>f_roles := roles\<rparr>)
             | (Inr views, roles) \<Rightarrow>
                 (case fill (\<lambda>role. env_filled (fst workspace) (snd workspace) role
                                    (dict_get envs (ename role))) (f_eroles f) of
                    (Inl e, eroles) \<Rightarrow> (Inl (Refused e), f\<lparr>f_roles := roles, f_eroles := eroles\<rparr>)
                  | (Inr env_views, eroles) \<Rightarrow>
                      (case entered r p (f_ref f) b now task of
                         (i, r') \<Rightarrow> (Inr (views, env_views, i, r'),
                                     f\<lparr>f_roles := roles, f_eroles := eroles\<rparr>)))))"

section \<open>What a call holds\<close>

definition hold :: "nat \<Rightarrow> nat \<Rightarrow> resource \<Rightarrow> run \<Rightarrow> run" where
  "hold i k x r =
     (case res (call_at r i) of
        None \<Rightarrow> (at_call i (\<lambda>c. c\<lparr>res := Some [(k, x)]\<rparr>) r)\<lparr>holding := insert i (holding r)\<rparr>
      | Some held \<Rightarrow> at_call i (\<lambda>c. c\<lparr>res := Some (dict_put k x held)\<rparr>) r)"

definition made :: "nat \<Rightarrow> nat \<Rightarrow> nat \<Rightarrow> string \<Rightarrow> string \<Rightarrow> string \<Rightarrow> string \<Rightarrow> run \<Rightarrow> run" where
  "made i k driver role kind name chain r =
     (if journaling r
      then r\<lparr>noted := noted r @ [\<lparr>t_id = jid (call_at r i), t_env = role, t_kind = kind, t_name = name,
                                 t_chain = chain\<rparr>]\<rparr>
      else if Made driver kind name \<in> snd ` set (case res (call_at r i) of None \<Rightarrow> [] | Some held \<Rightarrow> held)
      then r
      else hold i k (Made driver kind name) r)"

definition unmade :: "nat \<Rightarrow> nat \<Rightarrow> string \<Rightarrow> string \<Rightarrow> run \<Rightarrow> run" where
  "unmade i driver kind name r =
     (case res (call_at r i) of
        None \<Rightarrow> r
      | Some held \<Rightarrow>
          if held = [] then r
          else at_call i (\<lambda>c. c\<lparr>res := Some (filter (\<lambda>(k, x). x \<noteq> Made driver kind name) held)\<rparr>) r)"

section \<open>Clocks\<close>

definition with_clock :: "(ticking \<Rightarrow> ticking) \<Rightarrow> nat \<Rightarrow> run \<Rightarrow> run" where
  "with_clock f i r =
     (case clock (call_at r i) of
        None \<Rightarrow> r
      | Some k \<Rightarrow>
          (case f (k, cancels r (ctask k)) of
             (k', n) \<Rightarrow> (at_call i (\<lambda>c. c\<lparr>clock := Some k'\<rparr>) r)
                          \<lparr>cancels := (cancels r)(ctask k := n)\<rparr>))"

definition turning :: "nat \<Rightarrow> int \<Rightarrow> run \<Rightarrow> run" where
  "turning i delta r =
     r\<lparr>calls := at_all (above (calls r) i) (\<lambda>c. c\<lparr>clock := map_option (turned delta) (clock c)\<rparr>) (calls r)\<rparr>"

section \<open>A call that is over\<close>

definition lower :: "nat \<Rightarrow> run \<Rightarrow> run" where
  "lower p = at_call p (\<lambda>c. c\<lparr>live := live c - 1\<rparr>)"

text \<open>Whether a call was only waiting for the calls under it.\<close>

definition waited :: "run \<Rightarrow> nat \<Rightarrow> bool" where
  "waited r p \<longleftrightarrow> live (call_at r p) = 0 \<and> ended (call_at r p) \<and> impl (call_at r p) \<noteq> None"

text \<open>\<open>_cascade\<close>, from a call on up, as far as the next thing to release.\<close>

function cascade_from :: "nat \<Rightarrow> run \<Rightarrow> run" where
  "cascade_from n r =
     (case res (call_at r n) of
        Some held \<Rightarrow>
          (at_call n (\<lambda>c. c\<lparr>res := None\<rparr>) r)
             \<lparr>holding := holding r - {n}, cascades := cascades r @ [Releasing n (rev held)]\<rparr>
      | None \<Rightarrow>
          (case parent (call_at r n) of
             None \<Rightarrow> r
           | Some p \<Rightarrow>
               (let r = lower p r in
                if waited r p \<and> p < n then cascade_from p r else r)))"
  by pat_completeness auto
termination by (relation "measure fst") auto

declare cascade_from.simps [simp del]

definition rise :: "nat \<Rightarrow> run \<Rightarrow> run" where
  "rise n r =
     (case parent (call_at r n) of
        None \<Rightarrow> r
      | Some p \<Rightarrow> (let r = lower p r in if waited r p then cascade_from p r else r))"

text \<open>\<open>_finish\<close>: the cascade put in a task of its own.\<close>

definition finish :: "nat \<Rightarrow> run \<Rightarrow> run" where
  "finish n r = r\<lparr>cascades := cascades r @ [Starting n]\<rparr>"

text \<open>The \<open>finally\<close> of \<open>FlowImpl.__call__\<close>.\<close>

definition left_call :: "nat \<Rightarrow> run \<Rightarrow> run" where
  "left_call i r =
     (let r = at_call i (\<lambda>c. c\<lparr>ended := True\<rparr>) r;
          r = r\<lparr>going := remove1 i (going r)\<rparr>;
          r = with_clock stop i r;
          r = lower i r
      in if live (call_at r i) = 0
         then (if res (call_at r i) = None
               then (case parent (call_at r i) of
                       None \<Rightarrow> r
                     | Some p \<Rightarrow> (let r = lower p r in if waited r p then finish p r else r))
               else finish i r)
         else r)"

section \<open>Closing a run\<close>

text \<open>\<open>Run.close\<close>, once the flow's tasks and the cleanups under way are waited for: what is still
  held goes, call by call in the order \<open>holding\<close> is gone through, the last made first.\<close>

definition held_by :: "run \<Rightarrow> nat \<Rightarrow> (nat \<times> nat \<times> resource) list" where
  "held_by r i = (case res (call_at r i) of None \<Rightarrow> [] | Some held \<Rightarrow> map (\<lambda>(k, x). (i, k, x)) held)"

definition close_run :: "nat list \<Rightarrow> run \<Rightarrow> run" where
  "close_run order r =
     (let left = concat (map (held_by r) order) in
      r\<lparr>calls := fold (\<lambda>i cs. cs[i := (cs ! i)\<lparr>res := None\<rparr>]) order (calls r), holding := {},
        released := released r @ rev left\<rparr>)"

section \<open>The steps of a run\<close>

text \<open>Everything the run still holds, is about to release, or has released, by its number.\<close>

definition held_ids :: "call \<Rightarrow> nat multiset" where
  "held_ids c = (case res c of None \<Rightarrow> {#} | Some held \<Rightarrow> mset (map fst held))"

fun cascade_ids :: "cascade \<Rightarrow> nat multiset" where
  "cascade_ids (Starting n) = {#}"
| "cascade_ids (Releasing n xs) = mset (map fst xs)"

definition run_ids :: "run \<Rightarrow> nat multiset" where
  "run_ids r =
     sum_list (map held_ids (calls r)) + sum_list (map cascade_ids (cascades r)) +
     mset (map (fst \<circ> snd) (released r))"

text \<open>
  Everything that happens to a run's calls, one at a time: a turn reports what it spent, a flow is
  called, something is held or let go, a turn starts or ends, a clock's callback runs, a call
  returns or raises, a cleanup starts, releases one thing, or is done with a call, and the run's own
  call ends. A thing held is one no number was given to before, or one the call holds already.
\<close>

inductive run_step :: "run \<Rightarrow> run \<Rightarrow> bool" where
  Spends: "i < length (calls r) \<Longrightarrow> f_le (Fin 0) u \<or> u = NaN \<Longrightarrow> 0 \<le> t \<Longrightarrow>
    run_step r (r\<lparr>calls := add i u t s (calls r)\<rparr>)"
| Called: "p < length (calls r) \<Longrightarrow> (\<forall>its. b = Some its \<longrightarrow> budget_ok its) \<Longrightarrow>
    call_flow r p f agents envs workspace person b now task = (Inr (views, env_views, i, r'), f') \<Longrightarrow>
    run_step r r'"
| Holds: "i < length (calls r) \<Longrightarrow> k \<notin># run_ids r \<or> k \<in># held_ids (call_at r i) \<Longrightarrow>
    run_step r (hold i k x r)"
| Makes: "i < length (calls r) \<Longrightarrow> k \<notin># run_ids r \<Longrightarrow> run_step r (made i k d role kind name chain r)"
| Unmakes: "i < length (calls r) \<Longrightarrow> run_step r (unmade i d kind name r)"
| Turns: "i < length (calls r) \<Longrightarrow> run_step r (turning i delta r)"
| Expires: "i < length (calls r) \<Longrightarrow> run_step r (with_clock (expire (ended (call_at r i))) i r)"
| Fires: "i < length (calls r) \<Longrightarrow> run_step r (with_clock (fire (ended (call_at r i))) i r)"
| Settles: "i < length (calls r) \<Longrightarrow> run_step r (with_clock (snd \<circ> settle) i r)"
| Leaves: "i < length (calls r) \<Longrightarrow> impl (call_at r i) \<noteq> None \<Longrightarrow> \<not> ended (call_at r i) \<Longrightarrow>
    run_step r (left_call i r)"
| Begins: "Starting n \<in> set (cascades r) \<Longrightarrow>
    run_step r (cascade_from n (r\<lparr>cascades := remove1 (Starting n) (cascades r)\<rparr>))"
| Releases: "Releasing n ((k, x) # xs) \<in> set (cascades r) \<Longrightarrow>
    run_step r (r\<lparr>cascades := remove1 (Releasing n ((k, x) # xs)) (cascades r) @ [Releasing n xs],
                 released := released r @ [(n, k, x)]\<rparr>)"
| Rises: "Releasing n [] \<in> set (cascades r) \<Longrightarrow>
    run_step r (rise n (r\<lparr>cascades := remove1 (Releasing n []) (cascades r)\<rparr>))"
| Ends: "run_step r (with_clock stop 0 (at_call 0 (\<lambda>c. c\<lparr>ended := True\<rparr>) r))"

inductive_cases run_stepE: "run_step r r'"

end
