(* ===== verification/Lifecycle.thy ===== *)
theory Lifecycle
  imports Calls
begin

text \<open>
  What the life of a run's calls keeps: a call counts itself, while it is going, and every call under
  it not yet counted out (\<open>counts\<close>); so its cleanup waits for every call under it. What a call
  holds is released once, or is still held where closing the run finds it. And a budget that is
  spent stays spent.
\<close>

section \<open>Counting the calls under a call\<close>

fun cnode :: "cascade \<Rightarrow> nat" where
  "cnode (Starting n) = n"
| "cnode (Releasing n xs) = n"

abbreviation busy :: "run \<Rightarrow> nat set" where
  "busy r \<equiv> cnode ` set (cascades r)"

text \<open>A call is counted out of the one above it once nothing is left of it and its cleanup is over.\<close>

definition counted_out :: "call list \<Rightarrow> nat set \<Rightarrow> nat \<Rightarrow> bool" where
  "counted_out cs B c \<longleftrightarrow> live (cs ! c) = 0 \<and> c \<notin> B"

definition waiting_on :: "call list \<Rightarrow> nat set \<Rightarrow> nat \<Rightarrow> nat set" where
  "waiting_on cs B i = {c. c < length cs \<and> parent (cs ! c) = Some i \<and> \<not> counted_out cs B c}"

definition own_part :: "call \<Rightarrow> int" where
  "own_part c = (if ended c \<and> impl c \<noteq> None then 0 else 1)"

definition counts :: "call list \<Rightarrow> nat set \<Rightarrow> bool" where
  "counts cs B \<longleftrightarrow>
     tree_ok cs \<and> (\<forall>i<length cs. parent (cs ! i) = None \<longleftrightarrow> impl (cs ! i) = None) \<and>
     (\<forall>n\<in>B. n < length cs \<and> live (cs ! n) = 0) \<and>
     (\<forall>i<length cs. live (cs ! i) = own_part (cs ! i) + int (card (waiting_on cs B i)))"

lemma waiting_on_finite [simp]: "finite (waiting_on cs B i)"
  by (simp add: waiting_on_def)

lemma own_part_cases: "own_part c = 0 \<and> ended c \<and> impl c \<noteq> None \<or> own_part c = 1"
  by (simp add: own_part_def)

lemma countsI:
  "tree_ok cs \<Longrightarrow> (\<And>i. i < length cs \<Longrightarrow> parent (cs ! i) = None \<longleftrightarrow> impl (cs ! i) = None) \<Longrightarrow>
   (\<And>n. n \<in> B \<Longrightarrow> n < length cs \<and> live (cs ! n) = 0) \<Longrightarrow>
   (\<And>i. i < length cs \<Longrightarrow> live (cs ! i) = own_part (cs ! i) + int (card (waiting_on cs B i))) \<Longrightarrow>
   counts cs B"
  by (simp add: counts_def)

lemma counts_root: "counts cs B \<Longrightarrow> i < length cs \<Longrightarrow> parent (cs ! i) = None \<longleftrightarrow> impl (cs ! i) = None"
  by (simp add: counts_def)

lemma counts_live:
  "counts cs B \<Longrightarrow> i < length cs \<Longrightarrow>
   live (cs ! i) = own_part (cs ! i) + int (card (waiting_on cs B i))"
  by (simp add: counts_def)

lemma counts_tree: "counts cs B \<Longrightarrow> tree_ok cs"
  by (simp add: counts_def)

lemma counts_busy: "counts cs B \<Longrightarrow> n \<in> B \<Longrightarrow> n < length cs \<and> live (cs ! n) = 0"
  by (simp add: counts_def)

lemma counts_idle:
  assumes "counts cs B" and "i < length cs" and "live (cs ! i) = 0"
  shows "ended (cs ! i)" and "impl (cs ! i) \<noteq> None" and "waiting_on cs B i = {}"
proof -
  have "own_part (cs ! i) = 0 \<and> card (waiting_on cs B i) = 0"
    using counts_live [OF assms(1,2)] assms(3) own_part_cases [of "cs ! i"] by auto
  then show "ended (cs ! i)" "impl (cs ! i) \<noteq> None" "waiting_on cs B i = {}"
    by (auto simp: own_part_def split: if_splits)
qed

lemma counts_nonneg: "counts cs B \<Longrightarrow> i < length cs \<Longrightarrow> 0 \<le> live (cs ! i)"
  using counts_live own_part_cases [of "cs ! i"] by fastforce

lemma counts_child:
  assumes "counts cs B" and "c < length cs" and "parent (cs ! c) = Some p" and "\<not> counted_out cs B c"
  shows "p < c" and "1 \<le> live (cs ! p)"
proof -
  show p: "p < c" using assms(1-3) by (simp add: counts_def tree_ok_def)
  have "c \<in> waiting_on cs B p" using assms by (simp add: waiting_on_def)
  then have "0 < card (waiting_on cs B p)" by (auto simp: card_gt_0_iff)
  then show "1 \<le> live (cs ! p)"
    using counts_live [OF assms(1), of p] p assms(2) own_part_cases [of "cs ! p"] by auto
qed

text \<open>Only who is whose parent, what each counts for itself and its count matter.\<close>

lemma counts_cong:
  assumes "counts cs B" and "length cs' = length cs"
    and same: "\<And>i. i < length cs \<Longrightarrow> parent (cs' ! i) = parent (cs ! i) \<and> live (cs' ! i) = live (cs ! i) \<and>
           own_part (cs' ! i) = own_part (cs ! i) \<and> impl (cs' ! i) = impl (cs ! i)"
  shows "counts cs' B"
proof -
  have w: "waiting_on cs' B i = waiting_on cs B i" for i
    using assms(2) same by (auto simp: waiting_on_def counted_out_def)
  have "tree_ok cs'" using assms(1,2) same by (simp add: counts_def tree_ok_def)
  moreover have "n < length cs' \<and> live (cs' ! n) = 0" if "n \<in> B" for n
    using counts_busy [OF assms(1) that] same assms(2) by simp
  moreover have "live (cs' ! i) = own_part (cs' ! i) + int (card (waiting_on cs' B i))"
    if "i < length cs" for i
    using counts_live [OF assms(1) that] same [OF that] by (simp add: w)
  ultimately show ?thesis
    using counts_root [OF assms(1)] same assms(2) by (intro countsI) simp_all
qed

lemma tree_ok_update:
  "tree_ok cs \<Longrightarrow> parent c' = parent (cs ! i) \<Longrightarrow> tree_ok (cs[i := c'])"
  unfolding tree_ok_def by (metis length_list_update nth_list_update_eq nth_list_update_neq)

lemma parent_update:
  "parent c' = parent (cs ! i) \<Longrightarrow> parent (cs[i := c'] ! j) = parent (cs ! j)"
  by (metis list_update_beyond not_le_imp_less nth_list_update_eq nth_list_update_neq)

lemma impl_update: "impl c' = impl (cs ! i) \<Longrightarrow> impl (cs[i := c'] ! j) = impl (cs ! j)"
  by (metis list_update_beyond not_le_imp_less nth_list_update_eq nth_list_update_neq)

lemma own_update:
  "own_part c' = own_part (cs ! i) \<Longrightarrow> own_part (cs[i := c'] ! j) = own_part (cs ! j)"
  by (metis list_update_beyond not_le_imp_less nth_list_update_eq nth_list_update_neq)

text \<open>A call counted out of the one above it, which is left waiting for nothing or not.\<close>

lemma counts_lower:
  assumes c: "counts cs (insert n B)" and n: "n \<notin> B" and par: "parent (cs ! n) = Some p"
    and cs': "cs' = cs[p := (cs ! p)\<lparr>live := live (cs ! p) - 1\<rparr>]"
  shows "counts cs' (if live (cs' ! p) = 0 then insert p B else B)" and "p \<notin> B" and "p < n"
proof -
  have nl: "n < length cs" "live (cs ! n) = 0" using counts_busy [OF c, of n] by simp_all
  have p: "p < n" "1 \<le> live (cs ! p)"
    using counts_child [OF c nl(1) par] by (simp_all add: counted_out_def)
  show "p < n" by (rule p)
  show pB: "p \<notin> B" using counts_busy [OF c, of p] p by auto
  define B' where B': "B' = (if live (cs' ! p) = 0 then insert p B else B)"
  have live': "live (cs' ! j) = (if j = p then live (cs ! p) - 1 else live (cs ! j))" if "j < length cs" for j
    using that cs' by simp
  have par': "parent (cs' ! j) = parent (cs ! j)" "impl (cs' ! j) = impl (cs ! j)" for j
    unfolding cs' by (rule parent_update impl_update, simp)+
  have own': "own_part (cs' ! j) = own_part (cs ! j)" for j
    unfolding cs' by (rule own_update) (simp add: own_part_def)
  have len: "length cs' = length cs" using cs' by simp
  have out: "counted_out cs' B' j \<longleftrightarrow> counted_out cs (insert n B) j \<or> j = n" if "j < length cs" for j
    using that live' nl p pB n by (auto simp: counted_out_def B')
  have w: "waiting_on cs' B' j = waiting_on cs (insert n B) j - {n}" for j
    using out par' len by (auto simp: waiting_on_def)
  have nw: "n \<in> waiting_on cs (insert n B) j \<longleftrightarrow> j = p" for j
    using nl par by (auto simp: waiting_on_def counted_out_def)
  have L: "live (cs' ! j) = own_part (cs' ! j) + int (card (waiting_on cs' B' j))"
    if j: "j < length cs" for j
  proof (cases "j = p")
    case True
    then have "card (waiting_on cs (insert n B) j) = Suc (card (waiting_on cs' B' j))"
      using nw [of j] card_Suc_Diff1 [of "waiting_on cs (insert n B) j" n] by (simp add: w)
    with counts_live [OF c j] True live' [OF j] own' [of j] show ?thesis by auto
  next
    case False
    then have "waiting_on cs' B' j = waiting_on cs (insert n B) j" using nw [of j] w by auto
    with counts_live [OF c j] False show ?thesis by (simp add: live' own' j)
  qed
  have T: "tree_ok cs'"
    unfolding cs' using counts_tree [OF c] by (rule tree_ok_update) simp
  have M: "m < length cs' \<and> live (cs' ! m) = 0" if "m \<in> B'" for m
    using that counts_busy [OF c, of m] pB p nl len live' by (auto simp: B' split: if_splits)
  show "counts cs' (if live (cs' ! p) = 0 then insert p B else B)"
    unfolding B' [symmetric]
  proof (rule countsI)
    show "tree_ok cs'" by (rule T)
    show "parent (cs' ! k) = None \<longleftrightarrow> impl (cs' ! k) = None" if "k < length cs'" for k
      using counts_root [OF c, of k] that by (simp only: par' len)
    show "k < length cs' \<and> live (cs' ! k) = 0" if "k \<in> B'" for k using that by (rule M)
    show "live (cs' ! k) = own_part (cs' ! k) + int (card (waiting_on cs' B' k))"
      if "k < length cs'" for k
      using that unfolding len by (rule L)
  qed
qed

text \<open>A call that ends stops counting itself.\<close>

lemma counts_end:
  assumes c: "counts cs B" and i: "i < length cs" "\<not> ended (cs ! i)" "impl (cs ! i) \<noteq> None"
    and cs': "cs' = cs[i := (cs ! i)\<lparr>ended := True, live := live (cs ! i) - 1\<rparr>]"
  shows "counts cs' (if live (cs' ! i) = 0 then insert i B else B)" and "i \<notin> B"
proof -
  have one: "own_part (cs ! i) = 1" using i by (simp add: own_part_def)
  then have l: "1 \<le> live (cs ! i)" using counts_live [OF c i(1)] by simp
  show iB: "i \<notin> B" using counts_busy [OF c, of i] l by auto
  define B' where B': "B' = (if live (cs' ! i) = 0 then insert i B else B)"
  have live': "live (cs' ! j) = (if j = i then live (cs ! i) - 1 else live (cs ! j))" if "j < length cs" for j
    using that cs' by simp
  have par': "parent (cs' ! j) = parent (cs ! j)" "impl (cs' ! j) = impl (cs ! j)" for j
    unfolding cs' by (rule parent_update impl_update, simp)+
  have own': "own_part (cs' ! j) = (if j = i then 0 else own_part (cs ! j))" if "j < length cs" for j
    using that cs' i by (cases "j = i") (simp_all add: own_part_def)
  have len: "length cs' = length cs" using cs' by simp
  have w: "waiting_on cs' B' j = waiting_on cs B j" for j
    using live' par' len l i iB by (auto simp: waiting_on_def counted_out_def B' split: if_splits)
  have L: "live (cs' ! j) = own_part (cs' ! j) + int (card (waiting_on cs' B' j))"
    if j: "j < length cs" for j
    using counts_live [OF c j] one w [of j] live' [OF j] own' [OF j] by (cases "j = i") auto
  have T: "tree_ok cs'"
    unfolding cs' using counts_tree [OF c] by (rule tree_ok_update) simp
  have M: "m < length cs' \<and> live (cs' ! m) = 0" if "m \<in> B'" for m
    using that counts_busy [OF c, of m] i iB len live' by (auto simp: B' split: if_splits)
  show "counts cs' (if live (cs' ! i) = 0 then insert i B else B)"
    unfolding B' [symmetric]
  proof (rule countsI)
    show "tree_ok cs'" by (rule T)
    show "parent (cs' ! k) = None \<longleftrightarrow> impl (cs' ! k) = None" if "k < length cs'" for k
      using counts_root [OF c, of k] that by (simp only: par' len)
    show "k < length cs' \<and> live (cs' ! k) = 0" if "k \<in> B'" for k using that by (rule M)
    show "live (cs' ! k) = own_part (cs' ! k) + int (card (waiting_on cs' B' k))"
      if "k < length cs'" for k
      using that unfolding len by (rule L)
  qed
qed

text \<open>A call entered under one that is still going.\<close>

lemma counts_enter:
  assumes c: "counts cs B" and p: "p < length cs" "\<not> ended (cs ! p)"
    and new: "parent new = Some p" "live new = 1" "own_part new = 1" "impl new \<noteq> None"
    and cs': "cs' = cs[p := (cs ! p)\<lparr>live := live (cs ! p) + 1\<rparr>] @ [new]"
  shows "counts cs' B"
proof -
  have "own_part (cs ! p) = 1" using p by (simp add: own_part_def)
  then have l: "1 \<le> live (cs ! p)" using counts_live [OF c p(1)] by simp
  have len: "length cs' = Suc (length cs)" using cs' by simp
  have old: "parent (cs' ! j) = parent (cs ! j)" "impl (cs' ! j) = impl (cs ! j)"
      "own_part (cs' ! j) = own_part (cs ! j)"
      "live (cs' ! j) = (if j = p then live (cs ! p) + 1 else live (cs ! j))" if "j < length cs" for j
  proof -
    let ?c = "(cs ! p)\<lparr>live := live (cs ! p) + 1\<rparr>"
    have at: "cs' ! j = cs[p := ?c] ! j" using that cs' by (simp add: nth_append)
    show "parent (cs' ! j) = parent (cs ! j)" unfolding at by (rule parent_update) simp
    show "impl (cs' ! j) = impl (cs ! j)" unfolding at by (rule impl_update) simp
    show "own_part (cs' ! j) = own_part (cs ! j)"
      unfolding at by (rule own_update) (simp add: own_part_def)
    show "live (cs' ! j) = (if j = p then live (cs ! p) + 1 else live (cs ! j))"
      unfolding at using that by simp
  qed
  have fresh: "cs' ! length cs = new" using cs' by (simp add: nth_append)
  have out: "counted_out cs' B j \<longleftrightarrow> counted_out cs B j" if "j < length cs" for j
    using that old(4) [OF that] l by (auto simp: counted_out_def)
  have nout: "\<not> counted_out cs' B (length cs)" by (simp add: counted_out_def fresh new)
  have tree: "q < j" if "j < length cs" "parent (cs ! j) = Some q" for j q
    using that counts_tree [OF c] by (simp add: tree_ok_def)
  have w: "waiting_on cs' B j = waiting_on cs B j \<union> (if j = p then {length cs} else {})" for j
    using out nout old new fresh len by (auto simp: waiting_on_def less_Suc_eq)
  have notin: "length cs \<notin> waiting_on cs B j" for j by (simp add: waiting_on_def)
  have L: "live (cs' ! j) = own_part (cs' ! j) + int (card (waiting_on cs' B j))" if "j < Suc (length cs)" for j
  proof (cases "j = length cs")
    case True
    have "waiting_on cs B j = {}" using tree True by (fastforce simp: waiting_on_def)
    with True p new show ?thesis by (simp add: fresh w)
  next
    case False
    with that have j: "j < length cs" by simp
    show ?thesis
      using counts_live [OF c j] notin [of j] old [OF j] by (cases "j = p") (auto simp: w)
  qed
  have T: "tree_ok cs'"
    using tree p new by (auto simp: tree_ok_def len less_Suc_eq old fresh)
  have M: "m < length cs' \<and> live (cs' ! m) = 0" if "m \<in> B" for m
    using counts_busy [OF c that] l len old(4) [of m] by auto
  show ?thesis
  proof (rule countsI)
    show "tree_ok cs'" by (rule T)
    show "parent (cs' ! k) = None \<longleftrightarrow> impl (cs' ! k) = None" if "k < length cs'" for k
      using counts_root [OF c, of k] that new old [of k] fresh by (cases "k = length cs") (auto simp: len)
    show "k < length cs' \<and> live (cs' ! k) = 0" if "k \<in> B" for k using that by (rule M)
    show "live (cs' ! k) = own_part (cs' ! k) + int (card (waiting_on cs' B k))"
      if "k < length cs'" for k
      using that unfolding len by (rule L)
  qed
qed

section \<open>The invariant of a run\<close>

definition run_ok :: "run \<Rightarrow> bool" where
  "run_ok r \<longleftrightarrow>
     counts (calls r) (busy r) \<and> distinct (map cnode (cascades r)) \<and>
     holding r = {i. i < length (calls r) \<and> res (call_at r i) \<noteq> None}"

lemma run_okI:
  "counts (calls r) (busy r) \<Longrightarrow> distinct (map cnode (cascades r)) \<Longrightarrow>
   holding r = {i. i < length (calls r) \<and> res (call_at r i) \<noteq> None} \<Longrightarrow> run_ok r"
  by (simp add: run_ok_def)

lemma run_okD:
  assumes "run_ok r"
  shows "counts (calls r) (busy r)" "distinct (map cnode (cascades r))"
    "holding r = {i. i < length (calls r) \<and> res (call_at r i) \<noteq> None}"
  using assms by (simp_all add: run_ok_def)

text \<open>A step that touches nothing the invariant reads of any call.\<close>

definition same_life :: "call \<Rightarrow> call \<Rightarrow> bool" where
  "same_life c c' \<longleftrightarrow>
     parent c' = parent c \<and> live c' = live c \<and> ended c' = ended c \<and> impl c' = impl c"

lemma same_life_own: "same_life c c' \<Longrightarrow> own_part c' = own_part c"
  by (simp add: same_life_def own_part_def)

lemma counts_same:
  assumes "counts cs B" and "length cs' = length cs"
    and "\<And>i. i < length cs \<Longrightarrow> same_life (cs ! i) (cs' ! i)"
  shows "counts cs' B"
  using assms(1,2) by (rule counts_cong)
    (use assms(3) in \<open>simp add: same_life_own\<close>, simp add: same_life_def)

lemma run_ok_same:
  assumes "run_ok r" and "length (calls r') = length (calls r)"
    and "\<And>i. i < length (calls r) \<Longrightarrow>
           same_life (call_at r i) (call_at r' i) \<and> (res (call_at r' i) = None) = (res (call_at r i) = None)"
    and "cascades r' = cascades r" and "holding r' = holding r"
  shows "run_ok r'"
proof (rule run_okI)
  show "counts (calls r') (busy r')"
    unfolding assms(4) using run_okD(1) [OF assms(1)] assms(2)
    by (rule counts_same) (use assms(3) in blast)
  show "distinct (map cnode (cascades r'))" using run_okD(2) [OF assms(1)] assms(4) by simp
  show "holding r' = {i. i < length (calls r') \<and> res (call_at r' i) \<noteq> None}"
    unfolding assms(2,5) run_okD(3) [OF assms(1)]
    by (intro Collect_cong conj_cong refl) (use assms(3) in simp)
qed

lemma at_call_simps [simp]:
  "length (calls (at_call i f r)) = length (calls r)" "cascades (at_call i f r) = cascades r"
  "holding (at_call i f r) = holding r" "released (at_call i f r) = released r"
  "cancels (at_call i f r) = cancels r" "going (at_call i f r) = going r"
  by (simp_all add: at_call_def)

lemma nth_at_call [simp]:
  "j < length (calls r) \<Longrightarrow> call_at (at_call i f r) j = (if j = i then f (call_at r j) else call_at r j)"
  by (simp add: at_call_def)

lemma run_ok_fields [simp]:
  "run_ok (r\<lparr>cancels := x\<rparr>) = run_ok r" "run_ok (r\<lparr>noted := n\<rparr>) = run_ok r"
  "run_ok (r\<lparr>going := g\<rparr>) = run_ok r" "run_ok (r\<lparr>released := s\<rparr>) = run_ok r"
  by (simp_all add: run_ok_def)

lemma run_ok_at_call:
  assumes "run_ok r" and "same_life (call_at r i) (f (call_at r i))"
    and "(res (f (call_at r i)) = None) = (res (call_at r i) = None)"
  shows "run_ok (at_call i f r)"
  using assms(1) by (rule run_ok_same) (use assms(2,3) in \<open>auto simp: same_life_def\<close>)

lemma run_ok_with_clock: "run_ok r \<Longrightarrow> run_ok (with_clock f i r)"
  by (auto simp: with_clock_def same_life_def intro!: run_ok_at_call split: option.splits prod.splits)

lemma run_ok_turning: "run_ok r \<Longrightarrow> run_ok (turning i delta r)"
  by (rule run_ok_same)
     (auto simp: turning_def same_life_def nth_at_all above_distinct)

lemma run_ok_spend: "run_ok r \<Longrightarrow> run_ok (r\<lparr>calls := add i u t s (calls r)\<rparr>)"
  by (rule run_ok_same) (auto simp: same_life_def nth_add spend_def)

lemma run_ok_unmade: "run_ok r \<Longrightarrow> run_ok (unmade i d kind name r)"
  by (auto simp: unmade_def same_life_def intro!: run_ok_at_call split: option.splits)

lemma run_ok_hold:
  assumes "run_ok r" and "i < length (calls r)"
  shows "run_ok (hold i k x r)"
proof (cases "res (call_at r i)")
  case None
  let ?r = "hold i k x r"
  show ?thesis
  proof (rule run_okI)
    show "counts (calls ?r) (busy ?r)"
      using counts_same [OF run_okD(1) [OF assms(1)], of "calls ?r"] None
      by (simp add: hold_def same_life_def)
    show "distinct (map cnode (cascades ?r))"
      using run_okD(2) [OF assms(1)] None by (simp add: hold_def)
    show "holding ?r = {i. i < length (calls ?r) \<and> res (call_at ?r i) \<noteq> None}"
      using run_okD(3) [OF assms(1)] None assms(2) by (auto simp: hold_def)
  qed
next
  case (Some held)
  with assms(1) show ?thesis
    by (auto simp: hold_def same_life_def intro!: run_ok_at_call)
qed

lemma run_ok_made: "run_ok r \<Longrightarrow> i < length (calls r) \<Longrightarrow> run_ok (made i k d role kind name chain r)"
  by (simp add: made_def run_ok_hold)

section \<open>Cleanups keep it\<close>

text \<open>A run in the middle of a cascade's step: one call is about to be released or counted out.\<close>

definition open_at :: "nat \<Rightarrow> run \<Rightarrow> bool" where
  "open_at n r \<longleftrightarrow>
     counts (calls r) (insert n (busy r)) \<and> n \<notin> busy r \<and> distinct (map cnode (cascades r)) \<and>
     holding r = {i. i < length (calls r) \<and> res (call_at r i) \<noteq> None}"

lemma lower_simps [simp]:
  "length (calls (lower p r)) = length (calls r)" "cascades (lower p r) = cascades r"
  "holding (lower p r) = holding r" "released (lower p r) = released r"
  by (simp_all add: lower_def)

lemma calls_lower: "calls (lower p r) = (calls r)[p := (call_at r p)\<lparr>live := live (call_at r p) - 1\<rparr>]"
  by (simp add: lower_def at_call_def)

lemma res_lower: "j < length (calls r) \<Longrightarrow> res (call_at (lower p r) j) = res (call_at r j)"
  by (simp add: lower_def)

lemma holding_lower:
  "{i. i < length (calls (lower p r)) \<and> res (call_at (lower p r) i) \<noteq> None} =
   {i. i < length (calls r) \<and> res (call_at r i) \<noteq> None}"
  by (auto simp: res_lower)

lemma counts_waited:
  "counts (calls r) B \<Longrightarrow> p < length (calls r) \<Longrightarrow> waited r p \<longleftrightarrow> live (call_at r p) = 0"
  using counts_idle [of "calls r" B p] by (auto simp: waited_def)

lemma open_at_parent:
  assumes "open_at n r"
  obtains p where "parent (call_at r n) = Some p" "p < n"
    "waited (lower p r) p \<Longrightarrow> open_at p (lower p r)" "\<not> waited (lower p r) p \<Longrightarrow> run_ok (lower p r)"
proof -
  have c: "counts (calls r) (insert n (busy r))" "n \<notin> busy r" "distinct (map cnode (cascades r))"
      "holding r = {i. i < length (calls r) \<and> res (call_at r i) \<noteq> None}"
    using assms by (simp_all add: open_at_def)
  have n: "n < length (calls r)" "live (call_at r n) = 0" using counts_busy [OF c(1)] by simp_all
  then obtain p where p: "parent (call_at r n) = Some p"
    using counts_idle(2) [OF c(1) n] counts_root [OF c(1) n(1)] by auto
  note low = counts_lower [OF c(1,2) p calls_lower]
  have pl: "p < length (calls (lower p r))" using low(3) n(1) by simp
  have w: "waited (lower p r) p \<longleftrightarrow> live (call_at (lower p r) p) = 0"
    using low(1) pl by (rule counts_waited)
  have h: "holding (lower p r) = {i. i < length (calls (lower p r)) \<and> res (call_at (lower p r) i) \<noteq> None}"
    unfolding holding_lower by (simp only: lower_simps c(4))
  show thesis
  proof
    show "parent (call_at r n) = Some p" "p < n" by fact (rule low(3))
    show "open_at p (lower p r)" if "waited (lower p r) p"
      using low(1,2) that w c(3) h by (simp only: open_at_def lower_simps if_True simp_thms)
    show "run_ok (lower p r)" if "\<not> waited (lower p r) p"
      using low(1) that w c(3) h by (simp only: run_ok_def lower_simps if_False simp_thms)
  qed
qed

lemma open_cascade: "open_at n r \<Longrightarrow> run_ok (cascade_from n r)"
proof (induction n arbitrary: r rule: less_induct)
  case (less n)
  have c: "counts (calls r) (insert n (busy r))" "n \<notin> busy r" "distinct (map cnode (cascades r))"
      "holding r = {i. i < length (calls r) \<and> res (call_at r i) \<noteq> None}"
    using less.prems by (simp_all add: open_at_def)
  show ?case
  proof (cases "res (call_at r n)")
    case (Some held)
    let ?r = "cascade_from n r"
    have r': "?r = (at_call n (\<lambda>c. c\<lparr>res := None\<rparr>) r)
        \<lparr>holding := holding r - {n}, cascades := cascades r @ [Releasing n (rev held)]\<rparr>"
      by (subst cascade_from.simps) (simp add: Some)
    show ?thesis
    proof (rule run_okI)
      show "counts (calls ?r) (busy ?r)"
        using counts_same [OF c(1), of "calls ?r"] by (simp add: r' same_life_def)
      show "distinct (map cnode (cascades ?r))" using c(2,3) by (auto simp: r')
      show "holding ?r = {i. i < length (calls ?r) \<and> res (call_at ?r i) \<noteq> None}"
      proof (rule set_eqI)
        fix j
        show "j \<in> holding ?r \<longleftrightarrow> j \<in> {i. i < length (calls ?r) \<and> res (call_at ?r i) \<noteq> None}"
          by (cases "j = n"; cases "j < length (calls r)") (simp_all add: r' c(4))
      qed
    qed
  next
    case None
    obtain p where p: "parent (call_at r n) = Some p" "p < n"
        "waited (lower p r) p \<Longrightarrow> open_at p (lower p r)" "\<not> waited (lower p r) p \<Longrightarrow> run_ok (lower p r)"
      using open_at_parent [OF less.prems] by metis
    have "cascade_from n r = (if waited (lower p r) p then cascade_from p (lower p r) else lower p r)"
      using p(2) by (subst cascade_from.simps) (simp add: None p(1) Let_def)
    with p(2-4) less.IH show ?thesis by simp
  qed
qed

lemma open_rise:
  assumes "open_at n r"
  shows "run_ok (rise n r)"
proof -
  obtain p where p: "parent (call_at r n) = Some p"
      "waited (lower p r) p \<Longrightarrow> open_at p (lower p r)" "\<not> waited (lower p r) p \<Longrightarrow> run_ok (lower p r)"
    using open_at_parent [OF assms] by metis
  then show ?thesis by (simp add: rise_def Let_def open_cascade)
qed

lemma remove_cascade:
  assumes "run_ok r" and "x \<in> set (cascades r)"
  shows "open_at (cnode x) (r\<lparr>cascades := remove1 x (cascades r)\<rparr>)"
proof -
  have d: "distinct (map cnode (cascades r))" using assms(1) by (rule run_okD)
  then have dc: "distinct (cascades r)" and inj: "inj_on cnode (set (cascades r))"
    by (simp_all add: distinct_map)
  have s: "set (remove1 x (cascades r)) = set (cascades r) - {x}" using dc by simp
  have "cnode x \<notin> cnode ` set (remove1 x (cascades r))"
    using inj assms(2) by (auto simp: s inj_on_def)
  moreover have "insert (cnode x) (cnode ` set (remove1 x (cascades r))) = busy r"
    using assms(2) by (auto simp: s)
  moreover have "distinct (map cnode (remove1 x (cascades r)))"
    using dc inj by (auto simp: distinct_map s intro: inj_on_subset)
  ultimately show ?thesis using assms(1) by (simp add: open_at_def run_ok_def)
qed

lemma finish_open: "open_at n r \<Longrightarrow> run_ok (finish n r)"
  by (auto simp: open_at_def run_ok_def finish_def)

lemma run_ok_left:
  assumes "run_ok r" and "i < length (calls r)" and "impl (call_at r i) \<noteq> None" and "\<not> ended (call_at r i)"
  shows "run_ok (left_call i r)"
proof -
  let ?ovr = "\<lambda>c. c\<lparr>ended := True, live := live c - 1\<rparr>"
  define r1 where "r1 = lower i (with_clock stop i ((at_call i (\<lambda>c. c\<lparr>ended := True\<rparr>) r)\<lparr>going := remove1 i (going r)\<rparr>))"
  have len: "length (calls r1) = length (calls r)"
    by (simp add: r1_def with_clock_def split: option.splits prod.splits)
  have same: "same_life ((calls r)[i := ?ovr (call_at r i)] ! j) (call_at r1 j) \<and>
      res (call_at r1 j) = res (call_at r j)" if "j < length (calls r)" for j
    using that assms(2)
    by (auto simp: r1_def with_clock_def same_life_def lower_def split: option.splits prod.splits)
  have casc: "cascades r1 = cascades r" "holding r1 = holding r"
    by (simp_all add: r1_def with_clock_def split: option.splits prod.splits)
  note ok = run_okD [OF assms(1)]
  have hold: "holding r1 = {j. j < length (calls r1) \<and> res (call_at r1 j) \<noteq> None}"
    unfolding casc len ok(3) using same by auto
  let ?B = "if live (call_at r1 i) = 0 then insert i (busy r) else busy r"
  have live_eq: "live (call_at r1 i) = live ((calls r)[i := ?ovr (call_at r i)] ! i)"
    using same [OF assms(2)] by (simp add: same_life_def)
  have iB: "i \<notin> busy r" using counts_end(2) [OF ok(1) assms(2,4,3) refl] .
  have "counts ((calls r)[i := ?ovr (call_at r i)]) ?B"
    unfolding live_eq by (rule counts_end(1) [OF ok(1) assms(2,4,3) refl])
  then have c: "counts (calls r1) ?B"
    by (rule counts_same) (use same len in simp_all)
  have left_eq: "left_call i r =
      (if live (call_at r1 i) = 0
       then (if res (call_at r1 i) = None
             then (case parent (call_at r1 i) of
                     None \<Rightarrow> r1
                   | Some p \<Rightarrow> (let r = lower p r1 in if waited r p then finish p r else r))
             else finish i r1)
       else r1)"
    by (simp only: left_call_def r1_def Let_def at_call_simps)
  show ?thesis
  proof (cases "live (call_at r1 i) = 0")
    case False
    then show ?thesis
      using c casc hold ok(2) by (simp add: left_eq run_ok_def)
  next
    case True
    then have o: "open_at i r1"
      using c iB hold ok(2) casc by (simp add: open_at_def)
    obtain p where p: "parent (call_at r1 i) = Some p"
        "waited (lower p r1) p \<Longrightarrow> open_at p (lower p r1)" "\<not> waited (lower p r1) p \<Longrightarrow> run_ok (lower p r1)"
      using open_at_parent [OF o] by metis
    show ?thesis
      using True p o by (simp add: left_eq Let_def finish_open)
  qed
qed

lemma call_flow_entered:
  assumes "call_flow r p f agents envs workspace person b now task = (Inr (views, env_views, i, r'), f')"
  shows "check (calls r) p = Inr ()" and "depth (call_at r p) + 1 \<le> DEPTH"
    and "(i, r') = entered r p (f_ref f) b now task"
  using assms
  by (auto simp: call_flow_def split: sum.splits if_splits prod.splits)

lemma arm_keeps [simp]:
  "parent (arm task n b c) = parent c" "live (arm task n b c) = live c" "ended (arm task n b c) = ended c"
  "impl (arm task n b c) = impl c" "res (arm task n b c) = res c" "own (arm task n b c) = own c"
  "since (arm task n b c) = since c" "cost (arm task n b c) = cost c" "tokens (arm task n b c) = tokens c"
  "depth (arm task n b c) = depth c"
  by (simp_all add: arm_def Let_def split: option.splits)

definition entered_call :: "run \<Rightarrow> nat \<Rightarrow> string \<Rightarrow> budget option \<Rightarrow> rat \<Rightarrow> nat \<Rightarrow> call" where
  "entered_call r p ref b now task =
     (let made = call_made (Some p) (Some ref) (depth (call_at r p) + 1) b now (deadline (call_at r p))
      in case b of None \<Rightarrow> made | Some its \<Rightarrow> arm task (cancels r task) its made)"

lemma entered_call_fields [simp]:
  "parent (entered_call r p ref b now task) = Some p" "live (entered_call r p ref b now task) = 1"
  "ended (entered_call r p ref b now task) = False" "impl (entered_call r p ref b now task) = Some ref"
  "res (entered_call r p ref b now task) = None" "own (entered_call r p ref b now task) = b"
  "since (entered_call r p ref b now task) = now"
  "depth (entered_call r p ref b now task) = depth (call_at r p) + 1"
  by (simp_all add: entered_call_def call_made_def Let_def split: option.splits)

lemma entered_run:
  assumes "(i, r') = entered r p ref b now task"
  shows "i = length (calls r)"
    and "calls r' = (calls r)[p := (call_at r p)\<lparr>live := live (call_at r p) + 1\<rparr>] @
                    [entered_call r p ref b now task]"
    and "cascades r' = cascades r" and "holding r' = holding r" and "released r' = released r"
  using assms by (simp_all add: entered_def entered_call_def at_call_def Let_def)

lemma run_ok_entered:
  assumes "run_ok r" and "p < length (calls r)" and "check (calls r) p = Inr ()"
    and "(i, r') = entered r p ref b now task"
  shows "run_ok r'"
proof (rule run_okI)
  note e = entered_run [OF assms(4)]
  note ok = run_okD [OF assms(1)]
  have "\<not> ended (call_at r p)" using assms(2,3) above_self [OF assms(2)] by (simp add: check_Inr_iff)
  then show "counts (calls r') (busy r')"
    unfolding e(3)
    by (rule counts_enter [OF ok(1) assms(2) _ _ _ _ _ e(2)]) (simp_all add: own_part_def)
  show "distinct (map cnode (cascades r'))" using ok(2) by (simp add: e(3))
  show "holding r' = {j. j < length (calls r') \<and> res (call_at r' j) \<noteq> None}"
    unfolding e(4) ok(3)
  proof (rule set_eqI)
    fix j
    show "j \<in> {j. j < length (calls r) \<and> res (call_at r j) \<noteq> None} \<longleftrightarrow>
          j \<in> {j. j < length (calls r') \<and> res (call_at r' j) \<noteq> None}"
      by (cases "j < length (calls r)"; cases "j = p") (simp_all add: e(2) nth_append less_Suc_eq)
  qed
qed

lemma run_ok_made_run: "run_ok (run_made b now keeps)"
proof -
  have none: "waiting_on [c] {} i = {}" if "parent c = None" for c i
  proof -
    have "\<not> (x < length [c] \<and> parent ([c] ! x) = Some i \<and> \<not> counted_out [c] {} x)" for x
      using that by (cases x) simp_all
    then show ?thesis unfolding waiting_on_def by blast
  qed
  have "counts (calls (run_made b now keeps)) {}"
    by (rule countsI) (simp_all add: run_made_def call_made_def tree_ok_def own_part_def none)
  moreover have "{j. j < length (calls (run_made b now keeps)) \<and> res (call_at (run_made b now keeps) j) \<noteq> None} = {}"
  proof -
    have "\<not> (j < length (calls (run_made b now keeps)) \<and> res (call_at (run_made b now keeps) j) \<noteq> None)" for j
      by (cases j) (simp_all add: run_made_def call_made_def)
    then show ?thesis by blast
  qed
  moreover have "cascades (run_made b now keeps) = []" "holding (run_made b now keeps) = {}"
    by (simp_all add: run_made_def)
  ultimately show ?thesis by (simp only: run_ok_def) simp
qed

lemma run_ok_releases:
  assumes "run_ok r" and "Releasing n ((k, x) # xs) \<in> set (cascades r)"
  shows "run_ok (r\<lparr>cascades := remove1 (Releasing n ((k, x) # xs)) (cascades r) @ [Releasing n xs],
                   released := released r @ [(n, k, x)]\<rparr>)"
  using remove_cascade [OF assms] by (auto simp: open_at_def run_ok_def)

lemma run_ok_top: "run_ok r \<Longrightarrow> impl (call_at r 0) = None \<Longrightarrow> 0 < length (calls r) \<Longrightarrow>
  run_ok (at_call 0 (\<lambda>c. c\<lparr>ended := True\<rparr>) r)"
proof -
  assume a: "run_ok r" "impl (call_at r 0) = None" "0 < length (calls r)"
  let ?r = "at_call 0 (\<lambda>c. c\<lparr>ended := True\<rparr>) r"
  have "counts (calls ?r) (busy r)"
    using run_okD(1) [OF a(1)] by (rule counts_cong) (use a(2) in \<open>auto simp: own_part_def\<close>)
  moreover have "holding ?r = {j. j < length (calls ?r) \<and> res (call_at ?r j) \<noteq> None}"
  proof (rule set_eqI)
    fix j
    show "j \<in> holding ?r \<longleftrightarrow> j \<in> {j. j < length (calls ?r) \<and> res (call_at ?r j) \<noteq> None}"
      by (cases "j = 0"; cases "j < length (calls r)") (simp_all add: run_okD(3) [OF a(1)])
  qed
  ultimately show "run_ok ?r" using run_okD(2) [OF a(1)] by (simp add: run_ok_def)
qed

text \<open>The run's own call stays the first and no flow's.\<close>

definition topped :: "run \<Rightarrow> bool" where
  "topped r \<longleftrightarrow> 0 < length (calls r) \<and> impl (call_at r 0) = None"

section \<open>Every step keeps it, and only adds to what was\<close>

lemma later_at_call: "grown (call_at r i) (f (call_at r i)) \<Longrightarrow> later (calls r) (calls (at_call i f r))"
  unfolding at_call_def by (simp add: later_update)

lemma later_lower: "later (calls r) (calls (lower p r))"
  unfolding lower_def by (rule later_at_call) (simp add: grown_def)

lemma later_cascade: "later (calls r) (calls (cascade_from n r))"
proof (induction n r rule: cascade_from.induct)
  case (1 n r)
  show ?case
  proof (cases "res (call_at r n)")
    case (Some held)
    then show ?thesis
      by (subst cascade_from.simps) (simp, rule later_at_call, simp add: grown_def)
  next
    case None
    then show ?thesis
      using 1 [OF None _ refl] later_lower [of r]
      by (subst cascade_from.simps) (auto simp: Let_def split: option.splits intro: later_trans)
  qed
qed

lemma later_rise: "later (calls r) (calls (rise n r))"
  using later_trans [OF later_lower later_cascade] later_lower
  by (auto simp: rise_def Let_def split: option.splits)

lemma later_with_clock: "later (calls r) (calls (with_clock f i r))"
  by (auto simp: with_clock_def grown_def intro!: later_at_call split: option.splits prod.splits)

lemma later_hold: "later (calls r) (calls (hold i k x r))"
  by (auto simp: hold_def grown_def intro!: later_at_call split: option.splits)

lemma later_left: "later (calls r) (calls (left_call i r))"
proof -
  let ?r1 = "(at_call i (\<lambda>c. c\<lparr>ended := True\<rparr>) r)\<lparr>going := remove1 i (going r)\<rparr>"
  have "later (calls r) (calls ?r1)" by (simp, rule later_at_call, simp add: grown_def)
  then have l: "later (calls r) (calls (lower i (with_clock stop i ?r1)))"
    by (blast intro: later_trans later_with_clock later_lower)
  have fin: "calls (finish n s) = calls s" for n s by (simp add: finish_def)
  show ?thesis
    using l later_lower
    by (auto simp: left_call_def Let_def fin split: option.splits intro: later_trans)
qed

lemma later_entered:
  assumes "(i, r') = entered r p ref b now task"
  shows "later (calls r) (calls r')"
proof -
  have "later (calls r) ((calls r)[p := (call_at r p)\<lparr>live := live (call_at r p) + 1\<rparr>])"
    by (rule later_update) (simp add: grown_def)
  then show ?thesis unfolding entered_run(2) [OF assms] by (blast intro: later_trans later_append)
qed

lemma run_step_later: "run_step r r' \<Longrightarrow> later (calls r) (calls r')"
proof (induction rule: run_step.induct)
  case (Spends i r u t s)
  then show ?case by (simp add: add_later)
next
  case (Called p r b f agents envs workspace person now task views env_views i r' f')
  then show ?case by (blast intro: later_entered call_flow_entered(3))
next
  case (Makes i r k d role kind name chain)
  then show ?case by (simp add: made_def later_hold)
next
  case (Unmakes i r d kind name)
  then show ?case by (auto simp: unmade_def grown_def intro!: later_at_call split: option.splits)
next
  case (Turns i r delta)
  then show ?case by (auto simp: turning_def later_def nth_at_all above_distinct grown_def)
next
  case (Begins n r)
  then show ?case using later_cascade [of "r\<lparr>cascades := remove1 (Starting n) (cascades r)\<rparr>" n] by simp
next
  case (Rises n r)
  then show ?case using later_rise [of "r\<lparr>cascades := remove1 (Releasing n []) (cascades r)\<rparr>" n] by simp
next
  case (Ends r)
  have "later (calls r) (calls (at_call 0 (\<lambda>c. c\<lparr>ended := True\<rparr>) r))"
    by (rule later_at_call) (simp add: grown_def)
  then show ?case by (blast intro: later_trans later_with_clock)
qed (simp_all add: later_hold later_with_clock later_left)

lemma topped_later: "topped r \<Longrightarrow> later (calls r) (calls r') \<Longrightarrow> topped r'"
  by (auto simp: topped_def later_def grown_def)

lemma run_step_ok: "run_step r r' \<Longrightarrow> run_ok r \<Longrightarrow> topped r \<Longrightarrow> run_ok r'"
proof (induction rule: run_step.induct)
  case (Called p r b f agents envs workspace person now task views env_views i r' f')
  then show ?case by (blast intro: run_ok_entered call_flow_entered)
next
  case (Begins n r)
  then show ?case using remove_cascade [of r "Starting n"] by (simp add: open_cascade)
next
  case (Rises n r)
  then show ?case using remove_cascade [of r "Releasing n []"] by (simp add: open_rise)
next
  case (Releases n k x xs r)
  then show ?case by (intro run_ok_releases)
next
  case (Ends r)
  then show ?case by (auto simp: topped_def intro!: run_ok_with_clock run_ok_top)
qed (simp_all add: run_ok_spend run_ok_hold run_ok_made run_ok_unmade run_ok_turning
      run_ok_with_clock run_ok_left)

definition reachable :: "run \<Rightarrow> bool" where
  "reachable r \<longleftrightarrow> (\<exists>b now keeps. budget_ok b \<and> run_step\<^sup>*\<^sup>* (run_made b now keeps) r)"

lemma reachable_start: "budget_ok b \<Longrightarrow> reachable (run_made b now keeps)"
  by (auto simp: reachable_def)

lemma reachable_step: "reachable r \<Longrightarrow> run_step r r' \<Longrightarrow> reachable r'"
  by (auto simp: reachable_def intro: rtranclp.rtrancl_into_rtrancl)

lemma reachable_induct [consumes 1, case_names start step]:
  assumes "reachable r" and "\<And>b now keeps. budget_ok b \<Longrightarrow> q (run_made b now keeps)"
    and "\<And>r r'. reachable r \<Longrightarrow> q r \<Longrightarrow> run_step r r' \<Longrightarrow> q r'"
  shows "q r"
proof -
  obtain b now keeps where b: "budget_ok b" "run_step\<^sup>*\<^sup>* (run_made b now keeps) r"
    using assms(1) by (auto simp: reachable_def)
  from b(2) show ?thesis
  proof (induction rule: rtranclp_induct)
    case base
    show ?case using b(1) by (rule assms(2))
  next
    case (step y z)
    have "reachable y" using b(1) step(1) by (auto simp: reachable_def)
    from this step(3,2) show ?case by (rule assms(3))
  qed
qed

lemma reachable_ok: "reachable r \<Longrightarrow> run_ok r \<and> topped r"
proof (induction rule: reachable_induct)
  case (start b now keeps)
  then show ?case by (simp add: run_ok_made_run) (simp add: topped_def run_made_def call_made_def)
next
  case (step r r')
  then show ?case using run_step_ok topped_later run_step_later by blast
qed

section \<open>Cleanup waits for every call under a call\<close>

lemma counts_below:
  assumes "counts cs B" and "live (cs ! n) = 0" and "n \<in> set (above cs j)"
  shows "live (cs ! j) = 0"
  using assms(3)
proof (induction j rule: less_induct)
  case (less j)
  then have j: "j < length cs" "n = j \<or> (\<exists>p. parent (cs ! j) = Some p \<and> p < j \<and> n \<in> set (above cs p))"
    by (simp_all add: above_mem [of n cs j])
  from j(2) show ?case
  proof
    assume "n = j"
    with assms(2) show ?thesis by simp
  next
    assume "\<exists>p. parent (cs ! j) = Some p \<and> p < j \<and> n \<in> set (above cs p)"
    then obtain p where p: "parent (cs ! j) = Some p" "p < j" "n \<in> set (above cs p)" by blast
    then have "live (cs ! p) = 0" using less.IH by blast
    then have "waiting_on cs B p = {}" using counts_idle(3) [OF assms(1)] p j(1) by simp
    with j(1) p(1) show ?thesis by (auto simp: waiting_on_def counted_out_def)
  qed
qed

text \<open>
  C2 (safety). However the calls of a run, what they hold and their cleanups interleave, a call's
  cleanup is under way only once the call and every call under it, however deep, is over.
\<close>

theorem cleanup_waits_for_callees:
  assumes "reachable r" and "x \<in> set (cascades r)" and "cnode x \<in> set (above (calls r) j)"
  shows "ended (call_at r j)"
proof -
  have c: "counts (calls r) (busy r)" using reachable_ok [OF assms(1)] by (simp add: run_ok_def)
  have "live (call_at r (cnode x)) = 0" using counts_busy [OF c] assms(2) by simp
  then have "live (call_at r j) = 0" by (rule counts_below [OF c _ assms(3)])
  moreover have "j < length (calls r)" using assms(3) above_mem by blast
  ultimately show ?thesis using counts_idle(1) [OF c] by blast
qed

section \<open>A spent budget stays spent\<close>

lemma later_steps: "run_step\<^sup>*\<^sup>* r r' \<Longrightarrow> later (calls r) (calls r')"
  by (induction rule: rtranclp_induct) (auto intro: later_trans run_step_later)

text \<open>What holds of the budgets and deadlines of every call.\<close>

definition dues_ok :: "run \<Rightarrow> bool" where
  "dues_ok r \<longleftrightarrow>
     budgets_ok (calls r) \<and> dues_nested (calls r) \<and>
     (\<forall>i<length (calls r). \<forall>x\<in>lefts left_until (calls r) {i}. f_le (deadline (call_at r i)) (fst x))"

lemma lefts_cong:
  "(\<And>i. i \<in> is \<Longrightarrow> own (cs' ! i) = own (cs ! i) \<and> since (cs' ! i) = since (cs ! i)) \<Longrightarrow>
   lefts left_until cs' is = lefts left_until cs is"
  by (auto simp: lefts_def left_until_def)

lemma dues_ok_due:
  assumes "dues_ok r" and "i < length (calls r)"
  shows "due_ok (calls r) i"
  unfolding due_ok_def
proof (intro conjI ballI)
  show "deadline (call_at r i) \<noteq> NaN" using assms by (simp add: dues_ok_def dues_nested_def)
  fix x assume "x \<in> lefts left_until (calls r) (set (above (calls r) i))"
  then obtain j where j: "j \<in> set (above (calls r) i)" "x \<in> lefts left_until (calls r) {j}"
    by (auto simp: lefts_def)
  have "f_le (deadline (call_at r j)) (fst x)"
    using assms(1) j above_in [OF j(1)] by (simp add: dues_ok_def)
  moreover have "f_le (deadline (call_at r i)) (deadline (call_at r j))"
    using assms(1) j(1) by (auto simp: dues_ok_def intro: dues_nested_above)
  ultimately show "f_le (deadline (call_at r i)) (fst x)" by (blast intro: f_le_trans)
qed

lemma dues_ok_later:
  assumes "dues_ok r" and "later (calls r) (calls r')" and "length (calls r') = length (calls r)"
  shows "dues_ok r'"
proof -
  have g: "own (call_at r' i) = own (call_at r i)" "since (call_at r' i) = since (call_at r i)"
      "deadline (call_at r' i) = deadline (call_at r i)" "parent (call_at r' i) = parent (call_at r i)"
    if "i < length (calls r)" for i
    using assms(2) that by (simp_all add: later_def grown_def)
  have "budgets_ok (calls r')"
    unfolding budgets_ok_def
  proof (intro ballI allI impI)
    fix c b assume c: "c \<in> set (calls r')" "own c = Some b"
    then obtain i where "i < length (calls r)" "c = call_at r' i"
      by (metis assms(3) in_set_conv_nth)
    with g(1) c(2) assms(1) show "budget_ok b" by (auto simp: dues_ok_def intro: budgets_okD)
  qed
  moreover have "dues_nested (calls r')"
    unfolding dues_nested_def
  proof (intro allI impI conjI)
    fix i assume i: "i < length (calls r')"
    then show "deadline (call_at r' i) \<noteq> NaN"
      using assms(1,3) g by (simp add: dues_ok_def dues_nested_def)
    fix p assume "parent (call_at r' i) = Some p"
    with i assms(1,3) g have "p < i" and d: "f_le (deadline (call_at r i)) (deadline (call_at r p))"
      by (simp_all add: dues_ok_def dues_nested_def)
    then show "p < i" by simp
    with d i assms(3) g show "f_le (deadline (call_at r' i)) (deadline (call_at r' p))" by simp
  qed
  moreover have "lefts left_until (calls r') {i} = lefts left_until (calls r) {i}"
    if "i < length (calls r)" for i
    using that by (intro lefts_cong) (simp add: g)
  ultimately show ?thesis using assms(1,3) g by (simp add: dues_ok_def)
qed

lemma arm_deadline:
  "deadline (arm task n b c) =
     (case b_duration b of None \<Rightarrow> deadline c
      | Some d \<Rightarrow> if f_le (deadline c) (Fin (since c + d)) then deadline c else Fin (since c + d))"
  by (simp add: arm_def Let_def split: option.splits)

lemma entered_call_deadline:
  "deadline (entered_call r p ref b now task) =
     (case b of None \<Rightarrow> deadline (call_at r p)
      | Some its \<Rightarrow>
          (case b_duration its of None \<Rightarrow> deadline (call_at r p)
           | Some d \<Rightarrow> if f_le (deadline (call_at r p)) (Fin (now + d)) then deadline (call_at r p)
                       else Fin (now + d)))"
  by (simp add: entered_call_def Let_def arm_deadline call_made_def split: option.splits)

lemma entered_call_due:
  assumes "deadline (call_at r p) \<noteq> NaN"
  shows "f_le (deadline (entered_call r p ref b now task)) (deadline (call_at r p))"
    and "b = Some its \<Longrightarrow> b_duration its = Some d \<Longrightarrow>
         f_le (deadline (entered_call r p ref b now task)) (Fin (now + d))"
proof -
  have le: "f_le (Fin s) (deadline (call_at r p))" if "\<not> f_le (deadline (call_at r p)) (Fin s)" for s
    using that assms by (cases "deadline (call_at r p)") (auto simp: f_le_def)
  show "f_le (deadline (entered_call r p ref b now task)) (deadline (call_at r p))"
    using assms le by (simp add: entered_call_deadline f_le_refl split: option.splits)
  show "b = Some its \<Longrightarrow> b_duration its = Some d \<Longrightarrow>
         f_le (deadline (entered_call r p ref b now task)) (Fin (now + d))"
    by (simp add: entered_call_deadline)
qed

lemma dues_ok_entered:
  assumes "dues_ok r" and "p < length (calls r)" and "\<forall>its. b = Some its \<longrightarrow> budget_ok its"
    and e: "(i, r') = entered r p ref b now task"
  shows "dues_ok r'"
proof -
  let ?n = "length (calls r)"
  let ?new = "entered_call r p ref b now task"
  define r1 where "r1 = r\<lparr>calls := (calls r)[p := (call_at r p)\<lparr>live := live (call_at r p) + 1\<rparr>]\<rparr>"
  have r1: "dues_ok r1"
    using assms(1) by (rule dues_ok_later) (auto simp: r1_def grown_def intro!: later_update)
  have len: "length (calls r1) = ?n" by (simp add: r1_def)
  have c: "calls r' = calls r1 @ [?new]" using entered_run(2) [OF e] by (simp add: r1_def)
  have at: "call_at r' j = call_at r1 j" if "j < ?n" for j using that len by (simp add: c nth_append)
  have at_new: "call_at r' ?n = ?new" using len by (simp add: c nth_append)
  have dp: "deadline (call_at r1 p) = deadline (call_at r p)" using assms(2) by (simp add: r1_def)
  have num: "deadline (call_at r p) \<noteq> NaN" using assms(1,2) by (simp add: dues_ok_def dues_nested_def)
  note due = entered_call_due [OF num]
  have num': "deadline ?new \<noteq> NaN" using due(1) by (metis f_le_NaN(1))
  have "budgets_ok (calls r')"
    using r1 assms(3) by (auto simp: c budgets_ok_def dues_ok_def)
  moreover have "dues_nested (calls r')"
    unfolding dues_nested_def
  proof (intro allI impI)
    fix j assume "j < length (calls r')"
    then consider "j < ?n" | "j = ?n" using len by (auto simp: c less_Suc_eq)
    then show "deadline (call_at r' j) \<noteq> NaN \<and>
        (\<forall>q. parent (call_at r' j) = Some q \<longrightarrow>
             q < j \<and> f_le (deadline (call_at r' j)) (deadline (call_at r' q)))"
    proof cases
      case 1
      then show ?thesis using r1 len at by (auto simp: dues_ok_def dues_nested_def)
    next
      case 2
      then show ?thesis using num' due(1) assms(2) by (auto simp: at_new at dp)
    qed
  qed
  moreover have "\<forall>x\<in>lefts left_until (calls r') {j}. f_le (deadline (call_at r' j)) (fst x)"
    if "j < length (calls r')" for j
  proof -
    from that consider "j < ?n" | "j = ?n" using len by (auto simp: c less_Suc_eq)
    then show ?thesis
    proof cases
      case 1
      then have "lefts left_until (calls r') {j} = lefts left_until (calls r1) {j}"
        by (intro lefts_cong) (simp add: at)
      with 1 r1 len at show ?thesis by (simp add: dues_ok_def)
    next
      case 2
      then show ?thesis using due(2) by (auto simp: at_new lefts_def left_until_def)
    qed
  qed
  ultimately show ?thesis by (simp add: dues_ok_def)
qed

lemma length_cascade [simp]: "length (calls (cascade_from n r)) = length (calls r)"
proof (induction n r rule: cascade_from.induct)
  case (1 n r)
  then show ?case
    by (subst cascade_from.simps) (simp add: Let_def split: option.splits)
qed

lemma length_rise [simp]: "length (calls (rise n r)) = length (calls r)"
  by (simp add: rise_def Let_def split: option.splits)

lemma length_with_clock [simp]: "length (calls (with_clock f i r)) = length (calls r)"
  by (simp add: with_clock_def split: option.splits prod.splits)

lemma length_hold [simp]: "length (calls (hold i k x r)) = length (calls r)"
  by (simp add: hold_def split: option.splits)

lemma length_left [simp]: "length (calls (left_call i r)) = length (calls r)"
  by (simp add: left_call_def finish_def Let_def split: option.splits)

lemma run_step_length:
  "run_step r r' \<Longrightarrow>
   length (calls r') = length (calls r) \<or>
   (\<exists>p ref b now task i. p < length (calls r) \<and> (\<forall>its. b = Some its \<longrightarrow> budget_ok its) \<and>
      check (calls r) p = Inr () \<and> depth (call_at r p) + 1 \<le> DEPTH \<and>
      (i, r') = entered r p ref b now task)"
proof (induction rule: run_step.induct)
  case (Called p r b f agents envs workspace person now task views env_views i r' f')
  then show ?case using call_flow_entered [OF Called(3)] by blast
qed (simp_all add: made_def unmade_def turning_def split: option.splits)

lemma dues_ok_step: "run_step r r' \<Longrightarrow> dues_ok r \<Longrightarrow> dues_ok r'"
  using run_step_length [of r r'] run_step_later [of r r'] dues_ok_later [of r r']
    dues_ok_entered [of r] by blast

lemma reachable_dues: "reachable r \<Longrightarrow> dues_ok r"
proof (induction rule: reachable_induct)
  case (start b now keeps)
  have "deadline (call_at (run_made b now keeps) 0) =
      (case b_duration b of None \<Rightarrow> PInf | Some d \<Rightarrow> Fin (now + d))"
    by (simp add: run_made_def call_made_def)
  then show ?case
    using start
    by (auto simp: dues_ok_def dues_nested_def budgets_ok_def run_made_def call_made_def lefts_def
        left_until_def split: option.splits)
next
  case (step r r')
  then show ?case by (blast intro: dues_ok_step)
qed

text \<open>
  C3 (safety). In any state a run can reach, whatever the budgets over a turn and its own, and
  however graceful and hard ones mix, the turn is stopped no later than the soonest of the hard
  deadlines among them: by its driver, or by the engine where the driver was handed a sooner
  graceful one.
\<close>

theorem turns_hold_hard_deadlines:
  assumes "reachable r" and "i < length (calls r)" and "limits (calls r) i turn now = Inr out"
    and "(v, True) \<in> with_own (lefts left_until (calls r) (set (above (calls r) i))) (own_until now turn)"
  shows "f_le (stops_by out) v"
proof -
  have d: "dues_ok r" using assms(1) by (rule reachable_dues)
  then have "budgets_ok (calls r)" by (simp add: dues_ok_def)
  with assms(3,4) dues_ok_due [OF d assms(2)] show ?thesis
    by (blast intro: limits_hold_hard_deadlines)
qed

definition a_budget :: budget where
  "a_budget = \<lparr>b_duration = Some 60, b_cost = Some (Fin 5), b_tokens = None, b_graceful = Each False True True\<rparr>"

lemma a_budget_ok: "budget_ok a_budget"
  by (simp add: a_budget_def budget_ok_def)

lemma a_run_above: "above (calls (run_made a_budget 0 False)) 0 = [0]"
  by (simp add: run_made_def call_made_def above.simps)

lemma a_run_limits:
  "limits (calls (run_made a_budget 0 False)) 0
     (Some \<lparr>b_duration = Some 9, b_cost = None, b_tokens = None, b_graceful = OneFlag True\<rparr>) 10 =
     Inr (\<lparr>l_cost = Some (Fin 5), l_tokens = None, l_deadline = Some (Fin 19), l_cost_graceful = True,
           l_tokens_graceful = True, l_deadline_graceful = True\<rparr>, Some (Fin 60))"
  unfolding limits_def a_run_above
  by (simp add: run_made_def a_budget_def call_made_def unlimited_def limits_step_def left_cost_def
      left_tokens_def left_until_def graces_def tighten_def tighter_def limits_end_def own_limit_def
      own_cost_def own_tokens_def own_until_def limits_of_def held_to_def f_max_def Let_def)

theorem turns_hold_hard_deadlines_witness:
  "\<exists>out. limits (calls (run_made a_budget 0 False)) 0
     (Some \<lparr>b_duration = Some 9, b_cost = None, b_tokens = None, b_graceful = OneFlag True\<rparr>) 10 = Inr out \<and>
     f_le (stops_by out) (Fin 60)"
proof -
  have "(Fin 60, True) \<in> lefts left_until (calls (run_made a_budget 0 False)) {0}"
    by (simp add: lefts_def run_made_def call_made_def left_until_def graces_def a_budget_def)
  moreover have "0 < length (calls (run_made a_budget 0 False))" by (simp add: run_made_def)
  ultimately show ?thesis
    using turns_hold_hard_deadlines [OF reachable_start [OF a_budget_ok] _ a_run_limits, of "Fin 60"]
      a_run_limits
    by (auto simp: a_run_above with_own_def own_until_def)
qed

text \<open>
  C1 (safety). A spent budget is sticky: once a turn of a call was refused -- a budget over it spent,
  its deadline past, a spend nobody can count, a call above it over -- then after any steps of the
  run, every turn of that call and of every call under it, now or made later, is refused too.
\<close>

theorem refusals_stick:
  assumes "reachable r" and "i < length (calls r)" and "limits (calls r) i turn now = Inl e"
    and "run_step\<^sup>*\<^sup>* r r'" and "now \<le> now'" and "i \<in> set (above (calls r') k)"
  shows "\<exists>e'. limits (calls r') k turn' now' = Inl e'"
proof -
  have "reachable r'" using assms(4,1) by (induction rule: rtranclp_induct) (auto intro: reachable_step)
  then have "dues_ok r'" "dues_ok r" using assms(1) by (blast intro: reachable_dues)+
  then show ?thesis
    using refused_later [OF assms(3) later_steps [OF assms(4)] assms(5) _ _ _ assms(6,2)]
    by (simp add: dues_ok_def)
qed

theorem refusals_stick_witness:
  "\<exists>e. limits (calls (run_made a_budget 0 False)) 0 None 61 = Inl e"
proof -
  have "limits (calls (run_made a_budget 0 False)) 0 None 60 = Inl DurationExceeded"
    unfolding limits_def a_run_above
    by (simp add: run_made_def call_made_def a_budget_def limits_end_def)
  from refusals_stick [OF reachable_start [OF a_budget_ok] _ this rtranclp.rtrancl_refl, of 61 0]
  show ?thesis by (simp add: a_run_above) (simp add: run_made_def)
qed

text \<open>
  C5 (error). In any state a run can reach, a turn is refused exactly where a call above it is over,
  or spent what cannot be counted, or the deadline has come, or some budget above it has no cost or
  no tokens left.
\<close>

theorem turns_refused_exactly:
  assumes "reachable r"
  shows "(\<exists>e. limits (calls r) i turn now = Inl e) \<longleftrightarrow>
           (\<exists>j\<in>set (above (calls r) i).
              ended (call_at r j) \<or> \<not> is_finite (cost (call_at r j)) \<or> spent_out (call_at r j)) \<or>
           f_le (deadline (call_at r i)) (Fin now)"
proof -
  have "budgets_ok (calls r)" using reachable_dues [OF assms] by (simp add: dues_ok_def)
  then show ?thesis by (rule limits_refused_iff)
qed

theorem turns_refused_exactly_witness:
  "\<exists>e. limits (calls (run_made a_budget 0 False)) 0 None 61 = Inl e"
proof -
  have "f_le (deadline (call_at (run_made a_budget 0 False) 0)) (Fin 61)"
    by (simp add: run_made_def call_made_def a_budget_def)
  then show ?thesis
    using turns_refused_exactly [OF reachable_start [OF a_budget_ok], of 0 False 0 None 61] by blast
qed

section \<open>How deep flows call flows\<close>

text \<open>
  A call stands one deeper than the one that made it, and no call deeper than \<open>DEPTH\<close>.
\<close>

theorem depth_bounded:
  assumes "reachable r" and "i < length (calls r)"
  shows "depth (call_at r i) \<le> DEPTH \<and>
         (\<forall>p. parent (call_at r i) = Some p \<longrightarrow> depth (call_at r i) = depth (call_at r p) + 1)"
  using assms
proof (induction arbitrary: i rule: reachable_induct)
  case (start b now keeps)
  then show ?case by (simp add: run_made_def call_made_def)
next
  case (step r r')
  have tree: "tree_ok (calls r)"
    using reachable_ok [OF step(1)] by (auto simp: run_ok_def intro: counts_tree)
  have old: "depth (call_at r' j) = depth (call_at r j)" "parent (call_at r' j) = parent (call_at r j)"
    if "j < length (calls r)" for j
    using run_step_later [OF step(2)] that by (simp_all add: later_def grown_def)
  have up: "q < length (calls r)" if "j < length (calls r)" "parent (call_at r j) = Some q" for j q
    using tree that by (fastforce simp: tree_ok_def)
  show ?case
  proof (cases "i < length (calls r)")
    case True
    with step(3) old up show ?thesis by metis
  next
    case False
    then obtain p ref b now task n where e: "p < length (calls r)" "depth (call_at r p) + 1 \<le> DEPTH"
        "(n, r') = entered r p ref b now task"
      using run_step_length [OF step(2)] step(4) by auto
    note c = entered_run(2) [OF e(3)]
    from False step(4) have "i = length (calls r)" by (simp add: c)
    then have "call_at r' i = entered_call r p ref b now task" by (simp add: c nth_append)
    with e old show ?thesis by simp
  qed
qed

section \<open>A run on an example\<close>

definition a_flow :: flow where
  "a_flow = \<lparr>f_ref = ''a:flow'', f_full = False, f_roles = [], f_eroles = []\<rparr>"

definition a_run :: run where
  "a_run = run_made a_budget 0 False"

definition called_run :: run where
  "called_run = snd (entered a_run 0 ''a:flow'' None 1 0)"

definition over_run :: run where
  "over_run = left_call 1 (hold 1 7 Opened called_run)"

lemma called_run_step: "run_step a_run called_run"
proof -
  have check: "check (calls a_run) 0 = Inr ()"
    by (simp add: check_Inr_iff a_run_above a_run_def) (simp add: run_made_def call_made_def)
  have depth: "depth (call_at a_run 0) = 0" by (simp add: a_run_def run_made_def call_made_def)
  have "call_flow a_run 0 a_flow [] [] (undefined, []) 0 None 1 0 =
      (Inr ([], [], fst (entered a_run 0 ''a:flow'' None 1 0), called_run), a_flow)"
    by (simp add: call_flow_def check depth DEPTH_def a_flow_def called_run_def case_prod_beta)
  then show ?thesis by (rule run_step.Called [rotated 2]) (simp_all add: a_run_def run_made_def)
qed

lemma called_run_eq:
  "calls called_run =
     [(call_made None None 0 (Some a_budget) 0 (Fin 60))\<lparr>live := 2\<rparr>,
      call_made (Some 0) (Some ''a:flow'') 1 None 1 (Fin 60)]"
  "cascades called_run = []" "holding called_run = {}" "released called_run = []"
  by (simp_all add: called_run_def a_run_def entered_def at_call_def run_made_def call_made_def
      a_budget_def Let_def)

lemma over_run_reachable: "reachable over_run"
proof -
  have r0: "reachable a_run" unfolding a_run_def by (rule reachable_start) (rule a_budget_ok)
  have r1: "reachable called_run" using r0 called_run_step by (rule reachable_step)
  have r2: "reachable (hold 1 7 Opened called_run)"
    using r1 by (rule reachable_step) (rule run_step.Holds, simp_all add: called_run_eq run_ids_def held_ids_def call_made_def)
  show ?thesis
    unfolding over_run_def using r2
    by (rule reachable_step)
       (rule run_step.Leaves, simp_all add: hold_def called_run_eq call_made_def)
qed

lemma over_run_starting: "Starting 1 \<in> set (cascades over_run)" "above (calls over_run) 1 = [1, 0]"
proof -
  have "cascades over_run = [Starting 1] \<and> map parent (calls over_run) = [None, Some 0]"
    by (simp add: over_run_def hold_def left_call_def with_clock_def lower_def at_call_def finish_def
        called_run_eq call_made_def Let_def)
  then have over: "cascades over_run = [Starting 1]" "map parent (calls over_run) = [None, Some 0]"
    by blast+
  have len: "length (calls over_run) = 2" using arg_cong [OF over(2), of length] by simp
  have par: "parent (call_at over_run 1) = Some 0" "parent (call_at over_run 0) = None"
    using arg_cong [OF over(2), of "\<lambda>ps. ps ! 1"] arg_cong [OF over(2), of "\<lambda>ps. ps ! 0"] len
    by simp_all
  show "Starting 1 \<in> set (cascades over_run)" using over(1) by simp
  show "above (calls over_run) 1 = [1, 0]"
    using above_parent [OF _ par(1)] above_top [OF _ par(2)] len by simp
qed

theorem cleanup_waits_for_callees_witness: "ended (call_at over_run 1)"
  using cleanup_waits_for_callees [OF over_run_reachable over_run_starting(1), of 1]
  by (simp only: over_run_starting(2) cnode.simps list.set insert_iff simp_thms)

theorem depth_bounded_witness: "depth (call_at over_run 1) \<le> 64"
proof -
  have "1 \<in> set (above (calls over_run) 1)" by (simp only: over_run_starting(2)) simp
  then have "1 < length (calls over_run)" using above_in by blast
  then show ?thesis
    using depth_bounded [OF over_run_reachable, of 1] by (simp add: DEPTH_def)
qed

section \<open>Nothing is released twice, and nothing is left\<close>

lemma sum_update:
  fixes f :: "'a \<Rightarrow> 'b multiset"
  assumes "i < length xs"
  shows "sum_list (map f (xs[i := y])) + f (xs ! i) = sum_list (map f xs) + f y"
  using assms
proof (induction xs arbitrary: i)
  case Nil
  then show ?case by simp
next
  case (Cons x xs)
  then show ?case by (cases i) (auto simp: add_ac)
qed

lemma sum_remove1:
  fixes f :: "'a \<Rightarrow> 'b multiset"
  shows "x \<in> set xs \<Longrightarrow> sum_list (map f (remove1 x xs)) + f x = sum_list (map f xs)"
  by (induction xs) (auto simp: add_ac)

definition calls_ids :: "call list \<Rightarrow> nat multiset" where
  "calls_ids cs = sum_list (map held_ids cs)"

lemma run_ids_parts:
  "run_ids r = calls_ids (calls r) + sum_list (map cascade_ids (cascades r)) +
     mset (map (fst \<circ> snd) (released r))"
  by (simp add: run_ids_def calls_ids_def)

lemma calls_ids_same:
  assumes "length cs' = length cs" and "\<And>i. i < length cs \<Longrightarrow> res (cs' ! i) = res (cs ! i)"
  shows "calls_ids cs' = calls_ids cs"
proof -
  have "map held_ids cs' = map held_ids cs"
    using assms by (intro nth_equalityI) (simp_all add: held_ids_def)
  then show ?thesis by (simp add: calls_ids_def)
qed

lemma calls_ids_at:
  assumes "i < length (calls r)"
  shows "calls_ids (calls (at_call i f r)) + held_ids (call_at r i) =
         calls_ids (calls r) + held_ids (f (call_at r i))"
  unfolding calls_ids_def at_call_def using assms by (simp add: sum_update)

lemma calls_ids_at_same:
  "res (f (call_at r i)) = res (call_at r i) \<Longrightarrow> calls_ids (calls (at_call i f r)) = calls_ids (calls r)"
  by (cases "i < length (calls r)") (auto intro!: calls_ids_same simp: at_call_def nth_list_update)

lemma run_ids_at_same:
  "res (f (call_at r i)) = res (call_at r i) \<Longrightarrow> run_ids (at_call i f r) = run_ids r"
  by (simp add: run_ids_parts calls_ids_at_same)

lemma run_ids_fields [simp]:
  "run_ids (r\<lparr>cancels := x\<rparr>) = run_ids r" "run_ids (r\<lparr>noted := n\<rparr>) = run_ids r"
  "run_ids (r\<lparr>going := g\<rparr>) = run_ids r" "run_ids (r\<lparr>holding := h\<rparr>) = run_ids r"
  by (simp_all add: run_ids_def)

lemma run_ids_lower [simp]: "run_ids (lower p r) = run_ids r"
  by (simp add: lower_def run_ids_at_same)

lemma run_ids_with_clock [simp]: "run_ids (with_clock f i r) = run_ids r"
  by (simp add: with_clock_def run_ids_at_same split: option.splits prod.splits)

lemma run_ids_finish [simp]: "run_ids (finish n r) = run_ids r"
  by (simp add: finish_def run_ids_def)

lemma run_ids_cascade: "n < length (calls r) \<Longrightarrow> run_ids (cascade_from n r) = run_ids r"
proof (induction n r rule: cascade_from.induct)
  case (1 n r)
  show ?case
  proof (cases "res (call_at r n)")
    case (Some held)
    then have "held_ids (call_at r n) = mset (map fst held)" by (simp add: held_ids_def)
    with calls_ids_at [OF 1(2), of "\<lambda>c. c\<lparr>res := None\<rparr>"]
    have "calls_ids (calls (at_call n (\<lambda>c. c\<lparr>res := None\<rparr>) r)) + mset (map fst held) = calls_ids (calls r)"
      by (simp add: held_ids_def)
    then show ?thesis
      by (subst cascade_from.simps) (simp add: Some run_ids_parts rev_map [symmetric] add_ac)
  next
    case None
    show ?thesis
    proof (cases "parent (call_at r n)")
      case None': None
      with None show ?thesis by (subst cascade_from.simps) simp
    next
      case (Some p)
      have "run_ids (cascade_from p (lower p r)) = run_ids (lower p r)"
        if "waited (lower p r) p \<and> p < n"
        using 1(1) [OF None Some refl that] that 1(2) by simp
      with None Some show ?thesis by (subst cascade_from.simps) (simp add: Let_def)
    qed
  qed
qed

lemma run_ids_rise: "tree_ok (calls r) \<Longrightarrow> n < length (calls r) \<Longrightarrow> run_ids (rise n r) = run_ids r"
proof -
  assume a: "tree_ok (calls r)" "n < length (calls r)"
  then have "p < length (calls r)" if "parent (call_at r n) = Some p" for p
    using that by (fastforce simp: tree_ok_def)
  then show ?thesis by (auto simp: rise_def Let_def run_ids_cascade split: option.splits)
qed

lemma run_ids_left: "run_ids (left_call i r) = run_ids r"
  by (simp add: left_call_def Let_def run_ids_at_same split: option.splits)

lemma run_ids_entered: "(i, r') = entered r p ref b now task \<Longrightarrow> run_ids r' = run_ids r"
proof -
  assume e: "(i, r') = entered r p ref b now task"
  note c = entered_run [OF e]
  have "calls_ids ((calls r)[p := (call_at r p)\<lparr>live := live (call_at r p) + 1\<rparr>]) = calls_ids (calls r)"
    using calls_ids_at_same [of "\<lambda>c. c\<lparr>live := live c + 1\<rparr>" r p] by (simp add: at_call_def)
  then have "calls_ids (calls r') = calls_ids (calls r)"
    unfolding c(2) by (simp add: calls_ids_def held_ids_def)
  with c show ?thesis by (simp add: run_ids_parts)
qed

lemma mset_dict_put:
  "mset (map fst (dict_put k x m)) =
     (if k \<in> fst ` set m then mset (map fst m) else add_mset k (mset (map fst m)))"
proof -
  have "map fst (dict_put k x m) = (if k \<in> fst ` set m then map fst m else map fst m @ [k])"
    using dict_keys_put [of k x m] by simp
  then show ?thesis by simp
qed

lemma run_ids_hold:
  assumes "i < length (calls r)"
  shows "run_ids (hold i k x r) =
     (if k \<in># held_ids (call_at r i) then run_ids r else add_mset k (run_ids r))"
proof (cases "res (call_at r i)")
  case None
  then show ?thesis
    using calls_ids_at [OF assms, of "\<lambda>c. c\<lparr>res := Some [(k, x)]\<rparr>"]
    by (simp add: hold_def run_ids_parts held_ids_def)
next
  case (Some held)
  have "calls_ids (calls (at_call i (\<lambda>c. c\<lparr>res := Some (dict_put k x held)\<rparr>) r)) + mset (map fst held) =
      calls_ids (calls r) + mset (map fst (dict_put k x held))"
    using calls_ids_at [OF assms, of "\<lambda>c. c\<lparr>res := Some (dict_put k x held)\<rparr>"] Some
    by (simp add: held_ids_def)
  then have "calls_ids (calls (at_call i (\<lambda>c. c\<lparr>res := Some (dict_put k x held)\<rparr>) r)) =
      (if k \<in> fst ` set held then calls_ids (calls r) else add_mset k (calls_ids (calls r)))"
    unfolding mset_dict_put by (auto split: if_splits)
  with Some show ?thesis by (auto simp: hold_def run_ids_parts held_ids_def)
qed

lemma run_ids_unmade: "i < length (calls r) \<Longrightarrow> run_ids (unmade i d kind name r) \<subseteq># run_ids r"
proof -
  assume i: "i < length (calls r)"
  have "run_ids (at_call i (\<lambda>c. c\<lparr>res := Some (filter q held)\<rparr>) r) \<subseteq># run_ids r"
    if "res (call_at r i) = Some held" for held q
  proof -
    have "mset (map fst (filter q held)) \<subseteq># mset (map fst held)"
      by (simp add: image_mset_subseteq_mono multiset_filter_subset)
    moreover have "calls_ids (calls (at_call i (\<lambda>c. c\<lparr>res := Some (filter q held)\<rparr>) r)) + mset (map fst held) =
        calls_ids (calls r) + mset (map fst (filter q held))"
      using calls_ids_at [OF i, of "\<lambda>c. c\<lparr>res := Some (filter q held)\<rparr>"] that by (simp add: held_ids_def)
    ultimately have "calls_ids (calls (at_call i (\<lambda>c. c\<lparr>res := Some (filter q held)\<rparr>) r)) \<subseteq># calls_ids (calls r)"
      by (metis mset_subset_eq_mono_add_right_cancel subset_mset.add_left_mono)
    then show ?thesis by (simp add: run_ids_parts)
  qed
  then show ?thesis by (simp add: unmade_def split: option.splits)
qed

definition once :: "nat multiset \<Rightarrow> bool" where
  "once m \<longleftrightarrow> (\<forall>k. count m k \<le> 1)"

lemma once_subset: "once m \<Longrightarrow> n \<subseteq># m \<Longrightarrow> once n"
  unfolding once_def by (meson le_trans mset_subset_eq_count)

lemma once_add: "once m \<Longrightarrow> k \<notin># m \<Longrightarrow> once (add_mset k m)"
  by (auto simp: once_def not_in_iff)

lemma once_distinct: "once (mset xs) \<Longrightarrow> distinct xs"
proof (induction xs)
  case (Cons x xs)
  have "once (mset xs)" using Cons.prems by (rule once_subset) simp
  moreover have "count (mset xs) x = 0"
    using spec [OF Cons.prems [unfolded once_def], of x] by simp
  then have "x \<notin> set xs" by (simp add: count_eq_zero_iff)
  ultimately show ?case using Cons.IH by simp
qed simp

lemma run_ids_step:
  assumes "run_step r r'" and "run_ok r" and "once (run_ids r)"
  shows "once (run_ids r')"
  using assms
proof (induction rule: run_step.induct)
  case (Spends i r u t s)
  have "calls_ids (add i u t s (calls r)) = calls_ids (calls r)"
    by (rule calls_ids_same) (simp_all add: nth_add spend_def)
  with Spends show ?case by (simp add: run_ids_parts)
next
  case (Called p r b f agents envs workspace person now task views env_views i r' f')
  then show ?case using run_ids_entered [OF call_flow_entered(3) [OF Called(3)]] by simp
next
  case (Holds i r k x)
  then show ?case by (auto simp: run_ids_hold intro: once_add)
next
  case (Makes i r k d role kind name chain)
  then show ?case by (auto simp: made_def run_ids_hold intro: once_add)
next
  case (Unmakes i r d kind name)
  then show ?case using once_subset run_ids_unmade by blast
next
  case (Turns i r delta)
  have "calls_ids (calls (turning i delta r)) = calls_ids (calls r)"
    by (rule calls_ids_same) (simp_all add: turning_def nth_at_all above_distinct)
  with Turns show ?case by (simp add: run_ids_parts) (simp add: turning_def)
next
  case (Begins n r)
  let ?r = "r\<lparr>cascades := remove1 (Starting n) (cascades r)\<rparr>"
  have "n < length (calls r)"
    using counts_busy [OF run_okD(1) [OF Begins(2)], of n] Begins(1) by force
  then have "run_ids (cascade_from n ?r) = run_ids ?r" by (simp add: run_ids_cascade)
  also have "\<dots> = run_ids r" using sum_remove1 [OF Begins(1), of cascade_ids] by (simp add: run_ids_parts)
  finally show ?case using Begins(3) by simp
next
  case (Releases n k x xs r)
  have "run_ids (r\<lparr>cascades := remove1 (Releasing n ((k, x) # xs)) (cascades r) @ [Releasing n xs],
                   released := released r @ [(n, k, x)]\<rparr>) = run_ids r"
    using sum_remove1 [OF Releases(1), of cascade_ids] by (simp add: run_ids_parts add_ac)
  with Releases(3) show ?case by simp
next
  case (Rises n r)
  let ?r = "r\<lparr>cascades := remove1 (Releasing n []) (cascades r)\<rparr>"
  have "n < length (calls r)" "tree_ok (calls r)"
    using counts_busy [OF run_okD(1) [OF Rises(2)], of n] counts_tree [OF run_okD(1) [OF Rises(2)]] Rises(1)
    by force+
  then have "run_ids (rise n ?r) = run_ids ?r" by (simp add: run_ids_rise)
  also have "\<dots> = run_ids r" using sum_remove1 [OF Rises(1), of cascade_ids] by (simp add: run_ids_parts)
  finally show ?case using Rises(3) by simp
qed (simp_all add: run_ids_left run_ids_at_same)

lemma reachable_once: "reachable r \<Longrightarrow> once (run_ids r)"
proof (induction rule: reachable_induct)
  case (start b now keeps)
  have "run_ids (run_made b now keeps) = {#}"
    by (simp add: run_ids_def run_made_def call_made_def held_ids_def)
  then show ?case by (simp add: once_def)
next
  case (step r r')
  then show ?case using run_ids_step reachable_ok by blast
qed



lemma nth_cleared:
  "j < length cs \<Longrightarrow>
   fold (\<lambda>i cs. cs[i := (cs ! i)\<lparr>res := None\<rparr>]) order cs ! j =
     (if j \<in> set order then (cs ! j)\<lparr>res := None\<rparr> else cs ! j)"
proof (induction order arbitrary: cs)
  case (Cons i order)
  then show ?case by (cases "i = j") (auto simp: nth_list_update)
qed simp

lemma length_cleared [simp]:
  "length (fold (\<lambda>i cs. cs[i := (cs ! i)\<lparr>res := None\<rparr>]) order cs) = length cs"
  by (induction order arbitrary: cs) auto

lemma held_by_ids: "mset (map (fst \<circ> snd) (held_by r i)) = held_ids (call_at r i)"
  by (cases "res (call_at r i)") (simp_all add: held_by_def held_ids_def o_def case_prod_beta)

lemma closing_ids:
  assumes "run_ok r" and "distinct order" and "set order = holding r"
  shows "mset (map (fst \<circ> snd) (concat (map (held_by r) order))) = calls_ids (calls r)"
proof -
  have "mset (map (fst \<circ> snd) (concat (map (held_by r) order))) =
      sum_list (map (\<lambda>i. held_ids (call_at r i)) order)"
    by (induction order) (simp_all only: list.map concat.simps map_append mset_append held_by_ids
        sum_list.Nil sum_list.Cons mset.simps)
  also have "\<dots> = (\<Sum>i\<in>holding r. held_ids (call_at r i))"
    using assms(2,3) by (simp add: sum_list_distinct_conv_sum_set)
  also have "\<dots> = (\<Sum>i<length (calls r). held_ids (call_at r i))"
    using run_okD(3) [OF assms(1)]
    by (intro sum.mono_neutral_left) (auto simp: held_ids_def split: option.splits)
  also have "\<dots> = calls_ids (calls r)"
    by (simp add: calls_ids_def sum_list_sum_nth atLeast0LessThan)
  finally show ?thesis .
qed

text \<open>
  Closing a run whose cleanups are done releases what is left: no call holds
  anything after it, and what was released is all that was ever held and not let go of, each once.
\<close>

theorem closing_leaves_nothing:
  assumes "reachable r" and "cascades r = []" and "distinct order" and "set order = holding r"
  shows "(\<forall>i<length (calls r). res (call_at (close_run order r) i) = None) \<and>
         mset (map (\<lambda>(n, k, x). k) (released (close_run order r))) = run_ids r \<and>
         distinct (map (\<lambda>(n, k, x). k) (released (close_run order r)))"
proof -
  have ok: "run_ok r" using reachable_ok [OF assms(1)] by blast
  have key: "(\<lambda>(n, k, x). k) = (fst \<circ> snd :: nat \<times> nat \<times> resource \<Rightarrow> nat)" by auto
  have "res (call_at (close_run order r) i) = None" if "i < length (calls r)" for i
    using that run_okD(3) [OF ok] assms(4) by (auto simp: close_run_def nth_cleared)
  moreover have all: "mset (map (fst \<circ> snd) (released (close_run order r))) = run_ids r"
    using closing_ids [OF ok assms(3,4)] assms(2)
    by (simp add: close_run_def run_ids_parts rev_map [symmetric])
  moreover have "distinct (map (fst \<circ> snd) (released (close_run order r)))"
    using reachable_once [OF assms(1)] unfolding all [symmetric] by (rule once_distinct)
  ultimately show ?thesis unfolding key by blast
qed

theorem closing_leaves_nothing_witness:
  "res (call_at (close_run [1] (hold 1 7 Opened called_run)) 1) = None"
proof -
  let ?r = "hold 1 7 Opened called_run"
  have "reachable called_run"
    using reachable_start [OF a_budget_ok, of 0 False, folded a_run_def] called_run_step
    by (rule reachable_step)
  then have r: "reachable ?r"
    by (rule reachable_step)
       (rule run_step.Holds, simp_all add: called_run_eq run_ids_def held_ids_def call_made_def)
  have "cascades ?r = []" "holding ?r = {1}" "1 < length (calls ?r)"
    by (simp_all add: hold_def called_run_eq call_made_def)
  then show ?thesis using closing_leaves_nothing [OF r, of "[1]"] by simp
qed

end
