(* ===== verification/Json.thy ===== *)
theory Json
  imports PyValue
begin

text \<open>
  \<open>json.dumps(..., separators=(",", ":"))\<close> and \<open>json.loads\<close> of the standard library. A text is the
  list of its UTF-8 bytes, each written as a character: with \<open>ensure_ascii=False\<close> the bytes of a
  string go through as they are, and a text that is not UTF-8 does not load. A float keeps the
  text it was spelled with. \<open>json.loads\<close> of bytes reads them as UTF-8 unless they open with a mark or a
  NUL of another encoding; such texts are not modelled.
\<close>

section \<open>Printing\<close>

abbreviation quote :: char where
  "quote \<equiv> CHR 0x22"

abbreviation backslash :: char where
  "backslash \<equiv> CHR 0x5C"

definition escaped :: "char \<Rightarrow> string" where
  "escaped c =
     (let n = (of_char c :: nat) in
      if c = quote \<or> c = backslash then [backslash, c]
      else if n = 10 then [backslash, CHR ''n'']
      else if n = 13 then [backslash, CHR ''r'']
      else if n = 9 then [backslash, CHR ''t'']
      else if n = 8 then [backslash, CHR ''b'']
      else if n = 12 then [backslash, CHR ''f'']
      else if n < 32 then [backslash, CHR ''u'', CHR ''0'', CHR ''0'', hex_digit (n div 16), hex_digit (n mod 16)]
      else [c])"

definition jstring :: "string \<Rightarrow> string" where
  "jstring s = quote # concat (map escaped s) @ [quote]"

fun jdump :: "pyval \<Rightarrow> string" where
  "jdump VNone = ''null''"
| "jdump (VBool b) = (if b then ''true'' else ''false'')"
| "jdump (VInt i) = show_int i"
| "jdump (VFloat x t) = t"
| "jdump (VStr s) = jstring s"
| "jdump (VList xs) = ''['' @ py_join '','' (map jdump xs) @ '']''"
| "jdump (VDict m) = ''{'' @ py_join '','' (map (\<lambda>(k, v). jstring k @ '':'' @ jdump v) m) @ ''}''"

section \<open>Reading\<close>

definition is_ws :: "char \<Rightarrow> bool" where
  "is_ws c \<longleftrightarrow> (let n = (of_char c :: nat) in n = 32 \<or> n = 9 \<or> n = 10 \<or> n = 13)"

definition skip_ws :: "string \<Rightarrow> string" where
  "skip_ws s = dropWhile is_ws s"

definition hex_val :: "char \<Rightarrow> nat option" where
  "hex_val c =
     (let n = (of_char c :: nat) in
      if 48 \<le> n \<and> n \<le> 57 then Some (n - 48)
      else if 97 \<le> n \<and> n \<le> 102 then Some (n - 87)
      else if 65 \<le> n \<and> n \<le> 70 then Some (n - 55)
      else None)"

definition hex4 :: "string \<Rightarrow> (nat \<times> string) option" where
  "hex4 s =
     (case s of
        a # b # c # d # r \<Rightarrow>
          (case (hex_val a, hex_val b, hex_val c, hex_val d) of
             (Some w, Some x, Some y, Some z) \<Rightarrow> Some (4096 * w + 256 * x + 16 * y + z, r)
           | _ \<Rightarrow> None)
      | _ \<Rightarrow> None)"

text \<open>A code point's bytes.\<close>

definition utf8_of :: "nat \<Rightarrow> string" where
  "utf8_of n =
     (if n < 128 then [char_of n]
      else if n < 2048 then [char_of (192 + n div 64), char_of (128 + n mod 64)]
      else if n < 65536 then
        [char_of (224 + n div 4096), char_of (128 + n div 64 mod 64), char_of (128 + n mod 64)]
      else
        [char_of (240 + n div 262144), char_of (128 + n div 4096 mod 64),
         char_of (128 + n div 64 mod 64), char_of (128 + n mod 64)])"

text \<open>What follows a backslash and a \<open>u\<close>: one code point, two escapes of surrogates making one.\<close>

definition unicode_escape :: "string \<Rightarrow> (nat \<times> string) option" where
  "unicode_escape s =
     (case hex4 s of
        None \<Rightarrow> None
      | Some (n, r) \<Rightarrow>
          if 55296 \<le> n \<and> n < 56320
          then (case r of
                  c # d # r' \<Rightarrow>
                    if c = backslash \<and> d = CHR ''u''
                    then (case hex4 r' of
                            None \<Rightarrow> Some (n, r)
                          | Some (low, r'') \<Rightarrow>
                              if 56320 \<le> low \<and> low < 57344
                              then Some (65536 + 1024 * (n - 55296) + (low - 56320), r'')
                              else Some (n, r))
                    else Some (n, r)
                | _ \<Rightarrow> Some (n, r))
          else Some (n, r))"

definition simple_escape :: "char \<Rightarrow> char option" where
  "simple_escape e =
     (if e = quote \<or> e = backslash \<or> e = CHR ''/'' then Some e
      else if e = CHR ''b'' then Some (char_of (8::nat))
      else if e = CHR ''f'' then Some (char_of (12::nat))
      else if e = CHR ''n'' then Some (char_of (10::nat))
      else if e = CHR ''r'' then Some (char_of (13::nat))
      else if e = CHR ''t'' then Some (char_of (9::nat))
      else None)"

lemma hex4_shorter: "hex4 s = Some (n, r) \<Longrightarrow> length r < length s"
  by (auto simp: hex4_def split: list.splits option.splits prod.splits)

lemma unicode_escape_shorter: "unicode_escape s = Some (n, r) \<Longrightarrow> length r < length s"
  by (auto simp: unicode_escape_def split: list.splits option.splits if_splits
      dest: hex4_shorter) (auto dest!: hex4_shorter)

definition before :: "string \<Rightarrow> (string \<times> string) option \<Rightarrow> (string \<times> string) option" where
  "before p = map_option (\<lambda>(s, r). (p @ s, r))"

text \<open>A string after its opening quote, and what is left after its closing one.\<close>

function scan_string :: "string \<Rightarrow> (string \<times> string) option" where
  "scan_string s =
     (case s of
        [] \<Rightarrow> None
      | c # s1 \<Rightarrow>
          if c = quote then Some ([], s1)
          else if c = backslash
          then (case s1 of
                  [] \<Rightarrow> None
                | e # s2 \<Rightarrow>
                    if e = CHR ''u''
                    then (case unicode_escape s2 of
                            None \<Rightarrow> None
                          | Some (n, s3) \<Rightarrow> before (utf8_of n) (scan_string s3))
                    else (case simple_escape e of
                            None \<Rightarrow> None
                          | Some d \<Rightarrow> before [d] (scan_string s2)))
          else if (of_char c :: nat) < 32 then None
          else before [c] (scan_string s1))"
  by pat_completeness auto
termination
  by (relation "measure length") (auto dest: unicode_escape_shorter)

declare scan_string.simps [simp del]

text \<open>A number: the digits of its whole part with no leading zero, a fraction and an exponent if
  digits follow; it is an integer without both.\<close>

definition digits_of :: "string \<Rightarrow> string \<times> string" where
  "digits_of s = (takeWhile is_digit s, dropWhile is_digit s)"

definition whole_of :: "string \<Rightarrow> (string \<times> string) option" where
  "whole_of s =
     (case s of
        [] \<Rightarrow> None
      | c # r \<Rightarrow> if c = CHR ''0'' then Some ([c], r)
                  else if is_digit c then Some (digits_of s) else None)"

definition fraction_of :: "string \<Rightarrow> string \<times> string" where
  "fraction_of s =
     (case s of
        c # d # r \<Rightarrow> if c = CHR ''.'' \<and> is_digit d then (c # takeWhile is_digit (d # r), dropWhile is_digit (d # r))
                    else ([], s)
      | _ \<Rightarrow> ([], s))"

definition exponent_of :: "string \<Rightarrow> string \<times> string" where
  "exponent_of s =
     (case s of
        c # r \<Rightarrow>
          if c = CHR ''e'' \<or> c = CHR ''E''
          then (let sign = (if r \<noteq> [] \<and> (hd r = CHR ''-'' \<or> hd r = CHR ''+'') then [hd r] else []);
                    u = drop (length sign) r
                in if u \<noteq> [] \<and> is_digit (hd u)
                   then (c # sign @ takeWhile is_digit u, dropWhile is_digit u) else ([], s))
          else ([], s)
      | [] \<Rightarrow> ([], []))"

definition scan_number :: "string \<Rightarrow> (pyval \<times> string) option" where
  "scan_number s =
     (let minus = (if s \<noteq> [] \<and> hd s = CHR ''-'' then [hd s] else []) in
      case whole_of (drop (length minus) s) of
        None \<Rightarrow> None
      | Some (whole, r) \<Rightarrow>
          (case fraction_of r of (part, r') \<Rightarrow>
           case exponent_of r' of (expo, r'') \<Rightarrow>
             if part = [] \<and> expo = []
             then (if 4300 < length whole then None
                   else Some (VInt (if minus = [] then int (nat_of_digits whole)
                                    else - int (nat_of_digits whole)), r''))
             else (let t = minus @ whole @ part @ expo in
                   map_option (\<lambda>x. (VFloat x t, r'')) (py_float_of t))))"

text \<open>The words that stand for a value, and the value of each.\<close>

definition json_words :: "(string \<times> pyval) list" where
  "json_words =
     [(''null'', VNone), (''true'', VBool True), (''false'', VBool False), (''NaN'', VFloat NaN ''NaN''),
      (''Infinity'', VFloat PInf ''Infinity''), (''-Infinity'', VFloat NInf ''-Infinity'')]"

definition scan_plain :: "string \<Rightarrow> (pyval \<times> string) option" where
  "scan_plain s =
     (case first_of (\<lambda>(w, v). starts_with w s) json_words of
        Some (w, v) \<Rightarrow> Some (v, drop (length w) s)
      | None \<Rightarrow> scan_number s)"

text \<open>What follows an opening bracket or brace, one element at the least: \<open>p\<close> reads an element.\<close>

fun scan_items :: "(string \<Rightarrow> (pyval \<times> string) option) \<Rightarrow> nat \<Rightarrow> string \<Rightarrow> (pyval list \<times> string) option" where
  "scan_items p 0 s = None"
| "scan_items p (Suc n) s =
     (case p s of
        None \<Rightarrow> None
      | Some (v, r) \<Rightarrow>
          (case skip_ws r of
             [] \<Rightarrow> None
           | c # r' \<Rightarrow>
               if c = CHR '']'' then Some ([v], r')
               else if c = CHR '','' then map_option (\<lambda>(vs, q). (v # vs, q)) (scan_items p n (skip_ws r'))
               else None))"

fun scan_members ::
    "(string \<Rightarrow> (pyval \<times> string) option) \<Rightarrow> nat \<Rightarrow> string \<Rightarrow> ((string \<times> pyval) list \<times> string) option" where
  "scan_members p 0 s = None"
| "scan_members p (Suc n) s =
     (case s of
        [] \<Rightarrow> None
      | q # s1 \<Rightarrow>
          if q \<noteq> quote then None
          else (case scan_string s1 of
                  None \<Rightarrow> None
                | Some (k, r) \<Rightarrow>
                    (case skip_ws r of
                       [] \<Rightarrow> None
                     | c # r1 \<Rightarrow>
                         if c \<noteq> CHR '':'' then None
                         else (case p (skip_ws r1) of
                                 None \<Rightarrow> None
                               | Some (v, r2) \<Rightarrow>
                                   (case skip_ws r2 of
                                      [] \<Rightarrow> None
                                    | d # r3 \<Rightarrow>
                                        if d = CHR ''}'' then Some ([(k, v)], r3)
                                        else if d = CHR '',''
                                        then map_option (\<lambda>(vs, z). ((k, v) # vs, z)) (scan_members p n (skip_ws r3))
                                        else None)))))"

text \<open>\<open>dict(pairs)\<close>: a key said twice keeps its place and takes the last value.\<close>

definition dict_of :: "('k \<times> 'v) list \<Rightarrow> ('k \<times> 'v) list" where
  "dict_of kvs = fold (\<lambda>(k, v). dict_put k v) kvs []"

fun scan :: "nat \<Rightarrow> string \<Rightarrow> (pyval \<times> string) option" where
  "scan 0 s = None"
| "scan (Suc n) s =
     (case s of
        [] \<Rightarrow> None
      | c # r \<Rightarrow>
          if c = quote then map_option (\<lambda>(t, q). (VStr t, q)) (scan_string r)
          else if c = CHR ''{''
          then (case skip_ws r of
                  [] \<Rightarrow> None
                | d # r' \<Rightarrow>
                    if d = CHR ''}'' then Some (VDict [], r')
                    else map_option (\<lambda>(kvs, q). (VDict (dict_of kvs), q)) (scan_members (scan n) n (d # r')))
          else if c = CHR ''[''
          then (case skip_ws r of
                  [] \<Rightarrow> None
                | d # r' \<Rightarrow>
                    if d = CHR '']'' then Some (VList [], r')
                    else map_option (\<lambda>(vs, q). (VList vs, q)) (scan_items (scan n) n (d # r')))
          else scan_plain s)"

text \<open>Whether bytes are UTF-8: \<open>need\<close> bytes of the character at hand are to come, the next of them
  between \<open>lo\<close> and \<open>hi\<close>. \<open>passing\<close> lets the surrogates through, as \<open>json.loads\<close> decodes.\<close>

fun utf8_run :: "bool \<Rightarrow> nat \<Rightarrow> nat \<Rightarrow> nat \<Rightarrow> string \<Rightarrow> bool" where
  "utf8_run passing need lo hi [] = (need = 0)"
| "utf8_run passing need lo hi (c # s) =
     (let n = (of_char c :: nat) in
      if need = 0
      then (if n < 128 then utf8_run passing 0 128 191 s
            else if 194 \<le> n \<and> n \<le> 223 then utf8_run passing 1 128 191 s
            else if n = 224 then utf8_run passing 2 160 191 s
            else if n = 237 \<and> \<not> passing then utf8_run passing 2 128 159 s
            else if 225 \<le> n \<and> n \<le> 239 then utf8_run passing 2 128 191 s
            else if n = 240 then utf8_run passing 3 144 191 s
            else if 241 \<le> n \<and> n \<le> 243 then utf8_run passing 3 128 191 s
            else if n = 244 then utf8_run passing 3 128 143 s
            else False)
      else (if lo \<le> n \<and> n \<le> hi then utf8_run passing (need - 1) 128 191 s else False))"

definition is_utf8 :: "string \<Rightarrow> bool" where
  "is_utf8 s = utf8_run False 0 128 191 s"

definition decodes :: "string \<Rightarrow> bool" where
  "decodes s = utf8_run True 0 128 191 s"

text \<open>\<open>json.loads\<close>, \<open>None\<close> for the \<open>ValueError\<close>. Every element is read from a shorter text, so as
  many rounds as the text is long are enough.\<close>

definition loads :: "string \<Rightarrow> pyval option" where
  "loads s =
     (if \<not> decodes s then None
      else let t = skip_ws s in
           case scan (Suc (length t)) t of
             None \<Rightarrow> None
           | Some (v, r) \<Rightarrow> if skip_ws r = [] then Some v else None)"

section \<open>Strings read back\<close>

lemma hex_val_digit [simp]: "n < 16 \<Longrightarrow> hex_val (hex_digit n) = Some n"
  by (auto simp: hex_val_def hex_digit_def Let_def)

lemma hex_val_0 [simp]: "hex_val CHR ''0'' = Some 0"
  by (simp add: hex_val_def)

lemma unicode_escape_small:
  "n < 256 \<Longrightarrow>
   unicode_escape (CHR ''0'' # CHR ''0'' # hex_digit (n div 16) # hex_digit (n mod 16) # r) = Some (n, r)"
  by (simp add: unicode_escape_def hex4_def)

lemma scan_string_Nil [simp]: "scan_string [] = None"
  by (subst scan_string.simps) simp

lemma scan_string_quote: "scan_string (quote # r) = Some ([], r)"
  by (subst scan_string.simps) simp

lemma scan_string_plain:
  "c \<noteq> quote \<Longrightarrow> c \<noteq> backslash \<Longrightarrow> \<not> (of_char c :: nat) < 32 \<Longrightarrow>
   scan_string (c # r) = before [c] (scan_string r)"
  by (subst scan_string.simps) simp

lemma scan_string_simple:
  "e \<noteq> CHR ''u'' \<Longrightarrow> scan_string (backslash # e # r) =
     (case simple_escape e of None \<Rightarrow> None | Some d \<Rightarrow> before [d] (scan_string r))"
  by (subst scan_string.simps) simp

lemma scan_string_unicode:
  "scan_string (backslash # CHR ''u'' # r) =
     (case unicode_escape r of None \<Rightarrow> None | Some (n, r') \<Rightarrow> before (utf8_of n) (scan_string r'))"
  by (subst scan_string.simps) simp

lemma scan_string_short: "scan_string [backslash] = None"
  by (subst scan_string.simps) simp

lemma scan_escaped: "scan_string (escaped c @ r) = before [c] (scan_string r)"
proof -
  define n where "n = (of_char c :: nat)"
  have c: "c = char_of n" by (simp add: n_def)
  consider "c = quote \<or> c = backslash" | "n = 10" "c \<noteq> quote" "c \<noteq> backslash"
    | "n = 13" "c \<noteq> quote" "c \<noteq> backslash" | "n = 9" "c \<noteq> quote" "c \<noteq> backslash"
    | "n = 8" "c \<noteq> quote" "c \<noteq> backslash" | "n = 12" "c \<noteq> quote" "c \<noteq> backslash"
    | "n < 32" "n \<notin> {8, 9, 10, 12, 13}" "c \<noteq> quote" "c \<noteq> backslash"
    | "\<not> n < 32" "c \<noteq> quote" "c \<noteq> backslash" by auto
  then show ?thesis
  proof cases
    case 1
    then show ?thesis by (auto simp: escaped_def scan_string_simple simple_escape_def)
  next
    case 7
    then have "escaped c = [backslash, CHR ''u'', CHR ''0'', CHR ''0'', hex_digit (n div 16), hex_digit (n mod 16)]"
      by (simp add: escaped_def n_def [symmetric] Let_def)
    moreover have "utf8_of n = [c]" using 7(1) c by (simp add: utf8_of_def)
    ultimately show ?thesis using 7(1) by (simp add: scan_string_unicode unicode_escape_small)
  next
    case 8
    then have "escaped c = [c]" by (simp add: escaped_def n_def [symmetric] Let_def)
    with 8 show ?thesis by (simp add: scan_string_plain n_def)
  qed (simp_all add: escaped_def n_def [symmetric] Let_def scan_string_simple simple_escape_def c)
qed

lemma before_before [simp]: "before a (before b x) = before (a @ b) x"
  by (cases x) (auto simp: before_def)

lemma before_Nil [simp]: "before [] x = x"
  by (cases x) (auto simp: before_def)

lemma scan_jstring: "scan_string (concat (map escaped s) @ quote # r) = Some (s, r)"
proof (induction s)
  case Nil
  then show ?case by (simp add: scan_string_quote)
next
  case (Cons c s)
  then show ?case by (simp add: scan_escaped) (simp add: before_def)
qed

section \<open>What follows a value does not change it\<close>

lemma hex4_append: "hex4 s = Some (n, r) \<Longrightarrow> hex4 (s @ q) = Some (n, r @ q)"
  by (auto simp: hex4_def split: list.splits option.splits)

lemma unicode_escape_append:
  assumes "unicode_escape s = Some (n, r)" and "scan_string r \<noteq> None"
  shows "unicode_escape (s @ q) = Some (n, r @ q)"
proof -
  obtain m s1 where h: "hex4 s = Some (m, s1)"
    using assms(1) by (auto simp: unicode_escape_def split: option.splits)
  show ?thesis
  proof (cases "55296 \<le> m \<and> m < 56320")
    case False
    with h assms(1) show ?thesis by (auto simp: unicode_escape_def hex4_append)
  next
    case True
    show ?thesis
    proof (cases "\<exists>s2. s1 = backslash # CHR ''u'' # s2")
      case True
      then obtain s2 where s2: "s1 = backslash # CHR ''u'' # s2" by blast
      show ?thesis
      proof (cases "hex4 s2")
        case None
        with s2 True h assms(1) \<open>55296 \<le> m \<and> m < 56320\<close> have "r = s1"
          by (simp add: unicode_escape_def)
        with None s2 assms(2) show ?thesis by (simp add: scan_string_unicode unicode_escape_def)
      next
        case (Some p)
        then show ?thesis
          using s2 h assms(1) \<open>55296 \<le> m \<and> m < 56320\<close>
          by (cases p) (auto simp: unicode_escape_def hex4_append [of s] hex4_append [of s2] split: if_splits)
      qed
    next
      case no: False
      have r: "r = s1 \<and> n = m"
        using h assms(1) True no by (auto simp: unicode_escape_def split: list.splits if_splits)
      obtain c s2 where s1: "s1 = c # s2" using assms(2) r by (cases s1) auto
      have "\<not> (c = backslash \<and> s2 @ q = CHR ''u'' # z)" for z
      proof (cases s2)
        case Nil
        with s1 r assms(2) have "c \<noteq> backslash" using scan_string_short by auto
        then show ?thesis by simp
      next
        case (Cons d s3)
        with no s1 show ?thesis by auto
      qed
      with h r s1 True show ?thesis
        by (auto simp: unicode_escape_def hex4_append split: list.splits)
    qed
  qed
qed

lemma before_Some: "before p x = Some (s, r) \<longleftrightarrow> (\<exists>t. x = Some (t, r) \<and> s = p @ t)"
  by (cases x) (auto simp: before_def)

lemma scan_string_append: "scan_string s = Some (t, r) \<Longrightarrow> scan_string (s @ q) = Some (t, r @ q)"
proof (induction s arbitrary: t r rule: scan_string.induct)
  case (1 s)
  obtain c s1 where s: "s = c # s1" using 1(4) by (cases s) auto
  consider "c = quote" | "c = backslash" | "c \<noteq> quote" "c \<noteq> backslash" by auto
  then show ?case
  proof cases
    case 1
    with s \<open>scan_string s = Some (t, r)\<close> show ?thesis by (simp add: scan_string_quote)
  next
    case bs: 2
    obtain e s2 where s2: "s1 = e # s2"
      using \<open>scan_string s = Some (t, r)\<close> s bs scan_string_short by (cases s1) auto
    show ?thesis
    proof (cases "e = CHR ''u''")
      case True
      with s s2 bs \<open>scan_string s = Some (t, r)\<close> obtain n s3 u where
        u: "unicode_escape s2 = Some (n, s3)" "scan_string s3 = Some (u, r)" "t = utf8_of n @ u"
        by (auto simp: scan_string_unicode before_Some split: option.splits)
      have "unicode_escape (s2 @ q) = Some (n, s3 @ q)" using u by (intro unicode_escape_append) auto
      moreover have "scan_string (s3 @ q) = Some (u, r @ q)"
        using 1(1) s s2 bs True u by auto
      ultimately show ?thesis using s s2 bs True u by (simp add: scan_string_unicode before_Some)
    next
      case False
      with s s2 bs \<open>scan_string s = Some (t, r)\<close> obtain d u where
        u: "simple_escape e = Some d" "scan_string s2 = Some (u, r)" "t = d # u"
        by (auto simp: scan_string_simple before_Some split: option.splits)
      moreover have "scan_string (s2 @ q) = Some (u, r @ q)"
        using 1(2) s s2 bs False u by auto
      ultimately show ?thesis using s s2 bs False by (simp add: scan_string_simple before_Some)
    qed
  next
    case 3
    have "\<not> (of_char c :: nat) < 32"
      using \<open>scan_string s = Some (t, r)\<close> s 3 by (subst (asm) scan_string.simps) (auto split: if_splits)
    with 3 s \<open>scan_string s = Some (t, r)\<close> 1(3) show ?thesis
      by (auto simp: scan_string_plain before_Some)
  qed
qed

text \<open>What may not follow a number, as more of it: a digit, a point or an exponent's letter.\<close>

definition num_end :: "string \<Rightarrow> bool" where
  "num_end s \<longleftrightarrow> s = [] \<or> (\<not> is_digit (hd s) \<and> hd s \<noteq> CHR ''.'' \<and> hd s \<noteq> CHR ''e'' \<and> hd s \<noteq> CHR ''E'')"

lemma while_append:
  assumes "dropWhile p s @ q = [] \<or> \<not> p (hd (dropWhile p s @ q))"
  shows "takeWhile p (s @ q) = takeWhile p s" and "dropWhile p (s @ q) = dropWhile p s @ q"
proof -
  have "takeWhile p (s @ q) = takeWhile p s \<and> dropWhile p (s @ q) = dropWhile p s @ q"
    using assms
  proof (induction s)
    case Nil
    then show ?case by (cases q) auto
  next
    case (Cons c s)
    then show ?case by (cases "p c") auto
  qed
  then show "takeWhile p (s @ q) = takeWhile p s" "dropWhile p (s @ q) = dropWhile p s @ q" by simp_all
qed

lemma whole_append:
  assumes "whole_of s = Some (w, r)" and "r @ q = [] \<or> \<not> is_digit (hd (r @ q)) \<or> w = ''0''"
  shows "whole_of (s @ q) = Some (w, r @ q)"
proof -
  obtain c s1 where s: "s = c # s1" using assms(1) by (cases s) (auto simp: whole_of_def)
  show ?thesis
  proof (cases "c = CHR ''0''")
    case True
    with s assms(1) show ?thesis by (auto simp: whole_of_def)
  next
    case False
    with s assms(1) have d: "is_digit c" "w = takeWhile is_digit (c # s1)" "r = dropWhile is_digit (c # s1)"
      by (auto simp: whole_of_def digits_of_def split: if_splits)
    with False have "w \<noteq> ''0''" by simp
    with assms(2) d(3) have cond: "dropWhile is_digit (c # s1) @ q = [] \<or> \<not> is_digit (hd (dropWhile is_digit (c # s1) @ q))"
      by simp
    have "takeWhile is_digit ((c # s1) @ q) = w" "dropWhile is_digit ((c # s1) @ q) = r @ q"
      using while_append [OF cond] d by simp_all
    with False d(1) s show ?thesis by (simp add: whole_of_def digits_of_def)
  qed
qed

lemma fraction_append:
  assumes "fraction_of s = (p, r)" and "r @ q = [] \<or> \<not> is_digit (hd (r @ q))"
    and "p = [] \<longrightarrow> r @ q = [] \<or> hd (r @ q) \<noteq> CHR ''.''"
  shows "fraction_of (s @ q) = (p, r @ q)"
proof (cases "\<exists>d t. s = CHR ''.'' # d # t \<and> is_digit d")
  case True
  then obtain d t where s: "s = CHR ''.'' # d # t" "is_digit d" by blast
  with assms(1) have d: "p = CHR ''.'' # takeWhile is_digit (d # t)" "r = dropWhile is_digit (d # t)"
    by (auto simp: fraction_of_def)
  with assms(2) have "takeWhile is_digit ((d # t) @ q) = takeWhile is_digit (d # t)"
      "dropWhile is_digit ((d # t) @ q) = r @ q"
    using while_append [of is_digit "d # t" q] by simp_all
  with s d show ?thesis by (simp add: fraction_of_def)
next
  case False
  with assms(1) have p: "p = []" "r = s"
    by (auto simp: fraction_of_def split: list.splits if_splits)
  with assms(3) have "s @ q = [] \<or> hd (s @ q) \<noteq> CHR ''.''" by simp
  with p show ?thesis by (auto simp: fraction_of_def split: list.splits)
qed

definition exponent_sign :: "string \<Rightarrow> string" where
  "exponent_sign r = (if r \<noteq> [] \<and> (hd r = CHR ''-'' \<or> hd r = CHR ''+'') then [hd r] else [])"

lemma exponent_of_Cons:
  "exponent_of (c # r) =
     (if c = CHR ''e'' \<or> c = CHR ''E''
      then (let u = drop (length (exponent_sign r)) r
            in if u \<noteq> [] \<and> is_digit (hd u)
               then (c # exponent_sign r @ takeWhile is_digit u, dropWhile is_digit u) else ([], c # r))
      else ([], c # r))"
  by (simp add: exponent_of_def exponent_sign_def Let_def)

lemma exponent_append:
  assumes "exponent_of s = (x, r)" and "num_end (r @ q)"
  shows "exponent_of (s @ q) = (x, r @ q)"
proof (cases "x = []")
  case True
  have "r = s"
  proof (cases s)
    case Nil
    with assms(1) show ?thesis by (simp add: exponent_of_def)
  next
    case (Cons c s1)
    with assms(1) True show ?thesis by (auto simp: exponent_of_Cons Let_def split: if_splits)
  qed
  with assms(2) True show ?thesis
    by (cases "s @ q") (auto simp: exponent_of_Cons num_end_def exponent_of_def)
next
  case False
  then obtain c s1 where s: "s = c # s1" using assms(1) by (cases s) (auto simp: exponent_of_def)
  let ?u = "drop (length (exponent_sign s1)) s1"
  have u: "c = CHR ''e'' \<or> c = CHR ''E''" "?u \<noteq> []" "is_digit (hd ?u)"
      "x = c # exponent_sign s1 @ takeWhile is_digit ?u" "r = dropWhile is_digit ?u"
    using assms(1) False s by (auto simp: exponent_of_Cons Let_def split: if_splits)
  have s1: "s1 \<noteq> []" using u(2) by auto
  then have sign: "exponent_sign (s1 @ q) = exponent_sign s1" by (simp add: exponent_sign_def)
  have len: "length (exponent_sign s1) \<le> length s1" using u(2) by auto
  have "takeWhile is_digit (?u @ q) = takeWhile is_digit ?u" "dropWhile is_digit (?u @ q) = r @ q"
    using while_append [of is_digit ?u q] assms(2) u(5) by (auto simp: num_end_def)
  with u s sign len show ?thesis by (simp add: exponent_of_Cons Let_def)
qed

lemma scan_number_append:
  assumes "scan_number s = Some (v, r)" and "num_end (r @ q)"
  shows "scan_number (s @ q) = Some (v, r @ q)"
proof -
  define m where "m = (if s \<noteq> [] \<and> hd s = CHR ''-'' then [hd s] else [])"
  obtain w r1 where w: "whole_of (drop (length m) s) = Some (w, r1)"
    using assms(1) by (auto simp: scan_number_def m_def [symmetric] Let_def split: option.splits)
  obtain p r2 where p: "fraction_of r1 = (p, r2)" by (cases "fraction_of r1")
  obtain x r3 where x: "exponent_of r2 = (x, r3)" by (cases "exponent_of r2")
  have r: "r3 = r" using assms(1) w p x
    by (auto simp: scan_number_def m_def [symmetric] Let_def split: if_splits)
  have s: "s \<noteq> []" using w by (auto simp: whole_of_def m_def split: list.splits)
  then have m: "(if s @ q \<noteq> [] \<and> hd (s @ q) = CHR ''-'' then [hd (s @ q)] else []) = m"
    by (simp add: m_def)
  have len: "length m \<le> length s" using s by (simp add: m_def) (simp add: Suc_leI)
  have x': "exponent_of (r2 @ q) = (x, r @ q)" using exponent_append [OF x] assms(2) r by simp
  have r2: "r2 @ q = [] \<or> \<not> is_digit (hd (r2 @ q)) \<and> hd (r2 @ q) \<noteq> CHR ''.''"
  proof (cases "x = []")
    case True
    then have "r2 = r" using x r by (cases r2) (auto simp: exponent_of_Cons exponent_of_def Let_def split: if_splits)
    with assms(2) show ?thesis by (auto simp: num_end_def)
  next
    case False
    then obtain c y where "r2 = c # y" "c = CHR ''e'' \<or> c = CHR ''E''"
      using x by (cases r2) (auto simp: exponent_of_Cons exponent_of_def Let_def split: if_splits)
    then show ?thesis by (auto simp: is_digit_def)
  qed
  have p': "fraction_of (r1 @ q) = (p, r2 @ q)" using p r2 by (intro fraction_append) auto
  have "r1 @ q = [] \<or> \<not> is_digit (hd (r1 @ q))"
  proof (cases "p = []")
    case True
    then have "r1 = r2" using p by (auto simp: fraction_of_def split: list.splits if_splits)
    with r2 show ?thesis by auto
  next
    case False
    then obtain y where "r1 = CHR ''.'' # y"
      using p by (auto simp: fraction_of_def split: list.splits if_splits)
    then show ?thesis by (simp add: is_digit_def)
  qed
  then have w': "whole_of (drop (length m) s @ q) = Some (w, r1 @ q)" using w by (intro whole_append) auto
  show ?thesis
    using assms(1) len unfolding scan_number_def m m_def [symmetric]
    by (simp add: Let_def w w' p p' x x' r split: if_splits option.splits) auto
qed

lemma starts_with_longer: "starts_with w s \<Longrightarrow> starts_with w (s @ q) \<and> drop (length w) (s @ q) = drop (length w) s @ q"
  by (auto simp: starts_with_iff)

lemma scan_number_start:
  assumes "scan_number s = Some (v, r)"
  shows "\<exists>c s1. s = c # s1 \<and> (is_digit c \<or> (c = CHR ''-'' \<and> s1 \<noteq> [] \<and> is_digit (hd s1)))"
proof -
  have digit: "u \<noteq> [] \<and> is_digit (hd u)" if "whole_of u = Some w" for u w
    using that by (cases u) (auto simp: whole_of_def is_digit_def split: if_splits)
  obtain w where w: "whole_of (drop (length (if s \<noteq> [] \<and> hd s = CHR ''-'' then [hd s] else [])) s) = Some w"
    using assms by (auto simp: scan_number_def Let_def split: option.splits)
  show ?thesis
  proof (cases s)
    case Nil
    with digit [OF w] show ?thesis by simp
  next
    case (Cons c s1)
    with digit [OF w] show ?thesis by (cases "c = CHR ''-''") auto
  qed
qed

lemma digit_not_letter:
  "is_digit c \<Longrightarrow> CHR ''n'' \<noteq> c \<and> CHR ''t'' \<noteq> c \<and> CHR ''f'' \<noteq> c \<and> CHR ''N'' \<noteq> c \<and>
   CHR ''I'' \<noteq> c \<and> CHR ''-'' \<noteq> c"
  by (auto simp: is_digit_def)

lemma no_word:
  assumes "s = c # s1" and "is_digit c \<or> (c = CHR ''-'' \<and> s1 \<noteq> [] \<and> is_digit (hd s1))"
  shows "first_of (\<lambda>(w, v). starts_with w s) json_words = None"
proof (cases "is_digit c")
  case True
  then show ?thesis using digit_not_letter [OF True] by (simp add: assms(1) json_words_def)
next
  case False
  with assms(2) obtain d s2 where "c = CHR ''-''" "s1 = d # s2" "is_digit d" by (cases s1) auto
  with digit_not_letter [OF \<open>is_digit d\<close>] show ?thesis by (simp add: assms(1) json_words_def)
qed

lemma word_found_each:
  "first_of (\<lambda>(w, v). starts_with w (''null'' @ z)) json_words = Some (''null'', VNone)"
  "first_of (\<lambda>(w, v). starts_with w (''true'' @ z)) json_words = Some (''true'', VBool True)"
  "first_of (\<lambda>(w, v). starts_with w (''false'' @ z)) json_words = Some (''false'', VBool False)"
  "first_of (\<lambda>(w, v). starts_with w (''NaN'' @ z)) json_words = Some (''NaN'', VFloat NaN ''NaN'')"
  "first_of (\<lambda>(w, v). starts_with w (''Infinity'' @ z)) json_words = Some (''Infinity'', VFloat PInf ''Infinity'')"
  "first_of (\<lambda>(w, v). starts_with w (''-Infinity'' @ z)) json_words = Some (''-Infinity'', VFloat NInf ''-Infinity'')"
  by (simp_all add: json_words_def)

lemma word_found:
  assumes "(w, u) \<in> set json_words"
  shows "first_of (\<lambda>(x, v). starts_with x (w @ z)) json_words = Some (w, u)"
proof -
  have "\<forall>a\<in>set json_words. first_of (\<lambda>(x, v). starts_with x (fst a @ z)) json_words = Some a"
    by (subst (1) json_words_def) (simp only: list.set ball_simps fst_conv word_found_each simp_thms)
  with assms show ?thesis by (metis fst_conv)
qed

lemma scan_plain_append:
  assumes "scan_plain s = Some (v, r)" and "num_end (r @ q)"
  shows "scan_plain (s @ q) = Some (v, r @ q)"
proof (cases "first_of (\<lambda>(w, v). starts_with w s) json_words")
  case None
  with assms(1) have n: "scan_number s = Some (v, r)" by (simp add: scan_plain_def)
  from scan_number_start [OF n] obtain c s1 where
    c: "s = c # s1" "is_digit c \<or> (c = CHR ''-'' \<and> s1 \<noteq> [] \<and> is_digit (hd s1))" by blast
  have "first_of (\<lambda>(w, v). starts_with w (s @ q)) json_words = None"
    by (rule no_word [of _ c "s1 @ q"]) (use c in auto)
  with scan_number_append [OF n assms(2)] show ?thesis by (simp add: scan_plain_def)
next
  case (Some wv)
  obtain w u where wv: "wv = (w, u)" by (cases wv)
  have sw: "starts_with w s" "(w, u) \<in> set json_words"
    using first_of_SomeD [OF Some] wv by auto
  from sw(1) obtain z where z: "s = w @ z" by (auto simp: starts_with_iff)
  have "first_of (\<lambda>(w, v). starts_with w (s @ q)) json_words = Some (w, u)"
    using word_found [OF sw(2), of "z @ q"] z by simp
  with assms(1) Some wv starts_with_longer [OF sw(1), of q] show ?thesis by (simp add: scan_plain_def del: drop_append)
qed

lemma skip_ws_append: "skip_ws r = c # r' \<Longrightarrow> skip_ws (r @ q) = c # r' @ q"
  unfolding skip_ws_def by (induction r) (auto split: if_splits)

lemma num_end_ws: "is_ws c \<Longrightarrow> num_end (c # s)"
  by (auto simp: is_ws_def num_end_def is_digit_def Let_def)

lemma num_end_skip:
  assumes "skip_ws r = c # r'" and "c = CHR '','' \<or> c = CHR '']'' \<or> c = CHR ''}''"
  shows "num_end (r @ q)"
proof (cases r)
  case Nil
  with assms(1) show ?thesis by (simp add: skip_ws_def)
next
  case (Cons d s)
  show ?thesis
  proof (cases "is_ws d")
    case True
    with Cons show ?thesis by (simp add: num_end_ws)
  next
    case False
    with assms Cons show ?thesis by (auto simp: skip_ws_def num_end_def is_digit_def)
  qed
qed

text \<open>A reader whose answer what follows does not change, and one that reads on at least as far.\<close>

definition reads_on :: "(string \<Rightarrow> (pyval \<times> string) option) \<Rightarrow> (string \<Rightarrow> (pyval \<times> string) option) \<Rightarrow> bool" where
  "reads_on p p' \<longleftrightarrow> p [] = None \<and> (\<forall>s v r q. p s = Some (v, r) \<longrightarrow> num_end (r @ q) \<longrightarrow> p' (s @ q) = Some (v, r @ q))"

lemma scan_items_append:
  assumes "reads_on p p'"
  shows "scan_items p n s = Some (vs, r) \<Longrightarrow> n \<le> m \<Longrightarrow> scan_items p' m (s @ q) = Some (vs, r @ q)"
proof (induction n arbitrary: s vs r m)
  case (Suc n)
  obtain k where m: "m = Suc k" "n \<le> k" using Suc.prems(2) by (cases m) auto
  obtain v r1 where v: "p s = Some (v, r1)" using Suc.prems(1) by (auto split: option.splits)
  then obtain c r2 where c: "skip_ws r1 = c # r2" using Suc.prems(1) by (auto split: list.splits)
  have ends: "c = CHR '']'' \<or> c = CHR '',''" using Suc.prems(1) v c by (auto split: if_splits)
  have "p' (s @ q) = Some (v, r1 @ q)"
    using assms v num_end_skip [OF c] ends by (auto simp: reads_on_def)
  note step = this skip_ws_append [OF c, of q]
  show ?case
  proof (cases "c = CHR '']''")
    case True
    with Suc.prems(1) v c step m show ?thesis by auto
  next
    case False
    with ends have comma: "c = CHR '',''" by simp
    with Suc.prems(1) v c obtain vs' where vs': "scan_items p n (skip_ws r2) = Some (vs', r)" "vs = v # vs'"
      by auto
    have "skip_ws r2 \<noteq> []" using vs'(1) assms by (cases n) (auto simp: reads_on_def)
    then obtain d z where "skip_ws r2 = d # z" by (cases "skip_ws r2") auto
    then have "skip_ws (r2 @ q) = skip_ws r2 @ q" by (simp add: skip_ws_append)
    with Suc.IH [OF vs'(1) m(2)] comma step m vs'(2) show ?thesis by simp
  qed
qed simp

lemma scan_members_append:
  assumes "reads_on p p'"
  shows "scan_members p n s = Some (vs, r) \<Longrightarrow> n \<le> m \<Longrightarrow> scan_members p' m (s @ q) = Some (vs, r @ q)"
proof (induction n arbitrary: s vs r m)
  case (Suc n)
  obtain k where m: "m = Suc k" "n \<le> k" using Suc.prems(2) by (cases m) auto
  obtain s1 where s: "s = quote # s1"
    using Suc.prems(1) by (cases s) (auto split: if_splits)
  then obtain key r1 where key: "scan_string s1 = Some (key, r1)"
    using Suc.prems(1) by (auto split: option.splits)
  with s obtain r2 where colon: "skip_ws r1 = CHR '':'' # r2"
    using Suc.prems(1) by (auto split: list.splits if_splits)
  with s key obtain v r3 where v: "p (skip_ws r2) = Some (v, r3)"
    using Suc.prems(1) by (auto split: option.splits)
  with s key colon obtain c r4 where c: "skip_ws r3 = c # r4"
    using Suc.prems(1) by (auto split: list.splits)
  have ends: "c = CHR ''}'' \<or> c = CHR '',''"
    using Suc.prems(1) s key colon v c by (auto split: if_splits)
  have "skip_ws r2 \<noteq> []" using v assms by (auto simp: reads_on_def)
  then obtain d z where "skip_ws r2 = d # z" by (cases "skip_ws r2") auto
  then have ws2: "skip_ws (r2 @ q) = skip_ws r2 @ q" by (simp add: skip_ws_append)
  have "p' (skip_ws r2 @ q) = Some (v, r3 @ q)"
    using assms v num_end_skip [OF c] ends by (auto simp: reads_on_def)
  note step = this ws2 skip_ws_append [OF c, of q] skip_ws_append [OF colon, of q]
    scan_string_append [OF key, of q]
  show ?case
  proof (cases "c = CHR ''}''")
    case True
    with Suc.prems(1) s key colon v c step m show ?thesis by auto
  next
    case False
    with ends have comma: "c = CHR '',''" by simp
    with Suc.prems(1) s key colon v c obtain vs' where
      vs': "scan_members p n (skip_ws r4) = Some (vs', r)" "vs = (key, v) # vs'"
      by auto
    have "skip_ws r4 \<noteq> []" using vs'(1) by (cases n) auto
    then obtain d z where "skip_ws r4 = d # z" by (cases "skip_ws r4") auto
    then have "skip_ws (r4 @ q) = skip_ws r4 @ q" by (simp add: skip_ws_append)
    with Suc.IH [OF vs'(1) m(2)] comma step m vs'(2) s show ?thesis by simp
  qed
qed simp

definition delimited :: "string \<Rightarrow> bool" where
  "delimited s \<longleftrightarrow> s \<noteq> [] \<and> (hd s = quote \<or> hd s = CHR ''{'' \<or> hd s = CHR ''['')"

lemma scan_append:
  "scan n s = Some (v, r) \<Longrightarrow> num_end (r @ q) \<or> delimited s \<Longrightarrow> n \<le> m \<Longrightarrow>
   scan m (s @ q) = Some (v, r @ q)"
proof (induction n arbitrary: s v r q m)
  case (Suc n)
  obtain k where m: "m = Suc k" "n \<le> k" using Suc.prems(3) by (cases m) auto
  obtain c s1 where s: "s = c # s1" using Suc.prems(1) by (cases s) auto
  have nil: "scan n [] = None" by (cases n) simp_all
  have on: "reads_on (scan n) (scan k)" using nil Suc.IH m(2) by (auto simp: reads_on_def)
  consider "c = quote" | "c = CHR ''{''" | "c = CHR ''[''" | "c \<noteq> quote" "c \<noteq> CHR ''{''" "c \<noteq> CHR ''[''" by blast
  then show ?case
  proof cases
    case 1
    with Suc.prems(1) s m show ?thesis by (auto simp: scan_string_append)
  next
    case 2
    with Suc.prems(1) s obtain d s2 where d: "skip_ws s1 = d # s2" by (auto split: list.splits)
    show ?thesis
    proof (cases "d = CHR ''}''")
      case True
      with Suc.prems(1) s 2 d m skip_ws_append [OF d, of q] show ?thesis by auto
    next
      case False
      with Suc.prems(1) s 2 d obtain kvs where
        kvs: "scan_members (scan n) n (d # s2) = Some (kvs, r)" "v = VDict (dict_of kvs)" by auto
      with scan_members_append [OF on kvs(1) m(2), of q] False s 2 m skip_ws_append [OF d, of q]
      show ?thesis by simp
    qed
  next
    case 3
    with Suc.prems(1) s obtain d s2 where d: "skip_ws s1 = d # s2" by (auto split: list.splits)
    show ?thesis
    proof (cases "d = CHR '']''")
      case True
      with Suc.prems(1) s 3 d m skip_ws_append [OF d, of q] show ?thesis by auto
    next
      case False
      with Suc.prems(1) s 3 d obtain vs where
        vs: "scan_items (scan n) n (d # s2) = Some (vs, r)" "v = VList vs" by auto
      with scan_items_append [OF on vs(1) m(2), of q] False s 3 m skip_ws_append [OF d, of q]
      show ?thesis by simp
    qed
  next
    case 4
    with Suc.prems(2) s have "num_end (r @ q)" by (auto simp: delimited_def)
    with 4 Suc.prems(1) s m show ?thesis by (simp add: scan_plain_append [of "c # s1", simplified])
  qed
qed simp

text \<open>A record cut short anywhere never loads.\<close>

lemma cut_never_loads:
  assumes "scan n (p @ q) = Some (v, [])" and "delimited (p @ q)" and "q \<noteq> []"
  shows "loads p = None"
proof (cases p)
  case Nil
  then show ?thesis by (simp add: loads_def skip_ws_def)
next
  case (Cons c p')
  with assms(2) have c: "delimited p" "\<not> is_ws c" by (auto simp: delimited_def is_ws_def)
  with Cons have ws: "skip_ws p = p" by (simp add: skip_ws_def)
  show ?thesis
  proof (cases "scan (Suc (length p)) p")
    case None
    with ws show ?thesis by (simp add: loads_def Let_def)
  next
    case (Some vr)
    obtain u r where vr: "vr = (u, r)" by (cases vr)
    let ?m = "max n (Suc (length p))"
    have "scan ?m (p @ q) = Some (u, r @ q)"
      using Some vr c(1) by (intro scan_append [of "Suc (length p)"]) auto
    moreover have "scan ?m ((p @ q) @ []) = Some (v, [] @ [])"
      using assms(1,2) by (intro scan_append [of n]) auto
    ultimately show ?thesis using assms(3) by simp
  qed
qed

section \<open>A value reads back\<close>

definition float_ok :: "pyfloat \<Rightarrow> string \<Rightarrow> bool" where
  "float_ok x t \<longleftrightarrow> scan_plain t = Some (VFloat x t, []) \<and> (\<forall>c\<in>set t. 32 \<le> (of_char c :: nat) \<and> (of_char c :: nat) < 128)"

text \<open>What \<open>json.dumps\<close> has a text for that \<open>json.loads\<close> takes back: strings of whole characters,
  floats spelled as floats are, integers of no more digits than Python reads. A key said twice comes
  back once, which \<open>norm\<close> is.\<close>

fun json_ok :: "pyval \<Rightarrow> bool" where
  "json_ok (VInt i) = (length (show_nat (nat \<bar>i\<bar>)) \<le> 4300)"
| "json_ok (VFloat x t) = float_ok x t"
| "json_ok (VStr s) = is_utf8 s"
| "json_ok (VList xs) = (\<forall>x\<in>set xs. json_ok x)"
| "json_ok (VDict m) = (\<forall>kv\<in>set m. is_utf8 (fst kv) \<and> json_ok (snd kv))"
| "json_ok v = True"

fun norm :: "pyval \<Rightarrow> pyval" where
  "norm (VList xs) = VList (map norm xs)"
| "norm (VDict m) = VDict (dict_of (map (\<lambda>(k, v). (k, norm v)) m))"
| "norm v = v"

fun keys_once :: "pyval \<Rightarrow> bool" where
  "keys_once (VList xs) = (\<forall>x\<in>set xs. keys_once x)"
| "keys_once (VDict m) = (distinct (map fst m) \<and> (\<forall>kv\<in>set m. keys_once (snd kv)))"
| "keys_once v = True"

definition plain_start :: "char \<Rightarrow> bool" where
  "plain_start c \<longleftrightarrow> is_digit c \<or> c \<in> {CHR ''-'', CHR ''n'', CHR ''t'', CHR ''f'', CHR ''N'', CHR ''I''}"

lemma plain_start_not:
  assumes "plain_start c"
  shows "\<not> is_ws c \<and> c \<noteq> quote \<and> c \<noteq> CHR ''{'' \<and> c \<noteq> CHR ''['' \<and> c \<noteq> CHR '']'' \<and> c \<noteq> CHR ''}''"
  using assms by (auto simp: plain_start_def is_digit_def is_ws_def)

lemma scan_plain_start:
  assumes "scan_plain s = Some (v, r)"
  shows "\<exists>c s1. s = c # s1 \<and> plain_start c"
proof (cases "first_of (\<lambda>(w, v). starts_with w s) json_words")
  case None
  with assms have "scan_number s = Some (v, r)" by (simp add: scan_plain_def)
  from scan_number_start [OF this] show ?thesis by (auto simp: plain_start_def)
next
  case (Some wv)
  obtain w u where "wv = (w, u)" by (cases wv)
  with first_of_SomeD [OF Some] have w: "starts_with w s" "(w, u) \<in> set json_words" by auto
  have "\<forall>a\<in>set json_words. fst a \<noteq> [] \<and> plain_start (hd (fst a))"
    by (simp add: json_words_def plain_start_def)
  with w(2) have "w \<noteq> []" "plain_start (hd w)" by fastforce+
  with w(1) show ?thesis by (cases w) (auto simp: starts_with_iff)
qed

lemma scan_plain_word: "(w, u) \<in> set json_words \<Longrightarrow> scan_plain (w @ rest) = Some (u, rest)"
  by (simp add: scan_plain_def word_found)

lemma scan_plain_json_words:
  "scan_plain (''null'' @ rest) = Some (VNone, rest)"
  "scan_plain (''true'' @ rest) = Some (VBool True, rest)"
  "scan_plain (''false'' @ rest) = Some (VBool False, rest)"
  by (rule scan_plain_word, simp add: json_words_def)+

lemma num_end_parts:
  "num_end rest \<Longrightarrow> fraction_of rest = ([], rest) \<and> exponent_of rest = ([], rest)"
  by (auto simp: num_end_def fraction_of_def exponent_of_def split: list.splits)

lemma whole_of_show:
  assumes "num_end rest"
  shows "whole_of (show_nat n @ rest) = Some (show_nat n, rest)"
proof -
  obtain c ds where c: "show_nat n = c # ds" using show_nat_not_Nil by (cases "show_nat n") auto
  have digits: "\<forall>d\<in>set (show_nat n). is_digit d" by (rule show_nat_digits)
  have end_rest: "rest = [] \<or> \<not> is_digit (hd rest)" using assms by (auto simp: num_end_def)
  have run: "takeWhile is_digit (show_nat n @ rest) = show_nat n"
            "dropWhile is_digit (show_nat n @ rest) = rest"
    using digits end_rest by (cases rest; simp)+
  show ?thesis
  proof (cases "n = 0")
    case True
    then show ?thesis by (simp add: show_nat_0 whole_of_def)
  next
    case False
    then have "c \<noteq> CHR ''0''" using hd_show_nat_pos [of n] c by simp
    with c digits run show ?thesis by (simp add: whole_of_def digits_of_def)
  qed
qed

lemma hd_show_nat: "is_digit (hd (show_nat n))"
  using show_nat_digits [of n] by (cases "show_nat n") (auto simp: show_nat_not_Nil [of n])

lemma show_int_start: "\<exists>c s. show_int i = c # s \<and> (is_digit c \<or> (c = CHR ''-'' \<and> s \<noteq> [] \<and> is_digit (hd s)))"
  using hd_show_nat [of "nat i"] hd_show_nat [of "nat (- i)"] show_nat_not_Nil [of "nat i"]
  by (cases "show_nat (nat i)") (auto simp: show_int_def)

lemma scan_int:
  assumes "length (show_nat (nat \<bar>i\<bar>)) \<le> 4300" and "num_end rest"
  shows "scan_plain (show_int i @ rest) = Some (VInt i, rest)"
proof -
  obtain c s where c: "show_int i = c # s" "is_digit c \<or> (c = CHR ''-'' \<and> s \<noteq> [] \<and> is_digit (hd s))"
    using show_int_start [of i] by blast
  have "first_of (\<lambda>(w, v). starts_with w (show_int i @ rest)) json_words = None"
    by (rule no_word [of _ c "s @ rest"]) (use c in auto)
  moreover have "scan_number (show_int i @ rest) = Some (VInt i, rest)"
  proof (cases "i < 0")
    case True
    then show ?thesis using assms
      by (simp add: scan_number_def show_int_def whole_of_show num_end_parts)
  next
    case False
    have "hd (show_nat (nat i)) \<noteq> CHR ''-''" using hd_show_nat [of "nat i"] by (auto simp: is_digit_def)
    with False show ?thesis using assms
      by (simp add: scan_number_def show_int_def whole_of_show num_end_parts)
  qed
  ultimately show ?thesis by (simp add: scan_plain_def)
qed

lemma jstring_append: "jstring s @ rest = quote # concat (map escaped s) @ quote # rest"
  by (simp add: jstring_def)

lemma jdump_start:
  assumes "json_ok v"
  shows "\<exists>c s. jdump v = c # s \<and> \<not> is_ws c \<and> c \<noteq> CHR '']'' \<and> c \<noteq> CHR ''}''"
proof -
  have plain: ?thesis if "jdump v = c # s" "plain_start c" for c s
    using that plain_start_not [of c] by blast
  show ?thesis
  proof (cases v)
    case (VInt i)
    then show ?thesis using show_int_start [of i] plain by (auto simp: plain_start_def)
  next
    case (VFloat x t)
    then show ?thesis using assms scan_plain_start [of t] plain by (auto simp: float_ok_def)
  qed (auto simp: jstring_def is_ws_def)
qed

lemma join_Cons: "py_join s (w # ws) = (if ws = [] then w else w @ s @ py_join s ws)"
  by (cases ws) simp_all

lemma skip_ws_start: "\<not> is_ws c \<Longrightarrow> skip_ws (c # s) = c # s"
  by (simp add: skip_ws_def)

lemma skip_ws_dump: "json_ok v \<Longrightarrow> skip_ws (jdump v @ rest) = jdump v @ rest"
  using jdump_start [of v] by (auto simp: skip_ws_start)

lemma num_end_sep: "num_end (CHR '','' # s)" "num_end (CHR '']'' # s)" "num_end (CHR ''}'' # s)"
  by (simp_all add: num_end_def is_digit_def)

lemma scan_items_dump:
  assumes "xs \<noteq> []" and "\<forall>x\<in>set xs. json_ok x"
    and "\<forall>x\<in>set xs. \<forall>rest. num_end rest \<longrightarrow> p (jdump x @ rest) = Some (norm x, rest)"
    and "length xs \<le> n"
  shows "scan_items p n (py_join '','' (map jdump xs) @ CHR '']'' # rest) = Some (map norm xs, rest)"
  using assms
proof (induction xs arbitrary: n)
  case (Cons x xs)
  obtain m where m: "n = Suc m" using Cons.prems(4) by (cases n) auto
  show ?case
  proof (cases "xs = []")
    case True
    with Cons.prems(3) m show ?thesis by (simp add: num_end_sep skip_ws_start is_ws_def)
  next
    case False
    then obtain y ys where xs: "xs = y # ys" by (cases xs) auto
    have ws: "skip_ws (py_join '','' (map jdump xs) @ CHR '']'' # rest) = py_join '','' (map jdump xs) @ CHR '']'' # rest"
      using Cons.prems(2) xs by (simp add: join_Cons skip_ws_dump)
    have "p (jdump x @ CHR '','' # py_join '','' (map jdump xs) @ CHR '']'' # rest) =
          Some (norm x, CHR '','' # py_join '','' (map jdump xs) @ CHR '']'' # rest)"
      using Cons.prems(3) by (simp add: num_end_sep)
    moreover have "scan_items p m (py_join '','' (map jdump xs) @ CHR '']'' # rest) = Some (map norm xs, rest)"
      using Cons.IH [OF False] Cons.prems(2-4) m by simp
    ultimately show ?thesis using False m ws
      by (simp add: join_Cons [of _ "jdump x"] skip_ws_start is_ws_def)
  qed
qed simp

text \<open>The members of an object, each text with the value it reads as.\<close>

definition text_start :: "string \<Rightarrow> bool" where
  "text_start t \<longleftrightarrow> t \<noteq> [] \<and> \<not> is_ws (hd t)"

lemma skip_ws_text: "text_start t \<Longrightarrow> skip_ws (t @ rest) = t @ rest"
  by (cases t) (auto simp: text_start_def skip_ws_start)

abbreviation jmember :: "string \<times> string \<Rightarrow> string" where
  "jmember kt \<equiv> (case kt of (k, t) \<Rightarrow> jstring k @ '':'' @ t)"

lemma scan_members_texts:
  assumes "m \<noteq> []" and "\<forall>(k, t, v)\<in>set m. text_start t \<and> (\<forall>rest. num_end rest \<longrightarrow> p (t @ rest) = Some (v, rest))"
    and "length m \<le> n"
  shows "scan_members p n (py_join '','' (map (\<lambda>(k, t, v). jmember (k, t)) m) @ CHR ''}'' # rest) =
         Some (map (\<lambda>(k, t, v). (k, v)) m, rest)"
  using assms
proof (induction m arbitrary: n)
  case (Cons ktv m)
  obtain k t v where ktv: "ktv = (k, t, v)" by (cases ktv)
  obtain l where l: "n = Suc l" using Cons.prems(3) by (cases n) auto
  have t: "text_start t" "\<And>rest. num_end rest \<Longrightarrow> p (t @ rest) = Some (v, rest)"
    using Cons.prems(2) ktv by auto
  show ?case
  proof (cases "m = []")
    case True
    with t ktv l show ?thesis
      by (simp add: jstring_append scan_jstring num_end_sep skip_ws_start is_ws_def skip_ws_text)
  next
    case False
    then obtain kw ys where m: "m = kw # ys" by (cases m) auto
    let ?more = "py_join '','' (map (\<lambda>(k, t, v). jmember (k, t)) m) @ CHR ''}'' # rest"
    have ws: "skip_ws ?more = ?more"
      using m by (cases kw) (simp add: join_Cons jstring_append skip_ws_start is_ws_def)
    have "p (t @ CHR '','' # ?more) = Some (v, CHR '','' # ?more)"
      using t(2) by (simp add: num_end_sep)
    moreover have "scan_members p l ?more = Some (map (\<lambda>(k, t, v). (k, v)) m, rest)"
      using Cons.IH [OF False] Cons.prems(2,3) l by simp
    moreover have "py_join '','' (map (\<lambda>(k, t, v). jmember (k, t)) (ktv # m)) @ CHR ''}'' # rest =
        quote # concat (map escaped k) @ quote # CHR '':'' # t @ CHR '','' # ?more"
      using False ktv by (simp add: join_Cons jstring_append)
    ultimately show ?thesis using l ws t(1) ktv
      by (simp add: scan_jstring skip_ws_start is_ws_def skip_ws_text)
  qed
qed simp

lemma dict_of_distinct:
  assumes "distinct (map fst m)"
  shows "dict_of m = m"
proof -
  have "fold (\<lambda>(k, v). dict_put k v) m acc = acc @ m"
    if "distinct (map fst (acc @ m))" for acc
    using that
  proof (induction m arbitrary: acc)
    case (Cons kv m)
    obtain k v where kv: "kv = (k, v)" by (cases kv)
    from Cons.prems kv have "dict_put k v acc = acc @ [(k, v)]" by (intro dict_put_new) auto
    with Cons.IH [of "acc @ [(k, v)]"] Cons.prems kv show ?case by simp
  qed simp
  from this [of "[]"] assms show ?thesis by (simp add: dict_of_def)
qed

lemma norm_same: "keys_once v \<Longrightarrow> norm v = v"
proof (induction v rule: norm.induct)
  case (1 xs)
  then show ?case by (simp add: map_idI)
next
  case (2 m)
  have "map (\<lambda>(k, v). (k, norm v)) m = m"
  proof (rule map_idI)
    fix kv assume "kv \<in> set m"
    with 2 show "(case kv of (k, v) \<Rightarrow> (k, norm v)) = kv" by (cases kv) fastforce
  qed
  with 2(2) show ?case by (simp add: dict_of_distinct)
qed simp_all

lemma join_longer: "x \<in> set xs \<Longrightarrow> length (f x) \<le> length (py_join s (map f xs))"
  by (induction xs) (auto simp: join_Cons)

lemma join_many: "\<forall>x\<in>set xs. f x \<noteq> [] \<Longrightarrow> length xs \<le> length (py_join s (map f xs))"
proof (induction xs)
  case (Cons x xs)
  then have "f x \<noteq> []" and more: "length xs \<le> length (py_join s (map f xs))" by simp_all
  then obtain k where "length (f x) = Suc k" by (cases "f x") auto
  with more show ?case by (simp add: join_Cons)
qed simp

text \<open>A text that reads as a value wherever it stands, and an object of such texts.\<close>

definition reads_as :: "string \<Rightarrow> pyval \<Rightarrow> bool" where
  "reads_as t v \<longleftrightarrow> text_start t \<and>
     (\<forall>rest n. num_end rest \<longrightarrow> length t < n \<longrightarrow> scan n (t @ rest) = Some (v, rest))"

definition jobject :: "(string \<times> string) list \<Rightarrow> string" where
  "jobject m = ''{'' @ py_join '','' (map jmember m) @ ''}''"

lemma jobject_dict: "jobject (map (\<lambda>(k, v). (k, jdump v)) m) = jdump (VDict m)"
  by (simp add: jobject_def comp_def case_prod_unfold)

lemma scan_object:
  assumes reads: "\<forall>(k, t, v)\<in>set m. reads_as t v" and rest: "num_end rest"
    and n: "length (jobject (map (\<lambda>(k, t, v). (k, t)) m)) < n"
  shows "scan n (jobject (map (\<lambda>(k, t, v). (k, t)) m) @ rest) =
         Some (VDict (dict_of (map (\<lambda>(k, t, v). (k, v)) m)), rest)"
proof -
  obtain l where l: "n = Suc l" using n by (cases n) auto
  let ?jm = "\<lambda>(k, t, v). jmember (k, t)"
  let ?body = "py_join '','' (map ?jm m)"
  have body: "map jmember (map (\<lambda>(k, t, v). (k, t)) m) = map ?jm m" by auto
  show ?thesis
  proof (cases "m = []")
    case True
    with l show ?thesis by (simp add: jobject_def skip_ws_start is_ws_def dict_of_def)
  next
    case False
    then obtain kw ys where m: "m = kw # ys" by (cases m) auto
    have len: "length ?body + 2 \<le> l" using n l unfolding jobject_def body by simp
    have each: "text_start t \<and> (\<forall>rest. num_end rest \<longrightarrow> scan l (t @ rest) = Some (v, rest))"
      if "(k, t, v) \<in> set m" for k t v
    proof -
      have "length t < l" using join_longer [OF that, of ?jm "'',''"] len by simp
      with reads that show ?thesis by (fastforce simp: reads_as_def)
    qed
    have "length m \<le> l"
      using join_many [of m ?jm "'',''"] len by (fastforce simp: jstring_def)
    then have items: "scan_members (scan l) l (?body @ CHR ''}'' # rest) = Some (map (\<lambda>(k, t, v). (k, v)) m, rest)"
      using False each by (intro scan_members_texts) auto
    have "\<exists>z. ?body @ CHR ''}'' # rest = quote # z"
      using m by (cases kw) (simp add: join_Cons jstring_def)
    then obtain z where z: "?body @ CHR ''}'' # rest = quote # z" by blast
    have "scan (Suc l) (CHR ''{'' # (?body @ CHR ''}'' # rest)) =
          Some (VDict (dict_of (map (\<lambda>(k, t, v). (k, v)) m)), rest)"
      using items unfolding z by (simp add: skip_ws_start is_ws_def)
    with l show ?thesis unfolding jobject_def body by simp
  qed
qed

text \<open>What \<open>json.dumps\<close> prints reads back, whatever that is not more of a number follows.\<close>

lemma scan_dump:
  assumes "json_ok v" and "num_end rest" and "length (jdump v) < n"
  shows "scan n (jdump v @ rest) = Some (norm v, rest)"
  using assms
proof (induction v arbitrary: rest n rule: jdump.induct)
  case 1
  obtain k where "n = Suc k" using 1 by (cases n) auto
  with scan_plain_json_words(1) [of rest] show ?case by simp
next
  case (2 b)
  obtain k where "n = Suc k" using 2 by (cases n) auto
  with scan_plain_json_words [of rest] show ?case by simp
next
  case (3 i)
  obtain k where n: "n = Suc k" using 3 by (cases n) auto
  obtain c s where c: "show_int i = c # s" "plain_start c"
    using show_int_start [of i] by (auto simp: plain_start_def)
  with plain_start_not [OF c(2)] scan_int [of i rest] 3 n show ?case by simp
next
  case (4 x t)
  obtain k where n: "n = Suc k" using 4 by (cases n) auto
  have t: "scan_plain t = Some (VFloat x t, [])" using 4 by (simp add: float_ok_def)
  obtain c s where c: "t = c # s" "plain_start c" using scan_plain_start [OF t] by blast
  have "scan_plain (t @ rest) = Some (VFloat x t, rest)"
    using scan_plain_append [OF t, of rest] 4(2) by simp
  with c plain_start_not [OF c(2)] n show ?case by simp
next
  case (5 s)
  obtain k where n: "n = Suc k" using 5 by (cases n) auto
  then show ?case by (simp add: jstring_append scan_jstring)
next
  case (6 xs)
  obtain k where n: "n = Suc k" using 6 by (cases n) auto
  show ?case
  proof (cases "xs = []")
    case True
    with n show ?thesis by (simp add: skip_ws_start is_ws_def)
  next
    case False
    then obtain y ys where xs: "xs = y # ys" by (cases xs) auto
    let ?body = "py_join '','' (map jdump xs)"
    have ok: "\<forall>x\<in>set xs. json_ok x" using 6 by simp
    have small: "length (jdump x) < k" if "x \<in> set xs" for x
      using 6(4) n join_longer [OF that, of jdump "'',''"] by simp
    have "length xs \<le> k"
      using join_many [of xs jdump "'',''"] ok jdump_start 6(4) n by fastforce
    moreover have "\<forall>x\<in>set xs. \<forall>rest. num_end rest \<longrightarrow> scan k (jdump x @ rest) = Some (norm x, rest)"
      using 6(1) ok small by blast
    ultimately have items: "scan_items (scan k) k (?body @ CHR '']'' # rest) = Some (map norm xs, rest)"
      using False ok by (intro scan_items_dump) auto
    obtain c s where c: "jdump y = c # s" "\<not> is_ws c" "c \<noteq> CHR '']''"
      using jdump_start [of y] ok xs by auto
    then have "\<exists>z. ?body @ CHR '']'' # rest = c # z" using xs by (simp add: join_Cons)
    then obtain z where z: "?body @ CHR '']'' # rest = c # z" by blast
    have "scan (Suc k) (CHR ''['' # (?body @ CHR '']'' # rest)) = Some (VList (map norm xs), rest)"
      using items c(2,3) unfolding z by (simp add: skip_ws_start)
    with n show ?thesis by simp
  qed
next
  case (7 m)
  have k: "\<And>kv. kv \<in> set m \<Longrightarrow> json_ok (snd kv)" using 7(2) by simp
  have each: "scan l (jdump (snd kv) @ r) = Some (norm (snd kv), r)"
    if "kv \<in> set m" "num_end r" "length (jdump (snd kv)) < l" for kv r l
    using 7(1) [OF that(1), of "fst kv" "snd kv"] k [OF that(1)] that(2,3) by simp
  let ?m = "map (\<lambda>(k, v). (k, jdump v, norm v)) m"
  have printed: "jobject (map (\<lambda>(k, t, v). (k, t)) ?m) = jdump (VDict m)"
    unfolding jobject_dict [symmetric] by (simp add: comp_def case_prod_unfold)
  have "scan n (jobject (map (\<lambda>(k, t, v). (k, t)) ?m) @ rest) =
        Some (VDict (dict_of (map (\<lambda>(k, t, v). (k, v)) ?m)), rest)"
  proof (rule scan_object)
    show "num_end rest" by fact
    show "\<forall>(k, t, v)\<in>set ?m. reads_as t v"
      using each k jdump_start by (fastforce simp: reads_as_def text_start_def)
    show "length (jobject (map (\<lambda>(k, t, v). (k, t)) ?m)) < n"
      using 7(4) unfolding printed .
  qed
  then show ?case unfolding printed by (simp add: comp_def case_prod_unfold)
qed

section \<open>What is printed is one line of UTF-8\<close>

lemma utf8_start: "utf8_run p 0 lo hi s = utf8_run p 0 128 191 s"
  by (cases s) simp_all

lemma utf8_append:
  "utf8_run p need lo hi s \<Longrightarrow> utf8_run p 0 128 191 t \<Longrightarrow> utf8_run p need lo hi (s @ t)"
proof (induction p need lo hi s rule: utf8_run.induct)
  case (1 p need lo hi)
  then show ?case using utf8_start [of p lo hi t] by simp
qed (auto simp: Let_def split: if_splits)

lemma utf8_ascii: "\<forall>c\<in>set s. (of_char c :: nat) < 128 \<Longrightarrow> utf8_run p 0 128 191 s"
  by (induction s) auto

lemma decodes_append: "decodes s \<Longrightarrow> decodes t \<Longrightarrow> decodes (s @ t)"
  by (simp add: decodes_def utf8_append)

lemma decodes_ascii: "\<forall>c\<in>set s. (of_char c :: nat) < 128 \<Longrightarrow> decodes s"
  by (simp add: decodes_def utf8_ascii)

lemma utf8_passes:
  "utf8_run False need lo hi s \<Longrightarrow> lo' \<le> lo \<Longrightarrow> hi \<le> hi' \<Longrightarrow> utf8_run True need lo' hi' s"
proof (induction s arbitrary: need lo hi lo' hi')
  case (Cons c s)
  show ?case
  proof (cases "need = 0")
    case True
    with Cons.prems(1) show ?thesis
      by (simp add: Let_def split: if_splits) (auto intro: Cons.IH)
  next
    case False
    with Cons.prems show ?thesis
      by (simp add: Let_def split: if_splits) (auto intro: Cons.IH)
  qed
qed simp

lemma is_utf8_decodes: "is_utf8 s \<Longrightarrow> decodes s"
  unfolding is_utf8_def decodes_def by (rule utf8_passes [of 0 128 191]) simp_all

lemma hex_digit_ascii: "n < 16 \<Longrightarrow> 32 \<le> (of_char (hex_digit n) :: nat) \<and> (of_char (hex_digit n) :: nat) < 128"
  by (simp add: hex_digit_def)

lemma escaped_cases:
  "escaped c = [c] \<and> 32 \<le> (of_char c :: nat) \<or>
   (of_char c :: nat) < 128 \<and> (\<forall>d\<in>set (escaped c). 32 \<le> (of_char d :: nat) \<and> (of_char d :: nat) < 128)"
proof -
  define n where "n = (of_char c :: nat)"
  have "n div 16 < 16" if "n < 32" using that by simp
  moreover have "n = 34" if "c = quote" using that by (simp add: n_def)
  moreover have "n = 92" if "c = backslash" using that by (simp add: n_def)
  ultimately show ?thesis
    using hex_digit_ascii [of "n div 16"] hex_digit_ascii [of "n mod 16"]
    by (auto simp: escaped_def n_def [symmetric] Let_def)
qed

lemma utf8_escaped:
  "utf8_run p need lo hi s \<Longrightarrow> 128 \<le> lo \<Longrightarrow> utf8_run p need lo hi (concat (map escaped s))"
proof (induction p need lo hi s rule: utf8_run.induct)
  case (2 p need lo hi c s)
  from escaped_cases [of c] show ?case
  proof
    assume "escaped c = [c] \<and> 32 \<le> (of_char c :: nat)"
    with 2 show ?thesis by (auto simp: Let_def split: if_splits)
  next
    assume small: "(of_char c :: nat) < 128 \<and> (\<forall>d\<in>set (escaped c). 32 \<le> (of_char d :: nat) \<and> (of_char d :: nat) < 128)"
    then have need: "need = 0" and s: "utf8_run p 0 128 191 s"
      using 2 by (auto simp: Let_def split: if_splits)
    have "utf8_run p 0 128 191 (concat (map escaped s))" using 2(1) need small s by simp
    moreover have "utf8_run p need lo hi (escaped c)"
      using utf8_ascii [of "escaped c" p] small need utf8_start [of p lo hi] by auto
    ultimately show ?thesis by (simp add: utf8_append)
  qed
qed simp

lemma decodes_jstring: "is_utf8 s \<Longrightarrow> decodes (jstring s)"
  using utf8_escaped [of True 0 128 191 s] is_utf8_decodes [of s]
  by (simp add: jstring_def decodes_def utf8_append)

lemma show_int_chars: "c \<in> set (show_int i) \<Longrightarrow> 32 \<le> (of_char c :: nat) \<and> (of_char c :: nat) < 128"
  using show_nat_digits [of "nat i"] show_nat_digits [of "nat (- i)"]
  by (auto simp: show_int_def is_digit_def split: if_splits)

lemma decodes_join: "\<forall>x\<in>set xs. decodes (f x) \<Longrightarrow> decodes (py_join '','' (map f xs))"
proof (induction xs)
  case Nil
  then show ?case by (simp add: decodes_def)
next
  case (Cons x xs)
  have "decodes ('','' @ py_join '','' (map f xs))"
    using Cons by (intro decodes_append) (simp_all add: decodes_def)
  with Cons show ?case by (simp add: join_Cons decodes_append)
qed

lemma decodes_dump: "json_ok v \<Longrightarrow> decodes (jdump v)"
proof (induction v rule: jdump.induct)
  case (3 i)
  then show ?case using show_int_chars [of _ i] by (auto intro: decodes_ascii)
next
  case (4 x t)
  then show ?case by (auto simp: float_ok_def intro: decodes_ascii)
next
  case (6 xs)
  have "decodes ''[''" "decodes '']''" by (simp_all add: decodes_def)
  with 6 show ?case by (simp only: jdump.simps) (intro decodes_append decodes_join; auto)
next
  case (7 m)
  have brackets: "decodes ''{''" "decodes ''}''" "decodes '':''" by (simp_all add: decodes_def)
  have "decodes (case kv of (k, v) \<Rightarrow> jstring k @ '':'' @ jdump v)" if "kv \<in> set m" for kv
  proof -
    obtain a b where ab: "kv = (a, b)" by (cases kv)
    have "is_utf8 a" "json_ok b" using 7(2) that ab by fastforce+
    with 7(1) [OF that ab [symmetric]] brackets ab show ?thesis by (simp only: prod.case) (intro decodes_append decodes_jstring; simp)
  qed
  with brackets show ?case by (simp only: jdump.simps) (intro decodes_append decodes_join; auto)
qed (simp_all add: decodes_def decodes_jstring [unfolded decodes_def])

lemma loads_dump:
  assumes "json_ok v"
  shows "loads (jdump v) = Some (norm v)"
  using scan_dump [OF assms, of "[]" "Suc (length (jdump v))"] skip_ws_dump [OF assms, of "[]"] decodes_dump [OF assms]
  by (simp add: loads_def num_end_def skip_ws_def)

abbreviation newline :: char where
  "newline \<equiv> CHR 0x0A"

lemma jstring_line: "newline \<notin> set (jstring s)"
proof -
  have "(of_char (newline) :: nat) = 10" by simp
  then have "newline \<notin> set (escaped c)" for c using escaped_cases [of c] by fastforce
  then show ?thesis by (auto simp: jstring_def)
qed

lemma set_py_join: "c \<in> set (py_join s (map f xs)) \<Longrightarrow> c \<in> set s \<or> (\<exists>x\<in>set xs. c \<in> set (f x))"
  by (induction xs) (auto simp: join_Cons split: if_splits)

lemma dump_line: "json_ok v \<Longrightarrow> newline \<notin> set (jdump v)"
proof (induction v rule: jdump.induct)
  case (3 i)
  then show ?case using show_int_chars [of newline i] by auto
next
  case (4 x t)
  then show ?case by (fastforce simp: float_ok_def)
next
  case (6 xs)
  then show ?case by (auto dest!: set_py_join)
next
  case (7 m)
  then show ?case using jstring_line by (fastforce dest!: set_py_join)
qed (use jstring_line in auto)

end
