(* ===== verification/Journal.thy ===== *)
theory Journal
  imports Json Calls
begin

text \<open>
  What a resumable run writes down as it goes: \<open>hmz.runtime.flowing.journaling\<close>, and the engine's
  \<open>_journaled\<close>. A journal is the bytes on the disk, the records waiting to be written, whether the
  batch's timer runs and whether the file is open. \<open>pydantic_core.to_json\<close> is a parameter, and so are
  the hash a digest is made with and the conversations that keep a session.
\<close>

section \<open>What an earlier run left\<close>

record kept =
  k_id :: int
  k_parent :: int
  k_digest :: string
  k_seq :: int
  k_ref :: string
  k_state :: "(string \<times> pyval) list"
  k_ended :: "bool option"
  k_extra :: "(string \<times> pyval) list list"

record past =
  p_root :: "int option"
  p_calls :: "(int \<times> kept) list"
  p_under :: "((int \<times> string) \<times> (int \<times> int) list) list"

definition no_past :: past where
  "no_past = \<lparr>p_root = None, p_calls = [], p_under = []\<rparr>"

definition next_id :: "past \<Rightarrow> int" where
  "next_id p = (if p_calls p = [] then 0 else Max (set (dict_keys (p_calls p)))) + 1"

definition claim :: "past \<Rightarrow> int \<Rightarrow> string \<Rightarrow> int \<Rightarrow> kept option" where
  "claim p par said seq =
     (case dict_get (p_under p) (par, said) of
        None \<Rightarrow> None
      | Some found \<Rightarrow>
          (case dict_get found seq of
             None \<Rightarrow> None
           | Some k \<Rightarrow> dict_get (p_calls p) k))"

section \<open>Reading a journal\<close>

text \<open>A file's lines, each with the newline that ends it.\<close>

fun lines_of :: "string \<Rightarrow> string list" where
  "lines_of [] = []"
| "lines_of (c # s) =
     (if c = newline then [c] # lines_of s
      else (case lines_of s of [] \<Rightarrow> [[c]] | l # ls \<Rightarrow> (c # l) # ls))"

definition records_in :: "string \<Rightarrow> (string \<times> pyval) list list" where
  "records_in file =
     List.map_filter (\<lambda>line. case loads line of Some (VDict m) \<Rightarrow> Some m | _ \<Rightarrow> None) (lines_of file)"

text \<open>What a record is read with: a value, an error the record is passed over for, or the
  \<open>OverflowError\<close> of an infinity's \<open>int\<close>, which nothing catches.\<close>

datatype 'a got = Got 'a | PassedOver | Escaped

fun and_then :: "'a got \<Rightarrow> ('a \<Rightarrow> 'b got) \<Rightarrow> 'b got" where
  "and_then (Got x) f = f x"
| "and_then PassedOver f = PassedOver"
| "and_then Escaped f = Escaped"

definition item :: "(string \<times> pyval) list \<Rightarrow> string \<Rightarrow> pyval got" where
  "item m k = (case dict_get m k of None \<Rightarrow> PassedOver | Some v \<Rightarrow> Got v)"

definition as_int :: "pyval \<Rightarrow> int got" where
  "as_int v =
     (case v of
        VFloat PInf t \<Rightarrow> Escaped
      | VFloat NInf t \<Rightarrow> Escaped
      | _ \<Rightarrow> (case py_int v of None \<Rightarrow> PassedOver | Some i \<Rightarrow> Got i))"

definition kept_made :: "int \<Rightarrow> int \<Rightarrow> string \<Rightarrow> int \<Rightarrow> string \<Rightarrow> kept" where
  "kept_made i par said seq ref =
     \<lparr>k_id = i, k_parent = par, k_digest = said, k_seq = seq, k_ref = ref,
      k_state = [], k_ended = None, k_extra = []\<rparr>"

definition called :: "kept \<Rightarrow> past \<Rightarrow> past" where
  "called k p =
     (let key = (k_parent k, k_digest k);
          found = (case dict_get (p_under p) key of None \<Rightarrow> [] | Some f \<Rightarrow> f)
      in \<lparr>p_root = (if k_parent k = 0 \<and> p_root p = None then Some (k_id k) else p_root p),
          p_calls = dict_put (k_id k) k (p_calls p),
          p_under = dict_put key (dict_put (k_seq k) (k_id k) found) (p_under p)\<rparr>)"

definition read_call :: "(string \<times> pyval) list \<Rightarrow> past \<Rightarrow> past got" where
  "read_call m p =
     and_then (item m ''id'') (\<lambda>v. and_then (as_int v) (\<lambda>i.
     and_then (item m ''parent'') (\<lambda>v. and_then (as_int v) (\<lambda>par.
     and_then (item m ''digest'') (\<lambda>said.
     and_then (item m ''seq'') (\<lambda>v. and_then (as_int v) (\<lambda>seq.
       Got (called (kept_made i par (py_str said) seq
                      (case dict_get m ''ref'' of None \<Rightarrow> [] | Some r \<Rightarrow> py_str r)) p))))))))"

definition at_kept :: "int \<Rightarrow> (kept \<Rightarrow> kept) \<Rightarrow> past \<Rightarrow> past" where
  "at_kept i f p = p\<lparr>p_calls := map (\<lambda>(j, k). if j = i then (j, f k) else (j, k)) (p_calls p)\<rparr>"

text \<open>What a record that is not a call's says of the call it names.\<close>

definition told :: "(string \<times> pyval) list \<Rightarrow> (kept \<Rightarrow> kept) got" where
  "told m =
     (let kind = get_or_none m ''t'' in
      if kind = VStr ''set''
      then and_then (item m ''value'') (\<lambda>v. and_then (item m ''key'') (\<lambda>key.
             Got (\<lambda>k. k\<lparr>k_state := dict_put (py_str key) v (k_state k)\<rparr>)))
      else if kind = VStr ''del''
      then and_then (item m ''key'') (\<lambda>key. Got (\<lambda>k. k\<lparr>k_state := dict_del (py_str key) (k_state k)\<rparr>))
      else if kind = VStr ''end''
      then Got (\<lambda>k. k\<lparr>k_ended := Some (case dict_get m ''ok'' of None \<Rightarrow> True | Some v \<Rightarrow> truthy v)\<rparr>)
      else if kind = VStr ''session'' \<or> kind = VStr ''tmp''
      then Got (\<lambda>k. k\<lparr>k_extra := k_extra k @ [m]\<rparr>)
      else Got (\<lambda>k. k))"

definition read_record :: "past \<Rightarrow> (string \<times> pyval) list \<Rightarrow> past option" where
  "read_record p m =
     (case (if get_or_none m ''t'' = VStr ''call'' then read_call m p
            else and_then (item m ''id'') (\<lambda>v. and_then (as_int v) (\<lambda>i.
                   if dict_get (p_calls p) i = None then Got p
                   else and_then (told m) (\<lambda>f. Got (at_kept i f p))))) of
        Got p' \<Rightarrow> Some p'
      | PassedOver \<Rightarrow> Some p
      | Escaped \<Rightarrow> None)"

fun replayed :: "past \<Rightarrow> (string \<times> pyval) list list \<Rightarrow> past option" where
  "replayed p [] = Some p"
| "replayed p (m # ms) = (case read_record p m of None \<Rightarrow> None | Some p' \<Rightarrow> replayed p' ms)"

definition read_journal :: "string \<Rightarrow> past option" where
  "read_journal file = replayed no_past (records_in file)"

section \<open>A record's line\<close>

text \<open>\<open>b'{"t":"call","id":%d,...}\n'\<close> and its like: the texts of the members, and the newline.\<close>

definition line_of :: "(string \<times> string) list \<Rightarrow> string" where
  "line_of m = jobject m @ [newline]"

definition header :: string where
  "header = line_of [(''t'', jstring ''journal''), (''v'', show_int 1)]"

definition call_line :: "int \<Rightarrow> int \<Rightarrow> string \<Rightarrow> int \<Rightarrow> string \<Rightarrow> string" where
  "call_line i par said seq ref =
     line_of [(''t'', jstring ''call''), (''id'', show_int i), (''parent'', show_int par),
              (''digest'', quote # said @ [quote]), (''seq'', show_int seq), (''ref'', ref)]"

definition end_line :: "int \<Rightarrow> bool \<Rightarrow> string" where
  "end_line i ok =
     line_of [(''t'', jstring ''end''), (''id'', show_int i), (''ok'', if ok then ''true'' else ''false'')]"

definition set_line :: "int \<Rightarrow> string \<Rightarrow> string \<Rightarrow> string" where
  "set_line i key value =
     line_of [(''t'', jstring ''set''), (''id'', show_int i), (''key'', key), (''value'', value)]"

definition del_line :: "int \<Rightarrow> string \<Rightarrow> string" where
  "del_line i key = line_of [(''t'', jstring ''del''), (''id'', show_int i), (''key'', key)]"

text \<open>\<open>_compacted\<close>, each call by its id. A state's values are ones \<open>json.loads\<close> gave, which \<open>_dumped\<close>
  prints with no sessions to keep.\<close>

definition kept_lines :: "(pyval \<Rightarrow> string) \<Rightarrow> kept \<Rightarrow> string list" where
  "kept_lines tj k =
     call_line (k_id k) (k_parent k) (k_digest k) (k_seq k) (tj (VStr (k_ref k)))
     # map (\<lambda>(key, v). set_line (k_id k) (tj (VStr key)) (jdump v)) (k_state k)
     @ map (\<lambda>m. tj (VDict m) @ [newline]) (k_extra k)
     @ (case k_ended k of None \<Rightarrow> [] | Some ok \<Rightarrow> [end_line (k_id k) ok])"

definition compacted :: "(pyval \<Rightarrow> string) \<Rightarrow> past \<Rightarrow> string list" where
  "compacted tj p = concat (map (\<lambda>i. case dict_get (p_calls p) i of None \<Rightarrow> [] | Some k \<Rightarrow> kept_lines tj k)
                                (sort (dict_keys (p_calls p))))"

section \<open>A journal open for appending\<close>

record journal =
  j_disk :: string
  j_buffer :: "string list"
  j_timer :: bool
  j_open :: bool
  j_records :: nat
  j_writes :: nat

definition journal_on :: "string \<Rightarrow> journal" where
  "journal_on file =
     \<lparr>j_disk = file, j_buffer = [], j_timer = False, j_open = True, j_records = 0, j_writes = 0\<rparr>"

text \<open>\<open>Journal.opened\<close> over what is at its path: \<open>None\<close> is nothing there; the outer \<open>None\<close> is what
  escapes the read.\<close>

definition opened_journal ::
    "(pyval \<Rightarrow> string) \<Rightarrow> string option \<Rightarrow> bool \<Rightarrow> (journal \<times> past option) option" where
  "opened_journal tj there resume =
     (case (if resume then there else None) of
        None \<Rightarrow> Some (journal_on header, None)
      | Some file \<Rightarrow>
          (case read_journal file of
             None \<Rightarrow> None
           | Some p \<Rightarrow>
               if p_root p = None then Some (journal_on header, None)
               else Some (journal_on (header @ concat (compacted tj p)), Some p)))"

text \<open>The loop over \<open>os.write\<close>: \<open>takes\<close> is how many bytes each call takes, and the call after the last
  of them raises. What was written, and in how many writes.\<close>

fun writing :: "nat list \<Rightarrow> string \<Rightarrow> string \<times> nat" where
  "writing takes [] = ([], 0)"
| "writing [] (c # data) = ([], 0)"
| "writing (n # takes) (c # data) =
     (case writing takes (drop n (c # data)) of (w, k) \<Rightarrow> (take n (c # data) @ w, k + 1))"

definition flush :: "nat list \<Rightarrow> journal \<Rightarrow> journal" where
  "flush takes j =
     (let j = j\<lparr>j_timer := False\<rparr> in
      if j_buffer j = [] then j
      else (case writing takes (concat (j_buffer j)) of
              (w, k) \<Rightarrow> j\<lparr>j_disk := j_disk j @ w, j_buffer := [], j_writes := j_writes j + k\<rparr>))"

text \<open>\<open>_kept\<close> refuses with \<open>FlowCancelled\<close> once the journal is closed.\<close>

definition kept_line :: "string \<Rightarrow> journal \<Rightarrow> call_error + journal" where
  "kept_line line j =
     (if \<not> j_open j then Inl (FlowCancelled None)
      else Inr (j\<lparr>j_buffer := j_buffer j @ [line], j_records := j_records j + 1\<rparr>))"

definition batched :: "string \<Rightarrow> journal \<Rightarrow> call_error + journal" where
  "batched line j = map_sum id (\<lambda>j. j\<lparr>j_timer := True\<rparr>) (kept_line line j)"

definition j_call :: "int \<Rightarrow> int \<Rightarrow> string \<Rightarrow> int \<Rightarrow> string \<Rightarrow> journal \<Rightarrow> call_error + journal" where
  "j_call i par said seq ref j = batched (call_line i par said seq ref) j"

definition j_end :: "int \<Rightarrow> bool \<Rightarrow> journal \<Rightarrow> call_error + journal" where
  "j_end i ok j = batched (end_line i ok) j"

definition j_set ::
    "(pyval \<Rightarrow> string) \<Rightarrow> nat list \<Rightarrow> int \<Rightarrow> string \<Rightarrow> string \<Rightarrow> journal \<Rightarrow> call_error + journal" where
  "j_set tj takes i key value j = map_sum id (flush takes) (kept_line (set_line i (tj (VStr key)) value) j)"

definition j_delete :: "(pyval \<Rightarrow> string) \<Rightarrow> nat list \<Rightarrow> int \<Rightarrow> string \<Rightarrow> journal \<Rightarrow> call_error + journal" where
  "j_delete tj takes i key j = map_sum id (flush takes) (kept_line (del_line i (tj (VStr key))) j)"

definition j_note :: "(pyval \<Rightarrow> string) \<Rightarrow> (string \<times> pyval) list \<Rightarrow> journal \<Rightarrow> call_error + journal" where
  "j_note tj m j = batched (tj (VDict m) @ [newline]) j"

definition j_close :: "nat list \<Rightarrow> journal \<Rightarrow> journal" where
  "j_close takes j = (flush takes j)\<lparr>j_open := False\<rparr>"

section \<open>A flow's state\<close>

text \<open>What a flow writes into its state: JSON's shapes with Python's keys, and other objects, a
  session among them.\<close>

datatype okey = KStr string | KInt int | KFloat pyfloat string | KBool bool | KNone | KOther

datatype 'o pyobj =
    ONone
  | OBool bool
  | OInt int
  | OFloat pyfloat string
  | OStr string
  | OList "'o pyobj list"
  | OTuple "'o pyobj list"
  | ODict "(okey \<times> 'o pyobj) list"
  | OOther 'o

fun key_text :: "okey \<Rightarrow> string option" where
  "key_text (KStr s) = Some s"
| "key_text (KInt i) = Some (show_int i)"
| "key_text (KFloat x t) = Some t"
| "key_text (KBool b) = Some (if b then ''true'' else ''false'')"
| "key_text KNone = Some ''null''"
| "key_text KOther = None"

text \<open>What \<open>json.dumps\<close> prints of a value, \<open>conv\<close> its \<open>default\<close>: \<open>None\<close> for its errors.\<close>

fun plain :: "('o \<Rightarrow> pyval option) \<Rightarrow> 'o pyobj \<Rightarrow> pyval option" where
  "plain conv ONone = Some VNone"
| "plain conv (OBool b) = Some (VBool b)"
| "plain conv (OInt i) = Some (VInt i)"
| "plain conv (OFloat x t) = Some (VFloat x t)"
| "plain conv (OStr s) = Some (VStr s)"
| "plain conv (OList xs) = map_option VList (those (map (plain conv) xs))"
| "plain conv (OTuple xs) = map_option VList (those (map (plain conv) xs))"
| "plain conv (ODict m) =
     map_option VDict
       (those (map (\<lambda>(k, v). case key_text k of None \<Rightarrow> None | Some s \<Rightarrow> map_option (Pair s) (plain conv v)) m))"
| "plain conv (OOther x) = conv x"

text \<open>\<open>_dumped\<close>: an integer of too many digits and a string that does not encode are refused, which
  \<open>json_ok\<close> says; the text of a float always is a float's.\<close>

definition dumped :: "('o \<Rightarrow> pyval option) \<Rightarrow> 'o pyobj \<Rightarrow> string option" where
  "dumped conv v =
     (case plain conv v of
        None \<Rightarrow> None
      | Some p \<Rightarrow> if json_ok p then Some (jdump p) else None)"

definition SESSION :: string where
  "SESSION = char_of (0::nat) # ''session''"

definition SAID :: string where
  "SAID = concat (map escaped SESSION)"

fun holds :: "pyval \<Rightarrow> bool" where
  "holds (VDict m) = ((length m = 1 \<and> SESSION \<in> set (map fst m)) \<or> (\<exists>kv\<in>set m. holds (snd kv)))"
| "holds (VList xs) = (\<exists>x\<in>set xs. holds x)"
| "holds v = False"

fun lifted :: "pyval \<Rightarrow> 'o pyobj" where
  "lifted VNone = ONone"
| "lifted (VBool b) = OBool b"
| "lifted (VInt i) = OInt i"
| "lifted (VFloat x t) = OFloat x t"
| "lifted (VStr s) = OStr s"
| "lifted (VList xs) = OList (map lifted xs)"
| "lifted (VDict m) = ODict (map (\<lambda>(k, v). (KStr k, lifted v)) m)"

text \<open>\<open>_carried\<close>: \<open>carry\<close> makes the new session of what one was written down as, \<open>None\<close> where it
  raises.\<close>

fun carried :: "(pyval \<Rightarrow> 'o option) \<Rightarrow> pyval \<Rightarrow> 'o pyobj option" where
  "carried carry (VDict m) =
     (if length m = 1 \<and> SESSION \<in> set (map fst m) then map_option OOther (carry (get_or_none m SESSION))
      else map_option ODict
             (those (map (\<lambda>(k, v). map_option (Pair (KStr k)) (carried carry v)) m)))"
| "carried carry (VList xs) = map_option OList (those (map (carried carry) xs))"
| "carried carry v = Some (lifted v)"

datatype state_error = StateNotSerializable | Unjournaled call_error | NoSuchKey | NotCarried

record flow_state =
  fs_held :: "(string \<times> pyval) list"
  fs_carrying :: "string list"

definition state_made :: "(string \<times> pyval) list \<Rightarrow> flow_state" where
  "state_made held = \<lparr>fs_held = held, fs_carrying = map fst (filter (\<lambda>(k, v). holds v) held)\<rparr>"

definition state_get :: "(pyval \<Rightarrow> 'o option) \<Rightarrow> string \<Rightarrow> flow_state \<Rightarrow> state_error + 'o pyobj" where
  "state_get carry key s =
     (case dict_get (fs_held s) key of
        None \<Rightarrow> Inl NoSuchKey
      | Some v \<Rightarrow>
          if key \<notin> set (fs_carrying s) then Inr (lifted v)
          else (case carried carry v of None \<Rightarrow> Inl NotCarried | Some x \<Rightarrow> Inr x))"

definition state_get_or ::
    "(pyval \<Rightarrow> 'o option) \<Rightarrow> string \<Rightarrow> 'o pyobj \<Rightarrow> flow_state \<Rightarrow> state_error + 'o pyobj" where
  "state_get_or carry key fallback s =
     (if dict_get (fs_held s) key \<noteq> None then state_get carry key s else Inr fallback)"

definition state_contains :: "string \<Rightarrow> flow_state \<Rightarrow> bool" where
  "state_contains key s \<longleftrightarrow> dict_get (fs_held s) key \<noteq> None"

text \<open>\<open>__setitem__\<close> and \<open>__delitem__\<close>, with the journal the state is written down in, if any.\<close>

definition state_set ::
    "(pyval \<Rightarrow> string) \<Rightarrow> nat list \<Rightarrow> ('o \<Rightarrow> pyval option) \<Rightarrow> int \<Rightarrow> okey \<Rightarrow> 'o pyobj \<Rightarrow>
     flow_state \<times> journal option \<Rightarrow> state_error + (flow_state \<times> journal option)" where
  "state_set tj takes conv i k v sj =
     (case k of
        KStr key \<Rightarrow>
          (case dumped conv v of
             None \<Rightarrow> Inl StateNotSerializable
           | Some said \<Rightarrow>
               (case (case snd sj of
                        None \<Rightarrow> Inr None
                      | Some j \<Rightarrow> map_sum id Some (j_set tj takes i key said j)) of
                  Inl e \<Rightarrow> Inl (Unjournaled e)
                | Inr written \<Rightarrow>
                    let s = fst sj in
                    Inr (\<lparr>fs_held = (case loads said of None \<Rightarrow> fs_held s | Some w \<Rightarrow> dict_put key w (fs_held s)),
                          fs_carrying = (if contains_sub SAID said
                                         then (if key \<in> set (fs_carrying s) then fs_carrying s
                                               else fs_carrying s @ [key])
                                         else filter (\<lambda>x. x \<noteq> key) (fs_carrying s))\<rparr>,
                         written)))
      | _ \<Rightarrow> Inl StateNotSerializable)"

definition state_del ::
    "(pyval \<Rightarrow> string) \<Rightarrow> nat list \<Rightarrow> int \<Rightarrow> string \<Rightarrow>
     flow_state \<times> journal option \<Rightarrow> state_error + (flow_state \<times> journal option)" where
  "state_del tj takes i key sj =
     (if dict_get (fs_held (fst sj)) key = None then Inl NoSuchKey
      else
        (case (case snd sj of
                 None \<Rightarrow> Inr None
               | Some j \<Rightarrow> map_sum id Some (j_delete tj takes i key j)) of
           Inl e \<Rightarrow> Inl (Unjournaled e)
         | Inr written \<Rightarrow>
             Inr (\<lparr>fs_held = dict_del key (fs_held (fst sj)),
                   fs_carrying = filter (\<lambda>x. x \<noteq> key) (fs_carrying (fst sj))\<rparr>,
                  written)))"

section \<open>A call written into its run's journal\<close>

fun kind_said :: "permission_kind \<Rightarrow> string" where
  "kind_said NOTHING = ''none''"
| "kind_said READ = ''read''"
| "kind_said EVERYTHING = ''all''"

text \<open>\<open>spec_of\<close>; \<open>fresh\<close> says whether an outworlder's source was made for the run.\<close>

definition spec_of :: "(nat \<Rightarrow> bool) \<Rightarrow> handed \<Rightarrow> string" where
  "spec_of fresh view =
     (case view of
        HandedPerson source role \<Rightarrow> if fresh source then ''outworlder:new'' else ''outworlder''
      | HandedAgent a \<Rightarrow>
          let d = v_driver a; p = permits (v_grant a) in
          d_harness d @ ''@'' @ d_provider d @ ''/'' @ d_model d @ '':'' @ d_effort d
          @ ''|'' @ kind_said (local_kind p) @ '','' @ kind_said (user_kind p) @ '',''
          @ kind_said (system_kind p) @ '','' @ kind_said (online_kind p)
          @ ''|'' @ py_join '','' (skills (v_grant a)))"

definition digest :: "(string \<Rightarrow> string) \<Rightarrow> string \<Rightarrow> string \<Rightarrow> string list \<Rightarrow> string \<Rightarrow> string" where
  "digest hash ref task roles params =
     hash (py_join [char_of (0::nat)] (ref # task # roles) @ [char_of (0::nat)] @ params)"

record journaling_run =
  jr_journal :: journal
  jr_past :: "past option"
  jr_ids :: int

text \<open>\<open>_journaled\<close>, \<open>said\<close> the call's digest: the run, the parent with its count, the call with its ids
  and whether it was picked up, and the state it starts with.\<close>

definition seq_of :: "call \<Rightarrow> string \<Rightarrow> int" where
  "seq_of par said = (case dict_get (seqs par) said of None \<Rightarrow> 0 | Some n \<Rightarrow> n)"

definition picked_up :: "past option \<Rightarrow> call \<Rightarrow> string \<Rightarrow> kept option" where
  "picked_up was par said =
     (case was of
        None \<Rightarrow> None
      | Some p \<Rightarrow>
          if impl par = None then (case p_root p of None \<Rightarrow> None | Some r \<Rightarrow> dict_get (p_calls p) r)
          else if old par \<noteq> 0 then claim p (old par) said (seq_of par said)
          else None)"

definition journaled ::
    "(pyval \<Rightarrow> string) \<Rightarrow> string \<Rightarrow> string \<Rightarrow> call \<Rightarrow> call \<Rightarrow> journaling_run \<Rightarrow>
     call_error + (journaling_run \<times> call \<times> call \<times> (string \<times> pyval) list)" where
  "journaled tj ref said par node r =
     (let par' = par\<lparr>seqs := dict_put said (seq_of par said + 1) (seqs par)\<rparr> in
      case picked_up (jr_past r) par said of
        Some k \<Rightarrow> Inr (r, par', node\<lparr>jid := k_id k, old := k_id k\<rparr>, k_state k)
      | None \<Rightarrow>
          let i = jr_ids r + 1 in
          map_sum id (\<lambda>j. (r\<lparr>jr_ids := i, jr_journal := j\<rparr>, par', node\<lparr>jid := i\<rparr>, []))
            (j_call i (jid par) said (seq_of par said) (tj (VStr ref)) (jr_journal r)))"

end
