(* ===== verification/JournalText.thy ===== *)
theory JournalText
  imports Journal
begin

text \<open>
  A journal's bytes and the records they are: what \<open>pydantic_core.to_json\<close> is asked to do, as a
  locale; the records the program writes, the line of each and what it reads as; a file of whole
  lines, and one cut short at any byte.
\<close>

section \<open>Texts of values\<close>

definition text_of :: "string \<Rightarrow> pyval \<Rightarrow> bool" where
  "text_of t v \<longleftrightarrow> reads_as t v \<and> decodes t \<and> newline \<notin> set t"

lemma dump_text:
  assumes "json_ok v"
  shows "text_of (jdump v) (norm v)"
  using assms jdump_start [OF assms] scan_dump decodes_dump dump_line
  by (auto simp: text_of_def reads_as_def text_start_def)

lemma string_text: "is_utf8 s \<Longrightarrow> text_of (jstring s) (VStr s)"
  using dump_text [of "VStr s"] by simp

lemma int_text: "json_ok (VInt i) \<Longrightarrow> text_of (show_int i) (VInt i)"
  using dump_text [of "VInt i"] by simp

lemma bool_text: "text_of (if b then ''true'' else ''false'') (VBool b)"
  using dump_text [of "VBool b"] by simp

definition digest_ok :: "string \<Rightarrow> bool" where
  "digest_ok said \<longleftrightarrow> (\<forall>c\<in>set said. hex_val c \<noteq> None)"

lemma hex_escaped: "hex_val c \<noteq> None \<Longrightarrow> escaped c = [c] \<and> (of_char c :: nat) < 128"
proof -
  define n where "n = (of_char c :: nat)"
  have "n = 34" if "c = quote" using that by (simp add: n_def)
  moreover have "n = 92" if "c = backslash" using that by (simp add: n_def)
  ultimately show "hex_val c \<noteq> None \<Longrightarrow> escaped c = [c] \<and> (of_char c :: nat) < 128"
    by (auto simp: hex_val_def escaped_def n_def [symmetric] Let_def split: if_splits)
qed

lemma digest_string: "digest_ok said \<Longrightarrow> quote # said @ [quote] = jstring said"
proof -
  assume "digest_ok said"
  then have "concat (map escaped said) = said"
    by (induction said) (auto simp: digest_ok_def hex_escaped)
  then show ?thesis by (simp add: jstring_def)
qed

lemma digest_utf8: "digest_ok said \<Longrightarrow> is_utf8 said"
  using hex_escaped by (auto simp: digest_ok_def is_utf8_def intro!: utf8_ascii)

lemma digest_text: "digest_ok said \<Longrightarrow> text_of (quote # said @ [quote]) (VStr said)"
  by (simp add: digest_string digest_utf8 string_text)

text \<open>An object of such texts under keys of their own.\<close>

lemma object_text:
  assumes "\<forall>(k, t, v)\<in>set m. is_utf8 k \<and> text_of t v" and "distinct (map fst m)"
  shows "text_of (jobject (map (\<lambda>(k, t, v). (k, t)) m)) (VDict (map (\<lambda>(k, t, v). (k, v)) m))"
proof -
  let ?t = "jobject (map (\<lambda>(k, t, v). (k, t)) m)"
  have reads: "\<forall>(k, t, v)\<in>set m. reads_as t v" using assms(1) by (auto simp: text_of_def)
  have keys: "dict_of (map (\<lambda>(k, t, v). (k, v)) m) = map (\<lambda>(k, t, v). (k, v)) m"
    using assms(2) by (intro dict_of_distinct) (simp add: comp_def case_prod_unfold)
  have "text_start ?t" by (simp add: jobject_def text_start_def is_ws_def)
  then have 1: "reads_as ?t (VDict (map (\<lambda>(k, t, v). (k, v)) m))"
    using scan_object [OF reads] keys by (simp add: reads_as_def)
  have member: "decodes (jmember kt) \<and> newline \<notin> set (jmember kt)"
    if "kt \<in> set (map (\<lambda>(k, t, v). (k, t)) m)" for kt
  proof -
    from that obtain k t v where kt: "kt = (k, t)" "(k, t, v) \<in> set m" by auto
    have "decodes '':''" by (simp add: decodes_def)
    with kt assms(1) show ?thesis
      using jstring_line [of k] by (fastforce simp: text_of_def intro: decodes_append decodes_jstring)
  qed
  have "decodes ''{''" "decodes ''}''" by (simp_all add: decodes_def)
  then have 2: "decodes ?t" unfolding jobject_def using member
    by (intro decodes_append decodes_join) auto
  have "newline \<notin> set (py_join '','' (map jmember (map (\<lambda>(k, t, v). (k, t)) m)))"
    using member set_py_join [of newline "'',''" jmember "map (\<lambda>(k, t, v). (k, t)) m"] by auto
  then have 3: "newline \<notin> set ?t" by (simp add: jobject_def)
  from 1 2 3 show ?thesis by (simp add: text_of_def)
qed

lemma text_scan: "text_of t v \<Longrightarrow> num_end rest \<Longrightarrow> length t < n \<Longrightarrow> scan n (t @ rest) = Some (v, rest)"
  by (simp add: text_of_def reads_as_def)

lemma text_loads: "text_of t v \<Longrightarrow> loads (t @ [newline]) = Some v"
proof -
  assume t: "text_of t v"
  have "scan (Suc (length (t @ [newline]))) (t @ [newline]) = Some (v, [newline])"
    by (rule text_scan [OF t]) (simp_all add: num_end_ws is_ws_def)
  moreover have "skip_ws (t @ [newline]) = t @ [newline]"
    using t by (intro skip_ws_text) (simp add: text_of_def reads_as_def)
  moreover have "decodes (t @ [newline])" using t
    by (intro decodes_append) (simp_all add: text_of_def decodes_def)
  ultimately show ?thesis by (simp add: loads_def skip_ws_def is_ws_def del: scan.simps)
qed

lemma text_loads_bare: "text_of t v \<Longrightarrow> loads t = Some v"
proof -
  assume t: "text_of t v"
  have "scan (Suc (length t)) (t @ []) = Some (v, [])"
    by (rule text_scan [OF t]) (simp_all add: num_end_def)
  moreover have "skip_ws (t @ []) = t @ []"
    using t by (intro skip_ws_text) (simp add: text_of_def reads_as_def)
  ultimately show ?thesis using t by (simp add: loads_def skip_ws_def text_of_def del: scan.simps)
qed

lemma text_cut: "text_of (p @ q) v \<Longrightarrow> delimited (p @ q) \<Longrightarrow> q \<noteq> [] \<Longrightarrow> loads p = None"
proof -
  assume t: "text_of (p @ q) v" and d: "delimited (p @ q)" and q: "q \<noteq> []"
  have "scan (Suc (length (p @ q))) ((p @ q) @ []) = Some (v, [])"
    by (rule text_scan [OF t]) (simp_all add: num_end_def)
  with d q show ?thesis by (intro cut_never_loads [of "Suc (length (p @ q))" p q]) (simp_all del: scan.simps)
qed

section \<open>Lines\<close>

lemma lines_of_line:
  "newline \<notin> set t \<Longrightarrow> lines_of (t @ newline # s) = (t @ [newline]) # lines_of s"
  by (induction t) auto

lemma lines_of_rest: "newline \<notin> set p \<Longrightarrow> lines_of p = (if p = [] then [] else [p])"
  by (induction p) auto

lemma records_in_line:
  assumes "text_of t (VDict m)"
  shows "records_in ((t @ [newline]) @ s) = m # records_in s"
  using assms text_loads [OF assms]
  by (simp add: records_in_def lines_of_line text_of_def)

lemma records_in_rest:
  assumes "newline \<notin> set p"
  shows "records_in p = (if p = [] then [] else case loads p of Some (VDict m) \<Rightarrow> [m] | _ \<Rightarrow> [])"
  using assms by (auto simp: records_in_def lines_of_rest split: option.splits pyval.splits)

lemma records_in_lines:
  "list_all2 (\<lambda>t m. text_of t (VDict m)) ts ms \<Longrightarrow>
   records_in (concat (map (\<lambda>t. t @ [newline]) ts) @ s) = ms @ records_in s"
proof (induction rule: list_all2_induct)
  case (Cons t ts m ms)
  then show ?case using records_in_line [OF Cons(1)] by simp
qed simp

lemma records_in_whole:
  "list_all2 (\<lambda>t m. text_of t (VDict m)) ts ms \<Longrightarrow> records_in (concat (map (\<lambda>t. t @ [newline]) ts)) = ms"
  using records_in_lines [of ts ms "[]"] by (simp add: records_in_def)

text \<open>A file cut at any byte holds the records before the cut and no other.\<close>

lemma records_in_cut:
  assumes "list_all2 (\<lambda>t m. text_of t (VDict m) \<and> delimited t) ts ms"
  shows "\<exists>k. records_in (take n (concat (map (\<lambda>t. t @ [newline]) ts))) = take k ms"
  using assms
proof (induction arbitrary: n rule: list_all2_induct)
  case Nil
  then show ?case by (simp add: records_in_def)
next
  case (Cons t ts m ms)
  let ?rest = "concat (map (\<lambda>t. t @ [newline]) ts)"
  have t: "text_of t (VDict m)" "delimited t" using Cons(1) by simp_all
  then have nl: "newline \<notin> set t" by (simp add: text_of_def)
  consider "length t < n" | "n = length t" | "n < length t" by linarith
  then show ?case
  proof cases
    case 1
    then have "take n ((t @ [newline]) @ ?rest) = (t @ [newline]) @ take (n - length t - 1) ?rest"
      by (simp add: take_Cons')
    moreover obtain k where "records_in (take (n - length t - 1) ?rest) = take k ms"
      using Cons.IH by blast
    ultimately have "records_in (take n ((t @ [newline]) @ ?rest)) = take (Suc k) (m # ms)"
      using records_in_line [OF t(1)] by simp
    then show ?thesis by (intro exI [of _ "Suc k"]) simp
  next
    case 2
    have "t \<noteq> []" using t(2) by (simp add: delimited_def)
    with 2 nl text_loads_bare [OF t(1)] have "records_in (take n ((t @ [newline]) @ ?rest)) = take 1 (m # ms)"
      by (simp add: records_in_rest)
    then show ?thesis by (intro exI [of _ 1]) simp
  next
    case 3
    define p where "p = take n t"
    have "text_of (p @ drop n t) (VDict m)" "delimited (p @ drop n t)" "drop n t \<noteq> []"
      using t 3 by (simp_all add: p_def)
    then have "loads p = None" by (rule text_cut)
    moreover have "newline \<notin> set p" using nl by (auto simp: p_def dest: in_set_takeD)
    moreover have "take n ((t @ [newline]) @ ?rest) = p" using 3 by (simp add: p_def)
    ultimately have "records_in (take n ((t @ [newline]) @ ?rest)) = take 0 (m # ms)"
      by (simp add: records_in_rest)
    then show ?thesis by (intro exI [of _ 0]) simp
  qed
qed

end
