(* ===== verification/JournalReplay.thy ===== *)
theory JournalReplay
  imports JournalText
begin

text \<open>
  What a journal's records replay to. The records the program writes, what each does to what an
  earlier run left, and that compacting what was left and reading it again gives it back.
\<close>

section \<open>The records the program writes\<close>

datatype jrec =
    RCall int int string int string
  | REnd int bool
  | RSet int string pyval
  | RDel int string
  | RNote int "(string \<times> pyval) list"

fun rec_line :: "(pyval \<Rightarrow> string) \<Rightarrow> jrec \<Rightarrow> string" where
  "rec_line tj (RCall i par said seq ref) = call_line i par said seq (tj (VStr ref))"
| "rec_line tj (REnd i ok) = end_line i ok"
| "rec_line tj (RSet i key p) = set_line i (tj (VStr key)) (jdump p)"
| "rec_line tj (RDel i key) = del_line i (tj (VStr key))"
| "rec_line tj (RNote i m) = tj (VDict m) @ [newline]"

fun rec_says :: "jrec \<Rightarrow> (string \<times> pyval) list" where
  "rec_says (RCall i par said seq ref) =
     [(''t'', VStr ''call''), (''id'', VInt i), (''parent'', VInt par), (''digest'', VStr said),
      (''seq'', VInt seq), (''ref'', VStr ref)]"
| "rec_says (REnd i ok) = [(''t'', VStr ''end''), (''id'', VInt i), (''ok'', VBool ok)]"
| "rec_says (RSet i key p) =
     [(''t'', VStr ''set''), (''id'', VInt i), (''key'', VStr key), (''value'', norm p)]"
| "rec_says (RDel i key) = [(''t'', VStr ''del''), (''id'', VInt i), (''key'', VStr key)]"
| "rec_says (RNote i m) = m"

definition note_ok :: "int \<Rightarrow> (string \<times> pyval) list \<Rightarrow> bool" where
  "note_ok i m \<longleftrightarrow> json_ok (VDict m) \<and> keys_once (VDict m) \<and> dict_get m ''id'' = Some (VInt i) \<and>
     (dict_get m ''t'' = Some (VStr ''session'') \<or> dict_get m ''t'' = Some (VStr ''tmp''))"

fun rec_ok :: "jrec \<Rightarrow> bool" where
  "rec_ok (RCall i par said seq ref) \<longleftrightarrow>
     0 < i \<and> json_ok (VInt i) \<and> json_ok (VInt par) \<and> digest_ok said \<and> json_ok (VInt seq) \<and> is_utf8 ref"
| "rec_ok (REnd i ok) \<longleftrightarrow> json_ok (VInt i)"
| "rec_ok (RSet i key p) \<longleftrightarrow> json_ok (VInt i) \<and> is_utf8 key \<and> json_ok p"
| "rec_ok (RDel i key) \<longleftrightarrow> json_ok (VInt i) \<and> is_utf8 key"
| "rec_ok (RNote i m) \<longleftrightarrow> note_ok i m"

text \<open>What \<open>pydantic_core.to_json\<close> is asked for: a text of the value that reads as it wherever it
  stands, on one line; an object's opens with a brace.\<close>

locale json_writer =
  fixes to_json :: "pyval \<Rightarrow> string"
  assumes written: "json_ok v \<Longrightarrow> text_of (to_json v) (norm v)"
    and braced: "hd (to_json (VDict m)) = CHR ''{''"
begin

lemma written_string: "is_utf8 s \<Longrightarrow> text_of (to_json (VStr s)) (VStr s)"
  using written [of "VStr s"] by simp

text \<open>Each record is one line, which reads as what it says.\<close>

lemma rec_text:
  assumes "rec_ok r"
  shows "\<exists>t. rec_line to_json r = t @ [newline] \<and> text_of t (VDict (rec_says r)) \<and> delimited t"
proof -
  have object: ?thesis
    if "rec_line to_json r = line_of (map (\<lambda>(k, t, v). (k, t)) m)"
       "rec_says r = map (\<lambda>(k, t, v). (k, v)) m"
       "\<forall>(k, t, v)\<in>set m. is_utf8 k \<and> text_of t v" "distinct (map fst m)" for m
    using that object_text [OF that(3,4)]
    by (intro exI [of _ "jobject (map (\<lambda>(k, t, v). (k, t)) m)"])
       (simp add: line_of_def delimited_def jobject_def)
  have utf8: "is_utf8 ''t''" "is_utf8 ''id''" "is_utf8 ''parent''" "is_utf8 ''digest''" "is_utf8 ''seq''"
    "is_utf8 ''ref''" "is_utf8 ''ok''" "is_utf8 ''key''" "is_utf8 ''value''" "is_utf8 ''call''"
    "is_utf8 ''end''" "is_utf8 ''set''" "is_utf8 ''del''"
    by (simp_all add: is_utf8_def)
  show ?thesis
  proof (cases r)
    case (RCall i par said seq ref)
    have i: "text_of (show_int i) (VInt i)" using assms RCall by (intro int_text) (simp only: rec_ok.simps)
    show ?thesis
      by (rule object [of "[(''t'', jstring ''call'', VStr ''call''), (''id'', show_int i, VInt i),
            (''parent'', show_int par, VInt par), (''digest'', quote # said @ [quote], VStr said),
            (''seq'', show_int seq, VInt seq), (''ref'', to_json (VStr ref), VStr ref)]"])
         (use assms RCall utf8 i in \<open>simp_all add: call_line_def string_text int_text digest_text written_string\<close>)
  next
    case (REnd i ok)
    show ?thesis
      by (rule object [of "[(''t'', jstring ''end'', VStr ''end''), (''id'', show_int i, VInt i),
            (''ok'', if ok then ''true'' else ''false'', VBool ok)]"])
         (use assms REnd utf8 bool_text [of ok] in \<open>simp_all add: end_line_def string_text int_text\<close>)
  next
    case (RSet i key p)
    show ?thesis
      by (rule object [of "[(''t'', jstring ''set'', VStr ''set''), (''id'', show_int i, VInt i),
            (''key'', to_json (VStr key), VStr key), (''value'', jdump p, norm p)]"])
         (use assms RSet utf8 dump_text [of p] in \<open>simp_all add: set_line_def string_text int_text written_string\<close>)
  next
    case (RDel i key)
    show ?thesis
      by (rule object [of "[(''t'', jstring ''del'', VStr ''del''), (''id'', show_int i, VInt i),
            (''key'', to_json (VStr key), VStr key)]"])
         (use assms RDel utf8 in \<open>simp_all add: del_line_def string_text int_text written_string\<close>)
  next
    case (RNote i m)
    with assms have m: "json_ok (VDict m)" "keys_once (VDict m)" by (simp_all add: note_ok_def)
    then have "text_of (to_json (VDict m)) (VDict m)" using written [OF m(1)] norm_same [OF m(2)] by simp
    moreover from this have "to_json (VDict m) \<noteq> []" by (auto simp: text_of_def reads_as_def text_start_def)
    ultimately show ?thesis using RNote braced by (simp add: delimited_def)
  qed
qed

definition rec_body :: "jrec \<Rightarrow> string" where
  "rec_body r = butlast (rec_line to_json r)"

lemma rec_bodies:
  "\<forall>r\<in>set rs. rec_ok r \<Longrightarrow>
   list_all2 (\<lambda>t m. text_of t (VDict m) \<and> delimited t) (map rec_body rs) (map rec_says rs) \<and>
   concat (map (rec_line to_json) rs) = concat (map (\<lambda>t. t @ [newline]) (map rec_body rs))"
proof (induction rs)
  case (Cons r rs)
  then obtain t where "rec_line to_json r = t @ [newline]" "text_of t (VDict (rec_says r))" "delimited t"
    using rec_text [of r] by auto
  with Cons show ?case by (simp add: rec_body_def)
qed simp

end

interpretation dumps: json_writer jdump
  by unfold_locales (simp_all add: dump_text)

section \<open>What a record does\<close>

lemma as_int_VInt [simp]: "as_int (VInt i) = Got i"
  by (simp add: as_int_def)

fun apply_rec :: "jrec \<Rightarrow> past \<Rightarrow> past" where
  "apply_rec (RCall i par said seq ref) = called (kept_made i par said seq ref)"
| "apply_rec (REnd i ok) = at_kept i (\<lambda>k. k\<lparr>k_ended := Some ok\<rparr>)"
| "apply_rec (RSet i key p) = at_kept i (\<lambda>k. k\<lparr>k_state := dict_put key (norm p) (k_state k)\<rparr>)"
| "apply_rec (RDel i key) = at_kept i (\<lambda>k. k\<lparr>k_state := dict_del key (k_state k)\<rparr>)"
| "apply_rec (RNote i m) = at_kept i (\<lambda>k. k\<lparr>k_extra := k_extra k @ [m]\<rparr>)"

lemma at_kept_absent: "dict_get (p_calls p) i = None \<Longrightarrow> at_kept i f p = p"
proof -
  assume "dict_get (p_calls p) i = None"
  then have "map (\<lambda>(j, k). if j = i then (j, f k) else (j, k)) (p_calls p) = p_calls p"
    by (intro map_idI) (force simp: dict_get_None_iff)
  then show ?thesis by (simp add: at_kept_def)
qed

lemma read_rec: "rec_ok r \<Longrightarrow> read_record p (rec_says r) = Some (apply_rec r p)"
proof (cases r)
  case (RNote i m)
  moreover assume "rec_ok r"
  ultimately show ?thesis
    by (auto simp: note_ok_def read_record_def get_or_none_def item_def told_def at_kept_absent)
qed (auto simp: read_record_def get_or_none_def item_def told_def at_kept_absent read_call_def)

lemma replayed_append:
  "replayed p (ms @ ns) = (case replayed p ms of None \<Rightarrow> None | Some p' \<Rightarrow> replayed p' ns)"
  by (induction ms arbitrary: p) (auto split: option.splits)

lemma replayed_recs: "\<forall>r\<in>set rs. rec_ok r \<Longrightarrow> replayed p (map rec_says rs) = Some (fold apply_rec rs p)"
  by (induction rs arbitrary: p) (simp_all add: read_rec)

section \<open>What is kept of each call\<close>

text \<open>What a record names a call by does not change with what is kept of it.\<close>

definition same_call :: "kept \<Rightarrow> kept \<Rightarrow> bool" where
  "same_call k k' \<longleftrightarrow> k_id k = k_id k' \<and> k_parent k = k_parent k' \<and> k_digest k = k_digest k' \<and>
     k_seq k = k_seq k' \<and> k_ref k = k_ref k'"

definition relating :: "int \<Rightarrow> (kept \<Rightarrow> kept) \<Rightarrow> kept \<Rightarrow> kept" where
  "relating i f k = (if k_id k = i then f k else k)"

lemma map_dict_put:
  "map (\<lambda>(j, k). (j, g j k)) (dict_put i x m) = dict_put i (g i x) (map (\<lambda>(j, k). (j, g j k)) m)"
  by (induction i x m rule: dict_put.induct) auto

lemma at_kept_called:
  assumes "\<And>k. same_call (f k) k"
  shows "at_kept i f (called k p) = called (relating i f k) (at_kept i f p)"
proof -
  have eq: "(\<lambda>(j, k). if j = i then (j, f k) else (j, k)) = (\<lambda>(j, k). (j, (if j = i then f k else k)))"
    by auto
  have "same_call (relating i f k) k" using assms by (simp add: relating_def same_call_def)
  then show ?thesis
    by (simp add: at_kept_def called_def Let_def eq map_dict_put same_call_def relating_def)
qed

lemma at_kept_fold:
  assumes "\<And>k. same_call (f k) k"
  shows "at_kept i f (fold called ks p) = fold called (map (relating i f) ks) (at_kept i f p)"
  by (induction ks arbitrary: p) (simp_all add: at_kept_called [OF assms])

lemma at_kept_none [simp]: "at_kept i f no_past = no_past"
  by (simp add: at_kept_def no_past_def)

text \<open>The calls of a past that a journal of the program's own replays to: each by its id, in the order
  they were called, its state one of values that print and read back.\<close>

definition state_ok :: "(string \<times> pyval) list \<Rightarrow> bool" where
  "state_ok s \<longleftrightarrow> dict_ok s \<and> (\<forall>(key, v)\<in>set s. is_utf8 key \<and> json_ok v \<and> norm v = v)"

definition kept_ok :: "kept \<Rightarrow> bool" where
  "kept_ok k \<longleftrightarrow> 0 < k_id k \<and> json_ok (VInt (k_id k)) \<and> json_ok (VInt (k_parent k)) \<and> digest_ok (k_digest k) \<and>
     json_ok (VInt (k_seq k)) \<and> is_utf8 (k_ref k) \<and> state_ok (k_state k) \<and> (\<forall>m\<in>set (k_extra k). note_ok (k_id k) m)"

definition past_ok :: "past \<Rightarrow> bool" where
  "past_ok p \<longleftrightarrow> (\<exists>ks. p = fold called ks no_past \<and> sorted_wrt (<) (map k_id ks) \<and> (\<forall>k\<in>set ks. kept_ok k))"

lemma called_calls: "k_id k \<notin> set (dict_keys (p_calls p)) \<Longrightarrow> p_calls (called k p) = p_calls p @ [(k_id k, k)]"
  by (simp add: called_def Let_def dict_put_new)

lemma calls_of_fold:
  "distinct (dict_keys (p_calls p) @ map k_id ks) \<Longrightarrow>
   p_calls (fold called ks p) = p_calls p @ map (\<lambda>k. (k_id k, k)) ks"
proof (induction ks arbitrary: p)
  case (Cons k ks)
  then have "p_calls (called k p) = p_calls p @ [(k_id k, k)]" by (intro called_calls) simp
  with Cons show ?case by simp
qed simp

lemma calls_of_ids:
  assumes "sorted_wrt (<) (map k_id ks)"
  shows "p_calls (fold called ks no_past) = map (\<lambda>k. (k_id k, k)) ks"
  using assms calls_of_fold [of no_past ks] strict_sorted_iff [of "map k_id ks"]
  by (simp add: no_past_def)

text \<open>A call's lines: its record, its state, its notes and its end.\<close>

fun kept_recs :: "kept \<Rightarrow> jrec list" where
  "kept_recs k =
     RCall (k_id k) (k_parent k) (k_digest k) (k_seq k) (k_ref k)
     # map (\<lambda>(key, v). RSet (k_id k) key v) (k_state k)
     @ map (RNote (k_id k)) (k_extra k)
     @ (case k_ended k of None \<Rightarrow> [] | Some ok \<Rightarrow> [REnd (k_id k) ok])"

lemma kept_lines_recs: "kept_lines tj k = map (rec_line tj) (kept_recs k)"
  by (auto simp: kept_lines_def split: option.splits)

lemma kept_recs_ok: "kept_ok k \<Longrightarrow> r \<in> set (kept_recs k) \<Longrightarrow> rec_ok r"
  by (auto simp: kept_ok_def state_ok_def split: option.splits)

text \<open>Replaying them calls the call as it was kept.\<close>

lemma sets_called:
  "fold apply_rec (map (\<lambda>(key, v). RSet (k_id k) key v) s) (called k p) =
   called (k\<lparr>k_state := fold (\<lambda>(key, v). dict_put key (norm v)) s (k_state k)\<rparr>) p"
  if "dict_get (p_calls p) (k_id k) = None"
  using that
proof (induction s arbitrary: k)
  case (Cons kv s)
  obtain key v where kv: "kv = (key, v)" by (cases kv)
  let ?f = "\<lambda>k. k\<lparr>k_state := dict_put key (norm v) (k_state k)\<rparr>"
  have "at_kept (k_id k) ?f (called k p) = called (?f k) (at_kept (k_id k) ?f p)"
    by (simp add: at_kept_called same_call_def relating_def)
  also have "\<dots> = called (?f k) p" using Cons.prems by (simp add: at_kept_absent)
  finally show ?case using Cons.IH [of "?f k"] Cons.prems kv by simp
qed simp

lemma notes_called:
  "fold apply_rec (map (RNote (k_id k)) ms) (called k p) = called (k\<lparr>k_extra := k_extra k @ ms\<rparr>) p"
  if "dict_get (p_calls p) (k_id k) = None"
  using that
proof (induction ms arbitrary: k)
  case (Cons m ms)
  let ?f = "\<lambda>k. k\<lparr>k_extra := k_extra k @ [m]\<rparr>"
  have "at_kept (k_id k) ?f (called k p) = called (?f k) (at_kept (k_id k) ?f p)"
    by (simp add: at_kept_called same_call_def relating_def)
  also have "\<dots> = called (?f k) p" using Cons.prems by (simp add: at_kept_absent)
  finally show ?case using Cons.IH [of "?f k"] Cons.prems by simp
qed simp

lemma end_called:
  assumes "dict_get (p_calls p) (k_id k) = None"
  shows "apply_rec (REnd (k_id k) ok) (called k p) = called (k\<lparr>k_ended := Some ok\<rparr>) p"
  using assms by (simp add: at_kept_called same_call_def relating_def at_kept_absent)

lemma put_all:
  assumes "dict_ok s" and "\<forall>(key, v)\<in>set s. norm v = v"
  shows "fold (\<lambda>(key, v). dict_put key (norm v)) s [] = s"
proof -
  have "fold (\<lambda>(key, v). dict_put key (norm v)) s acc = fold (\<lambda>(key, v). dict_put key v) s acc" for acc
    using assms(2) by (induction s arbitrary: acc) auto
  then show ?thesis using dict_of_distinct [of s] assms(1) by (simp add: dict_of_def dict_ok_def)
qed

lemma kept_recs_called:
  assumes "kept_ok k" and "dict_get (p_calls p) (k_id k) = None"
  shows "fold apply_rec (kept_recs k) p = called k p"
proof -
  define k0 where "k0 = kept_made (k_id k) (k_parent k) (k_digest k) (k_seq k) (k_ref k)"
  have id: "k_id k0 = k_id k" by (simp add: k0_def kept_made_def)
  define k1 where "k1 = k0\<lparr>k_state := k_state k\<rparr>"
  have s: "fold apply_rec (map (\<lambda>(key, v). RSet (k_id k) key v) (k_state k)) (called k0 p) = called k1 p"
  proof -
    have "fold (\<lambda>(key, v). dict_put key (norm v)) (k_state k) [] = k_state k"
      using assms(1) by (intro put_all) (auto simp: kept_ok_def state_ok_def)
    moreover have "k_state k0 = []" by (simp add: k0_def kept_made_def)
    ultimately show ?thesis
      using sets_called [of p k0 "k_state k"] assms(2) by (simp add: id k1_def)
  qed
  define k2 where "k2 = k1\<lparr>k_extra := k_extra k\<rparr>"
  have id1: "k_id k1 = k_id k" "k_extra k1 = []" by (simp_all add: k1_def id) (simp add: k0_def kept_made_def)
  have n: "fold apply_rec (map (RNote (k_id k)) (k_extra k)) (called k1 p) = called k2 p"
    using notes_called [of p k1 "k_extra k"] assms(2) id1 by (simp add: k2_def)
  have id2: "k_id k2 = k_id k" "k_ended k2 = None"
    by (simp_all add: k2_def id1) (simp add: k1_def k0_def kept_made_def)
  have k: "k2\<lparr>k_ended := k_ended k\<rparr> = k"
    by (cases k) (simp add: k2_def k1_def k0_def kept_made_def)
  have e: "fold apply_rec (case k_ended k of None \<Rightarrow> [] | Some ok \<Rightarrow> [REnd (k_id k) ok]) (called k2 p) = called k p"
  proof (cases "k_ended k")
    case None
    have "k2\<lparr>k_ended := None\<rparr> = k2" using id2(2) by (cases k2) simp
    with None k have "k2 = k" by simp
    with None show ?thesis by simp
  next
    case (Some ok)
    have "apply_rec (REnd (k_id k) ok) (called k2 p) = called (k2\<lparr>k_ended := Some ok\<rparr>) p"
      using end_called [of p k2] assms(2) id2(1) by simp
    with Some k show ?thesis by (simp del: apply_rec.simps)
  qed
  show ?thesis using s n e by (simp add: k0_def)
qed

lemma all_recs_called:
  assumes "distinct (dict_keys (p_calls p) @ map k_id ks)" and "\<forall>k\<in>set ks. kept_ok k"
  shows "fold apply_rec (concat (map kept_recs ks)) p = fold called ks p"
  using assms
proof (induction ks arbitrary: p)
  case (Cons k ks)
  then have none: "dict_get (p_calls p) (k_id k) = None" by (auto simp: dict_get_None_iff)
  have "fold apply_rec (kept_recs k) p = called k p"
    using Cons.prems(2) none by (intro kept_recs_called) simp_all
  moreover have "distinct (dict_keys (p_calls (called k p)) @ map k_id ks)"
    using Cons.prems(1) none by (simp add: called_calls dict_get_None_iff)
  ultimately show ?case using Cons by simp
qed simp

lemma compacted_recs:
  assumes "sorted_wrt (<) (map k_id ks)"
  shows "compacted tj (fold called ks no_past) = map (rec_line tj) (concat (map kept_recs ks))"
proof -
  let ?calls = "map (\<lambda>k. (k_id k, k)) ks"
  have calls: "p_calls (fold called ks no_past) = ?calls" by (rule calls_of_ids [OF assms])
  have ids: "distinct (map k_id ks)" "sorted (map k_id ks)" using assms by (auto simp: strict_sorted_iff)
  have get: "dict_get ?calls (k_id k) = Some k" if "k \<in> set ks" for k
    using that ids(1) by (simp add: dict_get_map_of comp_def)
  have "sort (dict_keys ?calls) = map k_id ks" using ids(2) by (simp add: comp_def sorted_sort_id)
  then have "compacted tj (fold called ks no_past) =
      concat (map (\<lambda>k. case dict_get ?calls (k_id k) of None \<Rightarrow> [] | Some k \<Rightarrow> kept_lines tj k) ks)"
    unfolding compacted_def calls by (simp add: comp_def)
  also have "\<dots> = concat (map (kept_lines tj) ks)" using get by (simp cong: map_cong)
  also have "kept_lines tj = (\<lambda>k. map (rec_line tj) (kept_recs k))"
    by (rule ext) (rule kept_lines_recs)
  also have "concat (map (\<lambda>k. map (rec_line tj) (kept_recs k)) ks) = map (rec_line tj) (concat (map kept_recs ks))"
    by (simp only: map_concat map_map comp_def)
  finally show ?thesis .
qed

section \<open>A journal file\<close>

lemma header_line: "header = jobject [(''t'', jstring ''journal''), (''v'', show_int 1)] @ [newline]"
  by (simp add: header_def line_of_def)

abbreviation header_says :: "(string \<times> pyval) list" where
  "header_says \<equiv> [(''t'', VStr ''journal''), (''v'', VInt 1)]"

lemma header_text:
  "text_of (jobject [(''t'', jstring ''journal''), (''v'', show_int 1)]) (VDict header_says) \<and>
   delimited (jobject [(''t'', jstring ''journal''), (''v'', show_int 1)])"
proof -
  have one: "json_ok (VInt 1)" using show_nat.simps [of 1] by simp
  have utf8: "is_utf8 ''journal''" "is_utf8 ''t''" "is_utf8 ''v''" by (simp_all add: is_utf8_def)
  have "text_of (jstring ''journal'') (VStr ''journal'')" "text_of (show_int 1) (VInt 1)"
    using string_text [OF utf8(1)] int_text [OF one] by simp_all
  then show ?thesis
    using object_text [of "[(''t'', jstring ''journal'', VStr ''journal''), (''v'', show_int 1, VInt 1)]"] utf8
    by (simp add: delimited_def jobject_def)
qed

lemma read_header: "read_record p header_says = Some p"
  by (simp add: read_record_def get_or_none_def item_def)

context json_writer
begin

definition file_of :: "jrec list \<Rightarrow> string" where
  "file_of rs = header @ concat (map (rec_line to_json) rs)"

lemma file_lines:
  assumes "\<forall>r\<in>set rs. rec_ok r"
  shows "\<exists>ts. file_of rs = concat (map (\<lambda>t. t @ [newline]) ts) \<and>
              list_all2 (\<lambda>t m. text_of t (VDict m) \<and> delimited t) ts (header_says # map rec_says rs)"
  using rec_bodies [OF assms] header_text
  by (intro exI [of _ "jobject [(''t'', jstring ''journal''), (''v'', show_int 1)] # map rec_body rs"])
     (simp add: file_of_def header_line)

text \<open>A file of the program's records reads as what they do, and one cut short at any byte as what
  the records before the cut do.\<close>

lemma read_file_cut:
  assumes "\<forall>r\<in>set rs. rec_ok r"
  shows "\<exists>k. read_journal (take n (file_of rs)) = Some (fold apply_rec (take k rs) no_past)"
proof -
  obtain ts where ts: "file_of rs = concat (map (\<lambda>t. t @ [newline]) ts)"
    "list_all2 (\<lambda>t m. text_of t (VDict m) \<and> delimited t) ts (header_says # map rec_says rs)"
    using file_lines [OF assms] by blast
  obtain k where k: "records_in (take n (file_of rs)) = take k (header_says # map rec_says rs)"
    using records_in_cut [OF ts(2), of n] ts(1) by auto
  have "replayed no_past (take k (header_says # map rec_says rs)) = Some (fold apply_rec (take (k - 1) rs) no_past)"
    using assms replayed_recs [of "take (k - 1) rs"]
    by (cases k) (auto simp: read_header take_map dest: in_set_takeD)
  with k show ?thesis by (auto simp: read_journal_def)
qed

lemma read_file:
  assumes "\<forall>r\<in>set rs. rec_ok r"
  shows "read_journal (file_of rs) = Some (fold apply_rec rs no_past)"
proof -
  obtain ts where ts: "file_of rs = concat (map (\<lambda>t. t @ [newline]) ts)"
    "list_all2 (\<lambda>t m. text_of t (VDict m) \<and> delimited t) ts (header_says # map rec_says rs)"
    using file_lines [OF assms] by blast
  then have "records_in (file_of rs) = header_says # map rec_says rs"
    by (simp add: records_in_whole list_all2_mono)
  then show ?thesis by (simp add: read_journal_def read_header replayed_recs [OF assms])
qed

text \<open>Compacting what was left and reading it again gives it back.\<close>

lemma compacted_reads:
  assumes "past_ok p"
  shows "read_journal (header @ concat (compacted to_json p)) = Some p"
proof -
  obtain ks where ks: "p = fold called ks no_past" "sorted_wrt (<) (map k_id ks)" "\<forall>k\<in>set ks. kept_ok k"
    using assms by (auto simp: past_ok_def)
  have all: "header @ concat (compacted to_json p) = file_of (concat (map kept_recs ks))"
    unfolding ks(1) compacted_recs [OF ks(2)] file_of_def ..
  have ok: "\<forall>r\<in>set (concat (map kept_recs ks)). rec_ok r"
  proof
    fix r assume "r \<in> set (concat (map kept_recs ks))"
    then obtain k where "k \<in> set ks" "r \<in> set (kept_recs k)" by (auto simp del: kept_recs.simps)
    with ks(3) show "rec_ok r" by (blast intro: kept_recs_ok)
  qed
  have "distinct (dict_keys (p_calls no_past) @ map k_id ks)"
    using ks(2) by (simp add: no_past_def strict_sorted_iff)
  then have replay: "fold apply_rec (concat (map kept_recs ks)) no_past = p"
    unfolding ks(1) using ks(3) by (rule all_recs_called)
  note read_file [OF ok]
  also note replay
  finally show ?thesis unfolding all .
qed

end

end
