(* ===== verification/JournalRuns.thy ===== *)
theory JournalRuns
  imports JournalReplay
begin

text \<open>
  Runs that keep a journal, one after another on one file: a run's flows are called, write and forget
  what is in their state, end and note their sessions; the batch's timer fires; the run is killed, its
  file cut short at any byte, and picked up by the next. What every such run keeps of its journal.
\<close>

section \<open>Runs\<close>

record jsystem =
  js_run :: journaling_run
  js_calls :: "call list"
  js_states :: "int \<Rightarrow> flow_state option"

abbreviation js_journal :: "jsystem \<Rightarrow> journal" where
  "js_journal s \<equiv> jr_journal (js_run s)"

text \<open>\<open>run_flow\<close> once the journal is open, \<open>top\<close> the call above every flow's.\<close>

definition top_made :: call where
  "top_made = call_made None None 0 None 0 PInf"

definition run_opened :: "journal \<Rightarrow> past option \<Rightarrow> jsystem" where
  "run_opened j was =
     \<lparr>js_run = \<lparr>jr_journal = j, jr_past = was, jr_ids = (case was of None \<Rightarrow> 0 | Some p \<Rightarrow> next_id p - 1)\<rparr>,
      js_calls = [top_made], js_states = (\<lambda>_. None)\<rparr>"

text \<open>The disk takes the whole of what is written.\<close>

definition takes_whole :: "nat list \<Rightarrow> string \<Rightarrow> bool" where
  "takes_whole takes data \<longleftrightarrow> fst (writing takes data) = data"

definition with_journal :: "journal \<Rightarrow> jsystem \<Rightarrow> jsystem" where
  "with_journal j s = s\<lparr>js_run := (js_run s)\<lparr>jr_journal := j\<rparr>\<rparr>"

text \<open>A run's steps. A call is made under one already there, the flow at the top once; the ids and
  counts have no more digits than Python reads.\<close>

inductive jstep :: "(pyval \<Rightarrow> string) \<Rightarrow> jsystem \<Rightarrow> jsystem \<Rightarrow> bool" for tj where
  began:
    "q < length (js_calls s) \<Longrightarrow> (q = 0 \<longleftrightarrow> length (js_calls s) = 1) \<Longrightarrow>
     impl node \<noteq> None \<Longrightarrow> old node = 0 \<Longrightarrow> digest_ok said \<Longrightarrow> is_utf8 ref \<Longrightarrow>
     json_ok (VInt (jr_ids (js_run s) + 1)) \<Longrightarrow> json_ok (VInt (seq_of (js_calls s ! q) said)) \<Longrightarrow>
     journaled tj ref said (js_calls s ! q) node (js_run s) = Inr (r', par', node', held) \<Longrightarrow>
     jstep tj s \<lparr>js_run = r', js_calls = (js_calls s)[q := par'] @ [node'],
                 js_states = (if resumable then (js_states s)(jid node' := Some (state_made held)) else js_states s)\<rparr>"
| wrote:
    "js_states s i = Some st \<Longrightarrow> is_utf8 key \<Longrightarrow> dumped conv (v :: nat pyobj) = Some said \<Longrightarrow>
     takes_whole takes (concat (j_buffer (js_journal s)) @ set_line i (tj (VStr key)) said) \<Longrightarrow>
     state_set tj takes conv i (KStr key) v (st, Some (js_journal s)) = Inr (st', Some j) \<Longrightarrow>
     jstep tj s (with_journal j s\<lparr>js_states := (js_states s)(i := Some st')\<rparr>)"
| forgot:
    "js_states s i = Some st \<Longrightarrow> is_utf8 key \<Longrightarrow>
     takes_whole takes (concat (j_buffer (js_journal s)) @ del_line i (tj (VStr key))) \<Longrightarrow>
     state_del tj takes i key (st, Some (js_journal s)) = Inr (st', Some j) \<Longrightarrow>
     jstep tj s (with_journal j s\<lparr>js_states := (js_states s)(i := Some st')\<rparr>)"
| ended:
    "i \<in> jid ` set (tl (js_calls s)) \<Longrightarrow> j_end i ok (js_journal s) = Inr j \<Longrightarrow>
     jstep tj s (with_journal j s)"
| noted:
    "i \<in> jid ` set (tl (js_calls s)) \<Longrightarrow> note_ok i m \<Longrightarrow> j_note tj m (js_journal s) = Inr j \<Longrightarrow>
     jstep tj s (with_journal j s)"
| ticked:
    "takes_whole takes (concat (j_buffer (js_journal s))) \<Longrightarrow>
     jstep tj s (with_journal (flush takes (js_journal s)) s)"

text \<open>What runs may reach, the first of them on a file of any other kind or none, each next one picking
  up what was left when the one before was killed.\<close>

inductive jreach :: "(pyval \<Rightarrow> string) \<Rightarrow> jsystem \<Rightarrow> bool" for tj where
  first: "opened_journal tj there False = Some (j, was) \<Longrightarrow> jreach tj (run_opened j was)"
| again: "jreach tj s \<Longrightarrow> opened_journal tj (Some (take n (j_disk (js_journal s)))) True = Some (j, was) \<Longrightarrow>
          jreach tj (run_opened j was)"
| step: "jreach tj s \<Longrightarrow> jstep tj s s' \<Longrightarrow> jreach tj s'"

section \<open>Records in order\<close>

definition call_ids :: "jrec list \<Rightarrow> int list" where
  "call_ids rs = List.map_filter (\<lambda>r. case r of RCall i par said seq ref \<Rightarrow> Some i | _ \<Rightarrow> None) rs"

definition recs_ok :: "jrec list \<Rightarrow> bool" where
  "recs_ok rs \<longleftrightarrow> (\<forall>r\<in>set rs. rec_ok r) \<and> sorted_wrt (<) (call_ids rs)"

lemma call_ids_simps [simp]:
  "call_ids [] = []"
  "call_ids (r # rs) = (case r of RCall i par said seq ref \<Rightarrow> i # call_ids rs | _ \<Rightarrow> call_ids rs)"
  by (simp_all add: call_ids_def split: jrec.splits)

lemma call_ids_append [simp]: "call_ids (rs @ rs') = call_ids rs @ call_ids rs'"
  by (induction rs) (auto split: jrec.splits)

lemma recs_ok_take: "recs_ok rs \<Longrightarrow> recs_ok (take n rs)"
proof -
  assume r: "recs_ok rs"
  have "recs_ok (take n rs @ drop n rs)" using r by simp
  then show ?thesis by (auto simp: recs_ok_def sorted_wrt_append simp del: append_take_drop_id)
qed

abbreviation replay :: "jrec list \<Rightarrow> past" where
  "replay rs \<equiv> fold apply_rec rs no_past"

lemma dict_keys_at_kept [simp]: "dict_keys (p_calls (at_kept i f p)) = dict_keys (p_calls p)"
  by (auto simp: at_kept_def)

lemma dict_get_at_kept:
  "dict_get (p_calls (at_kept i f p)) j = (if j = i then map_option f (dict_get (p_calls p) j) else dict_get (p_calls p) j)"
proof -
  have "dict_get (map (\<lambda>(j, k). if j = i then (j, f k) else (j, k)) m) j =
        (if j = i then map_option f (dict_get m j) else dict_get m j)" for m :: "(int \<times> kept) list"
    by (induction m) auto
  then show ?thesis by (simp add: at_kept_def)
qed

lemma p_calls_called: "p_calls (called k p) = dict_put (k_id k) k (p_calls p)"
  by (simp add: called_def Let_def)

lemma rec_keys:
  assumes "\<forall>i\<in>set (call_ids [r]). i \<notin> set (dict_keys (p_calls p))"
  shows "dict_keys (p_calls (apply_rec r p)) = dict_keys (p_calls p) @ call_ids [r]"
proof (cases r)
  case (RCall i par said seq ref)
  with assms show ?thesis by (simp add: p_calls_called dict_keys_put kept_made_def)
qed simp_all

lemma replay_keys: "distinct (dict_keys (p_calls p) @ call_ids rs) \<Longrightarrow>
   dict_keys (p_calls (fold apply_rec rs p)) = dict_keys (p_calls p) @ call_ids rs"
proof (induction rs arbitrary: p)
  case (Cons r rs)
  have split: "call_ids (r # rs) = call_ids [r] @ call_ids rs" using call_ids_append [of "[r]" rs] by simp
  have "dict_keys (p_calls (apply_rec r p)) = dict_keys (p_calls p) @ call_ids [r]"
    using Cons.prems unfolding split by (intro rec_keys) auto
  then have keys: "dict_keys (p_calls (apply_rec r p)) @ call_ids rs = dict_keys (p_calls p) @ call_ids (r # rs)"
    unfolding split by simp
  with Cons.IH [of "apply_rec r p"] Cons.prems show ?case by (simp only: fold_simps)
qed simp

lemma replay_ids: "recs_ok rs \<Longrightarrow> dict_keys (p_calls (replay rs)) = call_ids rs"
  using replay_keys [of no_past rs] by (simp add: recs_ok_def no_past_def strict_sorted_iff)

text \<open>A record keeps a past well formed.\<close>

lemma past_ok_at_kept:
  assumes "past_ok p" and "\<And>k. same_call (f k) k" and "\<And>k. k_id k = i \<Longrightarrow> kept_ok k \<Longrightarrow> kept_ok (f k)"
  shows "past_ok (at_kept i f p)"
proof -
  obtain ks where ks: "p = fold called ks no_past" "sorted_wrt (<) (map k_id ks)" "\<forall>k\<in>set ks. kept_ok k"
    using assms(1) by (auto simp: past_ok_def)
  have "k_id (relating i f k) = k_id k" for k using assms(2) by (simp add: relating_def same_call_def)
  then have "map k_id (map (relating i f) ks) = map k_id ks" by simp
  moreover have "\<forall>k\<in>set (map (relating i f) ks). kept_ok k"
    using ks(3) assms(3) by (auto simp: relating_def)
  moreover have "at_kept i f p = fold called (map (relating i f) ks) no_past"
    unfolding ks(1) at_kept_fold [OF assms(2)] by simp
  ultimately show ?thesis using ks(2) unfolding past_ok_def by metis
qed

lemma state_ok_put:
  assumes "state_ok s" and "is_utf8 key" and "json_ok v" and "norm v = v"
  shows "state_ok (dict_put key v s)"
proof -
  have "(k, w) \<in> set (dict_put key v s) \<Longrightarrow> (k, w) = (key, v) \<or> (k, w) \<in> set s" for k w
    by (induction key v s rule: dict_put.induct) (auto split: if_splits)
  with assms show ?thesis by (fastforce simp: state_ok_def)
qed

lemma state_ok_del: "state_ok s \<Longrightarrow> state_ok (dict_del key s)"
proof -
  have "(k, w) \<in> set (dict_del key s) \<Longrightarrow> (k, w) \<in> set s" for k w
    by (induction key s rule: dict_del.induct) (auto split: if_splits)
  then show "state_ok s \<Longrightarrow> ?thesis" by (fastforce simp: state_ok_def)
qed

lemma in_dict_of: "(k, v) \<in> set (dict_of m) \<Longrightarrow> (k, v) \<in> set m"
proof -
  have put: "(k, v) \<in> set (dict_put a b acc) \<Longrightarrow> (k, v) = (a, b) \<or> (k, v) \<in> set acc" for a b acc
    by (induction a b acc rule: dict_put.induct) (auto split: if_splits)
  have "(k, v) \<in> set (fold (\<lambda>(k, v). dict_put k v) m acc) \<Longrightarrow> (k, v) \<in> set m \<or> (k, v) \<in> set acc" for acc
  proof (induction m arbitrary: acc)
    case (Cons kv m)
    then show ?case using put [of "fst kv" "snd kv" acc] by (cases kv) fastforce
  qed simp
  from this [of "[]"] show "(k, v) \<in> set (dict_of m) \<Longrightarrow> ?thesis" by (simp add: dict_of_def)
qed

lemma dict_of_keys: "dict_ok (dict_of m)"
proof -
  have "dict_ok acc \<Longrightarrow> dict_ok (fold (\<lambda>(k, v). dict_put k v) m acc)" for acc :: "('a \<times> 'b) list"
    by (induction m arbitrary: acc) auto
  from this [of "[]"] show ?thesis by (simp add: dict_of_def)
qed

lemma keys_once_norm: "keys_once (norm v)"
proof (induction v rule: norm.induct)
  case (2 m)
  have "keys_once w" if "(k, w) \<in> set (dict_of (map (\<lambda>(k, v). (k, norm v)) m))" for k w
    using in_dict_of [OF that] 2 by auto
  then show ?case using dict_of_keys by (fastforce simp: dict_ok_def)
qed simp_all

lemma norm_norm [simp]: "norm (norm v) = norm v"
  by (simp add: norm_same keys_once_norm)

lemma json_ok_norm: "json_ok v \<Longrightarrow> json_ok (norm v)"
proof (induction v rule: norm.induct)
  case (2 m)
  have "is_utf8 k \<and> json_ok w" if "(k, w) \<in> set (dict_of (map (\<lambda>(k, v). (k, norm v)) m))" for k w
    using in_dict_of [OF that] 2 by fastforce
  then show ?case by fastforce
qed auto

lemma past_ok_rec:
  assumes "past_ok p" and "rec_ok r"
    and "\<forall>j\<in>set (dict_keys (p_calls p)). \<forall>i\<in>set (call_ids [r]). j < i"
  shows "past_ok (apply_rec r p)"
proof (cases r)
  case (RCall i par said seq ref)
  obtain ks where ks: "p = fold called ks no_past" "sorted_wrt (<) (map k_id ks)" "\<forall>k\<in>set ks. kept_ok k"
    using assms(1) by (auto simp: past_ok_def)
  let ?k = "kept_made i par said seq ref"
  have "dict_keys (p_calls p) = map k_id ks" unfolding ks(1) calls_of_ids [OF ks(2)] by simp
  then have "sorted_wrt (<) (map k_id (ks @ [?k]))"
    using ks(2) assms(3) RCall by (auto simp: sorted_wrt_append kept_made_def)
  moreover have "kept_ok ?k" using assms(2) RCall by (auto simp: kept_ok_def kept_made_def state_ok_def)
  ultimately show ?thesis
    using ks RCall unfolding past_ok_def by (intro exI [of _ "ks @ [?k]"]) auto
next
  case (REnd i ok)
  then show ?thesis
    using assms(1) by (auto intro!: past_ok_at_kept simp: same_call_def kept_ok_def)
next
  case (RSet i key v)
  then show ?thesis
    using assms(1,2) by (auto intro!: past_ok_at_kept state_ok_put json_ok_norm simp: same_call_def kept_ok_def)
next
  case (RDel i key)
  then show ?thesis
    using assms(1) by (auto intro!: past_ok_at_kept state_ok_del simp: same_call_def kept_ok_def)
next
  case (RNote i m)
  then show ?thesis
    using assms(1,2) by (auto intro!: past_ok_at_kept simp: same_call_def kept_ok_def)
qed

lemma past_ok_replay: "recs_ok rs \<Longrightarrow> past_ok (replay rs)"
proof (induction rs rule: rev_induct)
  case Nil
  show ?case unfolding past_ok_def by (rule exI [of _ "[]"]) simp
next
  case (snoc r rs)
  then have rs: "recs_ok rs" "rec_ok r" by (auto simp: recs_ok_def sorted_wrt_append)
  have "\<forall>j\<in>set (dict_keys (p_calls (replay rs))). \<forall>i\<in>set (call_ids [r]). j < i"
    using snoc.prems unfolding replay_ids [OF rs(1)] by (auto simp: recs_ok_def sorted_wrt_append)
  with past_ok_rec [OF snoc.IH [OF rs(1)] rs(2)] show ?case by simp
qed

section \<open>What a claim finds\<close>

definition found_ok :: "past \<Rightarrow> bool" where
  "found_ok p \<longleftrightarrow>
     (\<forall>i k. dict_get (p_calls p) i = Some k \<longrightarrow> k_id k = i) \<and>
     (\<forall>r. p_root p = Some r \<longrightarrow> (\<exists>k. dict_get (p_calls p) r = Some k \<and> k_parent k = 0)) \<and>
     (\<forall>par said found seq i. dict_get (p_under p) (par, said) = Some found \<longrightarrow> dict_get found seq = Some i \<longrightarrow>
        (\<exists>k. dict_get (p_calls p) i = Some k \<and> k_parent k = par \<and> k_digest k = said \<and> k_seq k = seq))"

lemma found_ok_called:
  assumes "found_ok p" and "k_id k \<notin> set (dict_keys (p_calls p))"
  shows "found_ok (called k p)"
proof -
  have fresh: "dict_get (p_calls p) (k_id k) = None" using assms(2) by (simp add: dict_get_None_iff)
  have calls: "dict_get (p_calls (called k p)) i = (if i = k_id k then Some k else dict_get (p_calls p) i)" for i
    by (simp add: p_calls_called)
  have kept: "dict_get (p_calls (called k p)) i = Some l" if "dict_get (p_calls p) i = Some l" for i l
    using that fresh calls by auto
  have under: "\<exists>l. dict_get (p_calls (called k p)) i = Some l \<and> k_parent l = par \<and> k_digest l = said \<and> k_seq l = seq"
    if u: "dict_get (p_under (called k p)) (par, said) = Some found" "dict_get found seq = Some i" for par said found seq i
  proof -
    define was where "was = (case dict_get (p_under p) (k_parent k, k_digest k) of None \<Rightarrow> [] | Some f \<Rightarrow> f)"
    have new: "p_under (called k p) = dict_put (k_parent k, k_digest k) (dict_put (k_seq k) (k_id k) was) (p_under p)"
      by (simp add: called_def Let_def was_def)
    show ?thesis
    proof (cases "(par, said) = (k_parent k, k_digest k)")
      case False
      with u new have "dict_get (p_under p) (par, said) = Some found" by (auto split: if_splits)
      with assms(1) u(2) kept show ?thesis unfolding found_ok_def by blast
    next
      case True
      with u(1) new have found: "found = dict_put (k_seq k) (k_id k) was" by simp
      show ?thesis
      proof (cases "seq = k_seq k")
        case True
        with found u(2) have "i = k_id k" by simp
        with True \<open>(par, said) = _\<close> calls show ?thesis by simp
      next
        case False
        with found u(2) have "dict_get was seq = Some i" by simp
        then obtain f where "dict_get (p_under p) (par, said) = Some f" "dict_get f seq = Some i"
          using True by (auto simp: was_def split: option.splits)
        with assms(1) kept show ?thesis unfolding found_ok_def by blast
      qed
    qed
  qed
  have root: "\<exists>l. dict_get (p_calls (called k p)) r = Some l \<and> k_parent l = 0"
    if "p_root (called k p) = Some r" for r
  proof (cases "k_parent k = 0 \<and> p_root p = None")
    case True
    with that calls show ?thesis by (auto simp: called_def Let_def)
  next
    case False
    with that have "p_root p = Some r" by (auto simp: called_def Let_def split: if_splits)
    with assms(1) kept show ?thesis unfolding found_ok_def by blast
  qed
  have ids: "k_id l = i" if "dict_get (p_calls (called k p)) i = Some l" for i l
    using that calls assms(1) by (auto simp: found_ok_def split: if_splits)
  show ?thesis unfolding found_ok_def using ids root under by blast
qed

lemma past_ok_found: "past_ok p \<Longrightarrow> found_ok p"
proof -
  assume "past_ok p"
  then obtain ks where ks: "p = fold called ks no_past" "sorted_wrt (<) (map k_id ks)" by (auto simp: past_ok_def)
  from ks(2) have "found_ok (fold called ks no_past)"
  proof (induction ks rule: rev_induct)
    case Nil
    show ?case by (simp add: found_ok_def no_past_def)
  next
    case (snoc k ks)
    then have "sorted_wrt (<) (map k_id ks)" "k_id k \<notin> set (map k_id ks)"
      by (auto simp: sorted_wrt_append)
    with snoc.IH calls_of_ids [of ks] show ?case by (auto intro!: found_ok_called)
  qed
  with ks(1) show "found_ok p" by simp
qed

lemma claim_found:
  assumes "found_ok p" and "claim p par said seq = Some k"
  shows "dict_get (p_calls p) (k_id k) = Some k \<and> k_parent k = par \<and> k_digest k = said \<and> k_seq k = seq"
proof -
  obtain found i where u: "dict_get (p_under p) (par, said) = Some found" "dict_get found seq = Some i"
      "dict_get (p_calls p) i = Some k"
    using assms(2) by (auto simp: claim_def split: option.splits)
  from assms(1) u(3) have id: "k_id k = i" by (simp add: found_ok_def)
  from assms(1) u(1,2) obtain l where
    "dict_get (p_calls p) i = Some l" "k_parent l = par" "k_digest l = said" "k_seq l = seq"
    unfolding found_ok_def by blast
  with u(3) id show ?thesis by simp
qed

lemma past_ok_ids:
  assumes "past_ok p" and "i \<in> set (dict_keys (p_calls p))"
  shows "0 < i \<and> json_ok (VInt i) \<and> i \<le> next_id p - 1"
proof -
  obtain ks where ks: "p = fold called ks no_past" "sorted_wrt (<) (map k_id ks)" "\<forall>k\<in>set ks. kept_ok k"
    using assms(1) by (auto simp: past_ok_def)
  have calls: "p_calls p = map (\<lambda>k. (k_id k, k)) ks" unfolding ks(1) by (rule calls_of_ids [OF ks(2)])
  have "0 < i \<and> json_ok (VInt i)" using assms(2) ks(3) calls by (auto simp: kept_ok_def)
  moreover have "i \<le> Max (set (dict_keys (p_calls p)))" using assms(2) by (intro Max_ge) simp_all
  moreover have "p_calls p \<noteq> []" using assms(2) by auto
  ultimately show ?thesis by (auto simp: next_id_def)
qed

section \<open>Sessions in a state\<close>

lemma contains_sub_here: "contains_sub a (a @ y)"
proof (cases "a @ y")
  case (Cons c s)
  then have "starts_with a (c # s)" by (metis starts_with_append)
  with Cons show ?thesis by simp
qed simp

lemma contains_sub_before: "contains_sub a s \<Longrightarrow> contains_sub a (x @ s)"
  by (induction x) auto

lemma contains_sub_after: "contains_sub a s \<Longrightarrow> contains_sub a (s @ y)"
proof (induction a s rule: contains_sub.induct)
  case (1 p)
  then show ?case by (cases y) auto
next
  case (2 p c s)
  show ?case
  proof (cases "starts_with p (c # s)")
    case True
    then have "starts_with p ((c # s) @ y)" by (metis append_assoc starts_with_iff)
    then show ?thesis by simp
  next
    case False
    with 2 show ?thesis by simp
  qed
qed

lemma contains_sub_join:
  "x \<in> set xs \<Longrightarrow> contains_sub a (f x) \<Longrightarrow> contains_sub a (py_join s (map f xs))"
proof (induction xs)
  case (Cons y xs)
  then show ?case
    by (auto simp: join_Cons intro: contains_sub_after contains_sub_before)
qed simp

lemma said_in_key: "contains_sub SAID (jstring SESSION)"
proof -
  have "contains_sub SAID ([quote] @ SAID @ [quote])" by (rule contains_sub_before) (rule contains_sub_here)
  then show ?thesis by (simp add: jstring_def SAID_def)
qed

text \<open>A value that holds a session is written with \<open>_SAID\<close> in its text, so no read misses one.\<close>

lemma holds_said: "holds (norm v) \<Longrightarrow> contains_sub SAID (jdump v)"
proof (induction v rule: jdump.induct)
  case (6 xs)
  then obtain x where "x \<in> set xs" "contains_sub SAID (jdump x)" by auto
  then have "contains_sub SAID (py_join '','' (map jdump xs))" by (rule contains_sub_join)
  then show ?case by (simp only: jdump.simps) (intro contains_sub_before contains_sub_after)
next
  case (7 m)
  let ?f = "\<lambda>(k, v). jstring k @ '':'' @ jdump v"
  let ?m = "dict_of (map (\<lambda>(k, v). (k, norm v)) m)"
  have "\<exists>kv\<in>set m. contains_sub SAID (?f kv)"
  proof (cases "SESSION \<in> set (map fst ?m)")
    case True
    then obtain w where "(SESSION, w) \<in> set ?m" by auto
    then have "(SESSION, w) \<in> set (map (\<lambda>(k, v). (k, norm v)) m)" by (rule in_dict_of)
    then obtain v where "(SESSION, v) \<in> set m" by auto
    moreover have "contains_sub SAID (?f (SESSION, v))"
      using contains_sub_after [OF said_in_key] by simp
    ultimately show ?thesis by blast
  next
    case False
    with 7(2) obtain k w where "(k, w) \<in> set ?m" "holds w" by auto
    then have "(k, w) \<in> set (map (\<lambda>(k, v). (k, norm v)) m)" by (blast intro: in_dict_of)
    with \<open>holds w\<close> obtain v where v: "(k, v) \<in> set m" "holds (norm v)" by auto
    have "contains_sub SAID (jdump v)" using 7(1) [OF v(1) refl] v(2) by simp
    then have "contains_sub SAID ((jstring k @ '':'') @ jdump v)" by (rule contains_sub_before)
    then have "contains_sub SAID (?f (k, v))" by simp
    with v(1) show ?thesis by blast
  qed
  then have "contains_sub SAID (py_join '','' (map ?f m))" by (blast intro: contains_sub_join)
  then show ?case by (simp only: jdump.simps) (intro contains_sub_before contains_sub_after)
qed simp_all

lemma those_map_Some: "(\<forall>x\<in>set xs. f x = Some (g x)) \<Longrightarrow> those (map f xs) = Some (map g xs)"
  by (induction xs) auto

lemma carried_lifted: "\<not> holds v \<Longrightarrow> carried carry v = Some (lifted v)"
proof (induction carry v rule: carried.induct)
  case (1 carry m)
  have "those (map (\<lambda>(k, v). map_option (Pair (KStr k)) (carried carry v)) m) =
        Some (map (\<lambda>(k, v). (KStr k, lifted v)) m)"
  proof (rule those_map_Some, rule ballI)
    fix kv assume "kv \<in> set m"
    with 1 show "(case kv of (k, v) \<Rightarrow> map_option (Pair (KStr k)) (carried carry v)) =
        Some (case kv of (k, v) \<Rightarrow> (KStr k, lifted v))" by (cases kv) fastforce
  qed
  with 1(2) show ?case by auto
next
  case (2 carry xs)
  have "those (map (carried carry) xs) = Some (map lifted xs)"
    using 2 by (intro those_map_Some) auto
  then show ?case by simp
qed simp_all

definition carrying_ok :: "flow_state \<Rightarrow> bool" where
  "carrying_ok st \<longleftrightarrow> dict_ok (fs_held st) \<and> (\<forall>(key, v)\<in>set (fs_held st). holds v \<longrightarrow> key \<in> set (fs_carrying st))"

lemma carrying_made: "dict_ok held \<Longrightarrow> carrying_ok (state_made held)"
  by (force simp: carrying_ok_def state_made_def)

text \<open>So reading a key gives the same whether the state is the one written or one made of what it
  holds.\<close>

lemma state_get_made:
  assumes "carrying_ok st"
  shows "state_get carry key st = state_get carry key (state_made (fs_held st))"
proof (cases "dict_get (fs_held st) key")
  case None
  then show ?thesis by (simp add: state_get_def state_made_def)
next
  case (Some v)
  have in_held: "(key, v) \<in> set (fs_held st)" by (rule dict_get_in_set [OF Some])
  show ?thesis
  proof (cases "holds v")
    case True
    with in_held assms Some show ?thesis
      by (force simp: state_get_def state_made_def carrying_ok_def)
  next
    case False
    then have "carried carry v = Some (lifted v)" by (rule carried_lifted)
    with Some show ?thesis by (simp add: state_get_def state_made_def)
  qed
qed

end
