(* ===== verification/JournalKeeps.thy ===== *)
theory JournalKeeps
  imports JournalRuns
begin

text \<open>
  What every run that keeps a journal keeps of it: the file and what waits to be written are the lines
  of records in order; what they replay to holds each flow's state as the run holds it; no two calls
  have one id, and an earlier call is picked up once.
\<close>

section \<open>The invariant\<close>

definition writes_state :: "jrec \<Rightarrow> bool" where
  "writes_state r \<longleftrightarrow> (case r of RSet i key v \<Rightarrow> True | RDel i key \<Rightarrow> True | _ \<Rightarrow> False)"

text \<open>The file is \<open>rs\<close>, and \<open>bs\<close> waits.\<close>

definition lines_ok :: "(pyval \<Rightarrow> string) \<Rightarrow> journal \<Rightarrow> jrec list \<Rightarrow> jrec list \<Rightarrow> bool" where
  "lines_ok tj j rs bs \<longleftrightarrow>
     j_disk j = header @ concat (map (rec_line tj) rs) \<and> j_buffer j = map (rec_line tj) bs \<and>
     recs_ok (rs @ bs) \<and> (\<forall>b\<in>set bs. \<not> writes_state b)"

abbreviation flow_ids :: "call list \<Rightarrow> int list" where
  "flow_ids cs \<equiv> map jid (tl cs)"

text \<open>A call picked up: the one at the top, or one under a call picked up, counted there.\<close>

definition claimed_under :: "call list \<Rightarrow> kept \<Rightarrow> bool" where
  "claimed_under cs k \<longleftrightarrow>
     (\<exists>m<length cs. old (cs ! m) = k_parent k \<and> k_seq k < seq_of (cs ! m) (k_digest k))"

definition calls_ok :: "past option \<Rightarrow> int \<Rightarrow> call list \<Rightarrow> bool" where
  "calls_ok was ids cs \<longleftrightarrow>
     cs \<noteq> [] \<and> impl (hd cs) = None \<and> old (hd cs) = 0 \<and> jid (hd cs) = 0 \<and>
     (\<forall>c\<in>set (tl cs). impl c \<noteq> None) \<and> distinct (flow_ids cs) \<and>
     (\<forall>c\<in>set cs. json_ok (VInt (jid c)) \<and> jid c \<le> ids) \<and>
     (\<forall>c\<in>set (tl cs). old c = 0 \<or> old c = jid c) \<and>
     (\<forall>c\<in>set (tl cs). old c = 0 \<longrightarrow> (\<forall>p. was = Some p \<longrightarrow> jid c \<notin> set (dict_keys (p_calls p)))) \<and>
     (\<forall>c\<in>set (tl cs). old c \<noteq> 0 \<longrightarrow>
        (\<exists>p k. was = Some p \<and> dict_get (p_calls p) (jid c) = Some k \<and>
               (k_parent k = 0 \<or> k_parent k \<noteq> 0 \<and> claimed_under cs k)))"

definition states_ok :: "(int \<Rightarrow> flow_state option) \<Rightarrow> int list \<Rightarrow> past \<Rightarrow> bool" where
  "states_ok states ids p \<longleftrightarrow>
     (\<forall>i st. states i = Some st \<longrightarrow>
        i \<in> set ids \<and> carrying_ok st \<and> (\<exists>k. dict_get (p_calls p) i = Some k \<and> k_state k = fs_held st))"

text \<open>What of an earlier run nobody has picked up is as it was left.\<close>

definition unclaimed_ok :: "past option \<Rightarrow> int \<Rightarrow> int list \<Rightarrow> past \<Rightarrow> bool" where
  "unclaimed_ok was ids js p \<longleftrightarrow>
     (\<forall>w. was = Some w \<longrightarrow> past_ok w \<and> (\<forall>i\<in>set (dict_keys (p_calls w)). i \<le> ids) \<and>
        (\<forall>i k. dict_get (p_calls w) i = Some k \<longrightarrow> i \<notin> set js \<longrightarrow> dict_get (p_calls p) i = Some k))"

definition run_ok :: "jsystem \<Rightarrow> past \<Rightarrow> bool" where
  "run_ok s p \<longleftrightarrow>
     0 \<le> jr_ids (js_run s) \<and> (\<forall>i\<in>set (dict_keys (p_calls p)). i \<le> jr_ids (js_run s)) \<and>
     calls_ok (jr_past (js_run s)) (jr_ids (js_run s)) (js_calls s) \<and>
     states_ok (js_states s) (flow_ids (js_calls s)) p \<and>
     unclaimed_ok (jr_past (js_run s)) (jr_ids (js_run s)) (flow_ids (js_calls s)) p"

definition journal_ok :: "(pyval \<Rightarrow> string) \<Rightarrow> jsystem \<Rightarrow> bool" where
  "journal_ok tj s \<longleftrightarrow> (\<exists>rs bs. lines_ok tj (js_journal s) rs bs \<and> run_ok s (replay (rs @ bs)))"

lemma journal_okI:
  "lines_ok tj (js_journal s) rs bs \<Longrightarrow> run_ok s (replay (rs @ bs)) \<Longrightarrow> journal_ok tj s"
  by (auto simp: journal_ok_def)

section \<open>The operations on the journal\<close>

lemma map_sum_Inr_iff [simp]: "map_sum id f x = Inr y \<longleftrightarrow> (\<exists>z. x = Inr z \<and> y = f z)"
  by (cases x) auto

lemma recs_ok_snoc:
  "recs_ok (rs @ [r]) \<longleftrightarrow> recs_ok rs \<and> rec_ok r \<and> (\<forall>i\<in>set (call_ids [r]). \<forall>j\<in>set (call_ids rs). j < i)"
  by (auto simp: recs_ok_def sorted_wrt_append split: jrec.splits)

lemma batched_lines:
  assumes "lines_ok tj j rs bs" and "batched (rec_line tj r) j = Inr j'"
    and "rec_ok r" and "\<not> writes_state r" and "\<forall>i\<in>set (call_ids [r]). \<forall>j\<in>set (call_ids (rs @ bs)). j < i"
  shows "lines_ok tj j' rs (bs @ [r])"
proof -
  have "recs_ok ((rs @ bs) @ [r])" using assms by (simp only: recs_ok_snoc lines_ok_def)
  then show ?thesis
    using assms(1,2,4) by (auto simp: lines_ok_def batched_def kept_line_def split: if_splits)
qed

lemma flush_lines:
  assumes "takes_whole takes (concat (j_buffer j))"
  shows "j_disk (flush takes j) = j_disk j @ concat (j_buffer j) \<and> j_buffer (flush takes j) = []"
  using assms by (auto simp: flush_def Let_def takes_whole_def split: prod.splits)

lemma ticked_lines:
  assumes "lines_ok tj j rs bs" and "takes_whole takes (concat (j_buffer j))"
  shows "lines_ok tj (flush takes j) (rs @ bs) []"
  using assms flush_lines [OF assms(2)] by (auto simp: lines_ok_def)

lemma kept_now:
  assumes "lines_ok tj j rs bs" and "kept_line (rec_line tj r) j = Inr j'"
    and "takes_whole takes (concat (j_buffer j) @ rec_line tj r)" and "rec_ok r" and "call_ids [r] = []"
  shows "lines_ok tj (flush takes j') (rs @ bs @ [r]) []"
proof -
  have j': "j_disk j' = j_disk j" "j_buffer j' = j_buffer j @ [rec_line tj r]"
    using assms(2) by (auto simp: kept_line_def split: if_splits)
  have "recs_ok ((rs @ bs) @ [r])" using assms(1,4,5) by (simp only: recs_ok_snoc lines_ok_def) simp
  with assms(1) flush_lines [of takes j'] assms(3) j' show ?thesis by (auto simp: lines_ok_def)
qed

lemma no_call_keeps:
  "call_ids [r] = [] \<Longrightarrow> dict_keys (p_calls (apply_rec r p)) = dict_keys (p_calls p)"
  using rec_keys [of r p] by simp

section \<open>What each step keeps\<close>

text \<open>A record of a call's own, which is of a flow's of the run.\<close>

fun rec_of :: "jrec \<Rightarrow> int" where
  "rec_of (RCall i par said seq ref) = i"
| "rec_of (REnd i ok) = i"
| "rec_of (RSet i key v) = i"
| "rec_of (RDel i key) = i"
| "rec_of (RNote i m) = i"

lemma get_other:
  "j \<noteq> rec_of r \<Longrightarrow> dict_get (p_calls (apply_rec r p)) j = dict_get (p_calls p) j"
  by (cases r) (simp_all add: dict_get_at_kept p_calls_called kept_made_def)

lemma unclaimed_rec:
  "unclaimed_ok was ids js p \<Longrightarrow> rec_of r \<in> set js \<Longrightarrow> unclaimed_ok was ids js (apply_rec r p)"
  unfolding unclaimed_ok_def using get_other [of _ r p] by metis

lemma states_unwritten:
  assumes "states_ok states js p" and "call_ids [r] = []" and "\<not> writes_state r"
  shows "states_ok states js (apply_rec r p)"
proof -
  have "\<exists>k. dict_get (p_calls (apply_rec r p)) i = Some k \<and> k_state k = h"
    if "dict_get (p_calls p) i = Some k" "k_state k = h" for i k h
    using that assms(2,3) by (cases r) (auto simp: dict_get_at_kept writes_state_def)
  with assms(1) show ?thesis unfolding states_ok_def by blast
qed

lemma states_written:
  assumes "states_ok states js p" and "states i = Some st" and "carrying_ok st'"
    and "\<And>k. dict_get (p_calls p) i = Some k \<Longrightarrow> k_state k = fs_held st \<Longrightarrow>
           \<exists>k'. dict_get (p_calls (apply_rec r p)) i = Some k' \<and> k_state k' = fs_held st'"
    and "rec_of r = i"
  shows "states_ok (states(i := Some st')) js (apply_rec r p)"
proof -
  obtain k where k: "i \<in> set js" "dict_get (p_calls p) i = Some k" "k_state k = fs_held st"
    using assms(1,2) unfolding states_ok_def by blast
  have "j \<in> set js \<and> carrying_ok u \<and> (\<exists>k. dict_get (p_calls (apply_rec r p)) j = Some k \<and> k_state k = fs_held u)"
    if "(states(i := Some st')) j = Some u" for j u
  proof (cases "j = i")
    case True
    with that k assms(3) assms(4) [OF k(2,3)] show ?thesis by auto
  next
    case False
    with that have "states j = Some u" by simp
    with assms(1) get_other [of j r p] False assms(5) show ?thesis unfolding states_ok_def by auto
  qed
  then show ?thesis unfolding states_ok_def by blast
qed

lemma run_ok_rec:
  assumes "run_ok s p" and "rec_of r \<in> set (flow_ids (js_calls s))" and "call_ids [r] = []"
    and "states_ok states (flow_ids (js_calls s)) (apply_rec r p)"
  shows "run_ok (with_journal j s\<lparr>js_states := states\<rparr>) (apply_rec r p)"
  using assms unclaimed_rec [of _ _ _ p r] no_call_keeps [OF assms(3), of p]
  by (simp add: run_ok_def with_journal_def)

lemma noted_keeps:
  assumes "journal_ok tj s" and "batched (rec_line tj r) (js_journal s) = Inr j" and "rec_ok r"
    and "\<not> writes_state r" and "call_ids [r] = []" and "rec_of r \<in> set (flow_ids (js_calls s))"
  shows "journal_ok tj (with_journal j s)"
proof -
  obtain rs bs where l: "lines_ok tj (js_journal s) rs bs" "run_ok s (replay (rs @ bs))"
    using assms(1) by (auto simp: journal_ok_def)
  have "lines_ok tj j rs (bs @ [r])" using assms(3-5) by (intro batched_lines [OF l(1) assms(2)]) auto
  then have lines: "lines_ok tj (js_journal (with_journal j s)) rs (bs @ [r])" by (simp add: with_journal_def)
  have "states_ok (js_states s) (flow_ids (js_calls s)) (apply_rec r (replay (rs @ bs)))"
    using l(2) assms(4,5) by (intro states_unwritten) (simp_all add: run_ok_def)
  from run_ok_rec [OF l(2) assms(6,5) this, where j = j] show ?thesis
    by (intro journal_okI [OF lines]) (simp add: with_journal_def)
qed

lemma ticked_keeps:
  assumes "journal_ok tj s" and "takes_whole takes (concat (j_buffer (js_journal s)))"
  shows "journal_ok tj (with_journal (flush takes (js_journal s)) s)"
proof -
  obtain rs bs where l: "lines_ok tj (js_journal s) rs bs" "run_ok s (replay (rs @ bs))"
    using assms(1) by (auto simp: journal_ok_def)
  have "lines_ok tj (js_journal (with_journal (flush takes (js_journal s)) s)) (rs @ bs) []"
    using ticked_lines [OF l(1) assms(2)] by (simp add: with_journal_def)
  moreover have "run_ok (with_journal (flush takes (js_journal s)) s) (replay ((rs @ bs) @ []))"
    using l(2) by (simp add: run_ok_def with_journal_def)
  ultimately show ?thesis by (rule journal_okI)
qed

text \<open>A write and a key forgotten are on the disk once they are made.\<close>

lemma kept_keeps:
  assumes "journal_ok tj s" and "kept_line (rec_line tj r) (js_journal s) = Inr j"
    and "takes_whole takes (concat (j_buffer (js_journal s)) @ rec_line tj r)"
    and "rec_ok r" and "call_ids [r] = []" and "rec_of r = i" and "js_states s i = Some st" and "carrying_ok st'"
    and "\<And>p k. dict_get (p_calls p) i = Some k \<Longrightarrow> k_state k = fs_held st \<Longrightarrow>
           \<exists>k'. dict_get (p_calls (apply_rec r p)) i = Some k' \<and> k_state k' = fs_held st'"
  shows "journal_ok tj (with_journal (flush takes j) s\<lparr>js_states := (js_states s)(i := Some st')\<rparr>)"
proof -
  obtain rs bs where l: "lines_ok tj (js_journal s) rs bs" "run_ok s (replay (rs @ bs))"
    using assms(1) by (auto simp: journal_ok_def)
  have states: "states_ok (js_states s) (flow_ids (js_calls s)) (replay (rs @ bs))"
    using l(2) by (simp add: run_ok_def)
  then have i: "i \<in> set (flow_ids (js_calls s))" using assms(7) unfolding states_ok_def by blast
  have "lines_ok tj (js_journal (with_journal (flush takes j) s\<lparr>js_states := (js_states s)(i := Some st')\<rparr>)) (rs @ bs @ [r]) []"
    using kept_now [OF l(1) assms(2-5)] by (simp add: with_journal_def)
  moreover have "run_ok (with_journal (flush takes j) s\<lparr>js_states := (js_states s)(i := Some st')\<rparr>) (replay ((rs @ bs @ [r]) @ []))"
    using run_ok_rec [OF l(2) _ assms(5) states_written [OF states assms(7-9,6)], where j = "flush takes j"] i assms(6) by simp
  ultimately show ?thesis by (rule journal_okI)
qed

lemma in_dict_put:
  "(k, x) \<in> set (dict_put key v m) \<Longrightarrow> dict_ok m \<Longrightarrow> (k, x) = (key, v) \<or> k \<noteq> key \<and> (k, x) \<in> set m"
  by (induction key v m rule: dict_put.induct) (force simp: dict_ok_def split: if_splits)+

lemma in_dict_del: "(k, x) \<in> set (dict_del key m) \<Longrightarrow> dict_ok m \<Longrightarrow> k \<noteq> key \<and> (k, x) \<in> set m"
  by (induction key m rule: dict_del.induct) (force simp: dict_ok_def split: if_splits)+

lemma wrote_keeps:
  assumes "journal_ok tj s" and "js_states s i = Some st" and "is_utf8 key" and "json_ok (VInt i)"
    and "dumped conv v = Some said"
    and "takes_whole takes (concat (j_buffer (js_journal s)) @ set_line i (tj (VStr key)) said)"
    and "state_set tj takes conv i (KStr key) v (st, Some (js_journal s)) = Inr (st', Some j)"
  shows "journal_ok tj (with_journal j s\<lparr>js_states := (js_states s)(i := Some st')\<rparr>)"
proof -
  obtain w where w: "said = jdump w" "json_ok w"
    using assms(5) by (auto simp: dumped_def split: option.splits if_splits)
  let ?r = "RSet i key w"
  obtain j0 where j0: "kept_line (rec_line tj ?r) (js_journal s) = Inr j0" "j = flush takes j0"
    using assms(5,7) w(1) by (auto simp: state_set_def j_set_def split: sum.splits)
  have held: "fs_held st' = dict_put key (norm w) (fs_held st)"
    and carrying: "set (fs_carrying st') = (if contains_sub SAID said then insert key (set (fs_carrying st))
                                            else set (fs_carrying st) - {key})"
    using assms(5,7) w loads_dump [OF w(2)] by (auto simp: state_set_def split: sum.splits if_splits)
  have st: "carrying_ok st" using assms(1,2) by (auto simp: journal_ok_def run_ok_def states_ok_def)
  have "carrying_ok st'"
  proof -
    have "key' \<in> set (fs_carrying st')" if "(key', x) \<in> set (fs_held st')" "holds x" for key' x
      using in_dict_put [of key' x key "norm w" "fs_held st"] that st holds_said [of w]
      unfolding held carrying w(1) carrying_ok_def by auto
    with st show ?thesis unfolding carrying_ok_def held by auto
  qed
  then show ?thesis unfolding j0(2)
    by (rule kept_keeps [OF assms(1) j0(1) _ _ _ _ assms(2), rotated 4])
       (use assms(3,4,6) w held in \<open>auto simp: dict_get_at_kept\<close>)
qed

lemma forgot_keeps:
  assumes "journal_ok tj s" and "js_states s i = Some st" and "is_utf8 key" and "json_ok (VInt i)"
    and "takes_whole takes (concat (j_buffer (js_journal s)) @ del_line i (tj (VStr key)))"
    and "state_del tj takes i key (st, Some (js_journal s)) = Inr (st', Some j)"
  shows "journal_ok tj (with_journal j s\<lparr>js_states := (js_states s)(i := Some st')\<rparr>)"
proof -
  let ?r = "RDel i key"
  obtain j0 where j0: "kept_line (rec_line tj ?r) (js_journal s) = Inr j0" "j = flush takes j0"
    using assms(6) by (auto simp: state_del_def j_delete_def split: sum.splits if_splits)
  have held: "fs_held st' = dict_del key (fs_held st)"
    and carrying: "set (fs_carrying st') = set (fs_carrying st) - {key}"
    using assms(6) by (auto simp: state_del_def split: sum.splits if_splits)
  have st: "carrying_ok st" using assms(1,2) by (auto simp: journal_ok_def run_ok_def states_ok_def)
  have "carrying_ok st'"
  proof -
    have "key' \<in> set (fs_carrying st')" if "(key', x) \<in> set (fs_held st')" "holds x" for key' x
      using in_dict_del [of key' x key "fs_held st"] that st unfolding held carrying carrying_ok_def by auto
    with st show ?thesis unfolding carrying_ok_def held by auto
  qed
  then show ?thesis unfolding j0(2)
    by (rule kept_keeps [OF assms(1) j0(1) _ _ _ _ assms(2), rotated 4])
       (use assms(3-5) held in \<open>auto simp: dict_get_at_kept\<close>)
qed

section \<open>A call begun\<close>

definition counted :: "string \<Rightarrow> call \<Rightarrow> call" where
  "counted said par = par\<lparr>seqs := dict_put said (seq_of par said + 1) (seqs par)\<rparr>"

definition face :: "call \<Rightarrow> string option \<times> int \<times> int" where
  "face c = (impl c, old c, jid c)"

lemma face_counted [simp]: "face (counted said par) = face par"
  by (simp add: face_def counted_def)

lemma seq_of_counted: "seq_of (counted said par) x = seq_of par x + (if x = said then 1 else 0)"
  by (simp add: seq_of_def counted_def)

text \<open>The calls once one is begun under the \<open>q\<close>th of them.\<close>

definition added :: "call list \<Rightarrow> nat \<Rightarrow> string \<Rightarrow> call \<Rightarrow> call list" where
  "added cs q said node = cs[q := counted said (cs ! q)] @ [node]"

lemma faces: "q < length cs \<Longrightarrow> map face (cs[q := counted said (cs ! q)]) = map face cs"
  by (simp add: map_update list_update_same_conv)

lemma faces_tl:
  assumes "q < length cs" and "c \<in> set (tl (added cs q said node))"
  shows "c = node \<or> (\<exists>d\<in>set (tl cs). face d = face c)"
proof -
  have "cs \<noteq> []" using assms(1) by auto
  then have "c = node \<or> c \<in> set (tl (cs[q := counted said (cs ! q)]))" using assms(2) by (auto simp: added_def)
  moreover have "\<exists>d\<in>set (tl cs). face d = face c" if "c \<in> set (tl (cs[q := counted said (cs ! q)]))"
  proof -
    have "face c \<in> set (map face (tl (cs[q := counted said (cs ! q)])))" using that by simp
    also have "map face (tl (cs[q := counted said (cs ! q)])) = map face (tl cs)"
      using faces [OF assms(1)] by (metis map_tl)
    finally show ?thesis by (metis imageE list.set_map)
  qed
  ultimately show ?thesis by blast
qed

lemma faces_all:
  assumes "q < length cs" and "c \<in> set (added cs q said node)"
  shows "c = node \<or> (\<exists>d\<in>set cs. face d = face c)"
proof -
  have "c = node \<or> face c \<in> set (map face (cs[q := counted said (cs ! q)]))"
    using assms(2) by (auto simp: added_def)
  then show ?thesis unfolding faces [OF assms(1)] by (metis imageE list.set_map)
qed

lemma flow_ids_added:
  assumes "q < length cs"
  shows "flow_ids (added cs q said node) = flow_ids cs @ [jid node]"
proof -
  have "cs \<noteq> []" using assms by auto
  moreover have "map jid (cs[q := counted said (cs ! q)]) = map jid cs"
    by (simp add: map_update list_update_same_conv assms counted_def)
  then have "flow_ids (cs[q := counted said (cs ! q)]) = flow_ids cs" by (metis map_tl)
  ultimately show ?thesis by (simp add: added_def)
qed

lemma hd_added: "q < length cs \<Longrightarrow> face (hd (added cs q said node)) = face (hd cs)"
  by (cases cs; cases q) (auto simp: added_def)

lemma nth_added:
  "q < length cs \<Longrightarrow> m < length cs \<Longrightarrow>
   added cs q said node ! m = (if m = q then counted said (cs ! q) else cs ! m)"
  by (simp add: added_def nth_append nth_list_update)

lemma length_added [simp]: "length (added cs q said node) = Suc (length cs)"
  by (simp add: added_def)

lemma claimed_added:
  assumes "q < length cs" and "claimed_under cs k"
  shows "claimed_under (added cs q said node) k"
proof -
  obtain m where m: "m < length cs" "old (cs ! m) = k_parent k" "k_seq k < seq_of (cs ! m) (k_digest k)"
    using assms(2) by (auto simp: claimed_under_def)
  have "old (added cs q said node ! m) = old (cs ! m)"
    using assms(1) m(1) by (simp add: nth_added) (simp add: counted_def)
  moreover have "seq_of (cs ! m) (k_digest k) \<le> seq_of (added cs q said node ! m) (k_digest k)"
    using assms(1) m(1) by (simp add: nth_added seq_of_counted)
  ultimately show ?thesis using m unfolding claimed_under_def by (intro exI [of _ m]) simp
qed

lemma claimed_here:
  assumes "q < length cs" and "old (cs ! q) = k_parent k" and "k_seq k = seq_of (cs ! q) (k_digest k)"
  shows "claimed_under (added cs q (k_digest k) node) k"
  using assms unfolding claimed_under_def
  by (intro exI [of _ q]) (simp add: nth_added seq_of_counted, simp add: counted_def)

lemma calls_added:
  assumes q: "q < length cs" and ok: "calls_ok was ids cs" and "impl node \<noteq> None" and "ids \<le> ids'"
    and "json_ok (VInt (jid node))" and "jid node \<le> ids'" and "jid node \<notin> set (flow_ids cs)"
    and "old node = 0 \<and> (\<forall>p. was = Some p \<longrightarrow> jid node \<notin> set (dict_keys (p_calls p))) \<or>
         old node = jid node \<and> old node \<noteq> 0 \<and>
         (\<exists>p k. was = Some p \<and> dict_get (p_calls p) (jid node) = Some k \<and>
                (k_parent k = 0 \<or> k_parent k \<noteq> 0 \<and> claimed_under (added cs q said node) k))"
  shows "calls_ok was ids' (added cs q said node)"
proof -
  note ok' = ok [unfolded calls_ok_def]
  have hd: "impl (hd (added cs q said node)) = None" "old (hd (added cs q said node)) = 0"
    "jid (hd (added cs q said node)) = 0"
    using hd_added [OF q] ok' by (simp_all add: face_def)
  have each: "impl c \<noteq> None \<and> (old c = 0 \<or> old c = jid c) \<and>
      (old c = 0 \<longrightarrow> (\<forall>p. was = Some p \<longrightarrow> jid c \<notin> set (dict_keys (p_calls p)))) \<and>
      (old c \<noteq> 0 \<longrightarrow> (\<exists>p k. was = Some p \<and> dict_get (p_calls p) (jid c) = Some k \<and>
               (k_parent k = 0 \<or> k_parent k \<noteq> 0 \<and> claimed_under (added cs q said node) k)))"
    if "c \<in> set (tl (added cs q said node))" for c
    using faces_tl [OF q that]
  proof
    assume "c = node"
    with assms(3,8) show ?thesis by blast
  next
    assume "\<exists>d\<in>set (tl cs). face d = face c"
    then obtain d where d: "d \<in> set (tl cs)" "impl d = impl c" "old d = old c" "jid d = jid c"
      by (auto simp: face_def)
    have 1: "impl c \<noteq> None" "old c = 0 \<or> old c = jid c" using ok' d by (metis, metis)
    have 2: "old c = 0 \<longrightarrow> (\<forall>p. was = Some p \<longrightarrow> jid c \<notin> set (dict_keys (p_calls p)))" using ok' d by metis
    have "old c \<noteq> 0 \<longrightarrow> (\<exists>p k. was = Some p \<and> dict_get (p_calls p) (jid c) = Some k \<and>
               (k_parent k = 0 \<or> k_parent k \<noteq> 0 \<and> claimed_under cs k))" using ok' d by metis
    with 1 2 show ?thesis using claimed_added [OF q] by blast
  qed
  have all: "json_ok (VInt (jid c)) \<and> jid c \<le> ids'" if "c \<in> set (added cs q said node)" for c
    using faces_all [OF q that]
  proof
    assume "c = node"
    with assms(5,6) show ?thesis by simp
  next
    assume "\<exists>d\<in>set cs. face d = face c"
    then obtain d where d: "d \<in> set cs" "jid d = jid c" by (auto simp: face_def)
    with ok' have "json_ok (VInt (jid c))" "jid c \<le> ids" by metis+
    with assms(4) show ?thesis by simp
  qed
  have "distinct (flow_ids (added cs q said node))" unfolding flow_ids_added [OF q] using ok' assms(7) by simp
  moreover have "added cs q said node \<noteq> []" by (simp add: added_def)
  ultimately show ?thesis unfolding calls_ok_def using hd each all by blast
qed

lemma past_ok_kept:
  assumes "past_ok w" and "dict_get (p_calls w) i = Some k"
  shows "kept_ok k \<and> k_id k = i \<and> i \<in> set (dict_keys (p_calls w))"
proof -
  obtain ks where ks: "w = fold called ks no_past" "sorted_wrt (<) (map k_id ks)" "\<forall>k\<in>set ks. kept_ok k"
    using assms(1) by (auto simp: past_ok_def)
  have "p_calls w = map (\<lambda>k. (k_id k, k)) ks" unfolding ks(1) by (rule calls_of_ids [OF ks(2)])
  with ks(3) dict_get_in_set [OF assms(2)] show ?thesis by auto
qed

text \<open>An earlier call that is found is one nobody has picked up.\<close>

lemma picked_new:
  assumes ok: "calls_ok (Some w) ids cs" and w: "past_ok w" and q: "q < length cs"
    and top: "q = 0 \<longleftrightarrow> length cs = 1" and picked: "picked_up (Some w) (cs ! q) said = Some k"
  shows "dict_get (p_calls w) (k_id k) = Some k \<and> k_id k \<notin> set (flow_ids cs) \<and>
         (k_parent k = 0 \<or> k_parent k \<noteq> 0 \<and> claimed_under (added cs q said node) k)"
proof (cases "q = 0")
  case True
  then have cs: "tl cs = []" "cs ! q = hd cs" using top q by (cases cs; simp)+
  then have "impl (cs ! q) = None" using ok by (simp add: calls_ok_def)
  then obtain r where r: "p_root w = Some r" "dict_get (p_calls w) r = Some k"
    using picked by (auto simp: picked_up_def split: option.splits)
  moreover have "k_parent k = 0" using past_ok_found [OF w] r unfolding found_ok_def by auto
  ultimately show ?thesis using cs past_ok_kept [OF w] by simp
next
  case False
  note ok' = ok [unfolded calls_ok_def]
  let ?c = "cs ! q"
  have tl: "tl cs ! (q - 1) = ?c" "q - 1 < length (tl cs)" using False q by (simp_all add: nth_tl)
  then have in_tl: "?c \<in> set (tl cs)" by (metis nth_mem)
  with ok' have "impl ?c \<noteq> None" by blast
  with picked have old: "old ?c \<noteq> 0" "claim w (old ?c) said (seq_of ?c said) = Some k"
    by (auto simp: picked_up_def split: if_splits)
  from claim_found [OF past_ok_found [OF w] old(2)] have k: "dict_get (p_calls w) (k_id k) = Some k"
    "k_parent k = old ?c" "k_digest k = said" "k_seq k = seq_of ?c said" by simp_all
  have "k_id k \<notin> set (flow_ids cs)"
  proof
    assume "k_id k \<in> set (flow_ids cs)"
    then obtain d where d: "d \<in> set (tl cs)" "jid d = k_id k" by auto
    have "k_id k \<in> set (dict_keys (p_calls w))" using past_ok_kept [OF w k(1)] by simp
    with d ok' have "old d \<noteq> 0" by metis
    then obtain k' where k': "dict_get (p_calls w) (jid d) = Some k'" "k_parent k' = 0 \<or> claimed_under cs k'"
      using ok' d(1) by (metis option.inject)
    then have "claimed_under cs k" using d(2) k(1,2) old(1) by simp
    then obtain m where m: "m < length cs" "old (cs ! m) = old ?c" "k_seq k < seq_of (cs ! m) said"
      using k by (auto simp: claimed_under_def)
    have "m \<noteq> 0" using m(2) old(1) ok' by (metis hd_conv_nth)
    then have tm: "tl cs ! (m - 1) = cs ! m" "m - 1 < length (tl cs)" using m(1) by (simp_all add: nth_tl)
    then have "cs ! m \<in> set (tl cs)" by (metis nth_mem)
    then have "jid (cs ! m) = jid ?c" using m(2) old(1) in_tl ok' by metis
    then have "flow_ids cs ! (m - 1) = flow_ids cs ! (q - 1)" using tm tl by simp
    moreover have "distinct (flow_ids cs)" using ok' by blast
    ultimately have "m - 1 = q - 1"
      using nth_eq_iff_index_eq [of "flow_ids cs" "m - 1" "q - 1"] tm(2) tl(2) by simp
    then have "m = q" using \<open>m \<noteq> 0\<close> False by simp
    with m(3) k(4) show False by simp
  qed
  moreover have "claimed_under (added cs q said node) k"
    using claimed_here [OF q, of k node] k by simp
  ultimately show ?thesis using k(1,2) old(1) by simp
qed

lemma began_keeps:
  assumes ok: "journal_ok tj s" and q: "q < length (js_calls s)" and top: "q = 0 \<longleftrightarrow> length (js_calls s) = 1"
    and node: "impl node \<noteq> None" "old node = 0" and said: "digest_ok said" and ref: "is_utf8 ref"
    and digits: "json_ok (VInt (jr_ids (js_run s) + 1))" "json_ok (VInt (seq_of (js_calls s ! q) said))"
    and made: "journaled tj ref said (js_calls s ! q) node (js_run s) = Inr (r', par', node', held)"
  shows "journal_ok tj \<lparr>js_run = r', js_calls = (js_calls s)[q := par'] @ [node'],
           js_states = (if resumable then (js_states s)(jid node' := Some (state_made held)) else js_states s)\<rparr>"
    (is "journal_ok tj ?s")
proof -
  obtain rs bs where l: "lines_ok tj (js_journal s) rs bs" and run: "run_ok s (replay (rs @ bs))"
    using ok by (auto simp: journal_ok_def)
  define p where "p = replay (rs @ bs)"
  define ids where "ids = jr_ids (js_run s)"
  define was where "was = jr_past (js_run s)"
  let ?cs = "js_calls s"
  have r: "0 \<le> ids" "\<forall>i\<in>set (dict_keys (p_calls p)). i \<le> ids" "calls_ok was ids ?cs"
    "states_ok (js_states s) (flow_ids ?cs) p" "unclaimed_ok was ids (flow_ids ?cs) p"
    using run by (simp_all add: run_ok_def p_def ids_def was_def)
  show ?thesis
  proof (cases "picked_up was (?cs ! q) said")
    case (Some k)
    then obtain w where w: "was = Some w" by (auto simp: picked_up_def split: option.splits)
    with r(5) have wok: "past_ok w" "\<forall>i\<in>set (dict_keys (p_calls w)). i \<le> ids" by (auto simp: unclaimed_ok_def)
    have res: "r' = js_run s" "par' = counted said (?cs ! q)" "node' = node\<lparr>jid := k_id k, old := k_id k\<rparr>"
      "held = k_state k"
      using made Some by (simp_all add: journaled_def Let_def counted_def was_def)
    have calls: "js_calls ?s = added ?cs q said node'" by (simp add: added_def res(2))
    from picked_new [OF _ wok(1) q top, of ids said k node'] r(3) w Some
    have k: "dict_get (p_calls w) (k_id k) = Some k" "k_id k \<notin> set (flow_ids ?cs)"
      "k_parent k = 0 \<or> k_parent k \<noteq> 0 \<and> claimed_under (added ?cs q said node') k" by simp_all
    have kok: "kept_ok k" "k_id k \<in> set (dict_keys (p_calls w))" using past_ok_kept [OF wok(1) k(1)] by simp_all
    have kid: "0 < k_id k" "json_ok (VInt (k_id k))" "k_id k \<le> ids"
      using past_ok_ids [OF wok(1) kok(2)] wok(2) kok(2) by auto
    have "calls_ok was ids (added ?cs q said node')"
      by (rule calls_added [OF q r(3)]) (use res(3) node k kid w in auto)
    moreover have pk: "dict_get (p_calls p) (k_id k) = Some k"
      using r(5) k w unfolding unclaimed_ok_def by blast
    have "states_ok (js_states ?s) (flow_ids (added ?cs q said node')) p"
    proof -
      have "carrying_ok (state_made (k_state k))"
        using kok(1) by (intro carrying_made) (simp add: kept_ok_def state_ok_def)
      then show ?thesis
        using r(4) pk unfolding states_ok_def flow_ids_added [OF q]
        by (auto simp: res state_made_def split: if_splits)
    qed
    moreover have "unclaimed_ok was ids (flow_ids (added ?cs q said node')) p"
      using r(5) unfolding unclaimed_ok_def flow_ids_added [OF q] by auto
    ultimately have "run_ok ?s p"
      unfolding run_ok_def calls using r(1,2) res(1) by (simp add: ids_def was_def)
    then show ?thesis using l res(1) unfolding p_def by (intro journal_okI [of _ _ rs bs]) simp_all
  next
    case None
    let ?r = "RCall (ids + 1) (jid (?cs ! q)) said (seq_of (?cs ! q) said) ref"
    obtain j where j: "j_call (ids + 1) (jid (?cs ! q)) said (seq_of (?cs ! q) said) (tj (VStr ref)) (js_journal s) = Inr j"
      and res: "r' = (js_run s)\<lparr>jr_ids := ids + 1, jr_journal := j\<rparr>" "par' = counted said (?cs ! q)"
        "node' = node\<lparr>jid := ids + 1\<rparr>" "held = []"
      using made None by (auto simp: journaled_def Let_def counted_def was_def ids_def)
    have calls: "js_calls ?s = added ?cs q said node'" by (simp add: added_def res(2))
    have new: "\<forall>i\<in>set (flow_ids ?cs). i \<le> ids"
      using r(3) unfolding calls_ok_def by (auto dest: list.set_sel(2))
    have "rec_ok ?r"
      using r(1) digits said ref nth_mem [OF q] r(3)
      by (auto simp: ids_def calls_ok_def simp del: json_ok.simps)
    moreover have "recs_ok (rs @ bs)" using l by (simp add: lines_ok_def)
    then have keys: "dict_keys (p_calls p) = call_ids (rs @ bs)" unfolding p_def by (rule replay_ids)
    with r(2) have "\<forall>i\<in>set (call_ids [?r]). \<forall>j\<in>set (call_ids (rs @ bs)). j < i" by auto
    ultimately have "lines_ok tj j rs (bs @ [?r])"
      using j by (intro batched_lines [OF l]) (simp_all add: j_call_def writes_state_def del: json_ok.simps)
    then have lines: "lines_ok tj (js_journal ?s) rs (bs @ [?r])" by (simp add: res(1))
    have past: "\<forall>w. was = Some w \<longrightarrow> ids + 1 \<notin> set (dict_keys (p_calls w))"
      using r(5) by (force simp: unclaimed_ok_def)
    have "calls_ok was (ids + 1) (added ?cs q said node')"
      by (rule calls_added [OF q r(3)]) (use res(3) node digits new past in \<open>auto simp: ids_def\<close>)
    moreover have "states_ok (js_states ?s) (flow_ids (added ?cs q said node')) (apply_rec ?r p)"
    proof -
      have "carrying_ok (state_made [])" by (rule carrying_made) simp
      moreover have "dict_get (p_calls (apply_rec ?r p)) (ids + 1) = Some (kept_made (ids + 1) (jid (?cs ! q)) said (seq_of (?cs ! q) said) ref)"
        by (simp add: p_calls_called kept_made_def)
      moreover have "dict_get (p_calls (apply_rec ?r p)) i = dict_get (p_calls p) i" if "i \<in> set (flow_ids ?cs)" for i
        using that new by (intro get_other) auto
      ultimately show ?thesis
        using r(4) unfolding states_ok_def flow_ids_added [OF q]
        by (auto simp: res state_made_def kept_made_def split: if_splits)
    qed
    moreover have "unclaimed_ok was (ids + 1) (flow_ids (added ?cs q said node')) (apply_rec ?r p)"
      using r(5) get_other [of _ ?r p] unfolding unclaimed_ok_def flow_ids_added [OF q]
      by (fastforce simp: res(3))
    moreover have "\<forall>i\<in>set (dict_keys (p_calls (apply_rec ?r p))). i \<le> ids + 1"
      using r(2) by (auto simp: p_calls_called dict_keys_put kept_made_def)
    ultimately have "run_ok ?s (apply_rec ?r p)"
      unfolding run_ok_def calls using r(1) res(1) by (simp add: was_def)
    then show ?thesis by (intro journal_okI [OF lines]) (simp add: p_def)
  qed
qed

section \<open>Every run\<close>

lemma opened_past:
  assumes "opened_journal tj there resume = Some (j, was)"
  shows "was = None \<and> j = journal_on header \<or>
         (\<exists>w f. resume \<and> there = Some f \<and> was = Some w \<and> read_journal f = Some w \<and>
              j = journal_on (header @ concat (compacted tj w)))"
  using assms by (auto simp: opened_journal_def split: option.splits if_splits)

lemma opened_keeps:
  assumes "was = None \<and> j = journal_on header \<or>
           (\<exists>w. was = Some w \<and> past_ok w \<and> j = journal_on (header @ concat (compacted tj w)))"
  shows "journal_ok tj (run_opened j was)"
proof -
  have digits: "json_ok (VInt 0)" by (simp add: show_nat_0)
  have top: "calls_ok was ids [top_made]" if "0 \<le> ids" for ids
    using that digits by (simp add: calls_ok_def top_made_def call_made_def)
  show ?thesis
    using assms
  proof
    assume none: "was = None \<and> j = journal_on header"
    have "run_ok (run_opened j was) no_past"
      using none top [of 0] by (simp add: run_ok_def run_opened_def states_ok_def unclaimed_ok_def no_past_def)
    with none show ?thesis
      by (intro journal_okI [of _ _ "[]" "[]"]) (simp_all add: lines_ok_def run_opened_def journal_on_def recs_ok_def)
  next
    assume "\<exists>w. was = Some w \<and> past_ok w \<and> j = journal_on (header @ concat (compacted tj w))"
    then obtain w where w: "was = Some w" "past_ok w" "j = journal_on (header @ concat (compacted tj w))" by blast
    obtain ks where ks: "w = fold called ks no_past" "sorted_wrt (<) (map k_id ks)" "\<forall>k\<in>set ks. kept_ok k"
      using w(2) by (auto simp: past_ok_def)
    define rs where "rs = concat (map kept_recs ks)"
    have ids: "call_ids rs = map k_id ks" unfolding rs_def
    proof (induction ks)
      case (Cons k ks)
      have "call_ids (map (\<lambda>(key, v). RSet (k_id k) key v) s) = []" for s
        by (induction s) auto
      moreover have "call_ids (map (RNote (k_id k)) ms) = []" for ms by (induction ms) auto
      ultimately have "call_ids (kept_recs k) = [k_id k]" by (cases "k_ended k") auto
      with Cons show ?case by (simp del: kept_recs.simps)
    qed simp
    have recs: "recs_ok rs"
      unfolding recs_ok_def ids using ks(2,3) kept_recs_ok by (auto simp: rs_def simp del: kept_recs.simps)
    have "distinct (dict_keys (p_calls no_past) @ map k_id ks)"
      using ks(2) by (simp add: no_past_def strict_sorted_iff)
    then have replay: "replay rs = w" unfolding rs_def ks(1) using ks(3) by (rule all_recs_called)
    have lines: "lines_ok tj (js_journal (run_opened j was)) rs []"
      using recs unfolding w(3) ks(1) compacted_recs [OF ks(2)]
      by (simp add: lines_ok_def run_opened_def journal_on_def rs_def)
    have upto: "\<forall>i\<in>set (dict_keys (p_calls w)). i \<le> next_id w - 1"
      using past_ok_ids [OF w(2)] by blast
    have "0 \<le> next_id w - 1"
    proof (cases "p_calls w = []")
      case False
      then obtain i where i: "i \<in> set (dict_keys (p_calls w))" by (cases "p_calls w") auto
      from past_ok_ids [OF w(2) i] show ?thesis by linarith
    qed (simp add: next_id_def)
    with top [of "next_id w - 1"] upto w have "run_ok (run_opened j was) (replay (rs @ []))"
      unfolding append_Nil2 replay by (simp add: run_ok_def run_opened_def states_ok_def unclaimed_ok_def)
    with lines show ?thesis by (rule journal_okI)
  qed
qed

lemma jstep_keeps:
  assumes "jstep tj s s'" and "journal_ok tj s"
  shows "journal_ok tj s'"
  using assms(1)
proof cases
  case (began q node said ref r' par' node' held resumable)
  then show ?thesis using began_keeps [OF assms(2)] by blast
next
  case (wrote i st key conv v said takes st' j)
  from assms(2) wrote(2) have "json_ok (VInt i)"
    by (fastforce simp: journal_ok_def run_ok_def states_ok_def calls_ok_def simp del: json_ok.simps dest: list.set_sel(2))
  with wrote show ?thesis using wrote_keeps [OF assms(2)] by blast
next
  case (forgot i st key takes st' j)
  from assms(2) forgot(2) have "json_ok (VInt i)"
    by (fastforce simp: journal_ok_def run_ok_def states_ok_def calls_ok_def simp del: json_ok.simps dest: list.set_sel(2))
  with forgot show ?thesis using forgot_keeps [OF assms(2)] by blast
next
  case (ended i ok j)
  from assms(2) ended(2) have "json_ok (VInt i)"
    by (fastforce simp: journal_ok_def run_ok_def calls_ok_def simp del: json_ok.simps dest: list.set_sel(2))
  with ended show ?thesis
    using noted_keeps [OF assms(2), of "REnd i ok" j] by (simp add: j_end_def writes_state_def del: json_ok.simps)
next
  case (noted i m j)
  then show ?thesis
    using noted_keeps [OF assms(2), of "RNote i m" j] by (simp add: j_note_def writes_state_def)
next
  case (ticked takes)
  then show ?thesis using ticked_keeps [OF assms(2)] by blast
qed

context json_writer
begin

lemma reached_ok: "jreach to_json s \<Longrightarrow> journal_ok to_json s"
proof (induction rule: jreach.induct)
  case (first there j was)
  from opened_past [OF first] show ?case by (intro opened_keeps) auto
next
  case (again s n j was)
  obtain rs bs where l: "lines_ok to_json (js_journal s) rs bs" using again(3) by (auto simp: journal_ok_def)
  then have disk: "j_disk (js_journal s) = file_of rs" and rs: "recs_ok rs"
    by (auto simp: lines_ok_def file_of_def recs_ok_def sorted_wrt_append)
  obtain k where k: "read_journal (take n (file_of rs)) = Some (replay (take k rs))"
    using read_file_cut [of rs n] rs by (auto simp: recs_ok_def)
  have "past_ok (replay (take k rs))" by (intro past_ok_replay recs_ok_take rs)
  with opened_past [OF again(2)] k show ?case unfolding disk by (intro opened_keeps) auto
next
  case (step s s')
  then show ?case using jstep_keeps by blast
qed

end

end
