(* ===== verification/Journaled.thy ===== *)
theory Journaled
  imports JournalKeeps
begin

text \<open>
  What a journal promises: a state write is on the disk once it is made, a file cut short anywhere is
  one of fewer records, a run picked up starts from what was left, an earlier call is picked up once,
  and a closed journal takes nothing more.
\<close>

section \<open>What waits to be written\<close>

lemma unwritten_kept:
  assumes "\<forall>b\<in>set bs. \<not> writes_state b" and "distinct (dict_keys (p_calls p) @ call_ids bs)"
  shows "(case dict_get (p_calls p) i of
            Some k \<Rightarrow> \<exists>k'. dict_get (p_calls (fold apply_rec bs p)) i = Some k' \<and> k_state k' = k_state k
          | None \<Rightarrow> \<forall>k'. dict_get (p_calls (fold apply_rec bs p)) i = Some k' \<longrightarrow> k_state k' = [])"
  using assms
proof (induction bs arbitrary: p)
  case Nil
  then show ?case by (auto split: option.splits)
next
  case (Cons b bs)
  have split: "call_ids (b # bs) = call_ids [b] @ call_ids bs" using call_ids_append [of "[b]" bs] by simp
  have "dict_keys (p_calls (apply_rec b p)) = dict_keys (p_calls p) @ call_ids [b]"
    using Cons.prems(2) unfolding split by (intro rec_keys) auto
  then have "distinct (dict_keys (p_calls (apply_rec b p)) @ call_ids bs)"
    using Cons.prems(2) unfolding split by simp
  with Cons have ih: "case dict_get (p_calls (apply_rec b p)) i of
      Some k \<Rightarrow> \<exists>k'. dict_get (p_calls (fold apply_rec bs (apply_rec b p))) i = Some k' \<and> k_state k' = k_state k
    | None \<Rightarrow> \<forall>k'. dict_get (p_calls (fold apply_rec bs (apply_rec b p))) i = Some k' \<longrightarrow> k_state k' = []"
    by simp
  have fresh: "dict_get (p_calls p) j = None" if "j \<in> set (call_ids [b])" for j
    using Cons.prems(2) that unfolding split dict_get_None_iff by auto
  have "case dict_get (p_calls p) i of
      Some k \<Rightarrow> \<exists>k'. dict_get (p_calls (apply_rec b p)) i = Some k' \<and> k_state k' = k_state k
    | None \<Rightarrow> \<forall>k'. dict_get (p_calls (apply_rec b p)) i = Some k' \<longrightarrow> k_state k' = []"
    using Cons.prems(1) fresh
    by (cases b)
       (auto simp: dict_get_at_kept writes_state_def p_calls_called kept_made_def split: option.splits)
  with ih show ?case by (auto split: option.splits)
qed

context json_writer
begin

lemma disk_state:
  assumes "jreach to_json s" and "js_states s i = Some st"
  shows "\<exists>p. read_journal (j_disk (js_journal s)) = Some p \<and>
             (case dict_get (p_calls p) i of None \<Rightarrow> fs_held st = [] | Some k \<Rightarrow> k_state k = fs_held st) \<and>
             carrying_ok st"
proof -
  obtain rs bs where l: "lines_ok to_json (js_journal s) rs bs" and run: "run_ok s (replay (rs @ bs))"
    using reached_ok [OF assms(1)] by (auto simp: journal_ok_def)
  have rs: "recs_ok (rs @ bs)" "recs_ok rs" and disk: "j_disk (js_journal s) = file_of rs"
    using l by (auto simp: lines_ok_def file_of_def recs_ok_def sorted_wrt_append)
  have read: "read_journal (file_of rs) = Some (replay rs)" using rs(2) by (intro read_file) (simp add: recs_ok_def)
  obtain k where k: "dict_get (p_calls (fold apply_rec bs (replay rs))) i = Some k" "k_state k = fs_held st"
    and st: "carrying_ok st"
    using run assms(2) unfolding run_ok_def states_ok_def fold_append comp_def by blast
  have "distinct (dict_keys (p_calls (replay rs)) @ call_ids bs)"
    unfolding replay_ids [OF rs(2)] using rs(1) by (simp add: recs_ok_def strict_sorted_iff)
  moreover have "\<forall>b\<in>set bs. \<not> writes_state b" using l by (simp add: lines_ok_def)
  ultimately have "case dict_get (p_calls (replay rs)) i of None \<Rightarrow> fs_held st = [] | Some k \<Rightarrow> k_state k = fs_held st"
    using unwritten_kept [of bs "replay rs" i] k by (auto split: option.splits)
  with read st show ?thesis unfolding disk by blast
qed

lemma disk_lines:
  assumes "jreach to_json s"
  shows "\<exists>rs. recs_ok rs \<and> j_disk (js_journal s) = file_of rs"
  using reached_ok [OF assms]
  by (auto simp: journal_ok_def lines_ok_def file_of_def recs_ok_def sorted_wrt_append)

lemma disk_cut:
  assumes "jreach to_json s"
  shows "\<exists>rs k. recs_ok rs \<and> j_disk (js_journal s) = file_of rs \<and>
             read_journal (take n (j_disk (js_journal s))) = Some (replay (take k rs))"
proof -
  obtain rs where rs: "recs_ok rs" "j_disk (js_journal s) = file_of rs" using disk_lines [OF assms] by blast
  then show ?thesis using read_file_cut [of rs n] by (auto simp: recs_ok_def)
qed

lemma opened_again:
  assumes "jreach to_json s" and "opened_journal to_json (Some (take n (j_disk (js_journal s)))) True = Some (j, Some w)"
  shows "read_journal (take n (j_disk (js_journal s))) = Some w \<and> read_journal (j_disk j) = Some w"
proof -
  obtain rs k where rs: "recs_ok rs" "read_journal (take n (j_disk (js_journal s))) = Some (replay (take k rs))"
    using disk_cut [OF assms(1)] by blast
  with opened_past [OF assms(2)] have w: "w = replay (take k rs)" "j = journal_on (header @ concat (compacted to_json w))"
    by auto
  have "past_ok w" unfolding w(1) by (intro past_ok_replay recs_ok_take rs(1))
  with compacted_reads rs(2) w show ?thesis by (simp add: journal_on_def)
qed

end

section \<open>A run to look at\<close>

text \<open>A flow called at the top, which writes one key of its state; \<open>json.dumps\<close> stands for the writer.\<close>

definition sample_recs :: "jrec list" where
  "sample_recs = [RCall 1 0 ''0a'' 0 ''m:f'', RSet 1 ''k'' (VInt 7)]"

lemma takes_all: "takes_whole [length d] d"
  by (cases d) (simp_all add: takes_whole_def)

lemma small_ints [simp]: "show_nat 0 = ''0''" "show_nat (Suc 0) = ''1''" "show_nat 7 = ''7''"
  by (code_simp, code_simp, code_simp)

lemma sample_run:
  "\<exists>s. jreach jdump s \<and> js_states s 1 = Some \<lparr>fs_held = [(''k'', VInt 7)], fs_carrying = []\<rparr> \<and>
       j_disk (js_journal s) = header @ concat (map (rec_line jdump) sample_recs)"
proof -
  let ?s0 = "run_opened (journal_on header) None"
  let ?node = "call_made (Some 0) (Some ''m:f'') 1 None 0 PInf"
  let ?line = "call_line 1 0 ''0a'' 0 (jdump (VStr ''m:f''))"
  let ?j1 = "(journal_on header)\<lparr>j_buffer := [?line], j_records := 1, j_timer := True\<rparr>"
  let ?s1 = "\<lparr>js_run = \<lparr>jr_journal = ?j1, jr_past = None, jr_ids = 1\<rparr>,
      js_calls = [top_made][0 := counted ''0a'' top_made] @ [?node\<lparr>jid := 1\<rparr>],
      js_states = (\<lambda>_. None)(1 := Some (state_made []))\<rparr>"
  have r0: "jreach jdump ?s0"
    by (rule jreach.first [of _ None]) (simp add: opened_journal_def)
  have "jstep jdump ?s0
      \<lparr>js_run = \<lparr>jr_journal = ?j1, jr_past = None, jr_ids = 1\<rparr>,
       js_calls = (js_calls ?s0)[0 := counted ''0a'' top_made] @ [?node\<lparr>jid := 1\<rparr>],
       js_states = (if True then (js_states ?s0)(jid (?node\<lparr>jid := 1\<rparr>) := Some (state_made [])) else js_states ?s0)\<rparr>"
    by (rule jstep.began [where said = "''0a''" and ref = "''m:f''" and node = ?node])
       (simp_all add: run_opened_def top_made_def call_made_def digest_ok_def hex_val_def is_utf8_def seq_of_def
          journaled_def picked_up_def j_call_def batched_def kept_line_def journal_on_def counted_def)
  then have s1: "jstep jdump ?s0 ?s1" by (simp add: run_opened_def)
  let ?set = "set_line 1 (jdump (VStr ''k'')) (jdump (VInt 7))"
  let ?st = "\<lparr>fs_held = [(''k'', VInt 7)], fs_carrying = []\<rparr>"
  let ?data = "?line @ ?set"
  let ?j2 = "flush [length ?data] (?j1\<lparr>j_buffer := [?line, ?set], j_records := Suc (Suc 0)\<rparr>)"
  have said: "dumped (\<lambda>_. None) (OInt 7 :: nat pyobj) = Some (jdump (VInt 7))"
    by (simp add: dumped_def)
  have seven: "json_ok (VInt 7)" by simp
  have loads: "loads (jdump (VInt 7)) = Some (VInt 7)" using loads_dump [OF seven] by simp
  have plain: "\<not> contains_sub SAID (jdump (VInt 7))"
    by (simp add: SAID_def SESSION_def escaped_def hex_digit_def show_int_def starts_with_def)
  have "state_set jdump [length ?data] (\<lambda>_. None) 1 (KStr ''k'') (OInt 7 :: nat pyobj) (state_made [], Some ?j1) =
      Inr (?st, Some ?j2)"
    unfolding state_set_def okey.case said option.case loads
    using plain by (simp add: j_set_def kept_line_def journal_on_def state_made_def)
  moreover have "takes_whole [length ?data] (concat (j_buffer (js_journal ?s1)) @ ?set)"
    using takes_all [of ?data] by (simp add: journal_on_def)
  ultimately have s2: "jstep jdump ?s1 (with_journal ?j2 ?s1\<lparr>js_states := (js_states ?s1)(1 := Some ?st)\<rparr>)"
    by (intro jstep.wrote [of _ _ "state_made []" _ _ "OInt 7" "jdump (VInt 7)" "[length ?data]"])
       (simp_all add: said is_utf8_def)
  have "j_disk ?j2 = header @ ?data"
    using takes_all [of ?data] flush_lines [of "[length ?data]" "?j1\<lparr>j_buffer := [?line, ?set], j_records := Suc (Suc 0)\<rparr>"]
    by (simp add: journal_on_def)
  then show ?thesis
    using jreach.step [OF jreach.step [OF r0 s1] s2]
    by (intro exI [of _ "with_journal ?j2 ?s1\<lparr>js_states := (js_states ?s1)(1 := Some ?st)\<rparr>"])
       (simp add: with_journal_def sample_recs_def)
qed

lemma sample_ok: "\<forall>r\<in>set sample_recs. rec_ok r"
  by (simp add: sample_recs_def digest_ok_def hex_val_def is_utf8_def)

section \<open>What a run's journal promises\<close>





text \<open>
  C13. Resuming rewrites the journal once, compacted, and says the same: the run is handed what the file it
  found says -- each call, its parent, digest and count, the state it ended with, its end, its sessions and
  its temporary directories -- and reading the compacted file gives exactly that again.
\<close>

theorem compacting_loses_nothing:
  assumes "json_writer tj" and "jreach tj s"
    and "opened_journal tj (Some (take n (j_disk (js_journal s)))) True = Some (j, Some w)"
  shows "read_journal (take n (j_disk (js_journal s))) = Some w \<and> read_journal (j_disk j) = Some w"
  using json_writer.opened_again [OF assms] .

theorem compacting_loses_nothing_witness:
  "\<exists>(s :: jsystem) (j :: journal) (w :: past). p_root w = Some 1 \<and> read_journal (j_disk (js_journal s)) = Some w \<and> read_journal (j_disk j) = Some w"
proof -
  obtain s where s: "jreach jdump s" "j_disk (js_journal s) = dumps.file_of sample_recs"
    using sample_run unfolding dumps.file_of_def by blast
  let ?w = "replay sample_recs"
  have root: "p_root ?w = Some 1"
    by (simp add: sample_recs_def called_def kept_made_def no_past_def at_kept_def)
  have "opened_journal jdump (Some (take (length (j_disk (js_journal s))) (j_disk (js_journal s)))) True =
      Some (journal_on (header @ concat (compacted jdump ?w)), Some ?w)"
    using root dumps.read_file [OF sample_ok] s(2) by (simp add: opened_journal_def)
  from compacting_loses_nothing [OF dumps.json_writer_axioms s(1) this] root s(2) show ?thesis
    by (intro exI [of _ s] exI [of _ "journal_on (header @ concat (compacted jdump ?w))"] exI [of _ ?w]) simp
qed

text \<open>
  No two flow calls of a run are the same call in its journal: of a loop or a gather of identical calls
  under one that was picked up, each picks up an earlier one of its own, or is written down under an id
  nobody had.
\<close>

theorem calls_have_their_own_ids:
  assumes "json_writer tj" and "jreach tj s"
  shows "distinct (flow_ids (js_calls s))"
  using json_writer.reached_ok [OF assms] by (auto simp: journal_ok_def run_ok_def calls_ok_def)

theorem calls_have_their_own_ids_witness:
  "\<exists>(s :: jsystem). js_states s 1 \<noteq> None \<and> distinct (flow_ids (js_calls s))"
proof -
  obtain s where s: "jreach jdump s" "js_states s 1 \<noteq> None" using sample_run by fastforce
  from calls_have_their_own_ids [OF dumps.json_writer_axioms s(1)] s(2) show ?thesis by blast
qed

text \<open>
  A flow reads the same from its state in the run that wrote it as in one that picks it up: every key,
  whatever was written under it, with a session in it read as a new one carrying on the one kept.
\<close>

theorem state_reads_the_same:
  assumes "json_writer tj" and "jreach tj s" and "js_states s i = Some st"
    and "read_journal (j_disk (js_journal s)) = Some p" and "dict_get (p_calls p) i = Some k"
  shows "state_get carry key (state_made (k_state k)) = state_get carry key st"
  using json_writer.disk_state [OF assms(1-3)] assms(4,5) state_get_made [of st carry key] by auto

theorem state_reads_the_same_witness:
  "\<exists>(s :: jsystem) (st :: flow_state) (k :: kept). js_states s 1 = Some st \<and> fs_held st = [(''k'', VInt 7)] \<and>
          state_get (\<lambda>_. Some (0 :: nat)) ''k'' (state_made (k_state k)) = state_get (\<lambda>_. Some 0) ''k'' st"
proof -
  let ?st = "\<lparr>fs_held = [(''k'', VInt 7)], fs_carrying = []\<rparr>"
  obtain s where s: "jreach jdump s" "js_states s 1 = Some ?st" using sample_run by blast
  from dumps.disk_state [OF this] obtain p k where
    "read_journal (j_disk (js_journal s)) = Some p" "dict_get (p_calls p) 1 = Some k"
    by (auto split: option.splits)
  from state_reads_the_same [OF dumps.json_writer_axioms s this, of "\<lambda>_. Some 0" "''k''"] s(2)
  show ?thesis by (intro exI [of _ s] exI [of _ ?st] exI [of _ k]) simp
qed

text \<open>
  Once a journal is closed every record asked of it is refused with \<open>FlowCancelled\<close>, a state write or a
  key forgotten through it fails before the state changes, and what was waiting is on the disk where the
  disk takes it.
\<close>

theorem closed_journal_refuses:
  "j_call i par said seq ref (j_close takes j) = Inl (FlowCancelled None) \<and>
   j_end i ok (j_close takes j) = Inl (FlowCancelled None) \<and>
   j_note tj m (j_close takes j) = Inl (FlowCancelled None) \<and>
   (\<forall>text. dumped conv v = Some text \<longrightarrow>
      state_set tj again conv i (KStr key) v (st, Some (j_close takes j)) = Inl (Unjournaled (FlowCancelled None))) \<and>
   (state_contains key st \<longrightarrow>
      state_del tj again i key (st, Some (j_close takes j)) = Inl (Unjournaled (FlowCancelled None))) \<and>
   (takes_whole takes (concat (j_buffer j)) \<longrightarrow>
      j_disk (j_close takes j) = j_disk j @ concat (j_buffer j) \<and> j_buffer (j_close takes j) = [])"
  using flush_lines [of takes j]
  by (auto simp: j_call_def j_end_def j_note_def batched_def kept_line_def j_close_def state_set_def
      state_del_def state_contains_def j_set_def j_delete_def)

theorem closed_journal_refuses_witness:
  "j_disk (j_close [1, 1] \<lparr>j_disk = ''a'', j_buffer = [''b'', ''c''], j_timer = True, j_open = True,
                            j_records = 2, j_writes = 0\<rparr>) = ''abc''"
proof -
  let ?j = "\<lparr>j_disk = ''a'', j_buffer = [''b'', ''c''], j_timer = True, j_open = True, j_records = 2, j_writes = 0\<rparr>"
  have "takes_whole [1, 1] (concat (j_buffer ?j))" by (simp add: takes_whole_def)
  then have "j_disk (j_close [1, 1] ?j) = j_disk ?j @ concat (j_buffer ?j)"
    using closed_journal_refuses [of 1 1 "''0''" 0 "''r''" "[1, 1]" ?j] by blast
  then show ?thesis by simp
qed

end
