(* ===== verification/Fallbacks.thy ===== *)
theory Fallbacks
  imports Backends
begin

text \<open>
  \<open>hmz.coganchor.fallbacks\<close>: the places turns run at, written down in the settings with how often a
  turn is tried again at one and where it goes next; how long is waited before each try; and what
  each kind of failure gets. A settings file is read and changed as in \<open>Settings\<close>. Seconds are
  rationals: the floats that a wait is made of here are exact but for a random one's last bits.
\<close>

section \<open>Policies and answers\<close>

definition HELD :: string where
  "HELD = ''fallbacks''"

definition BASE :: rat where
  "BASE = 1"

definition CEILING :: rat where
  "CEILING = 60"

definition CLIMBED :: nat where
  "CLIMBED = 64"

definition POLICIES :: "string list" where
  "POLICIES = [''none'', ''constant'', ''linear'', ''exponential'', ''exponential-jitter'', ''fibonacci'']"

definition DEFAULT :: string where
  "DEFAULT = ''exponential-jitter''"

definition THROTTLED :: rat where
  "THROTTLED = CEILING / 2"

definition BUSY :: nat where
  "BUSY = 3"

text \<open>An \<open>Answer\<close>, without what it tells a person.\<close>

record answer =
  a_fault :: string
  a_tries :: nat
  a_held :: bool
  a_policy :: string
  a_least :: rat
  a_reopen :: bool

definition answer_of :: "string \<Rightarrow> answer" where
  "answer_of fault =
     \<lparr>a_fault = fault, a_tries = 0, a_held = False, a_policy = [], a_least = 0, a_reopen = False\<rparr>"

definition held_answer :: "string \<Rightarrow> answer" where
  "held_answer fault = (answer_of fault)\<lparr>a_held := True\<rparr>"

definition ANSWERS :: "answer list" where
  "ANSWERS =
     [(answer_of ''throttled'')\<lparr>a_tries := 1, a_least := THROTTLED\<rparr>,
      (answer_of ''spent'')\<lparr>a_tries := 1, a_least := THROTTLED\<rparr>,
      held_answer ''refused'', held_answer ''unlisted'', held_answer ''retired'',
      (answer_of ''contended'')\<lparr>a_tries := BUSY, a_policy := ''constant''\<rparr>,
      (answer_of ''dropped'')\<lparr>a_tries := 1, a_reopen := True\<rparr>,
      (answer_of ''killed'')\<lparr>a_tries := 1, a_policy := ''constant'', a_reopen := True\<rparr>,
      held_answer ''missing'', held_answer ''unmirrored'', held_answer ''fenced'', held_answer ''sandboxed'']"

definition answers :: "string \<Rightarrow> answer" where
  "answers fault =
     (case first_of (\<lambda>one. a_fault one = fault) ANSWERS of Some one \<Rightarrow> one | None \<Rightarrow> answer_of fault)"

section \<open>Places\<close>

record falls =
  f_spec :: string
  f_to :: "string list"
  f_tries :: int
  f_policy :: string
  f_timeout :: pyfloat

definition falls_of :: "string \<Rightarrow> falls" where
  "falls_of place = \<lparr>f_spec = place, f_to = [], f_tries = 0, f_policy = DEFAULT, f_timeout = Fin 0\<rparr>"

definition says :: "falls \<Rightarrow> bool" where
  "says f \<longleftrightarrow> f_to f \<noteq> [] \<or> f_tries f > 0"

definition spec :: "string \<Rightarrow> string \<Rightarrow> string \<Rightarrow> string" where
  "spec backend model provider = backend @ (if provider \<noteq> [] then ''@'' @ provider else []) @ ''/'' @ model"

definition reads :: "on_disk \<Rightarrow> string \<Rightarrow> string" where
  "reads disk said =
     (case py_partition CHR ''/'' (py_strip said) of (front, slash, model) \<Rightarrow>
        if \<not> slash then []
        else (case py_partition CHR ''@'' front of (backend, sep, account) \<Rightarrow>
                if sep \<and> py_strip account = [] then []
                else (case named disk (py_strip backend) of
                        None \<Rightarrow> []
                      | Some p \<Rightarrow>
                          if py_strip model = [] then []
                          else spec (pname p) (py_strip model) (py_strip account))))"

definition onwards :: "on_disk \<Rightarrow> string \<Rightarrow> pyval \<Rightarrow> string list" where
  "onwards disk said to =
     fold (\<lambda>one found.
             let place = (case one of VStr s \<Rightarrow> reads disk s | _ \<Rightarrow> [])
             in if place \<noteq> [] \<and> place \<noteq> said \<and> place \<notin> set found then found @ [place] else found)
          (case to of VList xs \<Rightarrow> xs | _ \<Rightarrow> []) []"

definition counted_of :: "pyval \<Rightarrow> int" where
  "counted_of said = (case py_int said of None \<Rightarrow> 0 | Some n \<Rightarrow> max n 0)"

definition seconds_of :: "pyval \<Rightarrow> pyfloat" where
  "seconds_of said =
     (case py_float said of
        None \<Rightarrow> Fin 0
      | Some x \<Rightarrow> if is_finite x then f_max x (Fin 0) else Fin 0)"

text \<open>One row of the list, \<open>None\<close> where it is passed over.\<close>

definition row_of :: "on_disk \<Rightarrow> string list \<Rightarrow> pyval \<Rightarrow> falls option" where
  "row_of disk seen one =
     (case one of
        VDict row \<Rightarrow>
          (let said = reads disk (py_str (or_else (get_or_none row ''spec'') (VStr [])));
               step = \<lparr>f_spec = said, f_to = onwards disk said (get_or_none row ''to''),
                       f_tries = counted_of (get_or_none row ''tries''),
                       f_policy = py_str (or_else (get_or_none row ''policy'') (VStr DEFAULT)),
                       f_timeout = seconds_of (get_or_none row ''timeout'')\<rparr>
           in if said = [] \<or> said \<in> set seen then None
              else if says step then Some step else None)
      | _ \<Rightarrow> None)"

definition read_falls :: "on_disk \<Rightarrow> pyval \<Rightarrow> falls list" where
  "read_falls disk held =
     fold (\<lambda>one found. case row_of disk (map f_spec found) one of None \<Rightarrow> found | Some step \<Rightarrow> found @ [step])
          (case held of VList xs \<Rightarrow> xs | _ \<Rightarrow> []) []"

definition all_falls :: "on_disk \<Rightarrow> falls list" where
  "all_falls disk = read_falls disk (get_or_none (read_settings disk) HELD)"

definition place_of :: "on_disk \<Rightarrow> string \<Rightarrow> string" where
  "place_of disk said = (let place = reads disk said in if place \<noteq> [] then place else py_strip said)"

definition tried :: "on_disk \<Rightarrow> string \<Rightarrow> falls" where
  "tried disk said =
     (case first_of (\<lambda>one. f_spec one = place_of disk said) (all_falls disk) of
        Some one \<Rightarrow> one
      | None \<Rightarrow> falls_of (place_of disk said))"

definition chain :: "on_disk \<Rightarrow> string \<Rightarrow> string list" where
  "chain disk said = place_of disk said # f_to (tried disk (place_of disk said))"

section \<open>Writing a step down\<close>

text \<open>The settings' text for a float is \<open>yaml\<close>'s; what is read back of it is the float.\<close>

definition written_step :: "(pyfloat \<Rightarrow> string) \<Rightarrow> falls \<Rightarrow> pyval" where
  "written_step repr f =
     VDict [(''spec'', VStr (f_spec f)), (''to'', VList (map VStr (f_to f))), (''tries'', VInt (f_tries f)),
            (''policy'', VStr (f_policy f)), (''timeout'', VFloat (f_timeout f) (repr (f_timeout f)))]"

definition written_falls :: "(pyfloat \<Rightarrow> string) \<Rightarrow> falls list \<Rightarrow> pyval" where
  "written_falls repr fs = VList (map (written_step repr) fs)"

definition kept_steps :: "falls \<Rightarrow> falls list \<Rightarrow> falls list" where
  "kept_steps step fs = filter (\<lambda>one. f_spec one \<noteq> f_spec step) fs @ (if says step then [step] else [])"

definition keeps :: "(pyfloat \<Rightarrow> string) \<Rightarrow> falls \<Rightarrow> on_disk \<Rightarrow> settings_error + on_disk" where
  "keeps repr step disk =
     changes (\<lambda>held. dict_put HELD (written_falls repr (kept_steps step (read_falls disk (get_or_none held HELD)))) held)
             disk"

datatype place_error =
    NotAPlace string
  | ItselfAgain string
  | NamedTwice string
  | NotAPolicy string
  | NotACount
  | TooLarge
  | Unwritable settings_error

text \<open>What a place is said to fall back to: one place, or several.\<close>

datatype falling = OnePlace string | Places "string list"

definition falling_to :: "falling \<Rightarrow> string list" where
  "falling_to to = (case to of OnePlace s \<Rightarrow> (if py_strip s \<noteq> [] then [s] else []) | Places xs \<Rightarrow> xs)"

fun steps_on :: "on_disk \<Rightarrow> string \<Rightarrow> string list \<Rightarrow> string list \<Rightarrow> place_error + string list" where
  "steps_on disk frm found [] = Inr found"
| "steps_on disk frm found (p # ps) =
     (let one = reads disk p in
      if one = [] then Inl (NotAPlace p)
      else if one = frm then Inl (ItselfAgain frm)
      else if one \<in> set found then Inl (NamedTwice one)
      else steps_on disk frm (found @ [one]) ps)"

text \<open>\<open>points\<close> and \<open>retrying\<close> read the file as it \<open>was\<close>, and change it as it is \<open>now\<close>, under the lock.\<close>

definition points ::
    "(pyfloat \<Rightarrow> string) \<Rightarrow> on_disk \<Rightarrow> on_disk \<Rightarrow> string \<Rightarrow> falling \<Rightarrow> place_error + (falls \<times> on_disk)" where
  "points repr was now said to =
     (let frm = reads was said in
      if frm = [] then Inl (NotAPlace said)
      else (case steps_on was frm [] (falling_to to) of
              Inl e \<Rightarrow> Inl e
            | Inr on \<Rightarrow>
                let step = (tried was frm)\<lparr>f_spec := frm, f_to := on\<rparr> in
                case keeps repr step now of Inl e \<Rightarrow> Inl (Unwritable e) | Inr disk \<Rightarrow> Inr (step, disk)))"

definition retrying ::
    "(pyfloat \<Rightarrow> string) \<Rightarrow> on_disk \<Rightarrow> on_disk \<Rightarrow> string \<Rightarrow> int \<Rightarrow> string \<Rightarrow> pyfloat \<Rightarrow> place_error + (falls \<times> on_disk)" where
  "retrying repr was now said tries policy timeout =
     (let frm = reads was said in
      if frm = [] then Inl (NotAPlace said)
      else if policy \<notin> set POLICIES then Inl (NotAPolicy policy)
      else if tries < 0 then Inl NotACount
      else if float_of_int tries = None then Inl TooLarge
      else if \<not> is_finite timeout \<or> f_lt timeout (Fin 0) then Inl NotACount
      else let step = (tried was frm)\<lparr>f_spec := frm, f_tries := tries, f_policy := policy, f_timeout := timeout\<rparr> in
           case keeps repr step now of Inl e \<Rightarrow> Inl (Unwritable e) | Inr disk \<Rightarrow> Inr (step, disk))"

definition clear ::
    "(pyfloat \<Rightarrow> string) \<Rightarrow> on_disk \<Rightarrow> on_disk \<Rightarrow> string \<Rightarrow> settings_error + (bool \<times> on_disk)" where
  "clear repr was now said =
     (let frm = reads was said in
      if frm = [] \<or> (\<forall>one\<in>set (all_falls was). f_spec one \<noteq> frm) then Inr (False, now)
      else (case changes (\<lambda>held. dict_put HELD
                   (written_falls repr (filter (\<lambda>one. f_spec one \<noteq> frm) (read_falls now (get_or_none held HELD)))) held) now of
              Inl e \<Rightarrow> Inl e
            | Inr disk \<Rightarrow> Inr (\<exists>one\<in>set (read_falls now (get_or_none (read_settings now) HELD)). f_spec one = frm, disk)))"

section \<open>Waiting\<close>

fun fib_loop :: "nat \<Rightarrow> int \<Rightarrow> int \<Rightarrow> int" where
  "fib_loop 0 prev held = held"
| "fib_loop (Suc n) prev held = fib_loop n held (prev + held)"

definition fibonacci :: "nat \<Rightarrow> int" where
  "fibonacci over = fib_loop (over - 1) 0 1"

text \<open>\<open>drawn\<close> is what \<open>random.uniform\<close> draws, as the share of the way to its upper end.\<close>

definition waits :: "rat \<Rightarrow> string \<Rightarrow> nat \<Rightarrow> rat \<Rightarrow> rat" where
  "waits drawn policy attempt base =
     (let over = attempt - 1 in
      if over = 0 then 0
      else let over = min over CLIMBED in
        if policy = ''none'' then 0
        else min (if policy = ''constant'' then base
                  else if policy = ''linear'' then base * of_nat over
                  else if policy = ''fibonacci'' then base * of_int (fibonacci over)
                  else if policy = ''exponential'' then base * 2 ^ (over - 1)
                  else drawn * (base * 2 ^ (over - 1))) CEILING)"

section \<open>A place read is read as itself\<close>

lemma strip_ends:
  assumes "py_strip s \<noteq> []"
  shows "\<not> is_space (hd (py_strip s)) \<and> \<not> is_space (last (py_strip s))"
proof -
  have last: "s' \<noteq> [] \<Longrightarrow> py_rstrip s' \<noteq> [] \<Longrightarrow> \<not> is_space (last (py_rstrip s'))" for s'
    using hd_dropWhile [of is_space "rev s'"] by (auto simp: py_rstrip_def last_rev)
  define u where "u = py_lstrip s"
  have u: "u \<noteq> []" using assms by (auto simp: u_def py_strip_def py_rstrip_def)
  then have hd: "\<not> is_space (hd u)" unfolding u_def py_lstrip_def by (metis hd_dropWhile)
  have "\<exists>v. u = py_rstrip u @ v"
    unfolding py_rstrip_def by (metis rev_append rev_rev_ident takeWhile_dropWhile_id)
  then obtain v where "u = py_rstrip u @ v" by blast
  moreover have "py_rstrip u \<noteq> []" using assms by (simp add: py_strip_def u_def)
  ultimately have "hd (py_rstrip u) = hd u" by (metis hd_append2)
  with hd last [OF u] assms show ?thesis by (simp add: py_strip_def u_def [symmetric])
qed

lemma strip_strip [simp]: "py_strip (py_strip s) = py_strip s"
  using strip_ends [of s] strip_clean [of "py_strip s"] by (cases "py_strip s = []") auto

lemma PROFILES_named:
  "p \<in> set PROFILES \<Longrightarrow> first_of (\<lambda>one. pname p \<in> set (aliases one)) PROFILES = Some p"
proof -
  have "list_all (\<lambda>p. first_of (\<lambda>one. pname p \<in> set (aliases one)) PROFILES = Some p) PROFILES"
    by code_simp
  then show "p \<in> set PROFILES \<Longrightarrow> ?thesis" by (simp add: list_all_iff)
qed

lemma PROFILES_clean:
  "p \<in> set PROFILES \<Longrightarrow> CHR ''/'' \<notin> set (pname p) \<and> CHR ''@'' \<notin> set (pname p) \<and> pname p \<noteq> [] \<and>
     \<not> is_space (hd (pname p)) \<and> \<not> is_space (last (pname p))"
proof -
  have "list_all (\<lambda>p. CHR ''/'' \<notin> set (pname p) \<and> CHR ''@'' \<notin> set (pname p) \<and> pname p \<noteq> [] \<and>
     \<not> is_space (hd (pname p)) \<and> \<not> is_space (last (pname p))) PROFILES"
    by code_simp
  then show "p \<in> set PROFILES \<Longrightarrow> ?thesis" unfolding list_all_iff by blast
qed

lemma set_strip: "set (py_strip s) \<subseteq> set s"
proof
  fix c assume "c \<in> set (py_strip s)"
  then have "c \<in> set (py_lstrip s)" unfolding py_strip_def py_rstrip_def by (auto dest: set_dropWhileD)
  then show "c \<in> set s" unfolding py_lstrip_def by (rule set_dropWhileD)
qed

lemma named_found:
  assumes "named disk b = Some p"
  shows "p \<in> set PROFILES \<or> p = speaks b"
  using first_of_SomeD [OF assms [unfolded named_def]] by (auto simp: profiles_def speaks_def)

lemma named_named:
  assumes "named disk b = Some p"
  shows "named disk (pname p) = Some p"
proof (cases "p \<in> set PROFILES")
  case True
  then show ?thesis by (intro named_built_in PROFILES_named)
next
  case False
  with named_found [OF assms] have "p = speaks b" by simp
  with assms show ?thesis by (simp add: speaks_def)
qed

lemma named_clean:
  assumes "named disk (py_strip b) = Some p" and "CHR ''/'' \<notin> set b" and "CHR ''@'' \<notin> set b"
  shows "CHR ''/'' \<notin> set (pname p) \<and> CHR ''@'' \<notin> set (pname p) \<and> py_strip (pname p) = pname p"
proof (cases "p \<in> set PROFILES")
  case True
  with PROFILES_clean show ?thesis by (metis strip_clean)
next
  case False
  with named_found [OF assms(1)] have p: "pname p = py_strip b" by (simp add: speaks_def)
  with assms(2,3) set_strip [of b] show ?thesis by auto
qed

lemma strip_spec:
  assumes "py_strip name = name" and "py_strip model = model" and "model \<noteq> []"
  shows "py_strip (spec name model account) = spec name model account"
proof -
  have model: "\<not> is_space (last model)" using strip_ends [of model] assms(2,3) by simp
  have last: "\<not> is_space (last (spec name model account))" using model assms(3) by (simp add: spec_def)
  have "\<not> is_space (hd (spec name model account))"
  proof (cases "name = []")
    case True
    then show ?thesis by (cases "account = []") (simp_all add: spec_def is_space_def)
  next
    case False
    with strip_ends [of name] assms(1) show ?thesis by (simp add: spec_def)
  qed
  with last show ?thesis by (intro strip_clean) (auto simp: spec_def)
qed

lemma reads_parts:
  assumes "reads disk said = s" and "s \<noteq> []"
  shows "reads disk s = s \<and> (\<exists>p model account.
           py_partition CHR ''/'' s = (pname p @ (if account \<noteq> [] then ''@'' @ account else []), True, model) \<and>
           py_partition CHR ''@'' (pname p @ (if account \<noteq> [] then ''@'' @ account else [])) = (pname p, account \<noteq> [], account) \<and>
           named disk (pname p) = Some p \<and> s = spec (pname p) model account)"
proof -
  obtain front slash model where p1: "py_partition CHR ''/'' (py_strip said) = (front, slash, model)"
    by (cases "py_partition CHR ''/'' (py_strip said)")
  obtain b sep account where p2: "py_partition CHR ''@'' front = (b, sep, account)"
    by (cases "py_partition CHR ''@'' front")
  from assms p1 p2 obtain p where p: "slash" "\<not> (sep \<and> py_strip account = [])" "named disk (py_strip b) = Some p"
    "py_strip model \<noteq> []" "s = spec (pname p) (py_strip model) (py_strip account)"
    by (auto simp: reads_def split: if_splits option.splits)
  have front: "CHR ''/'' \<notin> set front" using py_partition_parts [OF p1] by simp
  have b: "CHR ''/'' \<notin> set b" "CHR ''@'' \<notin> set b"
    using py_partition_parts [OF p2] front by (auto split: if_splits)
  have "set account \<subseteq> set front"
  proof
    fix c assume "c \<in> set account"
    with p2 have "c \<in> set (tl (dropWhile (\<lambda>x. x \<noteq> CHR ''@'') front))" by (simp add: py_partition_def)
    then show "c \<in> set front" by (metis list.sel(2) list.set_sel(2) set_dropWhileD)
  qed
  then have account: "CHR ''/'' \<notin> set account" using front by blast
  note clean = named_clean [OF p(3) b]
  let ?acc = "py_strip account" and ?m = "py_strip model" and ?n = "pname p"
  have sub: "set ?acc \<subseteq> set account" by (rule set_strip)
  have strip: "py_strip s = s" unfolding p(5) using clean p(4) by (intro strip_spec) simp_all
  let ?front = "?n @ (if ?acc \<noteq> [] then ''@'' @ ?acc else [])"
  have "CHR ''/'' \<notin> set ?front" using clean account sub by auto
  then have part: "py_partition CHR ''/'' s = (?front, True, ?m)"
    unfolding p(5) spec_def using py_partition_found [of "CHR ''/''" ?front ?m] by simp
  have part2: "py_partition CHR ''@'' ?front = (?n, ?acc \<noteq> [], ?acc)"
    using clean py_partition_found [of "CHR ''@''" ?n ?acc] py_partition_absent [of "CHR ''@''" ?n] by simp
  have "reads disk s = s"
    using p(4) clean named_named [OF p(3)] unfolding reads_def strip part prod.case part2
    by (simp add: p(5))
  with part part2 named_named [OF p(3)] p(5) show ?thesis by blast
qed

lemma reads_reads: "reads disk said = s \<Longrightarrow> s \<noteq> [] \<Longrightarrow> reads disk s = s"
  using reads_parts by blast

section \<open>What is read and what is written\<close>

definition onward_ok :: "on_disk \<Rightarrow> string \<Rightarrow> string \<Rightarrow> bool" where
  "onward_ok disk said p \<longleftrightarrow> p \<noteq> [] \<and> reads disk p = p \<and> p \<noteq> said"

definition step_ok :: "on_disk \<Rightarrow> falls \<Rightarrow> bool" where
  "step_ok disk f \<longleftrightarrow>
     f_spec f \<noteq> [] \<and> reads disk (f_spec f) = f_spec f \<and>
     (\<forall>p\<in>set (f_to f). onward_ok disk (f_spec f) p) \<and> distinct (f_to f) \<and>
     0 \<le> f_tries f \<and> is_finite (f_timeout f) \<and> f_le (Fin 0) (f_timeout f) \<and> f_policy f \<noteq> []"

definition steps_ok :: "on_disk \<Rightarrow> falls list \<Rightarrow> bool" where
  "steps_ok disk fs \<longleftrightarrow> distinct (map f_spec fs) \<and> (\<forall>f\<in>set fs. step_ok disk f \<and> says f)"

text \<open>A text is of a float, if of anything: no float is spelled with nothing.\<close>

fun spelled :: "pyval \<Rightarrow> bool" where
  "spelled (VFloat x t) = (t \<noteq> [])"
| "spelled (VList xs) = (\<forall>x\<in>set xs. spelled x)"
| "spelled (VDict m) = (\<forall>kv\<in>set m. spelled (snd kv))"
| "spelled v = True"

lemma spelled_text: "spelled v \<Longrightarrow> truthy v \<Longrightarrow> py_str v \<noteq> []"
  by (cases v) (auto simp: py_str_def show_int_def)

lemma spelled_item: "spelled (VDict m) \<Longrightarrow> spelled (get_or_none m k)"
  by (force simp: get_or_none_def dest: dict_get_in_set split: option.splits)

definition onward_of :: "on_disk \<Rightarrow> pyval \<Rightarrow> string" where
  "onward_of disk one = (case one of VStr s \<Rightarrow> reads disk s | _ \<Rightarrow> [])"

definition add_onward :: "on_disk \<Rightarrow> string \<Rightarrow> pyval \<Rightarrow> string list \<Rightarrow> string list" where
  "add_onward disk said one found =
     (let place = onward_of disk one
      in if place \<noteq> [] \<and> place \<noteq> said \<and> place \<notin> set found then found @ [place] else found)"

lemma onwards_fold: "onwards disk said to = fold (add_onward disk said) (case to of VList xs \<Rightarrow> xs | _ \<Rightarrow> []) []"
  unfolding onwards_def by (rule arg_cong [where f = "\<lambda>g. fold g _ []"]) (simp add: fun_eq_iff add_onward_def onward_of_def)

lemma onward_reads:
  assumes "onward_of disk x \<noteq> []"
  shows "reads disk (onward_of disk x) = onward_of disk x"
proof -
  obtain s where "x = VStr s" using assms by (cases x) (simp_all add: onward_of_def)
  then have "reads disk s = onward_of disk x" by (simp add: onward_of_def)
  then show ?thesis using assms by (rule reads_reads)
qed

lemma add_onward_ok:
  assumes "distinct found" and "\<forall>p\<in>set found. onward_ok disk said p"
  shows "distinct (add_onward disk said x found) \<and> (\<forall>p\<in>set (add_onward disk said x found). onward_ok disk said p)"
proof (cases "onward_of disk x \<noteq> [] \<and> onward_of disk x \<noteq> said \<and> onward_of disk x \<notin> set found")
  case True
  then have "onward_ok disk said (onward_of disk x)" by (simp add: onward_ok_def onward_reads)
  with True assms show ?thesis by (simp add: add_onward_def Let_def)
next
  case False
  then have "add_onward disk said x found = found" unfolding add_onward_def Let_def by (simp only: if_False)
  with assms show ?thesis by simp
qed

lemma onwards_ok:
  "distinct (onwards disk said v) \<and> (\<forall>p\<in>set (onwards disk said v). onward_ok disk said p)"
proof -
  have "distinct (fold (add_onward disk said) xs found) \<and> (\<forall>p\<in>set (fold (add_onward disk said) xs found). onward_ok disk said p)"
    if "distinct found" "\<forall>p\<in>set found. onward_ok disk said p" for xs found
    using that
  proof (induction xs arbitrary: found)
    case (Cons x xs)
    from add_onward_ok [OF Cons.prems, of x] Cons.IH [of "add_onward disk said x found"] show ?case by simp
  qed simp
  from this [of "[]"] show ?thesis unfolding onwards_fold by simp
qed

lemma onwards_written:
  assumes "step_ok disk f"
  shows "onwards disk (f_spec f) (VList (map VStr (f_to f))) = f_to f"
proof -
  have "fold (add_onward disk said) (map VStr to) found = found @ to"
    if "distinct (found @ to)" "\<forall>p\<in>set to. onward_ok disk said p" for said to found
    using that
  proof (induction to arbitrary: found)
    case (Cons p to)
    then have "add_onward disk said (VStr p) found = found @ [p]"
      by (simp add: add_onward_def onward_of_def onward_ok_def)
    with Cons show ?case by simp
  qed simp
  from this [of "[]"] assms show ?thesis unfolding onwards_fold step_ok_def by simp
qed

lemma seconds_ok: "is_finite (seconds_of v) \<and> f_le (Fin 0) (seconds_of v)"
proof (cases "py_float v")
  case (Some x)
  then show ?thesis by (cases x) (auto simp: seconds_of_def f_max_def)
qed (simp add: seconds_of_def)

lemma row_of_ok:
  assumes "row_of disk seen v = Some f" and "spelled v"
  shows "step_ok disk f \<and> says f \<and> f_spec f \<notin> set seen"
proof -
  obtain row where v: "v = VDict row" using assms(1) by (cases v) (auto simp: row_of_def)
  have "py_str (or_else (get_or_none row ''policy'') (VStr DEFAULT)) \<noteq> []"
    using spelled_text [of "get_or_none row ''policy''"] spelled_item [of row "''policy''"] assms(2) v
    by (auto simp: or_else_def DEFAULT_def)
  moreover have f: "f_spec f \<noteq> []" "f_spec f \<notin> set seen" "says f"
      "f_spec f = reads disk (py_str (or_else (get_or_none row ''spec'') (VStr [])))"
      "f_to f = onwards disk (f_spec f) (get_or_none row ''to'')" "f_tries f = counted_of (get_or_none row ''tries'')"
      "f_policy f = py_str (or_else (get_or_none row ''policy'') (VStr DEFAULT))"
      "f_timeout f = seconds_of (get_or_none row ''timeout'')"
    using assms(1) v by (auto simp: row_of_def Let_def split: if_splits)
  moreover have "reads disk (f_spec f) = f_spec f" using f(1,4) by (intro reads_reads) simp_all
  moreover have "0 \<le> counted_of w" for w by (simp add: counted_of_def split: option.splits)
  ultimately show ?thesis
    using onwards_ok [of disk "f_spec f" "get_or_none row ''to''"] seconds_ok [of "get_or_none row ''timeout''"]
    by (simp add: step_ok_def)
qed

lemma row_of_written:
  assumes "step_ok disk f" and "says f" and "f_spec f \<notin> set seen"
  shows "row_of disk seen (written_step repr f) = Some f"
proof -
  have spec: "f_spec f \<noteq> []" "reads disk (f_spec f) = f_spec f" using assms(1) by (simp_all add: step_ok_def)
  have secs: "seconds_of (VFloat (f_timeout f) (repr (f_timeout f))) = f_timeout f"
    using assms(1) by (cases "f_timeout f") (auto simp: seconds_of_def step_ok_def f_max_def)
  have policy: "py_str (or_else (VStr (f_policy f)) (VStr DEFAULT)) = f_policy f"
    using assms(1) by (simp add: or_else_def step_ok_def)
  have count: "counted_of (VInt (f_tries f)) = f_tries f" using assms(1) by (simp add: counted_of_def step_ok_def)
  have "py_str (or_else (VStr (f_spec f)) (VStr [])) = f_spec f" using spec by (simp add: or_else_def)
  with assms spec secs policy count onwards_written [OF assms(1)] show ?thesis
    by (cases f) (simp add: row_of_def written_step_def get_or_none_def Let_def)
qed

definition add_row :: "on_disk \<Rightarrow> pyval \<Rightarrow> falls list \<Rightarrow> falls list" where
  "add_row disk one found =
     (case row_of disk (map f_spec found) one of None \<Rightarrow> found | Some step \<Rightarrow> found @ [step])"

lemma read_falls_fold: "read_falls disk held = fold (add_row disk) (case held of VList xs \<Rightarrow> xs | _ \<Rightarrow> []) []"
  unfolding read_falls_def by (rule arg_cong [where f = "\<lambda>g. fold g _ []"]) (simp add: fun_eq_iff add_row_def)

lemma read_falls_ok:
  assumes "spelled held"
  shows "steps_ok disk (read_falls disk held)"
proof -
  have "steps_ok disk (fold (add_row disk) xs found)" if "\<forall>x\<in>set xs. spelled x" "steps_ok disk found" for xs found
    using that
  proof (induction xs arbitrary: found)
    case (Cons x xs)
    have "steps_ok disk (add_row disk x found)"
      using Cons.prems row_of_ok [of disk "map f_spec found" x]
      by (auto simp: add_row_def steps_ok_def split: option.splits)
    with Cons show ?case by simp
  qed simp
  from this [of "case held of VList xs \<Rightarrow> xs | _ \<Rightarrow> []" "[]"] show ?thesis
    using assms unfolding read_falls_fold by (cases held) (auto simp: steps_ok_def)
qed

lemma read_written_falls:
  assumes "steps_ok disk fs"
  shows "read_falls disk (written_falls repr fs) = fs"
proof -
  have "fold (add_row disk) (map (written_step repr) fs) found = found @ fs"
    if "distinct (map f_spec (found @ fs))" "\<forall>f\<in>set fs. step_ok disk f \<and> says f" for found
    using that
  proof (induction fs arbitrary: found)
    case (Cons f fs)
    have "row_of disk (map f_spec found) (written_step repr f) = Some f"
      using Cons.prems by (intro row_of_written) auto
    then have "add_row disk (written_step repr f) found = found @ [f]" by (simp add: add_row_def)
    with Cons show ?case by simp
  qed simp
  from this [of "[]"] assms show ?thesis
    unfolding read_falls_fold written_falls_def by (simp add: steps_ok_def)
qed

text \<open>Reading depends on the CLIs somebody added, which a change of the steps leaves alone.\<close>

lemma reads_same:
  assumes "get_or_none (read_settings d) SPOKEN = get_or_none (read_settings d') SPOKEN"
  shows "reads d = reads d'"
proof -
  have "named d = named d'" using assms by (simp add: fun_eq_iff named_def profiles_def speaking_def)
  then show ?thesis unfolding reads_def [abs_def] by (simp only:)
qed

lemma steps_same: "reads d = reads d' \<Longrightarrow> read_falls d = read_falls d' \<and> steps_ok d = steps_ok d'"
proof -
  assume r: "reads d = reads d'"
  then have "onwards d = onwards d'" unfolding onwards_def [abs_def] by (simp only:)
  with r have "row_of d = row_of d'" unfolding row_of_def [abs_def] by (simp only:)
  moreover have "step_ok d = step_ok d'" using r unfolding step_ok_def [abs_def] onward_ok_def [abs_def] by (simp only:)
  ultimately show ?thesis unfolding read_falls_def [abs_def] steps_ok_def [abs_def] by (simp only:)
qed

lemma kept_steps_ok:
  assumes "steps_ok disk fs" and "step_ok disk step"
  shows "steps_ok disk (kept_steps step fs)"
  using assms by (auto simp: steps_ok_def kept_steps_def distinct_map_filter)

lemma changed_falls:
  assumes "changes (\<lambda>held. dict_put HELD (written_falls repr (g (read_falls now (get_or_none held HELD)))) held) now = Inr disk"
    and "spelled (VDict (read_settings now))" and "\<And>fs. steps_ok now fs \<Longrightarrow> steps_ok now (g fs)"
  shows "reads disk = reads now \<and> all_falls disk = g (all_falls now)"
proof -
  obtain held where held: "reading now = Some held"
    "disk = Yaml (VDict (dict_put HELD (written_falls repr (g (read_falls now (get_or_none held HELD)))) held))"
    using assms(1) by (auto simp: changes_Inr_iff)
  have now: "read_settings now = held" using held(1) by (simp add: read_settings_def)
  have "HELD \<noteq> SPOKEN" by (simp add: HELD_def SPOKEN_def)
  then have reads: "reads disk = reads now" using now by (intro reads_same) (simp add: held(2))
  have "steps_ok now (g (all_falls now))"
    unfolding all_falls_def by (intro assms(3) read_falls_ok spelled_item assms(2))
  with reads steps_same [OF reads] have "read_falls disk (written_falls repr (g (all_falls now))) = g (all_falls now)"
    by (metis read_written_falls)
  with reads show ?thesis by (simp add: all_falls_def held(2) now)
qed

lemma keeps_falls:
  assumes "keeps repr step now = Inr disk" and "spelled (VDict (read_settings now))" and "step_ok now step"
  shows "reads disk = reads now \<and> all_falls disk = kept_steps step (all_falls now)"
  using changed_falls [OF assms(1) [unfolded keeps_def] assms(2)] kept_steps_ok assms(3) by blast

section \<open>Looking a place up after a change\<close>

definition row_at :: "falls list \<Rightarrow> string \<Rightarrow> falls" where
  "row_at fs q = (case first_of (\<lambda>one. f_spec one = q) fs of Some one \<Rightarrow> one | None \<Rightarrow> falls_of q)"

lemma tried_row: "tried disk said = row_at (all_falls disk) (place_of disk said)"
  by (simp add: tried_def row_at_def)

lemma first_of_filter:
  "first_of (\<lambda>one. f_spec one = q) (filter (\<lambda>one. f_spec one \<noteq> s) fs) =
   (if q = s then None else first_of (\<lambda>one. f_spec one = q) fs)"
  by (induction fs) auto

lemma first_of_snoc:
  "first_of P (fs @ [x]) = (case first_of P fs of None \<Rightarrow> (if P x then Some x else None) | Some y \<Rightarrow> Some y)"
  by (induction fs) auto

lemma row_at_kept:
  "row_at (kept_steps step fs) q =
   (if q = f_spec step then (if says step then step else falls_of q) else row_at fs q)"
  by (simp add: row_at_def kept_steps_def first_of_snoc first_of_filter split: option.splits)

lemma row_at_cleared:
  "row_at (filter (\<lambda>one. f_spec one \<noteq> s) fs) q = (if q = s then falls_of q else row_at fs q)"
  by (simp add: row_at_def first_of_filter)

lemma place_same: "reads d = reads d' \<Longrightarrow> place_of d = place_of d'"
  by (simp add: fun_eq_iff place_of_def)

lemma keeps_rows:
  assumes "keeps repr step now = Inr disk" and "spelled (VDict (read_settings now))" and "step_ok now step"
  shows "tried disk said = (if place_of now said = f_spec step then (if says step then step else falls_of (f_spec step))
                            else tried now said)"
  using keeps_falls [OF assms] place_same [of disk now] by (simp add: tried_row row_at_kept)

lemma row_at_ok:
  assumes "steps_ok disk fs" and "reads disk q = q" and "q \<noteq> []"
  shows "step_ok disk (row_at fs q) \<and> f_spec (row_at fs q) = q"
proof (cases "first_of (\<lambda>one. f_spec one = q) fs")
  case None
  with assms(2,3) show ?thesis by (simp add: row_at_def falls_of_def step_ok_def DEFAULT_def)
next
  case (Some f)
  with first_of_SomeD [OF Some] assms(1) show ?thesis by (simp add: row_at_def steps_ok_def)
qed

lemma tried_ok:
  assumes "spelled (VDict (read_settings disk))" and "reads disk q = q" and "q \<noteq> []"
  shows "step_ok disk (tried disk q) \<and> f_spec (tried disk q) = q"
  using assms read_falls_ok [OF spelled_item [OF assms(1)], of disk HELD]
  by (simp add: tried_row place_of_def all_falls_def row_at_ok)

lemma steps_on_ok:
  "steps_on disk frm found to = Inr on \<Longrightarrow> distinct found \<Longrightarrow> \<forall>p\<in>set found. onward_ok disk frm p \<Longrightarrow>
   distinct on \<and> (\<forall>p\<in>set on. onward_ok disk frm p) \<and> on = found @ map (reads disk) to"
proof (induction disk frm found to arbitrary: on rule: steps_on.induct)
  case (2 disk frm found p ps)
  let ?one = "reads disk p"
  from 2(2) have one: "?one \<noteq> []" "?one \<noteq> frm" "?one \<notin> set found" "steps_on disk frm (found @ [?one]) ps = Inr on"
    by (auto simp: Let_def split: if_splits)
  have "reads disk ?one = ?one" by (rule reads_reads [OF refl one(1)])
  then have "onward_ok disk frm ?one" using one by (simp add: onward_ok_def)
  then have "distinct on \<and> (\<forall>q\<in>set on. onward_ok disk frm q) \<and> on = (found @ [?one]) @ map (reads disk) ps"
    using one 2(3,4) by (intro 2(1) [OF refl]) auto
  moreover have "(found @ [?one]) @ map (reads disk) ps = found @ map (reads disk) (p # ps)" by simp
  ultimately show ?case by metis
qed simp

text \<open>The step \<open>points\<close> writes, and the one \<open>retrying\<close> does.\<close>

lemma points_step:
  assumes "points repr was now said to = Inr (step, disk)" and "spelled (VDict (read_settings was))"
  shows "keeps repr step now = Inr disk \<and> step_ok was step \<and> f_spec step = reads was said \<and>
         step = (tried was said)\<lparr>f_to := map (reads was) (falling_to to)\<rparr>"
proof -
  define frm where "frm = reads was said"
  obtain on where on: "frm \<noteq> []" "steps_on was frm [] (falling_to to) = Inr on"
    "step = (tried was frm)\<lparr>f_spec := frm, f_to := on\<rparr>" "keeps repr step now = Inr disk"
    using assms(1) by (auto simp: points_def frm_def [symmetric] Let_def split: if_splits sum.splits)
  have frm: "reads was frm = frm" using on(1) by (intro reads_reads [of was said]) (simp_all add: frm_def)
  from tried_ok [OF assms(2) frm on(1)] have t: "step_ok was (tried was frm)" "f_spec (tried was frm) = frm" by simp_all
  have place: "place_of was said = place_of was frm"
    unfolding place_of_def frm using on(1) by (simp add: frm_def [symmetric] Let_def)
  then have same: "tried was said = tried was frm" by (simp add: tried_row)
  have so: "distinct on \<and> (\<forall>p\<in>set on. onward_ok was frm p) \<and> on = [] @ map (reads was) (falling_to to)"
    by (rule steps_on_ok [OF on(2)]) simp_all
  have "step_ok was step"
    unfolding on(3) using t so [THEN conjunct1] so [THEN conjunct2, THEN conjunct1] frm on(1) by (simp add: step_ok_def)
  moreover have "step = (tried was said)\<lparr>f_to := map (reads was) (falling_to to)\<rparr>"
    unfolding on(3) same using t(2) so by (cases "tried was frm") simp
  moreover have "f_spec step = frm" by (simp add: on(3))
  ultimately show ?thesis using on(4) by (simp add: frm_def)
qed

lemma retrying_step:
  assumes "retrying repr was now said tries policy timeout = Inr (step, disk)" and "spelled (VDict (read_settings was))"
  shows "keeps repr step now = Inr disk \<and> step_ok was step \<and> f_spec step = reads was said \<and>
         step = (tried was said)\<lparr>f_tries := tries, f_policy := policy, f_timeout := timeout\<rparr>"
proof -
  define frm where "frm = reads was said"
  have on: "frm \<noteq> []" "policy \<in> set POLICIES" "0 \<le> tries" "is_finite timeout" "\<not> f_lt timeout (Fin 0)"
    "step = (tried was frm)\<lparr>f_spec := frm, f_tries := tries, f_policy := policy, f_timeout := timeout\<rparr>"
    "keeps repr step now = Inr disk"
    using assms(1) by (auto simp: retrying_def frm_def [symmetric] Let_def split: if_splits sum.splits)
  have frm: "reads was frm = frm" using on(1) by (intro reads_reads [of was said]) (simp_all add: frm_def)
  from tried_ok [OF assms(2) frm on(1)] have t: "step_ok was (tried was frm)" "f_spec (tried was frm) = frm" by simp_all
  have place: "place_of was said = place_of was frm"
    unfolding place_of_def frm using on(1) by (simp add: frm_def [symmetric] Let_def)
  then have same: "tried was said = tried was frm" by (simp add: tried_row)
  have "policy \<noteq> []" using on(2) by (auto simp: POLICIES_def)
  moreover have "f_le (Fin 0) timeout" using on(4,5) by (cases timeout) auto
  ultimately have "step_ok was step" unfolding on(6) using t frm on(1,3,4) by (simp add: step_ok_def)
  moreover have "step = (tried was said)\<lparr>f_tries := tries, f_policy := policy, f_timeout := timeout\<rparr>"
    unfolding on(6) same using t(2) by (cases "tried was frm") simp
  moreover have "f_spec step = frm" by (simp add: on(6))
  ultimately show ?thesis using on(7) by (simp add: frm_def)
qed

section \<open>How long is waited\<close>

lemma fib_loop_pos: "0 \<le> a \<Longrightarrow> 0 \<le> b \<Longrightarrow> 0 \<le> fib_loop n a b"
  by (induction n a b rule: fib_loop.induct) auto

lemma fib_loop_mono: "0 \<le> a \<Longrightarrow> 0 \<le> b \<Longrightarrow> n \<le> m \<Longrightarrow> a \<le> b \<Longrightarrow> fib_loop n a b \<le> fib_loop m a b"
proof (induction n a b arbitrary: m rule: fib_loop.induct)
  case (1 a b)
  have "b \<le> fib_loop m a b" using 1 by (induction m a b rule: fib_loop.induct) force+
  then show ?case by simp
next
  case (2 n a b)
  then obtain k where "m = Suc k" by (cases m) auto
  with 2 show ?case by simp
qed

lemma fibonacci_simps: "fibonacci 1 = 1" "fibonacci 2 = 1" "fibonacci (n + 3) = fibonacci (n + 2) + fibonacci (n + 1)"
proof -
  have step: "fib_loop (Suc (Suc n)) a b = fib_loop (Suc n) a b + fib_loop n a b" for n a b
    by (induction n a b rule: fib_loop.induct) auto
  show "fibonacci 1 = 1" "fibonacci 2 = 1" by (simp_all add: fibonacci_def numeral_2_eq_2)
  show "fibonacci (n + 3) = fibonacci (n + 2) + fibonacci (n + 1)"
    using step [of n 0 1] by (simp add: fibonacci_def numeral_3_eq_3)
qed

lemma waits_range:
  assumes "0 \<le> drawn" and "0 \<le> base"
  shows "0 \<le> waits drawn policy attempt base \<and> waits drawn policy attempt base \<le> CEILING"
proof -
  have "0 \<le> fibonacci n" for n by (simp add: fibonacci_def fib_loop_pos)
  with assms show ?thesis by (simp add: waits_def Let_def CEILING_def)
qed

text \<open>The wait before a try, worked out without the climb held back.\<close>

definition backoff :: "rat \<Rightarrow> string \<Rightarrow> nat \<Rightarrow> rat" where
  "backoff drawn policy over =
     (if policy = ''none'' then 0
      else if policy = ''constant'' then BASE
      else if policy = ''linear'' then BASE * of_nat over
      else if policy = ''fibonacci'' then BASE * of_int (fibonacci over)
      else if policy = ''exponential'' then BASE * 2 ^ (over - 1)
      else drawn * (BASE * 2 ^ (over - 1)))"

lemma capped: "CEILING \<le> x \<Longrightarrow> x \<le> y \<Longrightarrow> min x CEILING = min (y :: rat) CEILING"
  by simp

lemma five_shapes:
  assumes "p1 \<or> p2 \<or> p3 \<or> p4 \<or> p5" and "min b c = min b' c" and "min d c = min d' c" and "min e c = min e' c"
  shows "(if p1 then z else min (if p2 then a else if p3 then b else if p4 then d else if p5 then e else f) c) =
         (if p1 then z else min (if p2 then a else if p3 then b' else if p4 then d' else if p5 then e' else f') (c :: rat))"
  using assms(1) by (cases p1; cases p2; cases p3; cases p4; cases p5)
    (simp_all only: if_True if_False assms(2,3,4) simp_thms)

lemma waits_uncut:
  assumes "policy = ''exponential-jitter'' \<longrightarrow> attempt \<le> CLIMBED + 1" and "policy \<in> set POLICIES" and "1 < attempt"
  shows "waits drawn policy attempt BASE = min (backoff drawn policy (attempt - 1)) CEILING"
proof (cases "attempt - 1 \<le> CLIMBED")
  case True
  then have "min (attempt - 1) CLIMBED = attempt - 1" by simp
  with assms(3) show ?thesis by (simp add: waits_def backoff_def Let_def CEILING_def)
next
  case False
  then have over: "min (attempt - 1) CLIMBED = CLIMBED" "CLIMBED \<le> attempt - 1" by simp_all
  have jitter: "policy \<noteq> ''exponential-jitter''" using False assms(1) by auto
  define n where "n = attempt - 1"
  have n: "64 \<le> n" using over(2) by (simp add: n_def CLIMBED_def)
  have linear: "min (BASE * of_nat 64) CEILING = min (BASE * of_nat n) CEILING"
    using n by (intro capped) (simp_all add: BASE_def CEILING_def)
  have fib: "min (BASE * of_int (fibonacci 64)) CEILING = min (BASE * of_int (fibonacci n)) CEILING"
  proof (rule capped)
    have "fibonacci 64 = 10610209857723" by code_simp
    then show "CEILING \<le> BASE * of_int (fibonacci 64)" by (simp add: BASE_def CEILING_def)
    have "fibonacci 64 \<le> fibonacci n" unfolding fibonacci_def using n by (intro fib_loop_mono) simp_all
    then show "BASE * of_int (fibonacci 64) \<le> BASE * of_int (fibonacci n)" by (simp add: BASE_def)
  qed
  have expo: "min (BASE * 2 ^ (64 - 1)) CEILING = min (BASE * 2 ^ (n - 1)) CEILING"
  proof (rule capped)
    show "CEILING \<le> BASE * 2 ^ (64 - 1)" by (simp add: BASE_def CEILING_def)
    have "(2 :: rat) ^ (64 - 1) \<le> 2 ^ (n - 1)" using n by (intro power_increasing) simp_all
    then show "BASE * 2 ^ (64 - 1) \<le> BASE * 2 ^ (n - 1)" by (simp only: BASE_def mult_1)
  qed
  have w: "waits drawn policy attempt BASE = (if policy = ''none'' then 0
        else min (if policy = ''constant'' then BASE else if policy = ''linear'' then BASE * of_nat 64
                  else if policy = ''fibonacci'' then BASE * of_int (fibonacci 64)
                  else if policy = ''exponential'' then BASE * 2 ^ (64 - 1)
                  else drawn * (BASE * 2 ^ (64 - 1))) CEILING)"
    unfolding waits_def Let_def over(1) using assms(3) by (simp only: CLIMBED_def) simp
  have b: "min (backoff drawn policy n) CEILING = (if policy = ''none'' then 0
        else min (if policy = ''constant'' then BASE else if policy = ''linear'' then BASE * of_nat n
                  else if policy = ''fibonacci'' then BASE * of_int (fibonacci n)
                  else if policy = ''exponential'' then BASE * 2 ^ (n - 1)
                  else drawn * (BASE * 2 ^ (n - 1))) CEILING)"
    by (simp add: backoff_def CEILING_def)
  have "policy = ''none'' \<or> policy = ''constant'' \<or> policy = ''linear'' \<or> policy = ''fibonacci'' \<or> policy = ''exponential''"
    using assms(2) jitter by (auto simp: POLICIES_def)
  then show ?thesis unfolding n_def [symmetric] w b by (rule five_shapes [OF _ linear fib expo])
qed

end
