(* ===== verification/Places.thy ===== *)
theory Places
  imports Fallbacks
begin

text \<open>
  What the settings' places come to: a step written down is the one in force from then on, and no other
  place's moves; a chain names each place once; a wait is the policy's climb held to the ceiling.
\<close>

section \<open>One step written, in force from then on\<close>

text \<open>
  Saying where a place falls back to (\<open>points\<close>) puts exactly that in force for it, keeping how often
  it is tried, and leaves what is said of every other place as it was; a step that says nothing any more
  is taken away, which is a place nobody said anything about.
\<close>

theorem points_settle:
  assumes "points repr disk disk said to = Inr (step, disk')" and "spelled (VDict (read_settings disk))"
  shows "step = (tried disk said)\<lparr>f_to := map (reads disk) (falling_to to)\<rparr> \<and>
         tried disk' q = (if place_of disk q \<noteq> reads disk said then tried disk q
                          else if says step then step else falls_of (reads disk said))"
  using points_step [OF assms] keeps_rows [of repr step disk disk' q] assms(2) by auto

text \<open>A machine where one step is written down already.\<close>

definition sample_disk :: on_disk where
  "sample_disk = Yaml (VDict [(''fallbacks'', VList [VDict
     [(''spec'', VStr ''codex@work/gpt''), (''to'', VList [VStr ''agy/pro'', VStr ''claude/opus'']), (''tries'', VInt 2)]])])"

theorem points_settle_witness:
  "case points (\<lambda>_. ''0.0'') sample_disk sample_disk ''claude/opus'' (OnePlace ''codex@work/gpt'') of
     Inl _ \<Rightarrow> False
   | Inr (step, disk') \<Rightarrow> f_to (tried disk' ''claude/opus'') = [''codex@work/gpt''] \<and>
                         f_to (tried disk' ''codex@work/gpt'') = [''agy/pro'', ''claude/opus'']"
proof -
  have places: "place_of sample_disk ''claude/opus'' = ''claude/opus''" "reads sample_disk ''claude/opus'' = ''claude/opus''"
    "place_of sample_disk ''codex@work/gpt'' = ''codex@work/gpt''" "reads sample_disk ''codex@work/gpt'' = ''codex@work/gpt''"
    "f_to (tried sample_disk ''codex@work/gpt'') = [''agy/pro'', ''claude/opus'']"
    by code_simp+
  have ok: "spelled (VDict (read_settings sample_disk))" by code_simp
  have "case points (\<lambda>_. ''0.0'') sample_disk sample_disk ''claude/opus'' (OnePlace ''codex@work/gpt'') of
          Inl _ \<Rightarrow> False | Inr _ \<Rightarrow> True" by code_simp
  then obtain step disk' where p: "points (\<lambda>_. ''0.0'') sample_disk sample_disk ''claude/opus'' (OnePlace ''codex@work/gpt'') = Inr (step, disk')"
    by (auto split: sum.splits)
  from points_settle [OF p ok, of "''claude/opus''"] points_settle [OF p ok, of "''codex@work/gpt''"]
  show ?thesis by (simp add: p places falling_to_def py_strip_def py_lstrip_def py_rstrip_def is_space_def says_def)
qed

section \<open>Chains\<close>

lemma chain_ok:
  assumes "spelled (VDict (read_settings disk))"
  shows "distinct (chain disk said) \<and> (\<forall>p\<in>set (tl (chain disk said)). p \<noteq> [] \<and> reads disk p = p)"
proof (cases "reads disk said = []")
  case True
  have none: "reads disk (py_strip said) = []" using True by (simp add: reads_def)
  have "first_of (\<lambda>one. f_spec one = py_strip said) (all_falls disk) = None"
  proof (cases "first_of (\<lambda>one. f_spec one = py_strip said) (all_falls disk)")
    case (Some f)
    then have "f \<in> set (all_falls disk)" "f_spec f = py_strip said" by (auto dest: first_of_SomeD)
    moreover have "steps_ok disk (all_falls disk)"
      unfolding all_falls_def by (intro read_falls_ok spelled_item assms)
    ultimately show ?thesis using none by (auto simp: steps_ok_def step_ok_def)
  qed
  with True none show ?thesis by (simp add: chain_def place_of_def tried_def falls_of_def)
next
  case False
  define p where "p = reads disk said"
  have p: "reads disk p = p" "p \<noteq> []" "place_of disk said = p" "place_of disk p = p"
    using False reads_reads [OF p_def [symmetric]] by (simp_all add: p_def place_of_def Let_def)
  from tried_ok [OF assms p(1,2)] have "step_ok disk (tried disk p)" "f_spec (tried disk p) = p" by simp_all
  then show ?thesis by (auto simp: chain_def p step_ok_def onward_ok_def)
qed

text \<open>
  C14. However the settings were edited, the chain a turn walks names no place twice and never the place
  it starts from again, and every place after the first is one a backend answers to, as it is spelled.
\<close>

theorem chain_never_comes_round:
  assumes "spelled (VDict (read_settings disk))"
  shows "distinct (chain disk said) \<and> (\<forall>p\<in>set (tl (chain disk said)). p \<noteq> [] \<and> reads disk p = p)"
  by (rule chain_ok [OF assms])

theorem chain_never_comes_round_witness:
  "distinct (chain sample_disk ''codex@work/gpt'') \<and>
   chain sample_disk '' codex@work/gpt '' = [''codex@work/gpt'', ''agy/pro'', ''claude/opus'']"
proof -
  have ok: "spelled (VDict (read_settings sample_disk))" by code_simp
  have "chain sample_disk '' codex@work/gpt '' = [''codex@work/gpt'', ''agy/pro'', ''claude/opus'']" by code_simp
  with chain_never_comes_round [OF ok, of "''codex@work/gpt''"] show ?thesis by blast
qed

section \<open>Waiting\<close>

text \<open>
  Before a try after the first, a policy waits what it climbs to -- a second each time, one longer each
  time, doubling, Fibonacci -- or a minute where that is more, though the climb itself is worked out no
  further than its sixty-fourth step; a wait is never negative and never longer than a minute.
\<close>

theorem waits_climb:
  assumes "policy \<in> set POLICIES" and "1 < attempt" and "0 \<le> drawn"
    and "policy = ''exponential-jitter'' \<longrightarrow> attempt \<le> CLIMBED + 1"
  shows "waits drawn policy attempt BASE = min (backoff drawn policy (attempt - 1)) CEILING \<and>
         0 \<le> waits drawn policy attempt BASE \<and> waits drawn policy attempt BASE \<le> CEILING"
proof -
  have "(0 :: rat) \<le> BASE" by (simp add: BASE_def)
  from waits_uncut [OF assms(4,1,2), of drawn] waits_range [OF assms(3) this, of policy attempt] show ?thesis by blast
qed

theorem waits_climb_witness:
  "waits 1 ''fibonacci'' 100 BASE = min (backoff 1 ''fibonacci'' 99) 60 \<and> waits 1 ''exponential'' 5 BASE = 8"
proof -
  have "''fibonacci'' \<in> set POLICIES" "''exponential'' \<in> set POLICIES" by (simp_all add: POLICIES_def)
  from waits_climb [OF this(1), of 100 1] waits_climb [OF this(2), of 5 1]
  show ?thesis by (simp add: CEILING_def backoff_def BASE_def)
qed

section \<open>Two writers at once\<close>

text \<open>
  \<open>points\<close> and \<open>retrying\<close> work a place's whole step out of what they read before the lock, so a
  retry policy written between that reading and the write is written over with the one before it.
\<close>

lemma concurrent_retrying_is_lost:
  assumes "retrying repr d d said tries policy timeout = Inr (other, now)" and "points repr d now said to = Inr (step, disk)"
    and "spelled (VDict (read_settings d))" and "spelled (VDict (read_settings now))" and "falling_to to \<noteq> []"
  shows "f_tries (tried disk said) = f_tries (tried d said)"
proof -
  from points_step [OF assms(2,3)] have step: "keeps repr step now = Inr disk" "step_ok d step" "f_spec step = reads d said"
    "step = (tried d said)\<lparr>f_to := map (reads d) (falling_to to)\<rparr>" by blast+
  from retrying_step [OF assms(1,3)] have "keeps repr other d = Inr now" "step_ok d other" by blast+
  from keeps_falls [OF this(1) assms(3) this(2)] have same: "reads now = reads d" by simp
  then have "step_ok now step" using step(2) steps_same by (simp add: step_ok_def onward_ok_def)
  moreover have "place_of now said = f_spec step"
    using step(2) unfolding place_same [OF same] step(3) place_of_def step_ok_def Let_def by (simp add: step(3))
  ultimately have "tried disk said = (if says step then step else falls_of (f_spec step))"
    using keeps_rows [OF step(1) assms(4)] by simp
  moreover have "says step" using assms(5) by (simp add: step(4) says_def)
  ultimately show ?thesis by (simp add: step(4))
qed

end
