(* ===== verification/Recovering.thy ===== *)
theory Recovering
  imports Places
begin

text \<open>
  How a turn is taken until it lands (\<open>SessionBase._falling_back\<close> and what it calls, in
  \<open>hmz.coganchor.agents.base\<close>): tried again at its place as often as the place and the kind of failure
  ask for, then taken at the next place of the chain by an agent that stands in. What the world does
  to one try -- what the CLI said, how it ended, what the clock and the dice read, who stopped or cut
  the turn meanwhile -- is a \<open>go\<close>; what it does between the tries at a place and the move, a \<open>hop\<close>.
\<close>

section \<open>Failures\<close>

text \<open>A \<open>CalledProcessError\<close>; \<open>fl_named\<close> where it is a \<open>Failed\<close>, which carries the kind.\<close>

record failure =
  fl_named :: bool
  fl_fault :: string
  fl_status :: int
  fl_argv :: "string list"
  fl_out :: string
  fl_err :: string

text \<open>What a spawn raised, with whether the path it names is a directory.\<close>

record gone =
  gn_filename :: "string option"
  gn_isdir :: bool
  gn_said :: string

definition NOTHING_TO_RUN :: int where
  "NOTHING_TO_RUN = 127"

definition nothing_ran :: "string \<Rightarrow> string \<Rightarrow> gone \<Rightarrow> failure" where
  "nothing_ran work backend gone =
     (let name = (case gn_filename gone of None \<Rightarrow> [] | Some s \<Rightarrow> s);
          program = (name \<noteq> [] \<and> name \<noteq> work \<and> \<not> gn_isdir gone)
      in \<lparr>fl_named = True, fl_fault = (if program then ''missing'' else []),
          fl_status = (if program then NOTHING_TO_RUN else 1),
          fl_argv = [if name \<noteq> [] then name else backend], fl_out = [], fl_err = gn_said gone\<rparr>)"

text \<open>
  \<open>kind\<close> is \<open>backends.trouble\<close> of the machine: the settings, the backend, what it wrote, how it exited
  and its log.
\<close>

type_synonym kinds = "on_disk \<Rightarrow> string \<Rightarrow> string list \<Rightarrow> int \<Rightarrow> string \<Rightarrow> string"

definition trouble_of :: "kinds \<Rightarrow> on_disk \<Rightarrow> string \<Rightarrow> failure \<Rightarrow> string \<Rightarrow> answer \<times> failure" where
  "trouble_of kind disk backend failed wrote =
     (let said = (if fl_named failed then fl_fault failed else []);
          fault = (if said \<noteq> [] then said
                   else kind disk backend [fl_err failed, fl_out failed] (fl_status failed) []);
          fault = (if fault \<noteq> [] then fault else kind disk backend [] 0 wrote);
          answer = answers fault
      in (answer, if fl_named failed then failed\<lparr>fl_fault := a_fault answer\<rparr> else failed))"

section \<open>The tries at one place\<close>

text \<open>How \<open>_stream\<close> ends: an answer, an \<open>Unrecoverable\<close>, a spawn that failed, or a failed turn.\<close>

datatype outcome = Lands | NeverAgain failure | NoSpawn gone | Fails failure

record go =
  g_stopped :: bool
  g_clock :: rat
  g_drawn :: rat
  g_drawn_fault :: rat
  g_woken :: bool
  g_cut :: string
  g_says :: "string list"
  g_out :: outcome
  g_log :: string
  g_cutting :: string

datatype happened =
    Waited rat string int int
  | Asked nat string nat
  | Said string
  | LetGo
  | MovedTo string

fun is_asked :: "happened \<Rightarrow> bool" where
  "is_asked (Asked i p n) = True"
| "is_asked _ = False"

datatype place_end = Landed | Raised failure | WasStopped | Spent "failure option" answer

definition pause :: "falls \<Rightarrow> answer \<Rightarrow> go \<Rightarrow> nat \<Rightarrow> rat" where
  "pause again answer g attempt =
     max (waits (g_drawn g) (f_policy again) attempt BASE)
         (max (if a_policy answer \<noteq> [] then waits (g_drawn_fault g) (a_policy answer) attempt BASE else 0)
              (a_least answer))"

definition late :: "falls \<Rightarrow> rat \<Rightarrow> rat \<Rightarrow> bool" where
  "late again clock waiting \<longleftrightarrow>
     f_timeout again \<noteq> Fin 0 \<and> f_lt (f_timeout again) (Fin (clock + waiting))"

definition worth :: "falls \<Rightarrow> answer \<Rightarrow> int" where
  "worth again answer = (if a_held answer then 0 else max (f_tries again) (int (a_tries answer)))"

lemma answers_few: "a_tries (answers fault) \<le> BUSY"
proof -
  have "list_all (\<lambda>one. a_tries one \<le> BUSY) ANSWERS" by code_simp
  then show ?thesis
    by (auto simp: answers_def list_all_iff answer_of_def dest: first_of_SomeD split: option.splits)
qed

definition failed_try :: "string \<Rightarrow> string \<Rightarrow> go \<Rightarrow> failure option" where
  "failed_try work backend g =
     (case g_out g of NoSpawn gone \<Rightarrow> Some (nothing_ran work backend gone) | Fails f \<Rightarrow> Some f | _ \<Rightarrow> None)"

lemma trouble_answers:
  assumes "trouble_of kind disk backend failed wrote = (answer, failed')"
  shows "answer = answers (a_fault answer)"
proof -
  have "a_fault (answers fault) = fault" for fault
    by (auto simp: answers_def answer_of_def dest: first_of_SomeD split: option.splits)
  with assms show ?thesis unfolding trouble_of_def Let_def prod.inject by metis
qed

lemma worth_few:
  assumes "trouble_of kind disk backend failed wrote = (answer, failed')"
  shows "worth again answer \<le> max (f_tries again) (int BUSY)"
proof -
  have "a_tries answer \<le> BUSY" using answers_few [of "a_fault answer"] trouble_answers [OF assms] by simp
  then have "int (a_tries answer) \<le> int BUSY" by (rule of_nat_mono)
  then show ?thesis by (auto simp: worth_def le_max_iff_disj max_def)
qed

text \<open>Where a turn is being taken: which move of it this is, the place, its backend, and where.\<close>

record spot =
  sp_hop :: nat
  sp_place :: string
  sp_backend :: string
  sp_work :: string
  sp_disk :: on_disk

function taking ::
    "kinds \<Rightarrow> spot \<Rightarrow> falls \<Rightarrow> (nat \<Rightarrow> go) \<Rightarrow> nat \<Rightarrow> failure option \<Rightarrow> answer \<Rightarrow> int \<Rightarrow> happened list \<times> place_end" where
  "taking kind spot again gos attempt prev answer goes =
     (let g = gos attempt; waiting = pause again answer g attempt in
      if g_stopped g then ([], WasStopped)
      else if attempt > 1 \<and> late again (g_clock g) waiting then ([], Spent prev answer)
      else
        let waited = (if attempt > 1 then [Waited waiting (a_fault answer) (int attempt - 1) goes] else []) in
        if attempt > 1 \<and> g_woken g \<and> g_cut g \<noteq> [] \<and> prev \<noteq> None then (waited, Raised (the prev))
        else
          let asked = waited @ Asked (sp_hop spot) (sp_place spot) attempt # map Said (g_says g) in
          (case failed_try (sp_work spot) (sp_backend spot) g of
             None \<Rightarrow> (asked, case g_out g of NeverAgain f \<Rightarrow> Raised f | _ \<Rightarrow> Landed)
           | Some failed \<Rightarrow>
               if g_out g = Fails failed \<and> g_cutting g \<noteq> [] then (asked, Raised failed)
               else
                 (case trouble_of kind (sp_disk spot) (sp_backend spot) failed (g_log g) of
                    (answer', failed') \<Rightarrow>
                      let goes' = worth again answer';
                          did = asked @ (if a_reopen answer' then [LetGo] else []) in
                      if int attempt > goes' then (did, Spent (Some failed') answer')
                      else (case taking kind spot again gos (attempt + 1) (Some failed') answer' goes' of
                              (rest, r) \<Rightarrow> (did @ rest, r)))))"
  by pat_completeness auto
termination
proof (relation "measure (\<lambda>(kind, spot, again, gos, attempt, rest). nat (max (f_tries again) (int BUSY)) + 1 - attempt)",
       goal_cases)
  case 1
  show ?case by simp
next
  case (2 kind spot again gos attempt prev answer goes)
  then have "\<exists>answer' failed failed'. trouble_of kind (sp_disk spot) (sp_backend spot) failed (g_log (gos attempt)) = (answer', failed')
                \<and> \<not> int attempt > worth again answer'" by metis
  then have "int attempt \<le> max (f_tries again) (int BUSY)" by (meson worth_few order_trans not_le)
  then show ?case by auto
qed

declare taking.simps [simp del]

section \<open>Standing in\<close>

text \<open>
  An agent: its backend, the place it runs at, the rest of how it was configured, the places left of the
  chain it was reached by (\<open>None\<close> for one no turn was moved to), and what stands in for it, once asked.
\<close>

datatype 'c agent =
    Agent (ag_backend: string) (ag_place: string) (ag_config: 'c) (ag_beyond: "string list option") (ag_stands: "'c standing")
and 'c standing = Unasked | Nobody | StandIn "'c agent"

text \<open>
  \<open>arrives\<close> is the backend's own classes: the configuration the agent arriving has, by profile, model,
  account and what the agent leaving is, or \<open>None\<close> where it cannot be told some of it.
\<close>

type_synonym 'c making = "profile \<Rightarrow> string \<Rightarrow> string \<Rightarrow> 'c agent \<Rightarrow> 'c option"

definition built :: "'c making \<Rightarrow> on_disk \<Rightarrow> string \<Rightarrow> 'c agent \<Rightarrow> 'c agent option" where
  "built arrives disk place like =
     (let said = reads disk place in
      case py_partition CHR ''/'' said of (front, _, model) \<Rightarrow>
        (case py_partition CHR ''@'' front of (backend, _, provider) \<Rightarrow>
           (case named disk backend of
              None \<Rightarrow> None
            | Some p \<Rightarrow>
                if said = [] then None
                else (case arrives p model provider like of
                        None \<Rightarrow> None
                      | Some c \<Rightarrow> Some (Agent (pname p) (spec (pname p) model provider) c None Unasked)))))"

fun with_stands :: "'c standing \<Rightarrow> 'c agent \<Rightarrow> 'c agent" where
  "with_stands s (Agent b p c beyond _) = Agent b p c beyond s"

fun with_beyond :: "string list option \<Rightarrow> 'c agent \<Rightarrow> 'c agent" where
  "with_beyond beyond (Agent b p c _ s) = Agent b p c beyond s"

definition stands_in :: "'c making \<Rightarrow> on_disk \<Rightarrow> 'c agent \<Rightarrow> 'c agent \<times> 'c agent option" where
  "stands_in arrives disk a =
     (case ag_stands a of
        StandIn b \<Rightarrow> (a, Some b)
      | Nobody \<Rightarrow> (a, None)
      | Unasked \<Rightarrow>
          (let walked = (case ag_beyond a of Some beyond \<Rightarrow> beyond | None \<Rightarrow> tl (chain disk (ag_place a))) in
           case walked of
             [] \<Rightarrow> (with_stands Nobody a, None)
           | place # beyond \<Rightarrow>
               (case built arrives disk place a of
                  None \<Rightarrow> (with_stands Nobody a, None)
                | Some b \<Rightarrow> (let b' = with_beyond (Some beyond) b in (with_stands (StandIn b') a, Some b')))))"

record hop =
  h_disk :: on_disk
  h_later :: on_disk
  h_work :: string
  h_go :: "nat \<Rightarrow> go"
  h_stopped :: bool
  h_offers :: bool
  h_shelves :: bool
  h_takes_tools :: bool
  h_takes_clis :: bool
  h_cut :: string

definition may_stand_in :: "hop \<Rightarrow> bool" where
  "may_stand_in h \<longleftrightarrow> (\<not> h_offers h \<or> h_takes_tools h) \<and> (\<not> h_shelves h \<or> h_takes_clis h)"

definition cut_off :: "string \<Rightarrow> string \<Rightarrow> failure" where
  "cut_off backend why =
     \<lparr>fl_named = True, fl_fault = [], fl_status = 1, fl_argv = [backend], fl_out = [], fl_err = ''turn cut off: '' @ why\<rparr>"

datatype turn_end = Answered | Fails_with failure | Agent_stopped | No_try

definition gave_up :: "failure option \<Rightarrow> turn_end" where
  "gave_up prev = (case prev of None \<Rightarrow> No_try | Some f \<Rightarrow> Fails_with f)"

text \<open>What is left to walk: the agents standing in already, then whether a chain is still to be read, then it.\<close>

primrec standing_deep :: "'c agent \<Rightarrow> nat" and standing_deep' :: "bool \<Rightarrow> 'c standing \<Rightarrow> nat" where
  "standing_deep (Agent b p c beyond s) = standing_deep' (beyond = None) s"
| "standing_deep' unread Unasked = (if unread then 1 else 0)"
| "standing_deep' unread Nobody = 0"
| "standing_deep' unread (StandIn a) = Suc (standing_deep a)"

primrec places_left :: "'c agent \<Rightarrow> nat" and places_left' :: "string list option \<Rightarrow> 'c standing \<Rightarrow> nat" where
  "places_left (Agent b p c beyond s) = places_left' beyond s"
| "places_left' beyond Unasked = (case beyond of None \<Rightarrow> 0 | Some ps \<Rightarrow> length ps)"
| "places_left' beyond Nobody = 0"
| "places_left' beyond (StandIn a) = places_left a"

lemma stands_in_left:
  assumes "stands_in arrives disk a = (a', Some b)"
  shows "standing_deep b < standing_deep a \<or> standing_deep b = standing_deep a \<and> places_left b < places_left a"
proof (cases "ag_stands a")
  case (StandIn c)
  with assms have "b = c" by (simp add: stands_in_def)
  with StandIn show ?thesis by (cases a) simp
next
  case Nobody
  with assms show ?thesis by (simp add: stands_in_def)
next
  case Unasked
  with assms obtain place beyond c where
    "(case ag_beyond a of Some beyond \<Rightarrow> beyond | None \<Rightarrow> tl (chain disk (ag_place a))) = place # beyond"
    "built arrives disk place a = Some c" "b = with_beyond (Some beyond) c"
    by (auto simp: stands_in_def Let_def split: list.splits option.splits)
  moreover from this(2) have "ag_stands c = Unasked"
    by (auto simp: built_def Let_def split: prod.splits option.splits if_splits)
  ultimately show ?thesis using Unasked by (cases a; cases c) (auto split: option.splits)
qed

function falling_back ::
    "kinds \<Rightarrow> 'c making \<Rightarrow> (nat \<Rightarrow> hop) \<Rightarrow> nat \<Rightarrow> 'c agent \<Rightarrow> happened list \<times> turn_end \<times> 'c agent" where
  "falling_back kind arrives hops i a =
     (let h = hops i; again = tried (h_disk h) (ag_place a);
          spot = \<lparr>sp_hop = i, sp_place = ag_place a, sp_backend = ag_backend a, sp_work = h_work h, sp_disk = h_disk h\<rparr> in
      case taking kind spot again (h_go h) 1 None (answers []) (f_tries again) of
        (evs, Landed) \<Rightarrow> (evs, Answered, a)
      | (evs, Raised f) \<Rightarrow> (evs, Fails_with f, a)
      | (evs, WasStopped) \<Rightarrow> (evs, Agent_stopped, a)
      | (evs, Spent prev answer) \<Rightarrow>
          if h_stopped h then (evs, Agent_stopped, a)
          else
            (case stands_in arrives (h_later h) a of
               (a', None) \<Rightarrow> (evs, gave_up prev, a')
             | (a', Some b) \<Rightarrow>
                 if \<not> may_stand_in h then (evs, gave_up prev, a')
                 else if h_cut h \<noteq> [] then (evs @ [MovedTo (ag_place b)], Fails_with (cut_off (ag_backend b) (h_cut h)), a')
                 else (case falling_back kind arrives hops (i + 1) b of
                         (rest, r, b') \<Rightarrow> (evs @ MovedTo (ag_place b) # rest, r, with_stands (StandIn b') a'))))"
  by pat_completeness auto
termination
proof (relation "measures [\<lambda>(kind, arrives, hops, i, a). standing_deep a, \<lambda>(kind, arrives, hops, i, a). places_left a]", goal_cases)
  case 1
  show ?case by simp
next
  case 2
  then show ?case by (auto dest!: stands_in_left [OF sym])
qed

declare falling_back.simps [simp del]

end
