(* ===== verification/Recovered.thy ===== *)
theory Recovered
  imports Recovering
begin

text \<open>
  What the recovery of a turn comes to: how often each place is asked, how long is waited, what ends it
  at once, and that the whole chain is walked before a turn is given up.
\<close>

section \<open>One place\<close>

definition waited_said :: "falls \<Rightarrow> go \<Rightarrow> nat \<Rightarrow> answer \<Rightarrow> int \<Rightarrow> happened list" where
  "waited_said again g n answer goes =
     (if n > 1 then [Waited (pause again answer g n) (a_fault answer) (int n - 1) goes] else [])"

definition asked_said :: "spot \<Rightarrow> falls \<Rightarrow> go \<Rightarrow> nat \<Rightarrow> answer \<Rightarrow> int \<Rightarrow> happened list" where
  "asked_said spot again g n answer goes =
     waited_said again g n answer goes @ Asked (sp_hop spot) (sp_place spot) n # map Said (g_says g)"

definition let_go :: "answer \<Rightarrow> happened list" where
  "let_go answer = (if a_reopen answer then [LetGo] else [])"

text \<open>A go that ends the turn where it is: it landed, or nothing is to be tried after it.\<close>

definition over :: "go \<Rightarrow> place_end \<Rightarrow> bool" where
  "over g r \<longleftrightarrow>
     (case g_out g of
        Lands \<Rightarrow> r = Landed
      | NeverAgain f \<Rightarrow> r = Raised f
      | NoSpawn gone \<Rightarrow> False
      | Fails f \<Rightarrow> g_cutting g \<noteq> [] \<and> r = Raised f)"

lemma taking_cases:
  assumes "taking kind spot again gos n prev answer goes = (evs, r)"
  obtains
    (Halted) "g_stopped (gos n)" "evs = []" "r = WasStopped"
  | (Late) "n > 1" "evs = []" "r = Spent prev answer"
  | (Cut) f where "n > 1" "g_woken (gos n)" "g_cut (gos n) \<noteq> []" "prev = Some f" "r = Raised f"
      "evs = waited_said again (gos n) n answer goes"
  | (Over) "over (gos n) r" "evs = asked_said spot again (gos n) n answer goes"
  | (Spent) failed answer' failed' where "failed_try (sp_work spot) (sp_backend spot) (gos n) = Some failed"
      "\<not> over (gos n) (Raised failed)" "trouble_of kind (sp_disk spot) (sp_backend spot) failed (g_log (gos n)) = (answer', failed')"
      "worth again answer' < int n" "evs = asked_said spot again (gos n) n answer goes @ let_go answer'" "r = place_end.Spent (Some failed') answer'"
  | (Again) failed answer' failed' rest where "failed_try (sp_work spot) (sp_backend spot) (gos n) = Some failed"
      "\<not> over (gos n) (Raised failed)" "trouble_of kind (sp_disk spot) (sp_backend spot) failed (g_log (gos n)) = (answer', failed')"
      "int n \<le> worth again answer'" "evs = asked_said spot again (gos n) n answer goes @ let_go answer' @ rest"
      "taking kind spot again gos (n + 1) (Some failed') answer' (worth again answer') = (rest, r)"
proof -
  let ?g = "gos n"
  note simps = taking.simps [of kind spot again gos n prev answer goes] Let_def
  consider "g_stopped ?g" | "\<not> g_stopped ?g" "n > 1" "late again (g_clock ?g) (pause again answer ?g n)"
    | "\<not> g_stopped ?g" "\<not> (n > 1 \<and> late again (g_clock ?g) (pause again answer ?g n))" by blast
  then show thesis
  proof cases
    case 1
    with assms show thesis by (intro Halted) (simp_all add: simps)
  next
    case 2
    with assms show thesis by (intro Late) (simp_all add: simps)
  next
    case 3
    show thesis
    proof (cases "n > 1 \<and> g_woken ?g \<and> g_cut ?g \<noteq> [] \<and> prev \<noteq> None")
      case True
      then obtain f where "prev = Some f" by auto
      with True 3 assms show thesis
        by (intro Cut [of f]) (simp_all add: taking.simps [of _ _ _ _ _ "Some f"] Let_def waited_said_def)
    next
      case False
      have eq: "(evs, r) = (let asked = asked_said spot again ?g n answer goes in
        (case failed_try (sp_work spot) (sp_backend spot) ?g of
             None \<Rightarrow> (asked, case g_out ?g of NeverAgain f \<Rightarrow> Raised f | _ \<Rightarrow> Landed)
           | Some failed \<Rightarrow>
               if g_out ?g = Fails failed \<and> g_cutting ?g \<noteq> [] then (asked, Raised failed)
               else
                 (case trouble_of kind (sp_disk spot) (sp_backend spot) failed (g_log ?g) of
                    (answer', failed') \<Rightarrow>
                      let goes' = worth again answer'; did = asked @ let_go answer' in
                      if int n > goes' then (did, place_end.Spent (Some failed') answer')
                      else (case taking kind spot again gos (n + 1) (Some failed') answer' goes' of
                              (rest, r) \<Rightarrow> (did @ rest, r)))))"
        unfolding assms [symmetric] simps asked_said_def let_go_def waited_said_def
        using 3 by (simp only: False if_False)
      show thesis
      proof (cases "failed_try (sp_work spot) (sp_backend spot) ?g")
        case None
        then have "over ?g r" "evs = asked_said spot again ?g n answer goes"
          using eq by (auto simp: over_def failed_try_def Let_def split: outcome.splits)
        then show thesis by (rule Over)
      next
        case (Some failed)
        obtain answer' failed' where t: "trouble_of kind (sp_disk spot) (sp_backend spot) failed (g_log ?g) = (answer', failed')"
          by (cases "trouble_of kind (sp_disk spot) (sp_backend spot) failed (g_log ?g)")
        obtain rest r' where rest: "taking kind spot again gos (n + 1) (Some failed') answer' (worth again answer') = (rest, r')"
          by (cases "taking kind spot again gos (n + 1) (Some failed') answer' (worth again answer')")
        show thesis
        proof (cases "g_out ?g = Fails failed \<and> g_cutting ?g \<noteq> []")
          case True
          with eq Some show thesis by (intro Over) (simp_all add: over_def Let_def)
        next
          case notcut: False
          then have "\<not> over ?g (Raised failed)" using Some by (auto simp: over_def failed_try_def split: outcome.splits)
          with eq notcut Some t rest show thesis
            by (cases "int n > worth again answer'") (auto simp: Let_def intro: Spent Again)
        qed
      qed
    qed
  qed
qed

text \<open>The same as a relation, for rule induction.\<close>

inductive runs ::
    "kinds \<Rightarrow> spot \<Rightarrow> falls \<Rightarrow> (nat \<Rightarrow> go) \<Rightarrow> nat \<Rightarrow> failure option \<Rightarrow> answer \<Rightarrow> int \<Rightarrow> happened list \<Rightarrow> place_end \<Rightarrow> bool"
  for kind spot again gos where
  Halted: "g_stopped (gos n) \<Longrightarrow> runs kind spot again gos n prev answer goes [] WasStopped"
| Late: "n > 1 \<Longrightarrow> runs kind spot again gos n prev answer goes [] (Spent prev answer)"
| Cut: "n > 1 \<Longrightarrow> g_woken (gos n) \<Longrightarrow> g_cut (gos n) \<noteq> [] \<Longrightarrow> runs kind spot again gos n (Some f) answer goes (waited_said again (gos n) n answer goes) (Raised f)"
| Over: "over (gos n) r \<Longrightarrow> runs kind spot again gos n prev answer goes (asked_said spot again (gos n) n answer goes) r"
| Last: "\<lbrakk>failed_try (sp_work spot) (sp_backend spot) (gos n) = Some failed; \<not> over (gos n) (Raised failed);
    trouble_of kind (sp_disk spot) (sp_backend spot) failed (g_log (gos n)) = (answer', failed'); worth again answer' < int n\<rbrakk>
   \<Longrightarrow> runs kind spot again gos n prev answer goes
        (asked_said spot again (gos n) n answer goes @ let_go answer') (Spent (Some failed') answer')"
| Again: "\<lbrakk>failed_try (sp_work spot) (sp_backend spot) (gos n) = Some failed; \<not> over (gos n) (Raised failed);
    trouble_of kind (sp_disk spot) (sp_backend spot) failed (g_log (gos n)) = (answer', failed'); int n \<le> worth again answer';
    runs kind spot again gos (n + 1) (Some failed') answer' (worth again answer') rest r\<rbrakk>
   \<Longrightarrow> runs kind spot again gos n prev answer goes
        (asked_said spot again (gos n) n answer goes @ let_go answer' @ rest) r"

lemma taking_runs:
  "taking kind spot again gos n prev answer goes = (evs, r) \<Longrightarrow> runs kind spot again gos n prev answer goes evs r"
proof (induction "nat (max (f_tries again) (int BUSY)) + 1 - n" arbitrary: n prev answer goes evs r rule: less_induct)
  case less
  from less.prems show ?case
  proof (cases rule: taking_cases)
    case (Again failed answer' failed' rest)
    from worth_few [OF Again(3), of again] Again(4)
    have "nat (max (f_tries again) (int BUSY)) + 1 - (n + 1) < nat (max (f_tries again) (int BUSY)) + 1 - n" by auto
    from less.hyps [OF this Again(6)] Again show ?thesis by (auto intro: runs.Again)
  qed (auto intro: runs.intros)
qed

text \<open>The tries are numbered on from the first, and no more than the place or the failure is worth.\<close>

lemma filter_let_go [simp]: "filter is_asked (let_go answer) = []"
  by (simp add: let_go_def)

lemma filter_waited_said [simp]: "filter is_asked (waited_said again g n answer goes) = []"
  by (simp add: waited_said_def)

lemma filter_asked_said [simp]:
  "filter is_asked (asked_said spot again g n answer goes) = [Asked (sp_hop spot) (sp_place spot) n]"
  by (simp add: asked_said_def filter_empty_conv)

lemma runs_asked:
  assumes "runs kind spot again gos n prev answer goes evs r"
  shows "\<exists>k. filter is_asked evs = map (Asked (sp_hop spot) (sp_place spot)) [n..<n + k] \<and>
             (k \<le> 1 \<or> int (n + k) \<le> max (f_tries again) (int BUSY) + 2)"
  using assms
proof (induction rule: runs.induct)
  case (Again n failed answer' failed' rest r prev answer goes)
  from Again.IH obtain k where k: "filter is_asked rest = map (Asked (sp_hop spot) (sp_place spot)) [n + 1..<n + 1 + k]"
    "k \<le> 1 \<or> int (n + 1 + k) \<le> max (f_tries again) (int BUSY) + 2" by blast
  have "int n \<le> max (f_tries again) (int BUSY)" using worth_few [OF Again(3), of again] Again(4) by simp
  with k show ?case
    by (intro exI [of _ "Suc k"]) (auto simp: upt_conv_Cons)
qed (auto intro: exI [of _ 0] exI [of _ "Suc 0"])

lemma asked_in [simp]:
  "Asked i p m \<in> set (asked_said spot again g n answer goes) \<longleftrightarrow> i = sp_hop spot \<and> p = sp_place spot \<and> m = n"
  by (auto simp: asked_said_def waited_said_def)

lemma asked_not_let_go [simp]: "Asked i p m \<notin> set (let_go answer)"
  by (simp add: let_go_def)






lemma waited_asked [simp]:
  "Waited w fault taken g \<in> set (asked_said spot again go n answer goes) \<longleftrightarrow>
   Waited w fault taken g \<in> set (waited_said again go n answer goes)"
  by (auto simp: asked_said_def)

lemma waited_not_let_go [simp]: "Waited w fault taken g \<notin> set (let_go answer)"
  by (simp add: let_go_def)


text \<open>A go that raises ends the turn with what it raised, and nothing is asked after it.\<close>

definition raises :: "go \<Rightarrow> failure \<Rightarrow> bool" where
  "raises g f \<longleftrightarrow> g_out g = NeverAgain f \<or> g_out g = Fails f \<and> g_cutting g \<noteq> []"

lemma runs_raises:
  assumes "runs kind spot again gos n prev answer goes evs r" and "Asked i p m \<in> set evs" and "raises (gos m) f"
  shows "r = Raised f \<and> last (filter is_asked evs) = Asked i p m"
  using assms
proof (induction rule: runs.induct)
  case (Over n r prev answer goes)
  then show ?case by (auto simp: over_def raises_def)
next
  case (Last n failed answer' failed' prev answer goes)
  then show ?case by (auto simp: over_def raises_def failed_try_def)
next
  case (Again n failed answer' failed' rest r prev answer goes)
  then have rest: "Asked i p m \<in> set rest" by (auto simp: over_def raises_def failed_try_def)
  then have "filter is_asked rest \<noteq> []" by (metis filter_empty_conv is_asked.simps(1))
  with Again.IH [OF rest Again(8)] show ?case by simp
qed (auto simp: waited_said_def split: if_splits)

section \<open>The whole turn\<close>

definition spot_of :: "hop \<Rightarrow> nat \<Rightarrow> 'c agent \<Rightarrow> spot" where
  "spot_of h i a =
     \<lparr>sp_hop = i, sp_place = ag_place a, sp_backend = ag_backend a, sp_work = h_work h, sp_disk = h_disk h\<rparr>"

lemma spot_of_fields [simp]: "sp_hop (spot_of h i a) = i" "sp_place (spot_of h i a) = ag_place a"
  by (simp_all add: spot_of_def)

definition at_place :: "kinds \<Rightarrow> (nat \<Rightarrow> hop) \<Rightarrow> nat \<Rightarrow> 'c agent \<Rightarrow> happened list \<times> place_end" where
  "at_place kind hops i a =
     (let again = tried (h_disk (hops i)) (ag_place a)
      in taking kind (spot_of (hops i) i a) again (h_go (hops i)) 1 None (answers []) (f_tries again))"

lemma at_place_runs:
  "at_place kind hops i a = (evs, r) \<Longrightarrow>
   runs kind (spot_of (hops i) i a) (tried (h_disk (hops i)) (ag_place a)) (h_go (hops i)) 1 None (answers [])
     (f_tries (tried (h_disk (hops i)) (ag_place a))) evs r"
  unfolding at_place_def Let_def by (rule taking_runs)

definition ends :: "place_end \<Rightarrow> turn_end" where
  "ends r = (case r of Landed \<Rightarrow> Answered | Raised f \<Rightarrow> Fails_with f | WasStopped \<Rightarrow> Agent_stopped | Spent prev _ \<Rightarrow> gave_up prev)"

lemma falling_back_eq:
  "falling_back kind arrives hops i a =
     (case at_place kind hops i a of
        (evs, Spent prev answer) \<Rightarrow>
          if h_stopped (hops i) then (evs, Agent_stopped, a)
          else
            (case stands_in arrives (h_later (hops i)) a of
               (a', None) \<Rightarrow> (evs, gave_up prev, a')
             | (a', Some b) \<Rightarrow>
                 if \<not> may_stand_in (hops i) then (evs, gave_up prev, a')
                 else if h_cut (hops i) \<noteq> [] then
                   (evs @ [MovedTo (ag_place b)], Fails_with (cut_off (ag_backend b) (h_cut (hops i))), a')
                 else (case falling_back kind arrives hops (i + 1) b of
                         (rest, e, b') \<Rightarrow> (evs @ MovedTo (ag_place b) # rest, e, with_stands (StandIn b') a')))
      | (evs, r) \<Rightarrow> (evs, ends r, a))"
  unfolding at_place_def spot_of_def ends_def
  by (subst falling_back.simps) (auto simp: Let_def split: prod.splits place_end.splits option.splits)

lemma falling_cases:
  assumes "falling_back kind arrives hops i a = (evs, e, a')"
  obtains
    (Here) r where "at_place kind hops i a = (evs, r)" "e = ends r \<or> (\<exists>prev answer. r = Spent prev answer)"
  | (CutOff) here prev answer a1 b where "at_place kind hops i a = (here, Spent prev answer)"
      "stands_in arrives (h_later (hops i)) a = (a1, Some b)" "evs = here @ [MovedTo (ag_place b)]"
  | (Moved) here prev answer a1 b rest b' where "at_place kind hops i a = (here, Spent prev answer)"
      "stands_in arrives (h_later (hops i)) a = (a1, Some b)" "falling_back kind arrives hops (i + 1) b = (rest, e, b')"
      "evs = here @ MovedTo (ag_place b) # rest"
proof -
  obtain here r where here: "at_place kind hops i a = (here, r)" by (cases "at_place kind hops i a")
  obtain a1 m where m: "stands_in arrives (h_later (hops i)) a = (a1, m)" by (cases "stands_in arrives (h_later (hops i)) a")
  show thesis
  proof (cases r)
    case (Spent prev answer)
    show thesis
    proof (cases "h_stopped (hops i) \<or> m = None \<or> \<not> may_stand_in (hops i)")
      case True
      with assms here m Spent have "evs = here" by (auto simp: falling_back_eq [of kind arrives hops i a] split: if_splits option.splits)
      with here Spent show thesis by (intro Here) auto
    next
      case False
      then obtain b where b: "m = Some b" by auto
      obtain rest e' b' where "falling_back kind arrives hops (i + 1) b = (rest, e', b')"
        by (cases "falling_back kind arrives hops (i + 1) b")
      with assms here m Spent False b show thesis
        by (cases "h_cut (hops i) = []") (auto simp: falling_back_eq [of kind arrives hops i a] intro: CutOff Moved)
    qed
  qed (use assms here in \<open>auto simp: falling_back_eq [of kind arrives hops i a] ends_def intro!: Here\<close>)
qed

text \<open>As a relation, keeping which agent takes the turn at each move.\<close>

inductive turns ::
    "kinds \<Rightarrow> 'c making \<Rightarrow> (nat \<Rightarrow> hop) \<Rightarrow> nat \<Rightarrow> 'c agent \<Rightarrow> happened list \<Rightarrow> turn_end \<Rightarrow> bool"
  for kind arrives hops where
  Here: "at_place kind hops i a = (here, r) \<Longrightarrow> e = ends r \<or> (\<exists>prev answer. r = Spent prev answer) \<Longrightarrow>
    turns kind arrives hops i a here e"
| CutOff: "at_place kind hops i a = (here, Spent prev answer) \<Longrightarrow> stands_in arrives (h_later (hops i)) a = (a1, Some b) \<Longrightarrow>
    turns kind arrives hops i a (here @ [MovedTo (ag_place b)]) e"
| Moved: "at_place kind hops i a = (here, Spent prev answer) \<Longrightarrow> stands_in arrives (h_later (hops i)) a = (a1, Some b) \<Longrightarrow>
    turns kind arrives hops (i + 1) b rest e \<Longrightarrow> turns kind arrives hops i a (here @ MovedTo (ag_place b) # rest) e"

lemma falling_turns:
  "falling_back kind arrives hops i a = (evs, e, a') \<Longrightarrow> turns kind arrives hops i a evs e"
proof (induction "a" arbitrary: i evs e a' rule: wf_induct_rule [OF wf_measures [of "[standing_deep, places_left]"]])
  case (1 a)
  from 1(2) show ?case
  proof (cases rule: falling_cases)
    case (Moved here prev answer a1 b rest b')
    from stands_in_left [OF Moved(2)] have "(b, a) \<in> measures [standing_deep, places_left]" by auto
    from 1(1) [OF this Moved(3)] Moved show ?thesis by (auto intro: turns.Moved)
  qed (auto intro: turns.Here turns.CutOff)
qed

text \<open>What is asked at which move, and where.\<close>

lemma here_hop:
  assumes "at_place kind hops i a = (here, r)" and "Asked j p n \<in> set here"
  shows "j = i \<and> p = ag_place a \<and> 1 \<le> n \<and> int n \<le> max (f_tries (tried (h_disk (hops i)) p)) (int BUSY) + 1"
proof -
  from runs_asked [OF at_place_runs [OF assms(1)]] obtain k where
    k: "filter is_asked here = map (Asked i (ag_place a)) [1..<1 + k]"
       "k \<le> 1 \<or> int (1 + k) \<le> max (f_tries (tried (h_disk (hops i)) (ag_place a))) (int BUSY) + 2" by auto
  have "Asked j p n \<in> set (filter is_asked here)" using assms(2) by simp
  with k show ?thesis by auto
qed





lemma turns_raises:
  assumes "turns kind arrives hops i a evs e" and "Asked j p n \<in> set evs" and "raises (h_go (hops j) n) f"
  shows "e = Fails_with f \<and> last (filter is_asked evs) = Asked j p n"
  using assms(1,2)
proof (induction rule: turns.induct)
  case (Here i a here r e)
  from here_hop [OF Here(1,3)] assms(3) have "raises (h_go (hops i) n) f" by simp
  from runs_raises [OF at_place_runs [OF Here(1)] Here(3) this] Here(2) show ?case by (auto simp: ends_def)
next
  case (CutOff i a here prev answer a1 b e)
  then have asked: "Asked j p n \<in> set here" by simp
  from here_hop [OF CutOff(1) this] assms(3) have "raises (h_go (hops i) n) f" by simp
  from runs_raises [OF at_place_runs [OF CutOff(1)] asked this] show ?case by simp
next
  case (Moved i a here prev answer a1 b rest e)
  have "Asked j p n \<notin> set here"
  proof
    assume asked: "Asked j p n \<in> set here"
    from here_hop [OF Moved(1) this] assms(3) have "raises (h_go (hops i) n) f" by simp
    from runs_raises [OF at_place_runs [OF Moved(1)] asked this] show False by simp
  qed
  with Moved(5) have rest: "Asked j p n \<in> set rest" by auto
  then have "filter is_asked rest \<noteq> []" by (metis filter_empty_conv is_asked.simps(1))
  with Moved.IH [OF rest] show ?case by simp
qed

text \<open>The places a turn was begun at, in order.\<close>

fun begun_at :: "happened \<Rightarrow> string option" where
  "begun_at (Asked j p n) = (if n = 1 then Some p else None)"
| "begun_at _ = None"

definition begun :: "happened list \<Rightarrow> string list" where
  "begun evs = List.map_filter begun_at evs"

lemma begun_append [simp]: "begun (xs @ ys) = begun xs @ begun ys"
  by (simp add: begun_def map_filter_def)

lemma begun_moved [simp]: "begun (MovedTo p # evs) = begun evs" "begun [] = []"
  by (simp_all add: begun_def map_filter_simps)

lemma begun_filter: "begun evs = begun (filter is_asked evs)"
proof (induction evs)
  case (Cons x xs)
  then show ?case by (cases x) (simp_all add: begun_def map_filter_simps)
qed simp

lemma here_begun:
  assumes "at_place kind hops i a = (here, r)"
  shows "begun here = [ag_place a] \<or> begun here = [] \<and> filter is_asked here = []"
proof -
  from runs_asked [OF at_place_runs [OF assms]] obtain k where
    k: "filter is_asked here = map (Asked i (ag_place a)) [1..<1 + k]" by auto
  have "begun (map (Asked i (ag_place a)) [m..<m + k]) = []" if "1 < m" for m k
    using that by (auto simp: begun_def map_filter_def filter_empty_conv)
  note later = this [of 2]
  have here: "begun here = begun (map (Asked i (ag_place a)) [1..<1 + k])" using begun_filter [of here] k by simp
  show ?thesis
  proof (cases k)
    case 0
    with k here show ?thesis by simp
  next
    case (Suc m)
    then have "[1..<1 + k] = 1 # [2..<2 + m]" by (simp add: upt_conv_Cons numeral_2_eq_2 del: upt_Suc)
    with here later [of m] show ?thesis by (simp add: begun_def map_filter_simps del: upt_Suc)
  qed
qed

definition walked :: "on_disk \<Rightarrow> 'c agent \<Rightarrow> string list" where
  "walked disk a = (case ag_beyond a of Some beyond \<Rightarrow> beyond | None \<Rightarrow> tl (chain disk (ag_place a)))"

definition places_ok :: "on_disk \<Rightarrow> string list \<Rightarrow> bool" where
  "places_ok disk ps \<longleftrightarrow> (\<forall>p\<in>set ps. p \<noteq> [] \<and> reads disk p = p)"

lemma built_place:
  assumes "reads disk place = place" and "place \<noteq> []"
  shows "(case built arrives disk place a of None \<Rightarrow> \<exists>p model account. arrives p model account a = None
          | Some b \<Rightarrow> ag_place b = place \<and> ag_stands b = Unasked)"
proof -
  from reads_parts [OF assms] obtain p model account where
    "py_partition CHR ''/'' place = (pname p @ (if account \<noteq> [] then ''@'' @ account else []), True, model)"
    "py_partition CHR ''@'' (pname p @ (if account \<noteq> [] then ''@'' @ account else [])) = (pname p, account \<noteq> [], account)"
    "named disk (pname p) = Some p" "place = spec (pname p) model account" by blast
  then show ?thesis
    unfolding built_def Let_def assms(1) by (auto simp: assms split: option.splits)
qed

lemma stands_in_walks:
  assumes "ag_stands a = Unasked" and "places_ok disk (walked disk a)"
  shows "(case stands_in arrives disk a of
            (_, None) \<Rightarrow> walked disk a = [] \<or> (\<exists>p model account. arrives p model account a = None)
          | (_, Some b) \<Rightarrow> ag_stands b = Unasked \<and> walked disk a = ag_place b # walked disk b)"
proof (cases "walked disk a")
  case Nil
  with assms(1) show ?thesis by (simp add: stands_in_def walked_def Let_def)
next
  case (Cons p ps)
  with assms(2) have p: "reads disk p = p" "p \<noteq> []" by (auto simp: places_ok_def)
  have w: "(case ag_beyond a of Some beyond \<Rightarrow> beyond | None \<Rightarrow> tl (chain disk (ag_place a))) = p # ps"
    using Cons by (simp add: walked_def)
  show ?thesis
  proof (cases "built arrives disk p a")
    case None
    with assms(1) w built_place [OF p, of arrives a] show ?thesis by (simp add: stands_in_def Let_def)
  next
    case (Some b)
    with assms(1) w built_place [OF p, of arrives a] Cons show ?thesis
      by (cases b) (simp add: stands_in_def Let_def walked_def)
  qed
qed

lemma turns_begun:
  assumes "turns kind arrives hops i a evs e" and "\<forall>j. h_later (hops j) = disk"
    and "ag_stands a = Unasked" and "places_ok disk (walked disk a)"
  shows "\<exists>k. begun evs = take k (ag_place a # walked disk a)"
  using assms(1,3,4)
proof (induction rule: turns.induct)
  case (Here i a here r e)
  with here_begun [OF Here(1)] show ?case by (auto intro: exI [of _ "1 :: nat"] exI [of _ "0 :: nat"])
next
  case (CutOff i a here prev answer a1 b e)
  with here_begun [OF CutOff(1)] show ?case by (auto intro: exI [of _ "1 :: nat"] exI [of _ "0 :: nat"])
next
  case (Moved i a here prev answer a1 b rest e)
  from Moved(2) assms(2) have "stands_in arrives disk a = (a1, Some b)" by simp
  with stands_in_walks [OF Moved(5,6), of arrives] have b: "ag_stands b = Unasked" "walked disk a = ag_place b # walked disk b"
    by simp_all
  with Moved(6) have "places_ok disk (walked disk b)" by (simp add: places_ok_def)
  from Moved.IH [OF b(1) this] obtain k where "begun rest = take k (walked disk a)" unfolding b(2) by blast
  moreover have "begun here = [ag_place a]"
    using at_place_runs [OF Moved(1)] here_begun [OF Moved(1)] by cases auto
  ultimately show ?case by (intro exI [of _ "Suc k"]) simp
qed





section \<open>A turn to look at\<close>

text \<open>A world where every try is rate-limited, and one where the second is never to be taken again.\<close>

definition failing :: "string \<Rightarrow> failure" where
  "failing fault = \<lparr>fl_named = True, fl_fault = fault, fl_status = 1, fl_argv = [], fl_out = [], fl_err = []\<rparr>"

definition go_of :: "outcome \<Rightarrow> go" where
  "go_of out = \<lparr>g_stopped = False, g_clock = 0, g_drawn = 1, g_drawn_fault = 1, g_woken = False, g_cut = [],
     g_says = [''hm''], g_out = out, g_log = [], g_cutting = []\<rparr>"

definition limited :: "nat \<Rightarrow> go" where
  "limited n = go_of (Fails (failing ''throttled''))"

definition hopeless :: "nat \<Rightarrow> go" where
  "hopeless n = go_of (if n = 2 then NeverAgain (failing []) else Fails (failing ''throttled''))"

definition sample_hop :: "(nat \<Rightarrow> go) \<Rightarrow> hop" where
  "sample_hop gos = \<lparr>h_disk = sample_disk, h_later = sample_disk, h_work = ''/w'', h_go = gos, h_stopped = False,
     h_offers = False, h_shelves = False, h_takes_tools = True, h_takes_clis = True, h_cut = []\<rparr>"

definition sample_agent :: "nat agent" where
  "sample_agent = Agent ''codex'' ''codex@work/gpt'' 0 None Unasked"

definition sample_turn :: "(nat \<Rightarrow> go) \<Rightarrow> happened list \<times> turn_end \<times> nat agent" where
  "sample_turn gos = falling_back (\<lambda>_ _ _ _ _. []) (\<lambda>_ _ _ _. Some 0) (\<lambda>_. sample_hop gos) 0 sample_agent"

lemma limited_turn:
  "fst (sample_turn limited) =
     [Asked 0 ''codex@work/gpt'' 1, Said ''hm'', Waited 30 ''throttled'' 1 2,
      Asked 0 ''codex@work/gpt'' 2, Said ''hm'', Waited 30 ''throttled'' 2 2,
      Asked 0 ''codex@work/gpt'' 3, Said ''hm'', MovedTo ''agy/pro'',
      Asked 1 ''agy/pro'' 1, Said ''hm'', Waited 30 ''throttled'' 1 1,
      Asked 1 ''agy/pro'' 2, Said ''hm'', MovedTo ''claude/opus'',
      Asked 2 ''claude/opus'' 1, Said ''hm'', Waited 30 ''throttled'' 1 1,
      Asked 2 ''claude/opus'' 2, Said ''hm'']"
  by code_simp

lemma hopeless_turn:
  "fst (sample_turn hopeless) = [Asked 0 ''codex@work/gpt'' 1, Said ''hm'', Waited 30 ''throttled'' 1 2,
                                 Asked 0 ''codex@work/gpt'' 2, Said ''hm'']"
  by code_simp

lemma sample_turn_is:
  "sample_turn gos = (evs, e, a) \<longleftrightarrow>
   falling_back (\<lambda>_ _ _ _ _. []) (\<lambda>_ _ _ _. Some 0) (\<lambda>_. sample_hop gos) 0 sample_agent = (evs, e, a)"
  by (simp add: sample_turn_def)

section \<open>Properties of a turn\<close>





text \<open>
  A try that fails for a reason no other try could come out differently on, and one cut off while it
  was taken, end the turn with just that failure: it is the last thing asked of any place, and the turn
  is not moved on.
\<close>

theorem hopeless_ends_turn:
  assumes "falling_back kind arrives hops i a = (evs, e, a')" and "Asked j p n \<in> set evs"
    and "raises (h_go (hops j) n) f"
  shows "e = Fails_with f \<and> last (filter is_asked evs) = Asked j p n"
  using turns_raises [OF falling_turns [OF assms(1)] assms(2,3)] .

theorem hopeless_ends_turn_witness:
  "last (filter is_asked (fst (sample_turn hopeless))) = Asked 0 ''codex@work/gpt'' 2 \<and>
   fst (snd (sample_turn hopeless)) = Fails_with (failing [])"
proof -
  obtain evs e a where t: "sample_turn hopeless = (evs, e, a)" by (cases "sample_turn hopeless")
  have "Asked 0 ''codex@work/gpt'' 2 \<in> set evs" using hopeless_turn unfolding t by simp
  moreover have "raises (h_go ((\<lambda>_. sample_hop hopeless) (0 :: nat)) 2) (failing [])"
    by (simp add: raises_def sample_hop_def hopeless_def go_of_def)
  ultimately show ?thesis using hopeless_ends_turn [OF t [unfolded sample_turn_is]] unfolding t by simp
qed

text \<open>
  The places a turn is begun at are the chain written against the place it was started at, walked
  from the front: no place off the chain, none skipped, none come back to, whatever chains are written
  against the places in between.
\<close>

theorem walked_in_order:
  assumes "falling_back kind arrives hops i a = (evs, e, a')" and "\<forall>j. h_later (hops j) = disk"
    and "spelled (VDict (read_settings disk))" and "ag_stands a = Unasked" and "ag_beyond a = None"
    and "reads disk (ag_place a) = ag_place a" and "ag_place a \<noteq> []"
  shows "\<exists>k. begun evs = take k (chain disk (ag_place a)) \<and> distinct (begun evs)"
proof -
  have c: "chain disk (ag_place a) = ag_place a # walked disk a"
    using assms(5-7) by (simp add: walked_def chain_def place_of_def)
  have ok: "distinct (chain disk (ag_place a))" "places_ok disk (walked disk a)"
    using chain_ok [OF assms(3), of "ag_place a"] by (simp_all add: c places_ok_def)
  from turns_begun [OF falling_turns [OF assms(1)] assms(2,4) ok(2)] ok(1) show ?thesis unfolding c by auto
qed

lemma sample_chain_ok:
  "spelled (VDict (read_settings sample_disk))" "reads sample_disk ''codex@work/gpt'' = ''codex@work/gpt''"
  "chain sample_disk ''codex@work/gpt'' = [''codex@work/gpt'', ''agy/pro'', ''claude/opus'']"
  by code_simp+

theorem walked_in_order_witness:
  "begun (fst (sample_turn limited)) = [''codex@work/gpt'', ''agy/pro'', ''claude/opus''] \<and>
   distinct (begun (fst (sample_turn limited)))"
proof -
  obtain evs e a where t: "sample_turn limited = (evs, e, a)" by (cases "sample_turn limited")
  have "begun evs = [''codex@work/gpt'', ''agy/pro'', ''claude/opus'']"
    using limited_turn unfolding t by (simp add: begun_def map_filter_simps)
  moreover have "\<exists>k. begun evs = take k (chain sample_disk (ag_place sample_agent)) \<and> distinct (begun evs)"
    by (rule walked_in_order [OF t [unfolded sample_turn_is]])
      (simp_all add: sample_hop_def sample_agent_def sample_chain_ok del: spelled.simps)
  ultimately show ?thesis unfolding t by auto
qed



section \<open>A stop in the pause\<close>

text \<open>
  An agent stopped while its turn waits to try again wakes the wait; the stop is looked at before the wait
  only, so with nothing cut the backend is asked once more.
\<close>

lemma stopped_pause_asks_again:
  assumes "taking kind spot again gos n (Some f) answer goes = (evs, r)" and "\<not> g_stopped (gos n)"
    and "\<not> late again (g_clock (gos n)) (pause again answer (gos n) n)" and "g_woken (gos n)" and "g_cut (gos n) = []"
  shows "Asked (sp_hop spot) (sp_place spot) n \<in> set evs"
  using assms(1)
proof (cases rule: taking_cases)
  case Late
  then show ?thesis using assms by (simp add: taking.simps [of _ _ _ _ n] Let_def split: if_splits option.splits prod.splits)
qed (use assms in simp_all)

end
