(* ===== verification/Watchdog.thy ===== *)
theory Watchdog
  imports PyValue PyString
begin

text \<open>
  \<open>hmz.coganchor.agents.watchdog\<close>: the clock one turn is kept under, and the ladder climbed when it runs
  out -- look at the process, ask the turn to stop, put its transport down, kill what is left. A tick of
  the watching thread is one step; what the machine answers while it is taken (the process, what asking
  it to stop came to, whether the turn is over by then) is an input of it. What is said is kept as a
  notice, and what is done to the turn or its processes as an act.
\<close>

section \<open>The watchdog of a turn\<close>

datatype rung = LOOK | INTERRUPT | DROP | KILL | SPENT

datatype proc_state = NoProcess | Working | Idle | Suspended | Gone

datatype notice =
    StillWorking rat
  | Silent proc_state rat
  | AskedToStop rat
  | CannotBeAsked
  | WouldNot string
  | CannotRestart
  | PuttingDown
  | Ending
  | Killing

datatype act = Wedges | Interrupts | LetsGo | Terminate nat | KillProc nat

definition GRANTS :: nat where
  "GRANTS = 4"

definition BUSY_TIME :: rat where
  "BUSY_TIME = 1 / 2"

text \<open>The part of a backend's profile it reads.\<close>

record watched =
  w_silence :: pyfloat
  w_restarts :: bool
  w_shares :: bool

definition window :: "string \<Rightarrow> watched \<Rightarrow> pyfloat" where
  "window environ profile =
     (let said = py_strip environ in
      if said \<noteq> [] then (case py_float (VStr said) of Some x \<Rightarrow> x | None \<Rightarrow> w_silence profile)
      else w_silence profile)"

record dog =
  d_spoke :: rat
  d_since :: rat
  d_granted :: nat
  d_at :: rung
  d_busy :: rat
  d_holds :: nat
  d_held :: rat
  d_why :: "(proc_state \<times> rat) option"
  d_doomed :: "nat option"
  d_kin :: "nat list"
  d_verdict :: "(proc_state \<times> rat) option option"
  d_done :: bool
  d_ticking :: bool
  d_said :: "notice list"
  d_acts :: "act list"

definition dog_made :: "rat \<Rightarrow> dog" where
  "dog_made now =
     \<lparr>d_spoke = now, d_since = now, d_granted = 0, d_at = LOOK, d_busy = 0, d_holds = 0, d_held = 0,
      d_why = None, d_doomed = None, d_kin = [], d_verdict = None, d_done = False, d_ticking = False,
      d_said = [], d_acts = []\<rparr>"

definition enter :: "pyfloat \<Rightarrow> rat \<Rightarrow> dog \<Rightarrow> dog" where
  "enter silence burnt d =
     (if f_le silence (Fin 0) then d else d\<lparr>d_busy := burnt, d_ticking := True\<rparr>)"

definition dog_says :: "notice \<Rightarrow> dog \<Rightarrow> dog" where
  "dog_says what d = d\<lparr>d_said := d_said d @ [what]\<rparr>"

definition dog_does :: "act list \<Rightarrow> dog \<Rightarrow> dog" where
  "dog_does acts d = d\<lparr>d_acts := d_acts d @ acts\<rparr>"

definition saw :: "rat \<Rightarrow> dog \<Rightarrow> dog" where
  "saw now d = (if d_at d = LOOK then d\<lparr>d_spoke := now, d_since := now, d_granted := 0\<rparr> else d)"

definition hold_clock :: "rat \<Rightarrow> dog \<Rightarrow> dog" where
  "hold_clock now d = d\<lparr>d_holds := d_holds d + 1, d_held := (if d_holds d = 0 then now else d_held d)\<rparr>"

definition let_clock :: "rat \<Rightarrow> dog \<Rightarrow> dog" where
  "let_clock now d =
     (let holds = d_holds d - 1; over = now - d_held d in
      if holds = 0 then d\<lparr>d_holds := holds, d_spoke := d_spoke d + over, d_since := d_since d + over\<rparr>
      else d\<lparr>d_holds := holds\<rparr>)"

text \<open>How a turn ends: what came out of its block, and whether that is a run ended by hand.\<close>

datatype came_out = Nothing_raised | Error_raised | Stop_raised | Other_raised

datatype raised = As_it_was came_out | Verdict "(proc_state \<times> rat) option"

definition exit_dog :: "came_out \<Rightarrow> dog \<Rightarrow> raised \<times> dog" where
  "exit_dog value d =
     (case d_verdict d of
        Some v \<Rightarrow> (if value = Error_raised then Verdict v else As_it_was value)
      | None \<Rightarrow> As_it_was value, d\<lparr>d_done := True, d_ticking := False\<rparr>)"

section \<open>Looking at the process\<close>

text \<open>A process: whether it was reaped, and its status and the time its tree has burned, where the system says.\<close>

record view =
  v_pid :: nat
  v_exited :: bool
  v_asked :: "(string \<times> rat) option"

definition state_of :: "view option \<Rightarrow> rat \<Rightarrow> proc_state \<times> rat" where
  "state_of v busy =
     (case v of
        None \<Rightarrow> (NoProcess, busy)
      | Some v \<Rightarrow>
          if v_exited v then (Gone, busy)
          else (case v_asked v of
                  None \<Rightarrow> (Gone, busy)
                | Some (status, now) \<Rightarrow>
                    if status = ''zombie'' \<or> status = ''dead'' then (Gone, busy)
                    else if status = ''stopped'' then (Suspended, busy)
                    else (if now - busy \<ge> BUSY_TIME then Working else Idle, now)))"

datatype asked = Asked_ok | No_way | Refused string

record seen =
  e_view :: "view option"
  e_asked :: asked
  e_over :: bool
  e_kin :: "nat list"
  e_living :: "nat \<Rightarrow> bool"
  e_doomed_ended :: bool

definition quiet :: "rat \<Rightarrow> dog \<Rightarrow> rat" where
  "quiet now d = now - d_spoke d"

section \<open>The ladder\<close>

definition looked :: "rat \<Rightarrow> seen \<Rightarrow> dog \<Rightarrow> dog \<times> rung" where
  "looked now e d =
     (case state_of (e_view e) (d_busy d) of
        (state, busy) \<Rightarrow>
          let d = d\<lparr>d_busy := busy\<rparr> in
          if state = Working \<and> d_granted d < GRANTS
          then (dog_says (StillWorking (quiet now d)) (d\<lparr>d_granted := d_granted d + 1\<rparr>), LOOK)
          else (dog_says (Silent state (quiet now d)) (d\<lparr>d_why := Some (state, quiet now d)\<rparr>),
                if state = Gone then DROP else INTERRUPT))"

definition verdicts :: "dog \<Rightarrow> dog" where
  "verdicts d = dog_does [Wedges] (d\<lparr>d_verdict := Some (d_why d)\<rparr>)"

definition dropped :: "watched \<Rightarrow> seen \<Rightarrow> dog \<Rightarrow> dog \<times> rung" where
  "dropped w e d =
     (if \<not> w_restarts w then (dog_says CannotRestart d, SPENT)
      else if e_view e = None \<or> w_shares w then
        (let d = dog_says PuttingDown d in
         if e_over e then (d, SPENT) else (dog_does [LetsGo] (verdicts d), KILL))
      else
        (let d = dog_says Ending d; pid = v_pid (the (e_view e)) in
         if e_over e then (d, SPENT)
         else (dog_does (map Terminate (e_kin e) @ [Terminate pid])
                 ((verdicts d)\<lparr>d_doomed := Some pid, d_kin := e_kin e\<rparr>), KILL)))"

definition interrupted :: "watched \<Rightarrow> rat \<Rightarrow> seen \<Rightarrow> dog \<Rightarrow> dog \<times> rung" where
  "interrupted w now e d =
     (let d = dog_does [Wedges] d in
      case e_asked e of
        No_way \<Rightarrow> dropped w e (dog_says CannotBeAsked d)
      | Refused why \<Rightarrow> dropped w e (dog_says (WouldNot why) d)
      | Asked_ok \<Rightarrow> (verdicts (dog_says (AskedToStop (quiet now d)) (dog_does [Interrupts] d)), DROP))"

definition killed :: "seen \<Rightarrow> dog \<Rightarrow> dog \<times> rung" where
  "killed e d =
     (let left = filter (e_living e) (d_kin d) in
      if left = [] \<and> (d_doomed d = None \<or> e_doomed_ended e) then (d, SPENT)
      else (dog_does (map KillProc left @ (case d_doomed d of None \<Rightarrow> [] | Some p \<Rightarrow> [KillProc p])) (dog_says Killing d), SPENT))"

definition stepped :: "watched \<Rightarrow> rat \<Rightarrow> seen \<Rightarrow> dog \<Rightarrow> dog \<times> rung" where
  "stepped w now e d =
     (case d_at d of
        LOOK \<Rightarrow> looked now e d
      | INTERRUPT \<Rightarrow> interrupted w now e d
      | DROP \<Rightarrow> dropped w e d
      | _ \<Rightarrow> killed e d)"

definition fires :: "pyfloat \<Rightarrow> rat \<Rightarrow> dog \<Rightarrow> bool" where
  "fires silence now d \<longleftrightarrow> d_ticking d \<and> \<not> d_done d \<and> d_at d \<noteq> SPENT \<and> \<not> f_lt (Fin (now - d_since d)) silence \<and> d_holds d = 0"

definition tick :: "watched \<Rightarrow> pyfloat \<Rightarrow> rat \<Rightarrow> seen \<Rightarrow> dog \<Rightarrow> dog" where
  "tick w silence now e d =
     (if fires silence now d
      then (case stepped w now e (d\<lparr>d_since := now\<rparr>) of (d', rung) \<Rightarrow> d'\<lparr>d_at := rung\<rparr>)
      else d)"

section \<open>A turn's run under it\<close>

text \<open>
  Time passes, the backend says something, the clock is held and let go of, the thread ticks, the turn
  ends. Beside the watchdog and the time stand two counts nothing in the code keeps: the seconds not held
  since the clock last started again, and since the backend was last heeded.
\<close>

inductive watching :: "watched \<Rightarrow> pyfloat \<Rightarrow> dog \<Rightarrow> rat \<Rightarrow> rat \<Rightarrow> rat \<Rightarrow> bool" for w silence where
  Start: "watching w silence (enter silence burnt (dog_made now)) now 0 0"
| Pass: "watching w silence d now q unheard \<Longrightarrow> 0 \<le> dt \<Longrightarrow>
    watching w silence d (now + dt) (if d_holds d = 0 then q + dt else q) (if d_holds d = 0 then unheard + dt else unheard)"
| Saw: "watching w silence d now q unheard \<Longrightarrow>
    watching w silence (saw now d) now (if d_at d = LOOK then 0 else q) (if d_at d = LOOK then 0 else unheard)"
| Hold: "watching w silence d now q unheard \<Longrightarrow> watching w silence (hold_clock now d) now q unheard"
| Let: "watching w silence d now q unheard \<Longrightarrow> 0 < d_holds d \<Longrightarrow> watching w silence (let_clock now d) now q unheard"
| Tick: "watching w silence d now q unheard \<Longrightarrow>
    watching w silence (tick w silence now e d) now (if fires silence now d then 0 else q) unheard"
| Exit: "watching w silence d now q unheard \<Longrightarrow> watching w silence (snd (exit_dog value d)) now q unheard"

named_theorems dog_defs

lemmas [dog_defs] = dog_says_def dog_does_def verdicts_def saw_def hold_clock_def let_clock_def exit_dog_def
  looked_def dropped_def interrupted_def killed_def stepped_def tick_def enter_def dog_made_def Let_def





text \<open>Where the ladder stands says for how long the backend was not heard.\<close>

lemma stepped_rung:
  assumes "stepped w now e d = (d', rung)"
  shows "rung \<noteq> LOOK \<or> d_at d = LOOK \<and> d_granted d' = d_granted d + 1"
  using assms by (auto simp: dog_defs split: rung.splits asked.splits option.splits prod.splits if_splits)




text \<open>A turn whose CLI sits idle: looked at, then asked to stop, then ended, then killed.\<close>

definition sample_watched :: watched where
  "sample_watched = \<lparr>w_silence = Fin 900, w_restarts = True, w_shares = False\<rparr>"

definition sample_seen :: seen where
  "sample_seen = \<lparr>e_view = Some \<lparr>v_pid = 7, v_exited = False, v_asked = Some (''sleeping'', 3)\<rparr>, e_asked = Asked_ok,
     e_over = False, e_kin = [8, 9], e_living = (\<lambda>p. p = 9), e_doomed_ended = False\<rparr>"

fun sample_dog :: "nat \<Rightarrow> dog" where
  "sample_dog 0 = enter (Fin 900) 3 (dog_made 0)"
| "sample_dog (Suc n) = tick sample_watched (Fin 900) (of_nat (Suc n) * 900) sample_seen (sample_dog n)"

lemmas sample_defs = sample_watched_def sample_seen_def fires_def state_of_def quiet_def GRANTS_def BUSY_TIME_def


lemma sample_watching:
  "n < 4 \<Longrightarrow> \<exists>q unheard. watching sample_watched (Fin 900) (sample_dog n) (of_nat (Suc n) * 900) q unheard"
proof (induction n)
  case 0
  from Pass [OF Start [of sample_watched "Fin 900" 3 0], of 900] show ?case by (auto split: if_splits)
next
  case (Suc n)
  then obtain q unheard where "watching sample_watched (Fin 900) (sample_dog n) (of_nat (Suc n) * 900) q unheard" by auto
  from Pass [OF Tick [OF this, of sample_seen], of 900] show ?case by (auto simp: field_simps)
qed


section \<open>What is done, and what a turn fails with\<close>

definition acted :: "dog \<Rightarrow> bool" where
  "acted d \<longleftrightarrow> (\<exists>a\<in>set (d_acts d). a \<noteq> Wedges)"

definition dog_ok :: "dog \<Rightarrow> bool" where
  "dog_ok d \<longleftrightarrow>
     (d_verdict d \<noteq> None \<longleftrightarrow> acted d) \<and> (d_at d = KILL \<longrightarrow> acted d) \<and>
     (\<forall>p. KillProc p \<in> set (d_acts d) \<longrightarrow> Terminate p \<in> set (d_acts d)) \<and>
     (\<forall>p. d_doomed d = Some p \<longrightarrow> Terminate p \<in> set (d_acts d)) \<and> (\<forall>p\<in>set (d_kin d). Terminate p \<in> set (d_acts d))"

lemma dropped_ok: "dropped w e d = (d', rung) \<Longrightarrow> dog_ok (d\<lparr>d_at := DROP\<rparr>) \<Longrightarrow> dog_ok (d'\<lparr>d_at := rung\<rparr>)"
proof -
  assume d: "dropped w e d = (d', rung)" and ok: "dog_ok (d\<lparr>d_at := DROP\<rparr>)"
  consider "d_acts d' = d_acts d" "d_verdict d' = d_verdict d" "d_doomed d' = d_doomed d" "d_kin d' = d_kin d" "rung = SPENT"
    | "d_acts d' = d_acts d @ [Wedges, LetsGo]" "d_verdict d' \<noteq> None" "d_doomed d' = d_doomed d" "d_kin d' = d_kin d"
    | pid where "d_acts d' = d_acts d @ Wedges # map Terminate (e_kin e) @ [Terminate pid]" "d_verdict d' \<noteq> None"
        "d_doomed d' = Some pid" "d_kin d' = e_kin e"
    using d by (auto simp: dropped_def Let_def verdicts_def dog_does_def dog_says_def split: if_splits)
  then show ?thesis
  proof cases
    case 1
    with ok show ?thesis by (auto simp: dog_ok_def acted_def)
  next
    case 2
    with ok show ?thesis by (auto simp: dog_ok_def acted_def)
  next
    case 3
    with ok show ?thesis by (auto simp: dog_ok_def acted_def)
  qed
qed

lemma killed_kills:
  assumes "killed e d = (d', rung)"
  shows "rung = SPENT \<and> d_verdict d' = d_verdict d \<and> d_doomed d' = d_doomed d \<and> d_kin d' = d_kin d \<and>
         (\<exists>ks. d_acts d' = d_acts d @ map KillProc ks \<and> set ks \<subseteq> set (d_kin d) \<union> set_option (d_doomed d))"
proof (cases "filter (e_living e) (d_kin d) = [] \<and> (d_doomed d = None \<or> e_doomed_ended e)")
  case True
  with assms show ?thesis by (auto simp: killed_def Let_def intro: exI [of _ "[]"])
next
  case False
  let ?ks = "filter (e_living e) (d_kin d) @ (case d_doomed d of None \<Rightarrow> [] | Some p \<Rightarrow> [p])"
  have "d' = dog_does (map KillProc ?ks) (dog_says Killing d)" "rung = SPENT"
    using assms False by (auto simp: killed_def Let_def split: option.splits)
  then show ?thesis by (auto simp: dog_does_def dog_says_def intro!: exI [of _ ?ks] split: option.splits)
qed

lemma stepped_ok:
  assumes "stepped w now e d = (d', rung)" and "dog_ok d" and "d_at d \<noteq> SPENT"
  shows "dog_ok (d'\<lparr>d_at := rung\<rparr>)"
proof (cases "d_at d")
  case LOOK
  with assms show ?thesis by (auto simp: dog_defs dog_ok_def acted_def split: prod.splits if_splits)
next
  case INTERRUPT
  have wedged: "dog_ok (dog_says what (dog_does [Wedges] d)\<lparr>d_at := DROP\<rparr>)" for what
    using assms(2) by (auto simp: dog_defs dog_ok_def acted_def)
  show ?thesis
  proof (cases "e_asked e")
    case Asked_ok
    with INTERRUPT assms(1) have "d' = verdicts (dog_says (AskedToStop (quiet now (dog_does [Wedges] d))) (dog_does [Interrupts] (dog_does [Wedges] d)))"
      "rung = DROP" by (simp_all add: stepped_def interrupted_def Let_def)
    with assms(2) show ?thesis by (auto simp: verdicts_def dog_says_def dog_does_def dog_ok_def acted_def)
  next
    case No_way
    with INTERRUPT assms(1) have "dropped w e (dog_says CannotBeAsked (dog_does [Wedges] d)) = (d', rung)"
      by (simp add: stepped_def interrupted_def Let_def)
    from dropped_ok [OF this wedged] show ?thesis .
  next
    case (Refused why)
    with INTERRUPT assms(1) have "dropped w e (dog_says (WouldNot why) (dog_does [Wedges] d)) = (d', rung)"
      by (simp add: stepped_def interrupted_def Let_def)
    from dropped_ok [OF this wedged] show ?thesis .
  qed
next
  case DROP
  have "d\<lparr>d_at := DROP\<rparr> = d" using DROP by (cases d) simp
  then have "dog_ok (d\<lparr>d_at := DROP\<rparr>)" using assms(2) by (simp only:)
  moreover have "dropped w e d = (d', rung)" using DROP assms(1) by (simp add: stepped_def)
  ultimately show ?thesis using dropped_ok by blast
next
  case KILL
  have "killed e d = (d', rung)" using KILL assms(1) by (simp add: stepped_def)
  from killed_kills [OF this] obtain ks where ks: "rung = SPENT" "d_verdict d' = d_verdict d" "d_doomed d' = d_doomed d"
    "d_kin d' = d_kin d" "d_acts d' = d_acts d @ map KillProc ks" "set ks \<subseteq> set (d_kin d) \<union> set_option (d_doomed d)" by blast
  have "acted d" using assms(2) KILL by (simp add: dog_ok_def)
  moreover from this have "acted d'" by (auto simp: acted_def ks(5))
  moreover have "Terminate p \<in> set (d_acts d)" if "p \<in> set ks" for p
    using that ks(6) assms(2) by (auto simp: dog_ok_def)
  ultimately show ?thesis using ks assms(2) by (auto simp: dog_ok_def acted_def)
qed (use assms in simp)

lemma watched_ok: "watching w silence d now q unheard \<Longrightarrow> dog_ok d"
proof (induction rule: watching.induct)
  case (Tick d now q unheard e)
  then have "dog_ok (d\<lparr>d_since := now\<rparr>)" by (simp add: dog_ok_def acted_def)
  with stepped_ok [OF _ this, of w now e] Tick show ?case by (auto simp: tick_def fires_def split: prod.splits)
qed (auto simp: enter_def dog_made_def saw_def hold_clock_def let_clock_def exit_dog_def Let_def dog_ok_def acted_def)

text \<open>
  A turn fails with the watchdog's verdict exactly where the watchdog did something to it and what came
  out of it was a failure: a turn nothing was done to keeps its own failure, one that answered its answer,
  and a run ended by hand stays one. And no process is killed that was not asked to go first.
\<close>

theorem verdict_only_if_acted:
  assumes "watching w silence d now q unheard"
  shows "(fst (exit_dog value d) \<noteq> As_it_was value \<longleftrightarrow> acted d \<and> value = Error_raised) \<and>
         (\<forall>p. KillProc p \<in> set (d_acts d) \<longrightarrow> Terminate p \<in> set (d_acts d))"
  using watched_ok [OF assms] by (auto simp: dog_ok_def exit_dog_def split: option.splits)

theorem verdict_only_if_acted_witness:
  "(\<exists>now q unheard. watching sample_watched (Fin 900) (sample_dog 3) now q unheard) \<and> acted (sample_dog 3) \<and>
   fst (exit_dog Error_raised (sample_dog 3)) \<noteq> As_it_was Error_raised"
proof -
  from sample_watching [of 3] obtain now q unheard where
    w: "watching sample_watched (Fin 900) (sample_dog 3) now q unheard" by auto
  have "acted (sample_dog 3)" by (simp add: acted_def sample_defs dog_defs eval_nat_numeral)
  with verdict_only_if_acted [OF w, of Error_raised] w show ?thesis by blast
qed

section \<open>The ladder ends\<close>

definition ladder_left :: "dog \<Rightarrow> nat" where
  "ladder_left d =
     (case d_at d of LOOK \<Rightarrow> (GRANTS - d_granted d) + 4 | INTERRUPT \<Rightarrow> 3 | DROP \<Rightarrow> 2 | KILL \<Rightarrow> 1 | SPENT \<Rightarrow> 0)"

lemma tick_climbs:
  assumes "fires silence now d"
  shows "ladder_left (tick w silence now e d) < ladder_left d"
proof -
  obtain d' rung where step: "stepped w now e (d\<lparr>d_since := now\<rparr>) = (d', rung)" by (cases "stepped w now e (d\<lparr>d_since := now\<rparr>)")
  have drops: "r = KILL \<or> r = SPENT" if "dropped w e d1 = (d2, r)" for d1 d2 r
    using that by (auto simp: dropped_def Let_def split: if_splits)
  have "ladder_left (d'\<lparr>d_at := rung\<rparr>) < ladder_left d"
  proof (cases "d_at d")
    case LOOK
    with step show ?thesis by (auto simp: ladder_left_def stepped_def looked_def dog_says_def Let_def split: prod.splits if_splits)
  next
    case INTERRUPT
    with step show ?thesis
      by (auto simp: ladder_left_def stepped_def interrupted_def Let_def split: asked.splits dest!: drops)
  next
    case DROP
    with step show ?thesis by (auto simp: ladder_left_def stepped_def dest!: drops)
  next
    case KILL
    with step show ?thesis by (auto simp: ladder_left_def stepped_def killed_def Let_def split: if_splits)
  qed (use assms in \<open>simp add: fires_def\<close>)
  with assms step show ?thesis by (simp add: tick_def)
qed

fun climbs :: "watched \<Rightarrow> pyfloat \<Rightarrow> (rat \<times> seen) list \<Rightarrow> dog \<Rightarrow> bool" where
  "climbs w silence [] d = True"
| "climbs w silence ((now, e) # es) d \<longleftrightarrow> fires silence now d \<and> climbs w silence es (tick w silence now e d)"

text \<open>
  A backend that never says another word is dealt with for good: whatever the machine answers, the
  window runs out at most eight times -- four for a process still working, then look, ask, put down, kill --
  before there is nothing left to do, so a wedged turn is held for eight windows at the most.
\<close>

theorem ladder_runs_out:
  assumes "climbs w silence es d"
  shows "length es \<le> GRANTS + 4"
proof -
  have "length es \<le> ladder_left d" using assms
  proof (induction es arbitrary: d)
    case (Cons x es)
    then show ?case using tick_climbs [of silence "fst x" d w "snd x"] by (cases x) fastforce
  qed simp
  also have "\<dots> \<le> GRANTS + 4" by (auto simp: ladder_left_def split: rung.splits)
  finally show ?thesis .
qed

theorem ladder_runs_out_witness:
  "climbs sample_watched (Fin 900) [(900, sample_seen), (1800, sample_seen), (2700, sample_seen), (3600, sample_seen)] (sample_dog 0) \<and>
   length [(900 :: rat, sample_seen), (1800, sample_seen), (2700, sample_seen), (3600, sample_seen)] \<le> 8"
proof -
  have c: "climbs sample_watched (Fin 900) [(900, sample_seen), (1800, sample_seen), (2700, sample_seen), (3600, sample_seen)] (sample_dog 0)"
    by (simp add: sample_defs dog_defs)
  from ladder_runs_out [OF c] c show ?thesis by (simp add: GRANTS_def)
qed

section \<open>Where the clock is off\<close>

text \<open>
  A word heard while the clock is held moves it past now when the hold ends, by the part of the hold
  before the word: the backend is then not looked at for that much longer than a window.
\<close>

lemma word_in_hold_delays:
  assumes "d_at d = LOOK" and "d_holds d = 0" and "t0 < t1" and "t1 \<le> t2"
  shows "d_since (let_clock t2 (saw t1 (hold_clock t0 d))) = t2 + (t1 - t0)"
  using assms by (simp add: dog_defs)

text \<open>A window said as not a number is one every tick has run out.\<close>

lemma nan_window_fires: "d_ticking d \<Longrightarrow> \<not> d_done d \<Longrightarrow> d_at d = LOOK \<Longrightarrow> d_holds d = 0 \<Longrightarrow> fires NaN now d"
  by (simp add: fires_def)

end
