(* ===== verification/Paths.thy ===== *)
theory Paths
  imports PyString
begin

text \<open>
  The spelling of paths both halves of a session agree on (\<open>hmz.coganchor.proto\<close>): the one spelling two
  machines can be held to, every name a directory answers to, what of a path lies below a root, and the
  translation of a root inside a command line. A character is one of Latin-1.
\<close>

section \<open>One spelling\<close>

definition ALIASED :: "string list" where
  "ALIASED = [''etc'', ''tmp'', ''var'']"

definition ALIASES :: "string list" where
  "ALIASES = map (\<lambda>name. ''/private/'' @ name) ALIASED"

abbreviation line_end :: char where
  "line_end \<equiv> CHR 0x0A"

text \<open>What \<open>_PRIVATE\<close> matches: \<open>$\<close> is the end, or a last line end.\<close>

definition at_end :: "string \<Rightarrow> bool" where
  "at_end s \<longleftrightarrow> s = [] \<or> s = [line_end]"

definition mac_private :: "string \<Rightarrow> bool" where
  "mac_private path \<longleftrightarrow>
     starts_with ''/private'' path \<and>
     (\<exists>name\<in>set ALIASED. starts_with (''/'' @ name) (drop 8 path) \<and>
        (starts_with ''/'' (drop (9 + length name) path) \<or> at_end (drop (9 + length name) path)))"

definition cased :: "bool \<Rightarrow> string \<Rightarrow> string" where
  "cased folds s = (if folds then casefold s else s)"

definition path_key :: "bool \<Rightarrow> string \<Rightarrow> string" where
  "path_key folds path = cased folds (if mac_private path then drop 8 path else path)"

definition path_spellings :: "string \<Rightarrow> string list" where
  "path_spellings path =
     (let folded = path_key False path; aliased = ''/private'' @ path in
      if folded \<noteq> path then [path, folded]
      else if path_key False aliased \<noteq> aliased then [path, aliased]
      else [path])"

definition spelled_twice :: "string \<Rightarrow> bool" where
  "spelled_twice path \<longleftrightarrow>
     (let root = rstrip_char CHR ''/'' path in
      length (path_spellings root) > 1 \<or> (\<exists>alias\<in>set ALIASES. starts_with (root @ ''/'') alias))"

section \<open>Below a root\<close>

definition path_within :: "bool \<Rightarrow> string \<Rightarrow> string \<Rightarrow> string option" where
  "path_within folds path root =
     (let below = path_key False path; above = rstrip_char CHR ''/'' (path_key False root) in
      if above = [] then Some (lstrip_char CHR ''/'' below)
      else let front = take (length above) below; tail = drop (length above) below in
        if cased folds front \<noteq> cased folds above then None
        else if tail = [] then Some []
        else if starts_with ''/'' tail then Some (lstrip_char CHR ''/'' tail) else None)"

section \<open>A root inside a command line\<close>

definition boundary :: "char \<Rightarrow> bool" where
  "boundary c \<longleftrightarrow> is_space c \<or> c \<in> set ''\"=:,;()[]<>|&'' \<or> c = CHR 0x27"

definition same_text :: "bool \<Rightarrow> string \<Rightarrow> string \<Rightarrow> bool" where
  "same_text insensitive a b \<longleftrightarrow> (if insensitive then map lower_char a = map lower_char b else a = b)"

definition prefix_here :: "bool \<Rightarrow> string \<Rightarrow> char option \<Rightarrow> string \<Rightarrow> bool" where
  "prefix_here insensitive prefix prev text \<longleftrightarrow>
     (case prev of None \<Rightarrow> True | Some c \<Rightarrow> boundary c) \<and>
     length prefix \<le> length text \<and> same_text insensitive (take (length prefix) text) prefix \<and>
     (case drop (length prefix) text of [] \<Rightarrow> True | c # _ \<Rightarrow> c = CHR ''/'' \<or> boundary c)"

text \<open>\<open>Pattern.sub\<close>: from the left, a match where there is one, and on after it. No root is the empty text.\<close>

function sub_prefix :: "bool \<Rightarrow> string \<Rightarrow> string \<Rightarrow> char option \<Rightarrow> string \<Rightarrow> string" where
  "sub_prefix insensitive prefix replacement prev text =
     (case text of
        [] \<Rightarrow> []
      | c # rest \<Rightarrow>
          if prefix \<noteq> [] \<and> prefix_here insensitive prefix prev text
          then replacement @ sub_prefix insensitive prefix replacement (Some (text ! (length prefix - 1))) (drop (length prefix) text)
          else c # sub_prefix insensitive prefix replacement (Some c) rest)"
  by pat_completeness auto
termination by (relation "measure (\<lambda>(i, p, r, prev, text). length text)") auto

declare sub_prefix.simps [simp del]

definition rewrite_path_prefix :: "bool \<Rightarrow> string \<Rightarrow> string \<Rightarrow> string \<Rightarrow> string" where
  "rewrite_path_prefix insensitive text prefix replacement =
     (if prefix = replacement \<or> \<not> insensitive \<and> \<not> contains_sub prefix text then text
      else sub_prefix insensitive prefix replacement None text)"

section \<open>Placing a path\<close>

lemma drop_prefix: "starts_with p s \<Longrightarrow> s = p @ drop (length p) s"
  unfolding starts_with_def by (metis append_take_drop_id)

lemma mac_private_not_twice:
  assumes "mac_private path"
  shows "\<not> mac_private (drop 8 path)"
proof -
  obtain name where "name \<in> set ALIASED" "starts_with (''/'' @ name) (drop 8 path)" using assms by (auto simp: mac_private_def)
  then obtain rest where "drop 8 path = ''/'' @ name @ rest" using drop_prefix by fastforce
  with \<open>name \<in> set ALIASED\<close> show ?thesis by (auto simp: mac_private_def ALIASED_def starts_with_def)
qed

lemma path_key_idem [path_simps]: "path_key False (path_key False path) = path_key False path"
  using mac_private_not_twice by (auto simp: path_key_def cased_def)

lemma path_within_key [path_simps]:
  "path_within folds (path_key False path) root = path_within folds path root"
  "path_within folds path (path_key False root) = path_within folds path root"
  by (simp_all add: path_within_def path_key_idem)

text \<open>A case-folding comparison finds what a plain one does, and the same piece of the path.\<close>

lemma path_within_folds: "path_within False path root = Some s \<Longrightarrow> path_within folds path root = Some s"
  by (auto simp: path_within_def Let_def cased_def split: if_splits)

lemma lstrip_not_slash: "\<not> starts_with ''/'' (lstrip_char CHR ''/'' s)"
  by (induction s) (auto simp: lstrip_char_def starts_with_def)

lemma path_within_suffix: "path_within folds path root = Some s \<Longrightarrow> \<not> starts_with ''/'' s"
  using lstrip_not_slash by (auto simp: path_within_def Let_def starts_with_def split: if_splits)

text \<open>What lies below a root is the end of the path, as it was spelled.\<close>

lemma path_within_end:
  assumes "path_within folds path root = Some s"
  shows "\<exists>front. path = front @ s"
proof -
  have strip: "\<exists>u. t = u @ lstrip_char CHR ''/'' t" for t using lstrip_char_parts [of t "CHR ''/''"] by blast
  let ?below = "path_key False path"
  have "\<exists>u. ?below = u @ s"
  proof (cases "rstrip_char CHR ''/'' (path_key False root) = []")
    case True
    with assms strip [of ?below] show ?thesis by (auto simp: path_within_def Let_def)
  next
    case False
    define n where "n = length (rstrip_char CHR ''/'' (path_key False root))"
    have "drop n ?below = [] \<and> s = [] \<or> s = lstrip_char CHR ''/'' (drop n ?below)"
      using assms False by (auto simp: path_within_def Let_def n_def split: if_splits)
    moreover have "?below = take n ?below @ drop n ?below" by simp
    ultimately show ?thesis using strip [of "drop n ?below"] by (metis append.assoc append_Nil2)
  qed
  moreover have "\<exists>v. path = v @ ?below" by (auto simp: path_key_def cased_def intro: exI [of _ "take 8 path"] exI [of _ "[]"])
  ultimately show ?thesis by (metis append.assoc)
qed

end
