(* ===== verification/Routing.thy ===== *)
theory Routing
  imports Paths
begin

text \<open>
  \<open>hmz.coganchor.policy\<close>: which of the paths and programs an agent names belong to the target, and under
  what name. A \<open>router\<close> keeps, beside its tables, whether it has anything to settle, once the target has
  said what it is; the operations that ask take what the target says of itself now and give the router back.
\<close>

section \<open>Tables of answered paths\<close>

abbreviation wildcard :: char where
  "wildcard \<equiv> CHR ''*''"

definition head_of :: "string \<Rightarrow> string" where
  "head_of name = fst (py_partition wildcard name)"

text \<open>A pattern against a name: \<open>.*\<close> for each star, which no line end is in.\<close>

fun glob :: "string \<Rightarrow> string \<Rightarrow> bool" where
  "glob [] s = (s = [])"
| "glob (p # ps) s =
     (if p = wildcard
      then glob ps s \<or> (case s of [] \<Rightarrow> False | c # cs \<Rightarrow> c \<noteq> line_end \<and> glob (p # ps) cs)
      else (case s of [] \<Rightarrow> False | c # cs \<Rightarrow> p = c \<and> glob ps cs))"

definition matches_name :: "string \<Rightarrow> string \<Rightarrow> bool" where
  "matches_name name pattern = (if wildcard \<notin> set pattern then name = pattern else glob pattern name)"

definition answered :: "string \<Rightarrow> string \<Rightarrow> string \<Rightarrow> string option" where
  "answered name instead path =
     (if wildcard \<notin> set name then
        (if path = name then Some instead
         else if starts_with (name @ ''/'') path \<or> starts_with (name @ ''.'') path
         then Some (instead @ drop (length name) path)
         else None)
      else
        (let wanted = py_split CHR ''/'' name; said = py_split CHR ''/'' path in
         if length said < length wanted \<or> \<not> list_all2 matches_name (take (length wanted) said) wanted then None
         else let fixed = length (takeWhile (\<lambda>one. wildcard \<notin> set one) wanted);
                  parts = py_split CHR ''/'' instead;
                  kept = take (length parts - (length wanted - fixed)) parts
              in Some (py_join ''/'' (kept @ drop fixed said))))"

section \<open>Layouts\<close>

record layout =
  l_local :: string
  l_virtual :: string

definition normalise :: "surroundings \<Rightarrow> string \<Rightarrow> string" where
  "normalise w path =
     (let kept = rstrip_char CHR ''/'' (abspath w (expanduser w path)) in if kept \<noteq> [] then kept else ''/'')"

definition layout_made :: "surroundings \<Rightarrow> string \<Rightarrow> string option \<Rightarrow> layout" where
  "layout_made w local_root virtual_root =
     (let local = normalise w local_root in
      \<lparr>l_local = local,
       l_virtual = (case virtual_root of Some v \<Rightarrow> (if v \<noteq> [] then normalise w v else local) | None \<Rightarrow> local)\<rparr>)"

definition below :: "bool \<Rightarrow> layout \<Rightarrow> string \<Rightarrow> string option" where
  "below insensitive l path = path_within insensitive path (l_local l)"

definition holds_path :: "bool \<Rightarrow> layout \<Rightarrow> string \<Rightarrow> bool" where
  "holds_path insensitive l path \<longleftrightarrow> below insensitive l path \<noteq> None"

definition on_root :: "string \<Rightarrow> string \<Rightarrow> string" where
  "on_root root suffix = (if suffix \<noteq> [] then path_join root suffix else root)"

text \<open>\<open>Layout.to_virtual\<close>, \<open>None\<close> for the \<open>ValueError\<close>.\<close>

definition layout_virtual :: "layout \<Rightarrow> string \<Rightarrow> string option" where
  "layout_virtual l path =
     (case (case below False l path of None \<Rightarrow> below True l path | Some s \<Rightarrow> Some s) of
        None \<Rightarrow> None
      | Some suffix \<Rightarrow> Some (on_root (l_virtual l) suffix))"

section \<open>The router\<close>

record router =
  r_layouts :: "layout list"
  r_local_paths :: "string list"
  r_local_programs :: "string list"
  r_redirects :: "(string \<times> string) list"
  r_aliases :: "(string \<times> string) list"
  r_settled :: "bool option"

definition CASE_INSENSITIVE :: "string list" where
  "CASE_INSENSITIVE = [''darwin'']"

definition insensitive :: "string \<Rightarrow> bool" where
  "insensitive said \<longleftrightarrow> said \<in> set CASE_INSENSITIVE"

definition realiased :: "(string \<times> string) list \<Rightarrow> string list \<Rightarrow> string list" where
  "realiased aliases paths =
     concat (map (\<lambda>kept. concat (map (\<lambda>(name, root).
       case path_within False kept name of None \<Rightarrow> [] | Some suffix \<Rightarrow> [on_root root suffix]) aliases)) paths)"

text \<open>\<open>__post_init__\<close>: Python's sort is stable, as \<open>sort_key\<close> is.\<close>

definition router_made ::
    "surroundings \<Rightarrow> layout list \<Rightarrow> string list \<Rightarrow> string list \<Rightarrow> (string \<times> string) list \<Rightarrow> (string \<times> string) list \<Rightarrow> router" where
  "router_made w layouts local_paths local_programs redirects aliases =
     (let named = map (\<lambda>(name, root). (normalise w name, normalise w root)) aliases in
      \<lparr>r_layouts = sort_key (\<lambda>l. - int (length (path_key False (l_local l)))) layouts,
       r_local_paths = local_paths @ realiased named local_paths,
       r_local_programs = local_programs @ realiased named local_programs,
       r_redirects = sort_key (\<lambda>p. - int (length (fst p)))
                       (map (\<lambda>(name, instead). (normalise w name, normalise w instead)) redirects),
       r_aliases = named, r_settled = None\<rparr>)"

definition to_settle :: "string \<Rightarrow> router \<Rightarrow> bool" where
  "to_settle said r \<longleftrightarrow>
     insensitive said \<or> r_aliases r \<noteq> [] \<or> (\<exists>l\<in>set (r_layouts r). spelled_twice (l_local l))"

definition settles :: "string \<Rightarrow> router \<Rightarrow> bool \<times> router" where
  "settles said r =
     (case r_settled r of
        Some b \<Rightarrow> (b, r)
      | None \<Rightarrow> (let b = to_settle said r in (b, if said \<noteq> [] then r\<lparr>r_settled := Some b\<rparr> else r)))"

definition unaliased :: "string \<Rightarrow> router \<Rightarrow> string \<Rightarrow> string" where
  "unaliased said r path =
     (case first_some (\<lambda>(name, root). map_option (on_root root) (path_within (insensitive said) path name)) (r_aliases r) of
        None \<Rightarrow> path | Some p \<Rightarrow> p)"

definition canonical :: "string \<Rightarrow> router \<Rightarrow> string \<Rightarrow> string \<times> router" where
  "canonical said r path =
     (case settles said r of
        (False, r) \<Rightarrow> (path, r)
      | (True, r) \<Rightarrow>
          (let path = unaliased said r path in
           ((case first_some (\<lambda>l. map_option (on_root (l_local l)) (below (insensitive said) l path)) (r_layouts r) of
               None \<Rightarrow> path | Some p \<Rightarrow> p), r)))"

definition is_hole :: "string \<Rightarrow> layout \<Rightarrow> string \<Rightarrow> string \<Rightarrow> bool" where
  "is_hole said l path kept \<longleftrightarrow>
     path_within (insensitive said) path kept \<noteq> None \<and>
     (case path_within (insensitive said) kept (l_local l) of None \<Rightarrow> False | Some s \<Rightarrow> s \<noteq> [])"

definition layout_for :: "string \<Rightarrow> router \<Rightarrow> string \<Rightarrow> layout option" where
  "layout_for said r path =
     (case first_of (\<lambda>l. holds_path (insensitive said) l path) (r_layouts r) of
        None \<Rightarrow> None
      | Some l \<Rightarrow> if \<exists>kept\<in>set (r_local_paths r). is_hole said l path kept then None else Some l)"

definition is_remote_path :: "string \<Rightarrow> router \<Rightarrow> string \<Rightarrow> bool" where
  "is_remote_path said r path \<longleftrightarrow> layout_for said r path \<noteq> None"

definition to_virtual :: "string \<Rightarrow> router \<Rightarrow> string \<Rightarrow> string option" where
  "to_virtual said r path = (case layout_for said r path of None \<Rightarrow> None | Some l \<Rightarrow> layout_virtual l path)"

definition virtual_cwd :: "string \<Rightarrow> router \<Rightarrow> string \<Rightarrow> string option" where
  "virtual_cwd said r path = (case layout_for said r path of None \<Rightarrow> Some path | Some l \<Rightarrow> layout_virtual l path)"

definition rewrite_names :: "string \<Rightarrow> router \<Rightarrow> layout \<Rightarrow> string list" where
  "rewrite_names said r l =
     concat (map path_spellings (l_local l #
       map fst (filter (\<lambda>(name, root). path_within (insensitive said) root (l_local l) = Some []) (r_aliases r))))"

definition rewrite :: "string \<Rightarrow> router \<Rightarrow> string \<Rightarrow> string" where
  "rewrite said r text =
     fold (\<lambda>l text. fold (\<lambda>spelling text. rewrite_path_prefix (insensitive said) text spelling (l_virtual l))
                      (rewrite_names said r l) text) (r_layouts r) text"

definition runs_locally :: "string \<Rightarrow> router \<Rightarrow> string \<Rightarrow> bool" where
  "runs_locally said r program \<longleftrightarrow> (\<exists>prefix\<in>set (r_local_programs r). path_within (insensitive said) program prefix \<noteq> None)"

definition swap :: "router \<Rightarrow> string \<Rightarrow> string option" where
  "swap r path = first_some (\<lambda>(name, instead). answered name instead path) (r_redirects r)"

section \<open>The deepest layout wins\<close>

lemma first_of_sorted:
  assumes "sorted (map f xs)" and "first_of P xs = Some x" and "y \<in> set xs" and "P y"
  shows "f x \<le> f y"
  using assms by (induction xs) (auto split: if_splits)

lemma first_of_sort_key:
  assumes "first_of P (sort_key f xs) = Some x"
  shows "x \<in> set xs \<and> P x \<and> (\<forall>y\<in>set xs. P y \<longrightarrow> f x \<le> f y)"
  using first_of_SomeD [OF assms] first_of_sorted [OF sorted_sort_key assms] by auto

text \<open>A plain comparison settles where a path lies; the case-folding one finds the same piece of it.\<close>

lemma layout_virtual_below:
  assumes "below insens l path = Some s"
  shows "layout_virtual l path = Some (on_root (l_virtual l) s)"
proof (cases "below False l path")
  case None
  with assms have "insens" by (cases insens) auto
  with assms None show ?thesis by (simp add: layout_virtual_def)
next
  case (Some s')
  then have "below insens l path = Some s'" unfolding below_def by (rule path_within_folds)
  with assms Some show ?thesis by (simp add: layout_virtual_def)
qed

text \<open>
  C19. A path of the target's is routed by the deepest layout that holds it, under whatever spelling it was
  named, and to the place below that layout's root on the target it has below its root here -- never to the
  root itself unless it is the root; and no path in a hole of that layout, where the agent's own state is
  kept, is ever the target's.
\<close>

theorem remote_paths_routed:
  assumes "layout_for said (router_made w layouts kept programs redirects aliases) path = Some l"
  shows "l \<in> set layouts \<and>
         (\<forall>l'\<in>set layouts. holds_path (insensitive said) l' path \<longrightarrow>
            length (path_key False (l_local l')) \<le> length (path_key False (l_local l))) \<and>
         (\<forall>hole\<in>set kept. \<not> is_hole said l path hole) \<and>
         (\<exists>s. path_within (insensitive said) path (l_local l) = Some s \<and>
              to_virtual said (router_made w layouts kept programs redirects aliases) path = Some (on_root (l_virtual l) s))"
proof -
  let ?r = "router_made w layouts kept programs redirects aliases"
  have found: "first_of (\<lambda>l. holds_path (insensitive said) l path) (r_layouts ?r) = Some l"
    "\<forall>hole\<in>set (r_local_paths ?r). \<not> is_hole said l path hole"
    using assms by (auto simp: layout_for_def split: option.splits if_splits)
  have lays: "r_layouts ?r = sort_key (\<lambda>l. - int (length (path_key False (l_local l)))) layouts"
    and paths: "set kept \<subseteq> set (r_local_paths ?r)" by (simp_all add: router_made_def Let_def)
  from first_of_sort_key [OF found(1) [unfolded lays]] have l: "l \<in> set layouts" "holds_path (insensitive said) l path"
    "\<forall>l'\<in>set layouts. holds_path (insensitive said) l' path \<longrightarrow>
            length (path_key False (l_local l')) \<le> length (path_key False (l_local l))" by auto
  then obtain s where s: "below (insensitive said) l path = Some s" by (auto simp: holds_path_def)
  then have "to_virtual said ?r path = Some (on_root (l_virtual l) s)"
    using assms layout_virtual_below [OF s] by (simp add: to_virtual_def)
  with l found(2) paths s show ?thesis by (auto simp: below_def)
qed

definition sample_router :: router where
  "sample_router = router_made \<lparr>cwd = ''/'', home_of = (\<lambda>_. None)\<rparr>
     [\<lparr>l_local = ''/tmp/m'', l_virtual = ''/w''\<rparr>, \<lparr>l_local = ''/tmp/m/sub'', l_virtual = ''/s''\<rparr>]
     [''/tmp/m/.agent''] [] [] []"

lemma sample_routes:
  "layout_for ''linux'' sample_router ''/private/tmp/m/sub/f'' = Some \<lparr>l_local = ''/tmp/m/sub'', l_virtual = ''/s''\<rparr>"
  "path_within False ''/private/tmp/m/sub/f'' ''/tmp/m/sub'' = Some ''f''"
  "layout_for ''linux'' sample_router ''/tmp/m/.agent/x'' = None"
  by code_simp+

theorem remote_paths_routed_witness:
  "to_virtual ''linux'' sample_router ''/private/tmp/m/sub/f'' = Some ''/s/f''"
proof -
  have "insensitive ''linux'' = False" "on_root ''/s'' ''f'' = ''/s/f''" by code_simp+
  with remote_paths_routed [OF sample_routes(1) [unfolded sample_router_def]] sample_routes(2)
  show ?thesis unfolding sample_router_def by auto
qed

section \<open>The answer kept\<close>

text \<open>The paths of many system calls settled one after the other, with what the target said of itself at each.\<close>

fun canonicals :: "(string \<times> string) list \<Rightarrow> router \<Rightarrow> string list" where
  "canonicals [] r = []"
| "canonicals ((said, path) # asks) r = (case canonical said r path of (p, r) \<Rightarrow> p # canonicals asks r)"

definition truthful :: "string \<Rightarrow> router \<Rightarrow> bool" where
  "truthful platform r \<longleftrightarrow> r_settled r = None \<or> r_settled r = Some (to_settle platform r)"

lemma to_settle_memo [simp]: "to_settle said (r\<lparr>r_settled := m\<rparr>) = to_settle said r"
  by (simp add: to_settle_def)

lemma unaliased_memo [simp]: "unaliased said (r\<lparr>r_settled := m\<rparr>) path = unaliased said r path"
  by (simp add: unaliased_def)

lemma settles_afresh:
  assumes "truthful platform r" and "said = platform \<or> said = [] \<and> r_settled r = None"
  shows "fst (settles said r) = to_settle said r \<and> truthful platform (snd (settles said r)) \<and>
         (\<exists>m. snd (settles said r) = r\<lparr>r_settled := m\<rparr>) \<and> (said = [] \<longrightarrow> snd (settles said r) = r)"
proof -
  show ?thesis
  proof (cases "r_settled r")
    case None
    show ?thesis
    proof (cases "said = []")
      case True
      with None have "settles said r = (to_settle said r, r)" by (simp add: settles_def)
      with assms(1) show ?thesis by (auto intro: exI [of _ "r_settled r"])
    next
      case False
      with None have "settles said r = (to_settle said r, r\<lparr>r_settled := Some (to_settle said r)\<rparr>)" by (simp add: settles_def Let_def)
      with assms(2) False show ?thesis by (auto simp: truthful_def)
    qed
  next
    case (Some b)
    then have "settles said r = (b, r)" by (simp add: settles_def)
    with Some assms show ?thesis by (auto simp: truthful_def intro: exI [of _ "r_settled r"])
  qed
qed

lemma canonical_afresh:
  assumes "truthful platform r" and "said = platform \<or> said = [] \<and> r_settled r = None"
  shows "fst (canonical said r path) =
         (if to_settle said r
          then (let path = unaliased said r path in
                case first_some (\<lambda>l. map_option (on_root (l_local l)) (below (insensitive said) l path)) (r_layouts r) of
                  None \<Rightarrow> path | Some p \<Rightarrow> p)
          else path) \<and>
         snd (canonical said r path) = snd (settles said r)"
proof -
  obtain b r' where s: "settles said r = (b, r')" by (cases "settles said r")
  with settles_afresh [OF assms] obtain m where "b = to_settle said r" "r' = r\<lparr>r_settled := m\<rparr>" by auto
  with s show ?thesis by (cases b) (simp_all add: canonical_def Let_def split: option.splits)
qed

text \<open>
  Keeping whether there is anything to settle changes no answer: over any system calls of a session,
  those before the target has said what it is included, every path comes out as it would were the question
  worked out afresh for it.
\<close>

theorem settles_once_for_all:
  assumes "r_settled r = None" and "\<forall>(said, path)\<in>set before. said = []" and "\<forall>(said, path)\<in>set after. said = platform"
  shows "canonicals (before @ after) r = map (\<lambda>(said, path). fst (canonical said (r\<lparr>r_settled := None\<rparr>) path)) (before @ after)"
proof -
  have fresh: "truthful platform (r\<lparr>r_settled := None\<rparr>)" for r by (simp add: truthful_def)
  have after: "canonicals asks r = map (\<lambda>(said, path). fst (canonical said (r\<lparr>r_settled := None\<rparr>) path)) asks"
    if "truthful platform r" "\<forall>(said, path)\<in>set asks. said = platform" for asks r
    using that
  proof (induction asks arbitrary: r)
    case (Cons ask asks)
    obtain path where ask: "ask = (platform, path)" using Cons.prems(2) by (cases ask) auto
    from settles_afresh [OF Cons.prems(1), of platform] canonical_afresh [OF Cons.prems(1), of platform path]
    obtain m where m: "snd (canonical platform r path) = r\<lparr>r_settled := m\<rparr>" "truthful platform (r\<lparr>r_settled := m\<rparr>)" by auto
    have "fst (canonical platform r path) = fst (canonical platform (r\<lparr>r_settled := None\<rparr>) path)"
      using canonical_afresh [OF Cons.prems(1), of platform path] canonical_afresh [OF fresh, of platform r path] by simp
    with Cons.IH [OF m(2)] Cons.prems(2) ask m(1) show ?case
      by (cases "canonical platform r path") simp
  qed simp
  have "canonicals (before @ after) r = map (\<lambda>(said, path). fst (canonical said r path)) before @ canonicals after r"
    using assms(2)
  proof (induction before)
    case (Cons ask before)
    obtain path where ask: "ask = ([], path)" using Cons.prems by (cases ask) auto
    have "truthful platform r" using assms(1) by (simp add: truthful_def)
    from settles_afresh [OF this, of "[]"] canonical_afresh [OF this, of "[]" path] assms(1)
    have "snd (canonical [] r path) = r" by simp
    with Cons ask show ?case by (cases "canonical [] r path") simp
  qed simp
  moreover have "truthful platform r" "r\<lparr>r_settled := None\<rparr> = r" using assms(1) by (simp_all add: truthful_def)
  ultimately show ?thesis using after [OF _ assms(3)] by simp
qed

theorem settles_once_for_all_witness:
  "canonicals [([], ''/private/tmp/m/a''), (''linux'', ''/private/tmp/m/a''), (''linux'', ''/other'')] sample_router =
   [''/tmp/m/a'', ''/tmp/m/a'', ''/other'']"
proof -
  have none: "sample_router\<lparr>r_settled := None\<rparr> = sample_router" "r_settled sample_router = None"
    by (simp_all add: sample_router_def router_made_def Let_def)
  have each: "fst (canonical [] sample_router ''/private/tmp/m/a'') = ''/tmp/m/a''"
    "fst (canonical ''linux'' sample_router ''/private/tmp/m/a'') = ''/tmp/m/a''"
    "fst (canonical ''linux'' sample_router ''/other'') = ''/other''" by code_simp+
  have "canonicals ([([], ''/private/tmp/m/a'')] @ [(''linux'', ''/private/tmp/m/a''), (''linux'', ''/other'')]) sample_router =
        map (\<lambda>(said, path). fst (canonical said (sample_router\<lparr>r_settled := None\<rparr>) path))
          ([([], ''/private/tmp/m/a'')] @ [(''linux'', ''/private/tmp/m/a''), (''linux'', ''/other'')])"
    by (rule settles_once_for_all [where platform = "''linux''"]) (auto simp: none)
  then show ?thesis by (simp add: none each)
qed

section \<open>One path for every name of it\<close>

lemma rstrip_replicate: "rstrip_char c (s @ replicate n c) = rstrip_char c s"
proof -
  have "dropWhile (\<lambda>x. x = c) (replicate n c @ t) = dropWhile (\<lambda>x. x = c) t" for t by (induction n) simp_all
  then show ?thesis by (simp add: rstrip_char_def)
qed

lemma mac_private_split: "mac_private path \<Longrightarrow> path = ''/private'' @ drop 8 path"
  using drop_prefix [of "''/private''" path] by (simp add: mac_private_def eval_nat_numeral)

lemma private_above:
  assumes "name \<in> set ALIASED" and "whole = ''/'' @ name @ rest" and "starts_with ''/'' rest \<or> at_end rest"
    and "whole = up @ tail" and "up \<noteq> []" and "tail = [] \<or> starts_with ''/'' tail"
  shows "mac_private (''/private'' @ up)"
proof -
  have "(''/'' @ name) @ rest = up @ tail" using assms(2,4) by simp
  then consider us where "''/'' @ name = up @ us" "us @ rest = tail" | us where "(''/'' @ name) @ us = up" "rest = us @ tail"
    unfolding append_eq_append_conv2 by blast
  then have "\<exists>u. up = ''/'' @ name @ u \<and> (starts_with ''/'' u \<or> at_end u)"
  proof cases
    case 1
    have "us = []"
    proof (rule ccontr)
      assume "us \<noteq> []"
      then obtain c us' where us: "us = c # us'" by (cases us) auto
      with 1(2) assms(6) have c: "c = CHR ''/''" by (auto simp: starts_with_def)
      obtain a up' where up: "up = a # up'" using assms(5) by (cases up) auto
      with 1(1) us have "name = up' @ c # us'" by simp
      then have "c \<in> set name" by simp
      with c assms(1) show False by (auto simp: ALIASED_def)
    qed
    with 1(1) show ?thesis by (auto simp: at_end_def)
  next
    case 2
    have "starts_with ''/'' us \<or> at_end us"
      using assms(3) 2(2) by (cases us) (auto simp: at_end_def starts_with_def)
    with 2(1) show ?thesis by auto
  qed
  then obtain u where u: "up = ''/'' @ name @ u" "starts_with ''/'' u \<or> at_end u" by blast
  from assms(1) u show ?thesis by (auto simp: mac_private_def ALIASED_def starts_with_def)
qed

text \<open>A path of two spellings in a layout is one a layout's root makes worth settling.\<close>

lemma within_spelled_twice:
  assumes "path_within False path root \<noteq> None" and "path_key False path \<noteq> path"
  shows "spelled_twice root"
proof -
  let ?whole = "path_key False path"
  define up where "up = rstrip_char CHR ''/'' (path_key False root)"
  have pr: "mac_private path" using assms(2) by (auto simp: path_key_def cased_def split: if_splits)
  then have key: "?whole = drop 8 path" by (simp add: path_key_def cased_def)
  from pr obtain name where name: "name \<in> set ALIASED" "starts_with (''/'' @ name) (drop 8 path)"
    "starts_with ''/'' (drop (9 + length name) path) \<or> at_end (drop (9 + length name) path)" by (auto simp: mac_private_def)
  from drop_prefix [OF name(2)] have below: "?whole = ''/'' @ name @ drop (9 + length name) path" unfolding key by (simp add: add.commute)
  show ?thesis
  proof (cases "up = []")
    case True
    have "\<not> mac_private root"
    proof
      assume "mac_private root"
      then obtain nm where "nm \<in> set ALIASED" "starts_with (''/'' @ nm) (path_key False root)"
        by (auto simp: mac_private_def path_key_def cased_def)
      then obtain w where w: "path_key False root = ''/'' @ nm @ w" "nm \<in> set ALIASED" using drop_prefix by fastforce
      from rstrip_char_parts [of "path_key False root" "CHR ''/''"] True obtain n where
        "path_key False root = replicate n CHR ''/''" unfolding up_def by auto
      with w(1) have "set (''/'' @ nm @ w) \<subseteq> {CHR ''/''}" by (metis set_replicate_Suc set_replicate_conv_if subset_refl empty_subsetI)
      with w(2) show False by (auto simp: ALIASED_def)
    qed
    with True have "rstrip_char CHR ''/'' root = []" by (simp add: up_def path_key_def cased_def)
    then show ?thesis by (simp add: spelled_twice_def Let_def ALIASES_def ALIASED_def starts_with_def)
  next
    case False
    define tail where "tail = drop (length up) ?whole"
    have parts: "take (length up) ?whole = up" "tail = [] \<or> starts_with ''/'' tail"
      using assms(1) False by (auto simp: path_within_def Let_def cased_def up_def [symmetric] tail_def split: if_splits)
    then have "?whole = up @ tail" unfolding tail_def by (metis append_take_drop_id)
    from private_above [OF name(1) below name(3) this False parts(2)] have twice: "mac_private (''/private'' @ up)" .
    have "rstrip_char CHR ''/'' root = up \<or> rstrip_char CHR ''/'' root = ''/private'' @ up"
    proof (cases "mac_private root")
      case True
      then have "root = ''/private'' @ path_key False root"
        using mac_private_split by (simp only: path_key_def cased_def if_True if_False)
      moreover from rstrip_char_parts [of "path_key False root" "CHR ''/''"] obtain n where
        "path_key False root = up @ replicate n CHR ''/''" unfolding up_def by blast
      ultimately have root: "root = (''/private'' @ up) @ replicate n CHR ''/''" by simp
      have "last up \<noteq> CHR ''/''" using rstrip_char_last False unfolding up_def by blast
      then have "rstrip_char CHR ''/'' (''/private'' @ up) = ''/private'' @ up" using False by (intro rstrip_char_not_last) simp_all
      moreover note rstrip_replicate [of "CHR ''/''" "''/private'' @ up" n]
      ultimately show ?thesis using root by simp
    next
      case False
      then show ?thesis by (simp add: up_def path_key_def cased_def)
    qed
    then have "length (path_spellings (rstrip_char CHR ''/'' root)) > 1"
    proof
      assume r: "rstrip_char CHR ''/'' root = up"
      show ?thesis using twice unfolding r by (auto simp: path_spellings_def Let_def path_key_def cased_def)
    next
      assume r: "rstrip_char CHR ''/'' root = ''/private'' @ up"
      show ?thesis using twice unfolding r by (auto simp: path_spellings_def Let_def path_key_def cased_def)
    qed
    then show ?thesis by (simp add: spelled_twice_def Let_def)
  qed
qed

lemma path_within_same:
  "path_key False p = path_key False p' \<Longrightarrow> path_within folds p root = path_within folds p' root"
  by (metis path_within_key(1))

text \<open>
  A file of the target's that the agent reaches by two names -- with the \<open>/private\<close> a Mac keeps three
  directories under, or without -- is one path here: both names are settled onto the same spelling, below
  the same layout's root, whether or not the target's filesystem tells case apart and whatever the memo.
\<close>

theorem two_names_one_path:
  assumes "path_key False p = path_key False p'" and "truthful said r" and "layout_for said r p \<noteq> None"
  shows "fst (canonical said r p) = fst (canonical said r p')"
proof -
  note c = canonical_afresh [OF assms(2), of said]
  from assms(3) obtain l where l: "l \<in> set (r_layouts r)" "path_within (insensitive said) p (l_local l) \<noteq> None"
    by (auto simp: layout_for_def holds_path_def below_def dest: first_of_SomeD split: option.splits if_splits)
  note same = path_within_same [OF assms(1)]
  show ?thesis
  proof (cases "to_settle said r")
    case on: True
    have un: "unaliased said r p = unaliased said r p' \<or> unaliased said r p = p \<and> unaliased said r p' = p'"
      unfolding unaliased_def same by (auto split: option.splits)
    show ?thesis
    proof (cases "unaliased said r p = unaliased said r p'")
      case True
      with c [of p] c [of p'] on show ?thesis by simp
    next
      case False
      with un have "unaliased said r p = p" "unaliased said r p' = p'" by simp_all
      moreover have "first_some (\<lambda>l. map_option (on_root (l_local l)) (below (insensitive said) l p)) (r_layouts r) \<noteq> None"
        using l by (auto simp: first_some_None_iff below_def)
      moreover have "below (insensitive said) l p = below (insensitive said) l p'" for l unfolding below_def by (rule same)
      ultimately show ?thesis using c [of p] c [of p'] on by (auto simp: Let_def)
    qed
  next
    case False
    then have "\<not> insensitive said" "\<not> spelled_twice (l_local l)" using l(1) by (auto simp: to_settle_def)
    moreover have "path_within False p' (l_local l) \<noteq> None" using l(2) \<open>\<not> insensitive said\<close> same by simp
    ultimately have "path_key False p = p" "path_key False p' = p'" using l(2) within_spelled_twice by auto
    with assms(1) False c [of p] c [of p'] show ?thesis by simp
  qed
qed

theorem two_names_one_path_witness:
  "fst (canonical ''linux'' sample_router ''/private/tmp/m/sub/f'') = fst (canonical ''linux'' sample_router ''/tmp/m/sub/f'')"
proof (rule two_names_one_path)
  show "path_key False ''/private/tmp/m/sub/f'' = path_key False ''/tmp/m/sub/f''" by code_simp
  show "truthful ''linux'' sample_router" by (simp add: truthful_def sample_router_def router_made_def Let_def)
  show "layout_for ''linux'' sample_router ''/private/tmp/m/sub/f'' \<noteq> None" using sample_routes(1) by simp
qed

end
