(* ===== verification/PyFormat.thy ===== *)
theory PyFormat
  imports PyNumber "HOL-Library.Code_Target_Nat"
begin

text \<open>
  How Python writes a float into a message: \<open>{x:g}\<close>, six significant digits with the trailing
  zeros gone, and \<open>{x:.nf}\<close>, a fixed count of decimals. Both round the exact value to the nearest
  decimal, a tie to the even digit.
\<close>

definition round_even :: "rat \<Rightarrow> int" where
  "round_even x =
     (let f = \<lfloor>x\<rfloor>; d = x - of_int f in
      if d < 1 / 2 then f else if 1 / 2 < d then f + 1 else if even f then f else f + 1)"

definition zeros :: "nat \<Rightarrow> string" where
  "zeros n = replicate n (CHR ''0'')"

definition zfill :: "nat \<Rightarrow> string \<Rightarrow> string" where
  "zfill n s = zeros (n - length s) @ s"

text \<open>\<open>n\<close> decimals of a value that is not negative.\<close>

definition fixed_abs :: "nat \<Rightarrow> rat \<Rightarrow> string" where
  "fixed_abs n x =
     (let m = nat (round_even (x * 10 ^ n)) in
      show_nat (m div 10 ^ n) @ (if n = 0 then [] else CHR ''.'' # zfill n (show_nat (m mod 10 ^ n))))"

text \<open>Trailing zeros of a decimal, and a point with nothing after it.\<close>

definition trimmed :: "string \<Rightarrow> string" where
  "trimmed s = (if CHR ''.'' \<in> set s then rstrip_char (CHR ''.'') (rstrip_char (CHR ''0'') s) else s)"

text \<open>The power of ten a value stands at: the two candidates its digits leave are tried.\<close>

definition decade :: "rat \<Rightarrow> int" where
  "decade x =
     (case quotient_of x of (p, q) \<Rightarrow>
        let k = int (length (show_nat (nat p))) - int (length (show_nat (nat q))) in
        if scale10 1 k \<le> x then k else k - 1)"

definition general_abs :: "rat \<Rightarrow> string" where
  "general_abs x =
     (if x = 0 then ''0''
      else
        let e = decade x; m = round_even (scale10 x (5 - e));
            (m, e) = (if m = 10 ^ 6 then (10 ^ 5, e + 1) else (m, e)) in
        if - 4 \<le> e \<and> e < 6 then trimmed (fixed_abs (nat (5 - e)) (scale10 (of_int m) (e - 5)))
        else trimmed (fixed_abs 5 (of_int m / 10 ^ 5)) @ ''e'' @ (if e < 0 then ''-'' else ''+'') @
             zfill 2 (show_nat (nat \<bar>e\<bar>)))"

definition signed :: "(rat \<Rightarrow> string) \<Rightarrow> pyfloat \<Rightarrow> string" where
  "signed f x =
     (case x of
        Fin r \<Rightarrow> (if r < 0 then CHR ''-'' # f (- r) else f r)
      | PInf \<Rightarrow> ''inf'' | NInf \<Rightarrow> ''-inf'' | NaN \<Rightarrow> ''nan'')"

definition fmt_g :: "pyfloat \<Rightarrow> string" where
  "fmt_g x = signed general_abs x"

definition fmt_f :: "nat \<Rightarrow> pyfloat \<Rightarrow> string" where
  "fmt_f n x = signed (fixed_abs n) x"

lemma round_even_near: "\<bar>of_int (round_even x) - x\<bar> \<le> 1 / 2"
proof -
  let ?f = "\<lfloor>x\<rfloor>"
  have "of_int ?f \<le> x" "x < of_int ?f + 1" by linarith+
  then show ?thesis
    unfolding round_even_def Let_def by (auto simp: abs_le_iff)
qed

lemma round_even_int [simp]: "round_even (of_int i) = i"
  by (simp add: round_even_def)

lemma fixed_abs_not_Nil [simp]: "fixed_abs n x \<noteq> []"
  by (simp add: fixed_abs_def Let_def)

lemma fmt_f_not_Nil [simp]: "fmt_f n x \<noteq> []"
  by (cases x) (simp_all add: fmt_f_def signed_def)

end
