(* ===== verification/Cutting.thy ===== *)
theory Cutting
  imports PyFormat
begin

text \<open>
  What a turn of a session is held to while it is being taken (\<open>hmz.coganchor.agents.base\<close>,
  \<open>SessionBase\<close>, and the \<open>Budget\<close> of one turn in \<open>agents.config\<close>): opening and closing it, its budget
  and the clock of that budget, and the cutting off of it by a person, the budget or the watchdog, each
  from a thread of its own. Every stretch of code under the turn's guard is one function here, and so is
  every stretch between two of them; \<open>moves\<close> interleaves them, with the calls still under way as a list.
\<close>

section \<open>The budget of one turn\<close>

record turn_budget =
  b_output :: pyfloat
  b_seconds :: pyfloat
  b_when :: string
  b_then :: string

definition CUTOFFS :: "string list" where
  "CUTOFFS = [''next-response'', ''immediately'']"

definition OUTCOMES :: "string list" where
  "OUTCOMES = [''end'', ''fail'']"

datatype budget_refusal = NotACutoff string | NotAnOutcome string | LessThanNothing

definition turn_budget_made :: "pyfloat \<Rightarrow> pyfloat \<Rightarrow> string \<Rightarrow> string \<Rightarrow> budget_refusal + turn_budget" where
  "turn_budget_made output seconds when outcome =
     (if when \<notin> set CUTOFFS then Inl (NotACutoff when)
      else if outcome \<notin> set OUTCOMES then Inl (NotAnOutcome outcome)
      else if f_lt output (Fin 0) \<or> f_lt seconds (Fin 0) then Inl LessThanNothing
      else Inr \<lparr>b_output = output, b_seconds = seconds, b_when = when, b_then = outcome\<rparr>)"

definition turn_bounded :: "turn_budget \<Rightarrow> bool" where
  "turn_bounded b \<longleftrightarrow> f_lt (Fin 0) (b_output b) \<or> f_lt (Fin 0) (b_seconds b)"

definition turn_over :: "turn_budget \<Rightarrow> pyfloat \<Rightarrow> pyfloat \<Rightarrow> string" where
  "turn_over b output seconds =
     (if f_lt (Fin 0) (b_output b) \<and> f_le (b_output b) output then fmt_g (b_output b) @ '' output tokens''
      else if f_lt (Fin 0) (b_seconds b) \<and> f_le (b_seconds b) seconds then fmt_g (b_seconds b) @ ''s''
      else [])"

section \<open>The session\<close>

text \<open>
  The timer of a turn: when it goes off, what it is to say about a response, the turn it was set for,
  and whether it has gone off, after which cancelling it does nothing.
\<close>

record timer =
  t_due :: pyfloat
  t_landed :: bool
  t_turn :: nat
  t_rung :: bool

text \<open>
  \<open>s_agents\<close> is the budget the agent was configured with and \<open>s_budget\<close> what this session was told instead;
  \<open>s_moved\<close> says whether the conversation was moved to another session.
\<close>

record talk =
  s_working :: bool
  s_nth :: nat
  s_over :: string
  s_cut :: string
  s_wedged :: bool
  s_waking :: bool
  s_sofar :: "string list"
  s_agents :: "turn_budget option"
  s_budget :: "turn_budget option"
  s_capped :: "turn_budget option"
  s_paid :: rat
  s_since :: rat
  s_clock :: "timer option"
  s_underway :: "nat option"
  s_moved :: bool

definition LANDING :: rat where
  "LANDING = 60"

definition turn_opens :: "talk \<Rightarrow> talk" where
  "turn_opens t = t\<lparr>s_nth := s_nth t + 1, s_over := [], s_cut := [], s_waking := False, s_wedged := False,
     s_sofar := [], s_working := True\<rparr>"

definition turn_closes :: "talk \<Rightarrow> talk" where
  "turn_closes t = t\<lparr>s_working := False\<rparr>"

definition own_budget :: "talk \<Rightarrow> turn_budget option" where
  "own_budget t = (case s_budget t of Some b \<Rightarrow> Some b | None \<Rightarrow> s_agents t)"

definition sets_clock :: "pyfloat \<Rightarrow> bool \<Rightarrow> rat \<Rightarrow> talk \<Rightarrow> talk" where
  "sets_clock after landed now t =
     t\<lparr>s_clock := Some \<lparr>t_due = f_add (Fin now) after, t_landed = landed, t_turn = s_nth t, t_rung = False\<rparr>\<rparr>"

definition budgeting :: "rat \<Rightarrow> rat \<Rightarrow> talk \<Rightarrow> talk" where
  "budgeting now spent t =
     (let capped = (case own_budget t of Some b \<Rightarrow> (if turn_bounded b then Some b else None) | None \<Rightarrow> None);
          t = t\<lparr>s_paid := spent, s_since := now, s_capped := capped\<rparr> in
      case capped of
        Some b \<Rightarrow> (if f_lt (Fin 0) (b_seconds b) then sets_clock (b_seconds b) False now t else t)
      | None \<Rightarrow> t)"

definition budgeted :: "talk \<Rightarrow> talk" where
  "budgeted t = t\<lparr>s_capped := None, s_clock := None, s_sofar := []\<rparr>"

definition cutting :: "talk \<Rightarrow> string" where
  "cutting t = (if s_over t \<noteq> [] then s_over t else s_cut t)"

section \<open>Cutting it off\<close>

text \<open>
  \<open>_interrupts\<close> holds the guard twice. The first time settles the turn it is for and the reason, and what
  is to be said, nothing where it was said before; the second time, after whoever was told was told,
  wakes a turn that waits and says whether what holds it is to be ended.
\<close>

definition meant_for :: "nat option \<Rightarrow> talk \<Rightarrow> bool" where
  "meant_for turn t \<longleftrightarrow> s_working t \<and> (turn = None \<or> turn = Some (s_nth t))"

definition interrupts_first :: "string \<Rightarrow> nat option \<Rightarrow> talk \<Rightarrow> talk \<times> (nat \<times> string option) option" where
  "interrupts_first why turn t =
     (if \<not> meant_for turn t then (t, None)
      else
        let reason = (if why = [] then ''interrupted'' else why) in
        (t\<lparr>s_cut := reason\<rparr>, Some (s_nth t, if s_cut t = [] then Some reason else None)))"

definition interrupts_second :: "nat \<Rightarrow> talk \<Rightarrow> talk \<times> bool" where
  "interrupts_second n t = (if \<not> meant_for (Some n) t then (t, False) else (t\<lparr>s_waking := True\<rparr>, True))"

definition cuts :: "talk \<Rightarrow> talk \<times> nat option" where
  "cuts t = (t\<lparr>s_underway := None\<rparr>, s_underway t)"

definition wedges :: "nat \<Rightarrow> talk \<Rightarrow> talk" where
  "wedges n t = (if meant_for (Some n) t then t\<lparr>s_wedged := True\<rparr> else t)"

text \<open>A process a turn is taken in, ended at once where the turn was cut off while it was starting.\<close>

definition spawned :: "nat \<Rightarrow> talk \<Rightarrow> talk \<times> nat option" where
  "spawned p t = (let t = t\<lparr>s_underway := Some p\<rparr> in if cutting t \<noteq> [] then cuts t else (t, None))"

definition let_go :: "talk \<Rightarrow> talk" where
  "let_go t = t\<lparr>s_underway := None\<rparr>"

text \<open>
  \<open>_checks\<close>: the budget it holds the turn to, then what reading the meter and the clock against it comes to.
\<close>

datatype checked = NotOver | LetsItLand | Settled | CutsOff string nat

definition checks_first :: "nat option \<Rightarrow> talk \<Rightarrow> turn_budget option" where
  "checks_first turn t = (if meant_for turn t then s_capped t else None)"

definition checks_last :: "nat \<Rightarrow> talk \<Rightarrow> talk \<times> checked" where
  "checks_last n t =
     (if s_cut t \<noteq> [] \<or> s_capped t = None then (t, Settled) else (t, CutsOff (s_over t @ '' spent'') n))"

definition checks_second :: "bool \<Rightarrow> nat \<Rightarrow> turn_budget \<Rightarrow> rat \<Rightarrow> rat \<Rightarrow> talk \<Rightarrow> talk \<times> checked" where
  "checks_second landed n b now spent t =
     (if s_over t \<noteq> [] then checks_last n t
      else
        let over = turn_over b (Fin (spent - s_paid t)) (Fin (now - s_since t)) in
        if over = [] then (t, NotOver)
        else
          let t = t\<lparr>s_over := over\<rparr> in
          if \<not> landed \<and> b_when b \<noteq> ''immediately'' then (sets_clock (Fin LANDING) True now t, LetsItLand)
          else checks_last n t)"


section \<open>Every thread at once\<close>

text \<open>
  A call under way: \<open>Asks\<close> before \<open>_interrupts\<close> first takes the guard, \<open>Saying\<close> and \<open>Telling\<close> between its two
  times, \<open>Ending\<close> past the second; \<open>Fired\<close> a clock that has gone off, \<open>Checking\<close> a check that has read the
  budget -- under the guard where a clock makes it --, \<open>Wedging\<close> the watchdog about to mark a turn.
\<close>

datatype flight =
    Asks string "nat option"
  | Saying nat string string
  | Telling nat string
  | Ending nat string
  | Fired bool nat
  | Checking bool bool nat turn_budget
  | Wedging nat

text \<open>Where the thread taking the turns has got to: between turns, in one before its budget, under it, past it.\<close>

datatype phase = Between | Opened | Under | Past

record turns =
  w_talk :: talk
  w_phase :: phase
  w_now :: rat
  w_spent :: rat
  w_flights :: "flight list"
  w_said :: "(nat \<times> string) list"
  w_ended :: "(nat option \<times> nat) list"
  w_passed_on :: "string list"

fun is_check :: "bool \<Rightarrow> flight \<Rightarrow> bool" where
  "is_check g (Checking g' l n b) = (g' = g)"
| "is_check g f = False"

definition guard_free :: "turns \<Rightarrow> bool" where
  "guard_free w \<longleftrightarrow> list_all (\<lambda>f. \<not> is_check True f) (w_flights w)"

definition own_done :: "turns \<Rightarrow> bool" where
  "own_done w \<longleftrightarrow> list_all (\<lambda>f. \<not> is_check False f) (w_flights w)"

text \<open>A call goes on as another, or is over.\<close>

definition goes_on :: "flight \<Rightarrow> flight option \<Rightarrow> turns \<Rightarrow> turns" where
  "goes_on f f' w = w\<lparr>w_flights := (case f' of Some g \<Rightarrow> [g] | None \<Rightarrow> []) @ remove1 f (w_flights w)\<rparr>"

definition ends_process :: "nat option \<Rightarrow> nat option \<Rightarrow> turns \<Rightarrow> turns" where
  "ends_process by proc w = (case proc of Some p \<Rightarrow> w\<lparr>w_ended := w_ended w @ [(by, p)]\<rparr> | None \<Rightarrow> w)"

definition act_asks :: "string \<Rightarrow> nat option \<Rightarrow> turns \<Rightarrow> turns" where
  "act_asks why turn w =
     (let (t, r) = interrupts_first why turn (w_talk w) in
      goes_on (Asks why turn)
        (case r of Some (n, Some reason) \<Rightarrow> Some (Saying n reason why) | Some (n, None) \<Rightarrow> Some (Telling n why) | None \<Rightarrow> None)
        (w\<lparr>w_talk := t\<rparr>))"

definition act_says :: "nat \<Rightarrow> string \<Rightarrow> string \<Rightarrow> turns \<Rightarrow> turns" where
  "act_says n reason why w =
     goes_on (Saying n reason why) (Some (Telling n why))
       (w\<lparr>w_said := w_said w @ [(n, ''cutting the turn off: '' @ reason)]\<rparr>)"

definition act_tells :: "nat \<Rightarrow> string \<Rightarrow> turns \<Rightarrow> turns" where
  "act_tells n why w =
     (let (t, on) = interrupts_second n (w_talk w) in
      goes_on (Telling n why) (if on then Some (Ending n why) else None) (w\<lparr>w_talk := t\<rparr>))"

definition act_ends :: "nat \<Rightarrow> string \<Rightarrow> turns \<Rightarrow> turns" where
  "act_ends n why w =
     (let (t, proc) = cuts (w_talk w) in
      goes_on (Ending n why) None
        (ends_process (Some n) proc
          (w\<lparr>w_talk := t, w_passed_on := w_passed_on w @ (if s_moved t then [why] else [])\<rparr>)))"

definition act_rings :: "bool \<Rightarrow> nat \<Rightarrow> turns \<Rightarrow> turns" where
  "act_rings landed n w =
     goes_on (Fired landed n) (map_option (Checking True landed n) (checks_first (Some n) (w_talk w))) w"

definition act_checks :: "bool \<Rightarrow> bool \<Rightarrow> nat \<Rightarrow> turn_budget \<Rightarrow> turns \<Rightarrow> turns" where
  "act_checks guarded landed n b w =
     (let (t, c) = checks_second landed n b (w_now w) (w_spent w) (w_talk w) in
      goes_on (Checking guarded landed n b)
        (case c of CutsOff why n \<Rightarrow> Some (Asks why (Some n)) | _ \<Rightarrow> None) (w\<lparr>w_talk := t\<rparr>))"

definition act_spends :: "rat \<Rightarrow> bool \<Rightarrow> turns \<Rightarrow> turns" where
  "act_spends u landed w =
     w\<lparr>w_spent := w_spent w + u,
       w_flights := (case checks_first None (w_talk w) of
           Some b \<Rightarrow> Checking False landed (s_nth (w_talk w)) b # w_flights w | None \<Rightarrow> w_flights w)\<rparr>"

definition act_spawns :: "nat \<Rightarrow> turns \<Rightarrow> turns" where
  "act_spawns p w = (let (t, proc) = spawned p (w_talk w) in ends_process None proc (w\<lparr>w_talk := t\<rparr>))"

text \<open>
  A step is taken on behalf of a turn it is bound to, or of whichever is running, or is the turn's own or
  the world's. A step that takes the guard waits for a check holding it. The thread taking the turn makes
  its own checks, so it takes no other step of its own while one is under way.
\<close>

datatype behalf = For nat | ForAny | Own | World

inductive moves :: "turns \<Rightarrow> behalf \<Rightarrow> turns \<Rightarrow> bool" where
  Opens: "w_phase w = Between \<Longrightarrow> guard_free w \<Longrightarrow>
    moves w Own (w\<lparr>w_talk := turn_opens (w_talk w), w_phase := Opened\<rparr>)"
| Refused: "w_phase w = Opened \<Longrightarrow> moves w Own (w\<lparr>w_phase := Past\<rparr>)"
| Budgeting: "w_phase w = Opened \<Longrightarrow>
    moves w Own (w\<lparr>w_talk := budgeting (w_now w) (w_spent w) (w_talk w), w_phase := Under\<rparr>)"
| Spawns: "w_phase w = Under \<Longrightarrow> own_done w \<Longrightarrow> moves w Own (act_spawns p w)"
| LetsGo: "w_phase w = Under \<Longrightarrow> own_done w \<Longrightarrow> moves w Own (w\<lparr>w_talk := let_go (w_talk w)\<rparr>)"
| Hears: "w_phase w = Under \<Longrightarrow> own_done w \<Longrightarrow>
    moves w Own (w\<lparr>w_talk := (w_talk w)\<lparr>s_sofar := s_sofar (w_talk w) @ [said]\<rparr>\<rparr>)"
| MovesTo: "w_phase w = Under \<Longrightarrow> own_done w \<Longrightarrow> moves w Own (w\<lparr>w_talk := (w_talk w)\<lparr>s_moved := m\<rparr>\<rparr>)"
| Spends: "own_done w \<Longrightarrow> 0 \<le> u \<Longrightarrow> moves w Own (act_spends u landed w)"
| Budgeted: "w_phase w = Under \<Longrightarrow> own_done w \<Longrightarrow>
    moves w Own (w\<lparr>w_talk := budgeted (w_talk w), w_phase := Past\<rparr>)"
| Closes: "w_phase w = Past \<Longrightarrow> guard_free w \<Longrightarrow>
    moves w Own (w\<lparr>w_talk := turn_closes (w_talk w), w_phase := Between\<rparr>)"
| Passes: "0 \<le> d \<Longrightarrow> moves w World (w\<lparr>w_now := w_now w + d\<rparr>)"
| Told: "moves w World (w\<lparr>w_talk := (w_talk w)\<lparr>s_budget := b\<rparr>\<rparr>)"
| Interrupted: "moves w World (w\<lparr>w_flights := Asks why None # w_flights w\<rparr>)"
| Watched: "n \<le> s_nth (w_talk w) \<Longrightarrow> f = Wedging n \<or> f = Asks why (Some n) \<Longrightarrow>
    moves w World (w\<lparr>w_flights := f # w_flights w\<rparr>)"
| Rings: "s_clock (w_talk w) = Some c \<Longrightarrow> \<not> t_rung c \<Longrightarrow> f_le (t_due c) (Fin (w_now w)) \<Longrightarrow>
    moves w World (w\<lparr>w_talk := (w_talk w)\<lparr>s_clock := Some (c\<lparr>t_rung := True\<rparr>)\<rparr>,
      w_flights := Fired (t_landed c) (t_turn c) # w_flights w\<rparr>)"
| Clocked: "Fired landed n \<in> set (w_flights w) \<Longrightarrow> guard_free w \<Longrightarrow> moves w (For n) (act_rings landed n w)"
| Checked: "Checking guarded landed n b \<in> set (w_flights w) \<Longrightarrow>
    moves w (if guarded then For n else Own) (act_checks guarded landed n b w)"
| Asked: "Asks why turn \<in> set (w_flights w) \<Longrightarrow> guard_free w \<Longrightarrow>
    moves w (case turn of Some n \<Rightarrow> For n | None \<Rightarrow> ForAny) (act_asks why turn w)"
| Said: "Saying n reason why \<in> set (w_flights w) \<Longrightarrow> moves w (For n) (act_says n reason why w)"
| Tells: "Telling n why \<in> set (w_flights w) \<Longrightarrow> guard_free w \<Longrightarrow> moves w (For n) (act_tells n why w)"
| Ends: "Ending n why \<in> set (w_flights w) \<Longrightarrow> moves w (For n) (act_ends n why w)"
| Wedged: "Wedging n \<in> set (w_flights w) \<Longrightarrow> guard_free w \<Longrightarrow>
    moves w (For n) (goes_on (Wedging n) None (w\<lparr>w_talk := wedges n (w_talk w)\<rparr>))"

definition talk_made :: "turn_budget option \<Rightarrow> talk" where
  "talk_made agents =
     \<lparr>s_working = False, s_nth = 0, s_over = [], s_cut = [], s_wedged = False, s_waking = False, s_sofar = [],
      s_agents = agents, s_budget = None, s_capped = None, s_paid = 0, s_since = 0, s_clock = None,
      s_underway = None, s_moved = False\<rparr>"

definition turns_made :: "talk \<Rightarrow> rat \<Rightarrow> turns" where
  "turns_made t now =
     \<lparr>w_talk = t, w_phase = Between, w_now = now, w_spent = 0, w_flights = [], w_said = [], w_ended = [],
      w_passed_on = []\<rparr>"

inductive taken :: "turns \<Rightarrow> bool" where
  Made: "taken (turns_made (talk_made agents) now)"
| Moved: "taken w \<Longrightarrow> moves w h w' \<Longrightarrow> taken w'"


inductive_cases movesE: "moves w h w'"

named_theorems cut_defs

lemmas [cut_defs] = turn_opens_def turn_closes_def sets_clock_def budgeting_def budgeted_def cuts_def wedges_def
  let_go_def checks_first_def meant_for_def

section \<open>What each step leaves alone\<close>

lemma interrupts_first_talk [simp]:
  "fst (interrupts_first why turn t) =
     (if meant_for turn t then t\<lparr>s_cut := if why = [] then ''interrupted'' else why\<rparr> else t)"
  by (simp add: interrupts_first_def Let_def)

lemma interrupts_second_talk [simp]:
  "fst (interrupts_second n t) = (if meant_for (Some n) t then t\<lparr>s_waking := True\<rparr> else t)"
  by (simp add: interrupts_second_def)

lemma checks_last_talk [simp]: "fst (checks_last n t) = t"
  by (simp add: checks_last_def)

lemma checks_second_cases:
  obtains (Again) "s_over t \<noteq> []" "checks_second landed n b now spent t = checks_last n t"
  | (Inside) "s_over t = []" "turn_over b (Fin (spent - s_paid t)) (Fin (now - s_since t)) = []"
      "checks_second landed n b now spent t = (t, NotOver)"
  | (Lets) over where "s_over t = []" "over = turn_over b (Fin (spent - s_paid t)) (Fin (now - s_since t))"
      "over \<noteq> []" "checks_second landed n b now spent t = (sets_clock (Fin LANDING) True now (t\<lparr>s_over := over\<rparr>), LetsItLand)"
  | (Over) over where "s_over t = []" "over = turn_over b (Fin (spent - s_paid t)) (Fin (now - s_since t))"
      "over \<noteq> []" "checks_second landed n b now spent t = checks_last n (t\<lparr>s_over := over\<rparr>)"
  by (cases "s_over t = []"; cases "turn_over b (Fin (spent - s_paid t)) (Fin (now - s_since t)) = []";
      cases "\<not> landed \<and> b_when b \<noteq> ''immediately''")
    (auto simp: checks_second_def Let_def)

lemma checks_second_talk [simp]:
  "s_working (fst (checks_second landed n b now spent t)) = s_working t"
  "s_nth (fst (checks_second landed n b now spent t)) = s_nth t"
  "s_capped (fst (checks_second landed n b now spent t)) = s_capped t"
  "s_cut (fst (checks_second landed n b now spent t)) = s_cut t"
  "s_paid (fst (checks_second landed n b now spent t)) = s_paid t"
  "s_since (fst (checks_second landed n b now spent t)) = s_since t"
  by (cases rule: checks_second_cases [where t = t and b = b and spent = spent and now = now and landed = landed and n = n]; simp add: sets_clock_def)+

lemma goes_on_simps [simp]:
  "w_talk (goes_on f f' w) = w_talk w" "w_phase (goes_on f f' w) = w_phase w" "w_now (goes_on f f' w) = w_now w"
  "w_spent (goes_on f f' w) = w_spent w" "w_said (goes_on f f' w) = w_said w"
  "w_flights (goes_on f f' w) = (case f' of Some g \<Rightarrow> [g] | None \<Rightarrow> []) @ remove1 f (w_flights w)"
  by (simp_all add: goes_on_def)

lemma ends_process_simps [simp]:
  "w_talk (ends_process by p w) = w_talk w" "w_phase (ends_process by p w) = w_phase w"
  "w_now (ends_process by p w) = w_now w" "w_spent (ends_process by p w) = w_spent w"
  "w_said (ends_process by p w) = w_said w" "w_flights (ends_process by p w) = w_flights w"
  by (simp_all add: ends_process_def split: option.split)

lemma act_talk [simp]:
  "w_talk (act_asks why turn w) = fst (interrupts_first why turn (w_talk w))"
  "w_talk (act_says n reason why w) = w_talk w"
  "w_talk (act_tells n why w) = fst (interrupts_second n (w_talk w))"
  "w_talk (act_ends n why w) = (w_talk w)\<lparr>s_underway := None\<rparr>"
  "w_talk (act_rings l n w) = w_talk w"
  "w_talk (act_checks g l n b w) = fst (checks_second l n b (w_now w) (w_spent w) (w_talk w))"
  "w_talk (act_spends u l w) = w_talk w"
  "w_talk (act_spawns p w) = fst (spawned p (w_talk w))"
  by (simp_all add: act_asks_def act_says_def act_tells_def act_ends_def act_rings_def act_checks_def
      act_spends_def act_spawns_def cuts_def split_def Let_def)

lemma spawned_talk [simp]:
  "fst (spawned p t) = t\<lparr>s_underway := if cutting t = [] then Some p else None\<rparr>"
  by (simp add: spawned_def cuts_def cutting_def Let_def)

lemma act_phase [simp]:
  "w_phase (act_asks why turn w) = w_phase w" "w_phase (act_says n reason why w) = w_phase w"
  "w_phase (act_tells n why w) = w_phase w" "w_phase (act_ends n why w) = w_phase w"
  "w_phase (act_rings l n w) = w_phase w" "w_phase (act_checks g l n b w) = w_phase w"
  "w_phase (act_spends u l w) = w_phase w" "w_phase (act_spawns p w) = w_phase w"
  by (simp_all add: act_asks_def act_says_def act_tells_def act_ends_def act_rings_def act_checks_def
      act_spends_def act_spawns_def split: prod.split)

lemma act_now [simp]:
  "w_now (act_asks why turn w) = w_now w" "w_now (act_says n reason why w) = w_now w"
  "w_now (act_tells n why w) = w_now w" "w_now (act_ends n why w) = w_now w"
  "w_now (act_rings l n w) = w_now w" "w_now (act_checks g l n b w) = w_now w"
  "w_now (act_spends u l w) = w_now w" "w_now (act_spawns p w) = w_now w"
  by (simp_all add: act_asks_def act_says_def act_tells_def act_ends_def act_rings_def act_checks_def
      act_spends_def act_spawns_def split: prod.split)

lemma act_spent [simp]:
  "w_spent (act_asks why turn w) = w_spent w" "w_spent (act_says n reason why w) = w_spent w"
  "w_spent (act_tells n why w) = w_spent w" "w_spent (act_ends n why w) = w_spent w"
  "w_spent (act_rings l n w) = w_spent w" "w_spent (act_checks g l n b w) = w_spent w"
  "w_spent (act_spends u l w) = w_spent w + u" "w_spent (act_spawns p w) = w_spent w"
  by (simp_all add: act_asks_def act_says_def act_tells_def act_ends_def act_rings_def act_checks_def
      act_spends_def act_spawns_def split: prod.split)

lemma act_said [simp]:
  "w_said (act_asks why turn w) = w_said w"
  "w_said (act_says n reason why w) = w_said w @ [(n, ''cutting the turn off: '' @ reason)]"
  "w_said (act_tells n why w) = w_said w" "w_said (act_ends n why w) = w_said w"
  "w_said (act_rings l n w) = w_said w" "w_said (act_checks g l n b w) = w_said w"
  "w_said (act_spends u l w) = w_said w" "w_said (act_spawns p w) = w_said w"
  by (simp_all add: act_asks_def act_says_def act_tells_def act_ends_def act_rings_def act_checks_def
      act_spends_def act_spawns_def split: prod.split)

lemma set_goes_on:
  "x \<in> set ((case f' of Some g \<Rightarrow> [g] | None \<Rightarrow> []) @ remove1 f fs) \<Longrightarrow> f' = Some x \<or> x \<in> set fs"
  by (auto split: option.splits)

text \<open>What may be under way after a step that was not before it.\<close>

lemma act_flights:
  "f \<in> set (w_flights (act_asks why turn w)) \<Longrightarrow> f \<in> set (w_flights w) \<or>
     meant_for turn (w_talk w) \<and> ((\<exists>r. f = Saying (s_nth (w_talk w)) r why) \<or> f = Telling (s_nth (w_talk w)) why)"
  "f \<in> set (w_flights (act_says n reason why w)) \<Longrightarrow> f \<in> set (w_flights w) \<or> f = Telling n why"
  "f \<in> set (w_flights (act_tells n why w)) \<Longrightarrow> f \<in> set (w_flights w) \<or> f = Ending n why"
  "f \<in> set (w_flights (act_ends n why w)) \<Longrightarrow> f \<in> set (w_flights w)"
  "f \<in> set (w_flights (act_rings l n w)) \<Longrightarrow> f \<in> set (w_flights w) \<or>
     (\<exists>b. f = Checking True l n b \<and> checks_first (Some n) (w_talk w) = Some b)"
  "f \<in> set (w_flights (act_checks g l n b w)) \<Longrightarrow> f \<in> set (w_flights w) \<or> (\<exists>why m. f = Asks why (Some m))"
  "f \<in> set (w_flights (act_spends u l w)) \<Longrightarrow> f \<in> set (w_flights w) \<or>
     (\<exists>b. f = Checking False l (s_nth (w_talk w)) b \<and> checks_first None (w_talk w) = Some b)"
  "f \<in> set (w_flights (act_spawns p w)) \<Longrightarrow> f \<in> set (w_flights w)"
  by (auto simp: act_asks_def act_says_def act_tells_def act_ends_def act_rings_def act_checks_def cuts_def
      act_spends_def act_spawns_def interrupts_first_def Let_def
      split: prod.splits if_splits option.splits checked.splits)

section \<open>What holds of the turns of a session, however its threads interleave\<close>

text \<open>
  A check under way is of the turn running, under the budget that turn is held to for as long as it is
  held to one; a clock, gone off or not, is of a turn that has opened, and not of one that has no budget yet.
\<close>

definition checks_ok :: "turns \<Rightarrow> bool" where
  "checks_ok w \<longleftrightarrow> (\<forall>g l n b. Checking g l n b \<in> set (w_flights w) \<longrightarrow>
     n = s_nth (w_talk w) \<and> (w_phase w = Under \<or> g \<and> w_phase w = Past) \<and>
     s_capped (w_talk w) \<in> {None, Some b})"

definition clocks_ok :: "turns \<Rightarrow> bool" where
  "clocks_ok w \<longleftrightarrow>
     (\<forall>l n. Fired l n \<in> set (w_flights w) \<longrightarrow> n \<le> s_nth (w_talk w) \<and> (n = s_nth (w_talk w) \<longrightarrow> w_phase w \<noteq> Opened)) \<and>
     (\<forall>c. s_clock (w_talk w) = Some c \<longrightarrow>
        t_turn c \<le> s_nth (w_talk w) \<and> (t_turn c = s_nth (w_talk w) \<longrightarrow> w_phase w \<noteq> Opened))"

definition phase_ok :: "turns \<Rightarrow> bool" where
  "phase_ok w \<longleftrightarrow>
     s_working (w_talk w) = (w_phase w \<noteq> Between) \<and>
     (w_phase w \<noteq> Under \<longrightarrow> s_capped (w_talk w) = None) \<and>
     (w_phase w = Opened \<longrightarrow> s_over (w_talk w) = [])"

lemma is_check_iff: "is_check g f \<longleftrightarrow> (\<exists>l n b. f = Checking g l n b)"
  by (cases f) auto

lemmas own_free = guard_free_def own_done_def list_all_iff is_check_iff

lemma phase_ok_moves:
  assumes "moves w h w'" and "phase_ok w" and "checks_ok w"
  shows "phase_ok w'"
  using assms
proof (cases rule: moves.cases)
  case (Checked g n l b)
  then have "w_phase w \<noteq> Opened" using assms(3) by (auto simp: checks_ok_def split: if_splits)
  then show ?thesis using Checked assms(2) by (simp add: phase_ok_def)
qed (use assms(2) in \<open>auto simp: phase_ok_def cut_defs Let_def split: option.splits\<close>)


lemma checks_okD:
  "checks_ok w \<Longrightarrow> Checking g l n b \<in> set (w_flights w) \<Longrightarrow>
   n = s_nth (w_talk w) \<and> (w_phase w = Under \<or> g \<and> w_phase w = Past) \<and> s_capped (w_talk w) \<in> {None, Some b}"
  by (auto simp: checks_ok_def)

lemma own_doneD: "own_done w \<Longrightarrow> Checking g l n b \<in> set (w_flights w) \<Longrightarrow> g"
  by (cases g) (auto simp: own_free)

lemma no_checks:
  "checks_ok w \<Longrightarrow> w_phase w = Between \<or> w_phase w = Opened \<or> guard_free w \<and> w_phase w \<noteq> Under \<Longrightarrow>
   Checking g l n b \<notin> set (w_flights w)"
  by (cases g) (auto simp: own_free dest!: checks_okD)

lemma checks_ok_moves:
  assumes "moves w h w'" and "phase_ok w" and "checks_ok w"
  shows "checks_ok w'"
  using assms(1)
proof (cases rule: moves.cases)
  case Opens
  then show ?thesis using no_checks [OF assms(3)] by (simp add: checks_ok_def)
next
  case Refused
  then show ?thesis using no_checks [OF assms(3)] by (simp add: checks_ok_def)
next
  case Budgeting
  then show ?thesis using no_checks [OF assms(3)] by (simp add: checks_ok_def)
next
  case Budgeted
  then show ?thesis using checks_okD [OF assms(3)] own_doneD [OF \<open>own_done w\<close>]
    by (auto simp: checks_ok_def budgeted_def)
next
  case Closes
  then show ?thesis using no_checks [OF assms(3)] by (simp add: checks_ok_def)
next
  case (Checked g l n b)
  show ?thesis unfolding checks_ok_def
  proof (intro allI impI)
    fix g' l' n' b'
    assume "Checking g' l' n' b' \<in> set (w_flights w')"
    then have "Checking g' l' n' b' \<in> set (w_flights w)" using Checked by (auto dest!: act_flights)
    from checks_okD [OF assms(3) this] show "n' = s_nth (w_talk w') \<and>
        (w_phase w' = Under \<or> g' \<and> w_phase w' = Past) \<and> s_capped (w_talk w') \<in> {None, Some b'}"
      using Checked by simp
  qed
next
  case (Spends u l)
  then show ?thesis using assms(2,3)
    by (auto simp: checks_ok_def phase_ok_def checks_first_def meant_for_def dest!: act_flights split: if_splits)
next
  case (Clocked l n)
  then show ?thesis using assms(2,3)
    by (auto simp: checks_ok_def phase_ok_def checks_first_def meant_for_def dest!: act_flights split: if_splits)
qed (use assms(3) in \<open>auto simp: checks_ok_def cut_defs dest!: act_flights\<close>)

lemma clocks_ok_moves:
  assumes "moves w h w'" and "checks_ok w" and "clocks_ok w"
  shows "clocks_ok w'"
  using assms(1)
proof (cases rule: moves.cases)
  case Opens
  then show ?thesis using assms(3) by (fastforce simp: clocks_ok_def turn_opens_def)
next
  case (Checked g l n b)
  then have "w_phase w \<noteq> Opened" using assms(2) by (auto simp: checks_ok_def split: if_splits)
  then show ?thesis using Checked assms(3)
    by (cases rule: checks_second_cases [where t = "w_talk w" and b = b and spent = "w_spent w" and now = "w_now w"
          and landed = l and n = n])
      (auto simp: clocks_ok_def sets_clock_def dest!: act_flights)
qed (use assms(3) in \<open>auto simp: clocks_ok_def cut_defs Let_def dest!: act_flights split: option.splits\<close>)

text \<open>A turn is over its budget only where it is: what it spent and how long it takes only ever rise.\<close>

lemma turn_over_rises:
  assumes "turn_over b (Fin o1) (Fin s1) \<noteq> []" and "o1 \<le> o2" and "s1 \<le> s2"
  shows "turn_over b (Fin o2) (Fin s2) \<noteq> []"
proof -
  have up: "f_le x (Fin a) \<Longrightarrow> a \<le> c \<Longrightarrow> f_le x (Fin c)" for x a c
    by (cases x) (auto simp: f_le_def)
  show ?thesis using assms by (auto simp: turn_over_def dest: up split: if_splits)
qed

definition over_ok :: "turns \<Rightarrow> bool" where
  "over_ok w \<longleftrightarrow> (\<forall>b. s_over (w_talk w) \<noteq> [] \<longrightarrow> s_capped (w_talk w) = Some b \<longrightarrow>
     turn_over b (Fin (w_spent w - s_paid (w_talk w))) (Fin (w_now w - s_since (w_talk w))) \<noteq> [])"

lemma over_ok_moves:
  assumes "moves w h w'" and "phase_ok w" and "checks_ok w" and "over_ok w"
  shows "over_ok w'"
  using assms(1)
proof (cases rule: moves.cases)
  case (Checked g l n b)
  then have "s_capped (w_talk w) \<in> {None, Some b}" using assms(3) by (auto simp: checks_ok_def)
  then show ?thesis using Checked assms(4)
    by (cases rule: checks_second_cases [where t = "w_talk w" and b = b and spent = "w_spent w" and now = "w_now w"
          and landed = l and n = n])
      (auto simp: over_ok_def sets_clock_def)
next
  case Budgeting
  then show ?thesis using assms(2) by (auto simp: over_ok_def phase_ok_def budgeting_def sets_clock_def Let_def split: option.splits)
next
  case (Spends u l)
  have "w_spent w - s_paid (w_talk w) \<le> w_spent w + u - s_paid (w_talk w)" using Spends by simp
  from turn_over_rises [OF _ this order_refl] show ?thesis using Spends assms(4) by (simp add: over_ok_def)
next
  case (Passes d)
  have "w_now w - s_since (w_talk w) \<le> w_now w + d - s_since (w_talk w)" using Passes by simp
  from turn_over_rises [OF _ order_refl this] show ?thesis using Passes assms(4) by (simp add: over_ok_def)
qed (use assms(4) in \<open>auto simp: over_ok_def cut_defs\<close>)


text \<open>
  The notice of a cut-off: those already said of a turn and those about to be. None of a turn not yet
  opened, and once there is one of the turn running, the turn has the reason that keeps it from a second.
\<close>

fun is_saying :: "nat \<Rightarrow> flight \<Rightarrow> bool" where
  "is_saying n (Saying m r why) = (m = n)"
| "is_saying n f = False"

definition notices :: "turns \<Rightarrow> nat \<Rightarrow> nat" where
  "notices w n = length (filter (\<lambda>x. fst x = n) (w_said w)) + length (filter (is_saying n) (w_flights w))"

definition notices_ok :: "turns \<Rightarrow> bool" where
  "notices_ok w \<longleftrightarrow> (\<forall>n. notices w n \<le> 1) \<and> (\<forall>n > s_nth (w_talk w). notices w n = 0) \<and>
     (s_cut (w_talk w) = [] \<longrightarrow> notices w (s_nth (w_talk w)) = 0)"

lemma length_filter_remove1:
  "length (filter p (remove1 x xs)) = length (filter p xs) - (if x \<in> set xs \<and> p x then 1 else 0)"
proof (induction xs)
  case (Cons a xs)
  have "x \<in> set xs \<Longrightarrow> p x \<Longrightarrow> 0 < length (filter p xs)"
    by (intro length_pos_if_in_set [where x = x]) simp
  then show ?case using Cons by auto
qed simp

lemma notices_goes_on:
  "f \<in> set (w_flights w) \<Longrightarrow>
   notices (goes_on f f' w) n + (if is_saying n f then 1 else 0) =
   notices w n + (case f' of Some g \<Rightarrow> if is_saying n g then 1 else 0 | None \<Rightarrow> 0)"
proof -
  assume "f \<in> set (w_flights w)"
  then have "is_saying n f \<Longrightarrow> 0 < length (filter (is_saying n) (w_flights w))"
    by (intro length_pos_if_in_set [where x = f]) simp
  then show ?thesis using \<open>f \<in> set (w_flights w)\<close>
    by (auto simp: notices_def length_filter_remove1 split: option.split)
qed


lemma notices_same:
  "w_said w' = w_said w \<Longrightarrow> filter (is_saying n) (w_flights w') = filter (is_saying n) (w_flights w) \<Longrightarrow>
   notices w' n = notices w n"
  by (simp add: notices_def)

lemma notices_talk [simp]: "notices (w\<lparr>w_talk := t\<rparr>) n = notices w n" "notices (w\<lparr>w_phase := p\<rparr>) n = notices w n"
  "notices (w\<lparr>w_now := d\<rparr>) n = notices w n" "notices (ends_process by' pr w) n = notices w n"
  "notices (w\<lparr>w_passed_on := ps\<rparr>) n = notices w n"
  by (auto intro: notices_same)

lemma notices_silent:
  "\<not> is_saying n f \<Longrightarrow> (case f' of Some g \<Rightarrow> \<not> is_saying n g | None \<Rightarrow> True) \<Longrightarrow>
   notices (goes_on f f' w) n = notices w n"
  by (auto simp: notices_def length_filter_remove1 split: option.splits)

lemma notices_act [simp]:
  "notices (act_tells n' why w) n = notices w n" "notices (act_ends n' why w) n = notices w n"
  "notices (act_rings l n' w) n = notices w n" "notices (act_checks g l n' b w) n = notices w n"
  "notices (act_spends u l w) n = notices w n" "notices (act_spawns p w) n = notices w n"
  "notices (goes_on (Wedging n') None w) n = notices w n"
  by (auto simp: act_tells_def act_ends_def act_rings_def act_checks_def act_spawns_def Let_def split_def
      intro!: notices_silent [THEN trans] split: option.split checked.split)
    (auto simp: act_spends_def notices_def split: option.split)

lemma budgeting_simps [simp]:
  "s_nth (budgeting now out t) = s_nth t" "s_cut (budgeting now out t) = s_cut t"
  "s_over (budgeting now out t) = s_over t" "s_working (budgeting now out t) = s_working t"
  by (auto simp: budgeting_def sets_clock_def Let_def split: option.split)

lemma notices_said: "notices (w\<lparr>w_said := w_said w @ [(n, what)]\<rparr>) m = notices w m + (if n = m then 1 else 0)"
  by (simp add: notices_def)

lemma notices_ok_moves:
  assumes "moves w h w'" and "notices_ok w"
  shows "notices_ok w'"
  using assms(1)
proof (cases rule: moves.cases)
  case (Asked why turn)
  have "notices w' n = notices w n + (if meant_for turn (w_talk w) \<and> s_cut (w_talk w) = [] \<and> n = s_nth (w_talk w) then 1 else 0)" for n
    using notices_goes_on [of "Asks why turn" "w\<lparr>w_talk := fst (interrupts_first why turn (w_talk w))\<rparr>" _ n] Asked
    by (auto simp: act_asks_def interrupts_first_def Let_def)
  then show ?thesis using Asked assms(2) by (auto simp: notices_ok_def)
next
  case (Said n reason why)
  have "notices w' m = notices w m" for m
    using notices_goes_on [of "Saying n reason why" "w\<lparr>w_said := w_said w @ [(n, ''cutting the turn off: '' @ reason)]\<rparr>" "Some (Telling n why)" m] Said
    by (simp add: act_says_def notices_said)
  then show ?thesis using Said assms(2) by (auto simp: notices_ok_def)
next
  case Opens
  then show ?thesis using assms(2) by (auto simp: notices_ok_def turn_opens_def)
next
  case (Interrupted why)
  then show ?thesis using assms(2) by (auto simp: notices_ok_def notices_def)
next
  case (Watched n f why)
  then show ?thesis using assms(2) by (auto simp: notices_ok_def notices_def)
next
  case (Rings c)
  then show ?thesis using assms(2) by (auto simp: notices_ok_def notices_def)
qed (use assms(2) in \<open>auto simp: notices_ok_def turn_closes_def budgeted_def let_go_def wedges_def meant_for_def\<close>)

text \<open>
  A clock that was set for the seconds of the budget goes off no sooner than they are up, so what finds
  the turn under that budget then finds it spent.
\<close>

definition due_ok :: "turns \<Rightarrow> turn_budget \<Rightarrow> bool" where
  "due_ok w b \<longleftrightarrow> f_lt (Fin 0) (b_seconds b) \<and> f_le (f_add (Fin (s_since (w_talk w))) (b_seconds b)) (Fin (w_now w))"

definition early_ok :: "turns \<Rightarrow> bool" where
  "early_ok w \<longleftrightarrow> (\<forall>b. s_capped (w_talk w) = Some b \<longrightarrow>
     (\<forall>c. s_clock (w_talk w) = Some c \<longrightarrow> \<not> t_landed c \<longrightarrow> t_turn c = s_nth (w_talk w) \<longrightarrow>
        f_lt (Fin 0) (b_seconds b) \<and> t_due c = f_add (Fin (s_since (w_talk w))) (b_seconds b)) \<and>
     (Fired False (s_nth (w_talk w)) \<in> set (w_flights w) \<longrightarrow> due_ok w b) \<and>
     (\<forall>b'. Checking True False (s_nth (w_talk w)) b' \<in> set (w_flights w) \<longrightarrow> due_ok w b))"

lemma early_ok_moves:
  assumes "moves w h w'" and "phase_ok w" and "checks_ok w" and "clocks_ok w" and "early_ok w"
  shows "early_ok w'"
  using assms(1)
proof (cases rule: moves.cases)
  case Opens
  then show ?thesis using assms(2) by (simp add: early_ok_def phase_ok_def turn_opens_def)
next
  case Budgeting
  then have "Fired l (s_nth (w_talk w)) \<notin> set (w_flights w)" "Checking g l n b \<notin> set (w_flights w)" for g l n b
    using assms(4) no_checks [OF assms(3)] by (auto simp: clocks_ok_def)
  then show ?thesis using Budgeting assms(4)
    by (auto simp: early_ok_def clocks_ok_def budgeting_def sets_clock_def Let_def split: option.splits)
next
  case (Passes d)
  have "f_le x (Fin (w_now w)) \<Longrightarrow> f_le x (Fin (w_now w + d))" for x
    using Passes by (cases x) (auto simp: f_le_def)
  then show ?thesis using Passes assms(5) by (simp add: early_ok_def due_ok_def)
next
  case (Clocked l n)
  then show ?thesis using assms(5) by (auto simp: early_ok_def due_ok_def dest!: act_flights)
next
  case (Checked g l n b)
  then show ?thesis using assms(5)
    by (cases rule: checks_second_cases [where t = "w_talk w" and b = b and spent = "w_spent w" and now = "w_now w"
          and landed = l and n = n])
      (auto simp: early_ok_def due_ok_def sets_clock_def dest!: act_flights)
qed (use assms(5) in \<open>auto simp: early_ok_def due_ok_def cut_defs dest!: act_flights\<close>)

text \<open>Together they hold of every state the threads of a session can come to.\<close>

definition turns_ok :: "turns \<Rightarrow> bool" where
  "turns_ok w \<longleftrightarrow> phase_ok w \<and> checks_ok w \<and> clocks_ok w \<and> over_ok w \<and> notices_ok w \<and> early_ok w"

lemma turns_ok_made: "turns_ok (turns_made (talk_made agents) now)"
  by (simp add: turns_ok_def phase_ok_def checks_ok_def clocks_ok_def over_ok_def notices_ok_def notices_def
      early_ok_def turns_made_def talk_made_def)

lemma taken_ok [inv_dests]: "taken w \<Longrightarrow> turns_ok w"
proof (induction rule: taken.induct)
  case (Moved w h w')
  then show ?case
    by (auto simp: turns_ok_def intro: phase_ok_moves checks_ok_moves clocks_ok_moves over_ok_moves
        notices_ok_moves early_ok_moves)
qed (rule turns_ok_made)


section \<open>Playing a schedule\<close>

text \<open>The steps as a function, so that a schedule can be run: \<open>None\<close> for a step that cannot be taken.\<close>

datatype play =
    POpens | PBudgeting | PSpawns nat | PLetsGo | PSpends rat bool | PBudgeted | PCloses | PPasses rat
  | PInterrupted string | PWatched flight | PRings | PRuns flight | PBudgets "turn_budget option"

fun runs_flight :: "flight \<Rightarrow> turns \<Rightarrow> turns option" where
  "runs_flight (Asks why turn) w = (if guard_free w then Some (act_asks why turn w) else None)"
| "runs_flight (Saying n reason why) w = Some (act_says n reason why w)"
| "runs_flight (Telling n why) w = (if guard_free w then Some (act_tells n why w) else None)"
| "runs_flight (Ending n why) w = Some (act_ends n why w)"
| "runs_flight (Fired l n) w = (if guard_free w then Some (act_rings l n w) else None)"
| "runs_flight (Checking g l n b) w = Some (act_checks g l n b w)"
| "runs_flight (Wedging n) w =
     (if guard_free w then Some (goes_on (Wedging n) None (w\<lparr>w_talk := wedges n (w_talk w)\<rparr>)) else None)"

fun raised_for :: "flight \<Rightarrow> nat option" where
  "raised_for (Wedging n) = Some n"
| "raised_for (Asks why (Some n)) = Some n"
| "raised_for f = None"

fun plays :: "play \<Rightarrow> turns \<Rightarrow> turns option" where
  "plays POpens w = (if w_phase w = Between \<and> guard_free w
     then Some (w\<lparr>w_talk := turn_opens (w_talk w), w_phase := Opened\<rparr>) else None)"
| "plays PBudgeting w = (if w_phase w = Opened
     then Some (w\<lparr>w_talk := budgeting (w_now w) (w_spent w) (w_talk w), w_phase := Under\<rparr>) else None)"
| "plays (PSpawns p) w = (if w_phase w = Under \<and> own_done w then Some (act_spawns p w) else None)"
| "plays PLetsGo w = (if w_phase w = Under \<and> own_done w then Some (w\<lparr>w_talk := let_go (w_talk w)\<rparr>) else None)"
| "plays (PSpends u l) w = (if own_done w \<and> 0 \<le> u then Some (act_spends u l w) else None)"
| "plays PBudgeted w = (if w_phase w = Under \<and> own_done w
     then Some (w\<lparr>w_talk := budgeted (w_talk w), w_phase := Past\<rparr>) else None)"
| "plays PCloses w = (if w_phase w = Past \<and> guard_free w
     then Some (w\<lparr>w_talk := turn_closes (w_talk w), w_phase := Between\<rparr>) else None)"
| "plays (PPasses d) w = (if 0 \<le> d then Some (w\<lparr>w_now := w_now w + d\<rparr>) else None)"
| "plays (PInterrupted why) w = Some (w\<lparr>w_flights := Asks why None # w_flights w\<rparr>)"
| "plays (PWatched f) w = (case raised_for f of
     Some n \<Rightarrow> (if n \<le> s_nth (w_talk w) then Some (w\<lparr>w_flights := f # w_flights w\<rparr>) else None) | None \<Rightarrow> None)"
| "plays PRings w = (case s_clock (w_talk w) of
     Some c \<Rightarrow> (if \<not> t_rung c \<and> f_le (t_due c) (Fin (w_now w))
       then Some (w\<lparr>w_talk := (w_talk w)\<lparr>s_clock := Some (c\<lparr>t_rung := True\<rparr>)\<rparr>,
         w_flights := Fired (t_landed c) (t_turn c) # w_flights w\<rparr>) else None) | None \<Rightarrow> None)"
| "plays (PRuns f) w = (if f \<in> set (w_flights w) then runs_flight f w else None)"
| "plays (PBudgets b) w = Some (w\<lparr>w_talk := (w_talk w)\<lparr>s_budget := b\<rparr>\<rparr>)"

lemma raised_forE: "raised_for f = Some n \<Longrightarrow> f = Wedging n \<or> (\<exists>why. f = Asks why (Some n))"
  by (cases f rule: raised_for.cases) auto

lemma plays_moves: "plays p w = Some w' \<Longrightarrow> \<exists>h. moves w h w'"
proof (cases p)
  case (PRuns f)
  then show "plays p w = Some w' \<Longrightarrow> ?thesis"
    by (cases f) (auto split: if_splits intro: moves.intros)
qed (auto split: if_splits option.splits dest!: raised_forE intro: moves.intros)

fun schedule :: "play list \<Rightarrow> turns \<Rightarrow> turns option" where
  "schedule [] w = Some w"
| "schedule (p # ps) w = (case plays p w of Some w' \<Rightarrow> schedule ps w' | None \<Rightarrow> None)"

lemma schedule_taken: "schedule ps w = Some w' \<Longrightarrow> taken w \<Longrightarrow> taken w'"
  by (induction ps arbitrary: w) (auto split: option.splits dest!: plays_moves intro: taken.Moved)

lemma scheduled: "schedule ps (turns_made (talk_made agents) now) = Some w \<Longrightarrow> taken w"
  by (rule schedule_taken [OF _ taken.Made])


declare schedule.simps [simp del]

section \<open>What a cut-off can do\<close>

text \<open>What a turn ends short on, and what it is held to.\<close>

definition marks :: "talk \<Rightarrow> string \<times> string \<times> bool \<times> bool \<times> turn_budget option \<times> timer option" where
  "marks t = (s_over t, s_cut t, s_wedged t, s_waking t, s_capped t, s_clock t)"

lemma marks_bound:
  assumes "moves w (For n) w'" and "turns_ok w" and "marks (w_talk w') \<noteq> marks (w_talk w)"
  shows "s_working (w_talk w) \<and> s_nth (w_talk w) = n"
  using assms(1)
proof (cases rule: moves.cases)
  case (Checked g l m b)
  then have "m = n" "m = s_nth (w_talk w)" "s_working (w_talk w)"
    using assms(2) by (auto simp: turns_ok_def phase_ok_def dest!: checks_okD split: if_splits)
  then show ?thesis by simp
qed (use assms(3) in \<open>auto simp: marks_def meant_for_def wedges_def split: if_splits option.splits\<close>)

text \<open>A session under a budget of ten seconds, cut off at once where they are up.\<close>

definition ten_seconds :: turn_budget where
  "ten_seconds = \<lparr>b_output = Fin 0, b_seconds = Fin 10, b_when = ''immediately'', b_then = ''end''\<rparr>"

definition sample_turns :: turns where
  "sample_turns = turns_made (talk_made (Some ten_seconds)) 100"

text \<open>
  C20. However the threads of a session interleave, a step taken for one turn -- its clock, its watchdog, a
  cut-off held up in a watcher -- changes what a turn ends short on or is held to only while that turn is
  the one running: it marks no other turn.
\<close>

theorem cut_off_is_its_own:
  assumes "taken w" and "moves w (For n) w'" and "marks (w_talk w') \<noteq> marks (w_talk w)"
  shows "s_working (w_talk w) \<and> s_nth (w_talk w) = n"
  by (rule marks_bound [OF assms(2) taken_ok [OF assms(1)] assms(3)])

text \<open>
  However often and by whomever a turn is cut off, it is said at most once of it, and never of a turn
  that has not opened.
\<close>

theorem cut_off_said_once:
  assumes "taken w"
  shows "length (filter (\<lambda>x. fst x = n) (w_said w)) \<le> (if n \<le> s_nth (w_talk w) then 1 else 0)"
proof -
  have "notices w n \<le> (if n \<le> s_nth (w_talk w) then 1 else 0)"
    using taken_ok [OF assms] by (auto simp: turns_ok_def notices_ok_def)
  then show ?thesis by (simp add: notices_def split: if_splits)
qed

text \<open>
  A turn is marked as over its budget only where the tokens it wrote or the seconds it ran reach a cap
  it is held to, whichever thread read them.
\<close>

theorem over_is_spent:
  assumes "taken w" and "s_over (w_talk w) \<noteq> []" and "s_capped (w_talk w) = Some b"
  shows "turn_over b (Fin (w_spent w - s_paid (w_talk w))) (Fin (w_now w - s_since (w_talk w))) \<noteq> []"
  using taken_ok [OF assms(1)] assms(2,3) by (auto simp: turns_ok_def over_ok_def)

lemma due_turn_over:
  "due_ok w b \<Longrightarrow> turn_over b out (Fin (w_now w - s_since (w_talk w))) \<noteq> []"
  by (cases "b_seconds b") (auto simp: due_ok_def turn_over_def f_le_def)

text \<open>
  A clock that goes off while its turn is still held to its budget finds it spent, never too early: the
  turn is cut off at once, or for a budget that lets the answer land is looked at again after LANDING, and
  that look cuts it off unless it is cut off by then.
\<close>

theorem clock_finds_it_spent:
  assumes "taken w" and "Checking True False n b \<in> set (w_flights w)" and "s_capped (w_talk w) = Some b"
    and "checks_second False n b (w_now w) (w_spent w) (w_talk w) = (t, c)"
  shows "c \<noteq> NotOver \<and>
    (c = LetsItLand \<longrightarrow>
      s_clock t = Some \<lparr>t_due = Fin (w_now w + LANDING), t_landed = True, t_turn = n, t_rung = False\<rparr> \<and>
      snd (checks_second True n b now spent t) = (if s_cut t = [] then CutsOff (s_over t @ '' spent'') n else Settled))"
proof -
  have ok: "turns_ok w" by (rule taken_ok [OF assms(1)])
  then have n: "n = s_nth (w_talk w)" using assms(2) by (auto simp: turns_ok_def dest!: checks_okD)
  have "due_ok w b" using ok assms(2,3) n by (auto simp: turns_ok_def early_ok_def)
  from due_turn_over [OF this] show ?thesis
    using assms(3,4) n
    by (cases rule: checks_second_cases [where t = "w_talk w" and b = b and spent = "w_spent w" and now = "w_now w"
          and landed = False and n = n]) (auto simp: checks_last_def checks_second_def sets_clock_def split: if_splits)
qed

definition clocked :: turns where
  "clocked = the (schedule [POpens, PBudgeting, PPasses 10, PRings, PRuns (Fired False 1)] sample_turns)"

lemma clocked_taken: "taken clocked"
proof -
  have "schedule [POpens, PBudgeting, PPasses 10, PRings, PRuns (Fired False 1)] sample_turns \<noteq> None"
    by code_simp
  then have "schedule [POpens, PBudgeting, PPasses 10, PRings, PRuns (Fired False 1)] sample_turns = Some clocked"
    by (simp add: clocked_def)
  then show ?thesis unfolding sample_turns_def by (rule scheduled)
qed

lemma cut_off_is_its_own_witness:
  "\<exists>w'. moves clocked (For 1) w' \<and> marks (w_talk w') \<noteq> marks (w_talk clocked) \<and>
     s_working (w_talk clocked) \<and> s_nth (w_talk clocked) = 1"
proof -
  have m: "moves clocked (if True then For 1 else Own) (act_checks True False 1 ten_seconds clocked)"
    by (rule moves.Checked) code_simp
  have "marks (w_talk (act_checks True False 1 ten_seconds clocked)) \<noteq> marks (w_talk clocked)" by code_simp
  with cut_off_is_its_own [OF clocked_taken _ this] m show ?thesis by auto
qed

lemma cut_off_said_once_witness:
  "\<exists>w. schedule [POpens, PInterrupted ''no'', PInterrupted ''enough'', PRuns (Asks ''no'' None),
       PRuns (Asks ''enough'' None), PRuns (Saying 1 ''no'' ''no'')] sample_turns = Some w \<and>
     length (filter (\<lambda>x. fst x = 1) (w_said w)) = 1"
proof -
  let ?s = "[POpens, PInterrupted ''no'', PInterrupted ''enough'', PRuns (Asks ''no'' None),
    PRuns (Asks ''enough'' None), PRuns (Saying 1 ''no'' ''no'')]"
  have "case schedule ?s sample_turns of Some w \<Rightarrow> w_said w \<noteq> [] \<and> fst (hd (w_said w)) = 1 | None \<Rightarrow> False"
    by code_simp
  then obtain w where w: "schedule ?s sample_turns = Some w" "w_said w \<noteq> []" "fst (hd (w_said w)) = 1"
    by (auto split: option.splits)
  then have "taken w" unfolding sample_turns_def by (intro scheduled)
  from cut_off_said_once [OF this, of 1] w show ?thesis
    by (cases "w_said w") (auto split: if_splits)
qed

lemma over_is_spent_witness:
  "\<exists>w. taken w \<and> s_over (w_talk w) = ''10s'' \<and>
     turn_over ten_seconds (Fin (w_spent w - s_paid (w_talk w))) (Fin (w_now w - s_since (w_talk w))) \<noteq> []"
proof -
  let ?w = "act_checks True False 1 ten_seconds clocked"
  have "moves clocked (if True then For 1 else Own) ?w"
    by (rule moves.Checked) code_simp
  then have w: "taken ?w" by (rule taken.Moved [OF clocked_taken])
  have "s_over (w_talk ?w) = ''10s'' \<and> s_capped (w_talk ?w) = Some ten_seconds" by code_simp
  with over_is_spent [OF w] w show ?thesis by (intro exI [of _ ?w]) auto
qed

lemma clock_finds_it_spent_witness:
  "snd (checks_second False 1 ten_seconds (w_now clocked) (w_spent clocked) (w_talk clocked)) \<noteq> NotOver"
proof -
  have "Checking True False 1 ten_seconds \<in> set (w_flights clocked)" "s_capped (w_talk clocked) = Some ten_seconds"
    by code_simp+
  from clock_finds_it_spent [OF clocked_taken this prod.collapse [symmetric], of 0 0] show ?thesis by blast
qed

text \<open>
  What holds a turn is ended outside the guard, after it was last looked at: a cut-off held up there ends
  the process of the turn after its own, which nobody cut off and whose reader finds no reason to end on.
\<close>

lemma late_cut_off_ends_the_next:
  "\<exists>w. taken w \<and> w_ended w = [(Some 1, 7)] \<and> s_nth (w_talk w) = 2 \<and> s_working (w_talk w) \<and> marks (w_talk w) = ([], [], False, False, None, None)"
proof -
  let ?s = "[POpens, PBudgeting, PInterrupted ''no'', PRuns (Asks ''no'' None), PRuns (Saying 1 ''no'' ''no''),
    PRuns (Telling 1 ''no''), PBudgeted, PCloses, POpens, PBudgeting, PSpawns 7, PRuns (Ending 1 ''no'')]"
  have "case schedule ?s (turns_made (talk_made None) 0) of
      Some w \<Rightarrow> w_ended w = [(Some 1, 7)] \<and> s_nth (w_talk w) = 2 \<and> s_working (w_talk w) \<and>
        marks (w_talk w) = ([], [], False, False, None, None) | None \<Rightarrow> False"
    by code_simp
  then show ?thesis by (auto split: option.splits dest!: scheduled)
qed

end
