(* ===== verification/Turning.thy ===== *)
theory Turning
  imports Cutting
begin

text \<open>
  One turn from the moments it opens on to the answer it ends with (\<open>SessionBase._turning\<close> of
  \<open>hmz.coganchor.agents.base\<close>), and the hooks hung on its moments (\<open>agents.hooks\<close>). What the backend says
  in each round of the turn, and what was written on the session by the time the round was over, are inputs;
  which events are passed on, what the turn answers and what it fails with are worked out here.
\<close>

section \<open>Hooks\<close>

record verdict =
  vd_refused :: bool
  vd_because :: string
  vd_adds :: string

definition nothing_said :: verdict where
  "nothing_said = \<lparr>vd_refused = False, vd_because = [], vd_adds = []\<rparr>"

record occasion =
  oc_moment :: string
  oc_tool :: string
  oc_about :: string
  oc_prompt :: string
  oc_said :: string
  oc_again :: nat

text \<open>What calling a hook comes to: a verdict, nothing (it answered with none, or failed), or a stopped run.\<close>

datatype hook_says = Says verdict | SaysNothing | Stopping

record hung =
  hg_id :: nat
  hg_tool :: string
  hg_hook :: "occasion \<Rightarrow> hook_says"

text \<open>What is hung on each moment, and hanging and taking down.\<close>

type_synonym hooks = "(string \<times> hung list) list"

definition hanging_on :: "hooks \<Rightarrow> string \<Rightarrow> hung list" where
  "hanging_on hs moment = (case dict_get hs moment of Some xs \<Rightarrow> xs | None \<Rightarrow> [])"

definition hook_on :: "string set \<Rightarrow> string \<Rightarrow> hung \<Rightarrow> hooks \<Rightarrow> hooks option" where
  "hook_on moments moment h hs =
     (if moment \<notin> moments then None else Some (dict_put moment (hanging_on hs moment @ [h]) hs))"

fun drop_hung :: "nat \<Rightarrow> hung list \<Rightarrow> hung list" where
  "drop_hung i [] = []"
| "drop_hung i (h # hs) = (if hg_id h = i then hs else h # drop_hung i hs)"

definition hook_off :: "string \<Rightarrow> nat \<Rightarrow> hooks \<Rightarrow> hooks" where
  "hook_off moment i hs =
     (case dict_get hs moment of Some xs \<Rightarrow> dict_put moment (drop_hung i xs) hs | None \<Rightarrow> hs)"

definition hooked :: "hooks \<Rightarrow> string \<Rightarrow> bool" where
  "hooked hs moment \<longleftrightarrow> hanging_on hs moment \<noteq> []"

definition asks_hook :: "occasion \<Rightarrow> hung \<Rightarrow> bool" where
  "asks_hook o' h \<longleftrightarrow> hg_tool h = [] \<or> hg_tool h = oc_tool o'"

fun gather :: "occasion \<Rightarrow> bool \<times> string \<times> string list \<Rightarrow> hung list \<Rightarrow> (bool \<times> string \<times> string list) option" where
  "gather o' acc [] = Some acc"
| "gather o' (refused, because, adds) (h # hs) =
     (if \<not> asks_hook o' h then gather o' (refused, because, adds) hs
      else case hg_hook h o' of
        Stopping \<Rightarrow> None
      | SaysNothing \<Rightarrow> gather o' (refused, because, adds) hs
      | Says v \<Rightarrow>
          gather o' (refused \<or> vd_refused v, if vd_refused v \<and> \<not> refused then vd_because v else because,
            adds @ (if vd_adds v \<noteq> [] then [vd_adds v] else [])) hs)"

definition two_lines :: string where
  "two_lines = [char_of (10 :: nat), char_of (10 :: nat)]"

text \<open>\<open>fire\<close>, \<open>None\<close> where a hook drove an agent that was stopped, which comes out as it is.\<close>

definition fire_hooks :: "hooks \<Rightarrow> occasion \<Rightarrow> verdict option" where
  "fire_hooks hs o' =
     map_option (\<lambda>(refused, because, adds). \<lparr>vd_refused = refused, vd_because = because, vd_adds = py_join two_lines adds\<rparr>)
       (gather o' (False, [], []) (hanging_on hs (oc_moment o')))"

section \<open>The rounds of a turn\<close>

record event =
  ev_kind :: string
  ev_text :: string

definition result_of :: "string \<Rightarrow> event" where
  "result_of s = \<lparr>ev_kind = ''result'', ev_text = s\<rparr>"

text \<open>What the stream of a round may raise: the three a turn answers for where it was cut off, and the others.\<close>

datatype broke = CalledProcess string | OSErr string | ValueErr string | WasStoppedErr | OtherErr string

fun caught :: "broke \<Rightarrow> bool" where
  "caught (CalledProcess s) = True"
| "caught (OSErr s) = True"
| "caught (ValueErr s) = True"
| "caught b = False"

text \<open>
  A round: what the backend said, how the stream ended, the session as it then stands, and what is said at
  the \<open>Stop\<close> moment of it.
\<close>

record round_of =
  rn_events :: "event list"
  rn_broke :: "broke option"
  rn_talk :: talk
  rn_stop :: "verdict option"

definition is_result :: "event \<Rightarrow> bool" where
  "is_result e \<longleftrightarrow> ev_kind e = ''result''"

definition passed_on :: "event list \<Rightarrow> event list" where
  "passed_on es = filter (\<lambda>e. \<not> is_result e) es"

definition answered_by :: "event list \<Rightarrow> event" where
  "answered_by es = (case rev (filter is_result es) of e # r \<Rightarrow> e | [] \<Rightarrow> result_of [])"

definition texts_of :: "event list \<Rightarrow> string list" where
  "texts_of es = map ev_text (filter (\<lambda>e. ev_kind e = ''text'') es)"

definition said_so_far :: "string list \<Rightarrow> string" where
  "said_so_far sofar = py_strip (py_join [char_of (10 :: nat)] sofar)"

text \<open>Whether a turn cut short fails for it, which only a budget that is spent asks for.\<close>

definition fails_short :: "talk \<Rightarrow> bool" where
  "fails_short t \<longleftrightarrow> s_over t \<noteq> [] \<and> (case s_capped t of Some b \<Rightarrow> b_then b = ''fail'' | None \<Rightarrow> False)"

datatype turn_closes_on = Answers event | Raises broke | CutsShort string string | SentOn

definition short :: "talk \<Rightarrow> event \<Rightarrow> turn_closes_on" where
  "short t answer = (if fails_short t then CutsShort (cutting t) (ev_text answer) else Answers answer)"

definition round_ends :: "string list \<Rightarrow> round_of \<Rightarrow> turn_closes_on" where
  "round_ends sofar r =
     (case rn_broke r of
        Some b \<Rightarrow>
          (if \<not> caught b \<or> s_cut (rn_talk r) = [] \<or> s_wedged (rn_talk r) then Raises b
           else short (rn_talk r) (result_of (said_so_far sofar)))
      | None \<Rightarrow>
          let answered = answered_by (rn_events r) in
          if cutting (rn_talk r) \<noteq> [] then short (rn_talk r) answered
          else (case rn_stop r of
                  None \<Rightarrow> Raises WasStoppedErr
                | Some v \<Rightarrow> if vd_refused v \<and> vd_because v \<noteq> [] then SentOn else Answers answered))"

text \<open>
  The rounds, with the prompts they were asked: what is passed on and how the turn ends; \<open>SentOn\<close> where the
  last round given was sent on and the next has not been taken.
\<close>

fun turn_rounds :: "string \<Rightarrow> string list \<Rightarrow> round_of list \<Rightarrow> event list \<times> turn_closes_on \<times> string list" where
  "turn_rounds prompt sofar [] = ([], SentOn, [])"
| "turn_rounds prompt sofar (r # rs) =
     (let sofar = sofar @ texts_of (rn_events r); said = passed_on (rn_events r) in
      case round_ends sofar r of
        Answers e \<Rightarrow> (said @ [e], Answers e, [prompt])
      | SentOn \<Rightarrow>
          (let prompt' = (case rn_stop r of Some v \<Rightarrow> vd_because v | None \<Rightarrow> []);
               (es, e, ps) = turn_rounds prompt' sofar rs in (said @ es, e, prompt # ps))
      | e \<Rightarrow> (said, e, [prompt]))"

text \<open>
  A whole turn: refused where the run is over its allowance or the agent was stopped, before anything is
  said; with what was said while nobody was working, and what the hooks add, in its prompt; and answered by
  a hook that refuses it. \<open>Unopened\<close> says why nothing was begun.
\<close>

datatype turn_out = Unopened string | Ran "event list" turn_closes_on "string list"

definition turn_prompt :: "string \<Rightarrow> string list \<Rightarrow> string" where
  "turn_prompt prompt held = (if held \<noteq> [] then py_join two_lines (prompt # held) else prompt)"

definition turning_of :: "string \<Rightarrow> string \<Rightarrow> bool \<Rightarrow> string list \<Rightarrow> string \<Rightarrow> (string \<Rightarrow> verdict option) \<Rightarrow> round_of list \<Rightarrow> turn_out" where
  "turning_of agent over stopped held prompt submits rounds =
     (if over \<noteq> [] then Unopened (agent @ '': '' @ over @ '' spent'')
      else if stopped then Unopened (agent @ '' was stopped'')
      else
        let prompt = turn_prompt prompt held in
        case submits prompt of
          None \<Rightarrow> Unopened []
        | Some v \<Rightarrow>
            let prompt = (if vd_adds v \<noteq> [] then prompt @ two_lines @ vd_adds v else prompt) in
            if vd_refused v then Ran [result_of (vd_because v)] (Answers (result_of (vd_because v))) []
            else (case turn_rounds prompt [] rounds of (es, e, ps) \<Rightarrow> Ran es e ps))"


section \<open>What a turn comes to\<close>

lemma is_result_result_of [simp]: "is_result (result_of s)"
  by (simp add: is_result_def result_of_def)

lemma is_result_answered [simp]: "is_result (answered_by es)"
proof (cases "rev (filter is_result es)")
  case (Cons e r)
  then have "e \<in> set (filter is_result es)" by (metis list.set_intros(1) set_rev)
  then show ?thesis using Cons by (simp add: answered_by_def)
qed (simp add: answered_by_def)

lemma no_result_passed [simp]: "filter is_result (passed_on es) = []"
  by (simp add: passed_on_def filter_empty_conv)

lemma short_answers: "short t e = Answers e' \<Longrightarrow> e' = e"
  by (auto simp: short_def split: if_splits)

lemma round_ends_answer: "round_ends sofar r = Answers e \<Longrightarrow> is_result e"
  by (auto simp: round_ends_def Let_def dest!: short_answers split: option.splits if_splits)

lemma turn_rounds_answer:
  "turn_rounds prompt sofar rs = (es, e, ps) \<Longrightarrow>
   filter is_result es = (case e of Answers a \<Rightarrow> [a] | _ \<Rightarrow> []) \<and> (case e of Answers a \<Rightarrow> es \<noteq> [] \<and> last es = a | _ \<Rightarrow> True)"
proof (induction prompt sofar rs arbitrary: es e ps rule: turn_rounds.induct)
  case (2 prompt sofar r rs)
  let ?s = "sofar @ texts_of (rn_events r)"
  show ?case
  proof (cases "round_ends ?s r")
    case (Answers a)
    then show ?thesis using 2(2) round_ends_answer [OF Answers] by (simp add: Let_def Answers) (elim conjE, hypsubst, simp)
  next
    case SentOn
    obtain es' e' ps' where rest: "turn_rounds (case rn_stop r of Some v \<Rightarrow> vd_because v | None \<Rightarrow> []) ?s rs = (es', e', ps')"
      by (metis prod_cases3)
    from 2(1) [OF refl refl SentOn refl this] show ?thesis using 2(2) SentOn rest
      by (auto simp: Let_def split: turn_closes_on.splits)
  next
    case (Raises b)
    then show ?thesis using 2(2) by (simp add: Let_def Raises) (elim conjE, hypsubst, simp)
  next
    case (CutsShort why said)
    then show ?thesis using 2(2) by (simp add: Let_def CutsShort) (elim conjE, hypsubst, simp)
  qed
qed simp

text \<open>
  C21. However many rounds a turn is sent on for, and however it is cut off, what it says holds exactly one
  result, the last thing it says and its answer, where it answers, and none where it fails.
\<close>

theorem one_answer:
  assumes "turning_of agent over stopped held prompt submits rounds = Ran es e ps"
  shows "filter is_result es = (case e of Answers a \<Rightarrow> [a] | _ \<Rightarrow> []) \<and> (case e of Answers a \<Rightarrow> last es = a | _ \<Rightarrow> True)"
  using assms
  by (auto simp: turning_of_def Let_def split: if_splits option.splits prod.splits turn_closes_on.splits
      dest!: turn_rounds_answer)

text \<open>Rounds each sent on by a hook with something to say, the reasons the next are asked.\<close>

definition sent_on :: "round_of \<Rightarrow> bool" where
  "sent_on r \<longleftrightarrow> rn_broke r = None \<and> cutting (rn_talk r) = [] \<and>
     (case rn_stop r of Some v \<Rightarrow> vd_refused v \<and> vd_because v \<noteq> [] | None \<Rightarrow> False)"

definition reason_of :: "round_of \<Rightarrow> string" where
  "reason_of r = (case rn_stop r of Some v \<Rightarrow> vd_because v | None \<Rightarrow> [])"

lemma sent_on_ends: "sent_on r \<Longrightarrow> round_ends sofar r = SentOn"
  by (auto simp: sent_on_def round_ends_def Let_def split: option.splits)

lemma turn_rounds_sent_on:
  "list_all sent_on rs \<Longrightarrow> turn_rounds prompt sofar (rs @ [r]) =
     (let sofar' = sofar @ concat (map (texts_of \<circ> rn_events) (rs @ [r])); e = round_ends sofar' r in
      (concat (map (passed_on \<circ> rn_events) (rs @ [r])) @ (case e of Answers a \<Rightarrow> [a] | _ \<Rightarrow> []), e,
       prompt # map reason_of rs))"
proof (induction rs arbitrary: prompt sofar)
  case Nil
  show ?case by (cases "round_ends (sofar @ texts_of (rn_events r)) r") (auto simp: Let_def)
next
  case (Cons a rs)
  then show ?case by (simp add: sent_on_ends Let_def reason_of_def)
qed

text \<open>
  A turn whose stream breaks off answers with all the agent had said in it, in the order it said it,
  exactly where it was cut off by somebody and not by its watchdog and its budget does not ask to fail; where
  it does, the turn fails for being cut short; and every other break is the turn's own failure.
\<close>

theorem broken_turn_comes_to:
  assumes "list_all sent_on rs" and "rn_broke r = Some b"
  shows "fst (snd (turn_rounds prompt [] (rs @ [r]))) =
    (let said = said_so_far (concat (map (texts_of \<circ> rn_events) (rs @ [r]))); t = rn_talk r in
     if caught b \<and> s_cut t \<noteq> [] \<and> \<not> s_wedged t
     then if s_over t \<noteq> [] \<and> (\<exists>c. s_capped t = Some c \<and> b_then c = ''fail'')
       then CutsShort (cutting t) said else Answers (result_of said)
     else Raises b)"
  using assms(2)
  by (auto simp: turn_rounds_sent_on [OF assms(1)] Let_def round_ends_def short_def fails_short_def result_of_def
      split: option.splits)

section \<open>What the hooks say\<close>

text \<open>The verdicts of the hooks a moment is about, those that failed or had nothing to say left out.\<close>

definition heard_of :: "occasion \<Rightarrow> hung list \<Rightarrow> verdict list" where
  "heard_of o' hs = concat (map (\<lambda>h. case hg_hook h o' of Says v \<Rightarrow> [v] | _ \<Rightarrow> []) (filter (asks_hook o') hs))"

definition refusals :: "verdict list \<Rightarrow> verdict list" where
  "refusals vs = filter vd_refused vs"

definition additions :: "verdict list \<Rightarrow> string list" where
  "additions vs = filter (\<lambda>s. s \<noteq> []) (map vd_adds vs)"

lemma gather_all:
  "\<forall>h\<in>set hs. asks_hook o' h \<longrightarrow> hg_hook h o' \<noteq> Stopping \<Longrightarrow>
   gather o' (refused, because, adds) hs =
     Some (refused \<or> refusals (heard_of o' hs) \<noteq> [],
       if refused then because else (case refusals (heard_of o' hs) of v # r \<Rightarrow> vd_because v | [] \<Rightarrow> because),
       adds @ additions (heard_of o' hs))"
proof (induction hs arbitrary: refused because adds)
  case (Cons h hs)
  show ?case
  proof (cases "asks_hook o' h")
    case False
    then show ?thesis using Cons by (simp add: heard_of_def)
  next
    case True
    then show ?thesis using Cons
      by (cases "hg_hook h o'") (auto simp: heard_of_def refusals_def additions_def)
  qed
qed (simp add: heard_of_def refusals_def additions_def)

lemma gather_stopped:
  "h \<in> set hs \<Longrightarrow> asks_hook o' h \<Longrightarrow> hg_hook h o' = Stopping \<Longrightarrow> gather o' acc hs = None"
proof (induction hs arbitrary: acc)
  case (Cons g hs)
  then show ?case by (cases acc; cases "hg_hook g o'") auto
qed simp

text \<open>
  What the hooks of a moment come to is one verdict: refused exactly where one of those it is about
  refused, for the first reason there was, adding all they add in the order they were hung; one that failed
  counts as one that said nothing, and one that drove a stopped agent stops the turn.
\<close>

theorem hooks_speak_as_one:
  shows "fire_hooks hs o' =
    (let hung = hanging_on hs (oc_moment o'); vs = heard_of o' hung in
     if \<exists>h\<in>set hung. asks_hook o' h \<and> hg_hook h o' = Stopping then None
     else Some \<lparr>vd_refused = refusals vs \<noteq> [], vd_because = (case refusals vs of v # r \<Rightarrow> vd_because v | [] \<Rightarrow> []),
       vd_adds = py_join two_lines (additions vs)\<rparr>)"
proof (cases "\<exists>h\<in>set (hanging_on hs (oc_moment o')). asks_hook o' h \<and> hg_hook h o' = Stopping")
  case True
  then show ?thesis by (auto simp: fire_hooks_def Let_def gather_stopped)
next
  case False
  then show ?thesis by (simp add: fire_hooks_def Let_def gather_all)
qed


section \<open>A turn of two rounds\<close>

definition sample_round :: "string \<Rightarrow> broke option \<Rightarrow> string \<Rightarrow> verdict option \<Rightarrow> round_of" where
  "sample_round said b why stop =
     \<lparr>rn_events = [\<lparr>ev_kind = ''text'', ev_text = said\<rparr>, result_of said], rn_broke = b,
      rn_talk = (talk_made None)\<lparr>s_cut := why\<rparr>, rn_stop = stop\<rparr>"

definition go_on :: "verdict option" where
  "go_on = Some \<lparr>vd_refused = True, vd_because = ''go on'', vd_adds = []\<rparr>"

definition two_rounds :: "round_of list" where
  "two_rounds = [sample_round ''one'' None [] go_on, sample_round ''two'' (Some (OSErr ''gone'')) ''enough'' None]"

lemma one_answer_witness:
  "\<exists>es ps. turning_of ''a'' [] False [] ''p'' (\<lambda>p. Some nothing_said) two_rounds =
       Ran es (Answers (result_of (''one'' @ [char_of (10 :: nat)] @ ''two''))) ps \<and> length (filter is_result es) = 1"
proof -
  have "turning_of ''a'' [] False [] ''p'' (\<lambda>p. Some nothing_said) two_rounds =
    Ran [\<lparr>ev_kind = ''text'', ev_text = ''one''\<rparr>, \<lparr>ev_kind = ''text'', ev_text = ''two''\<rparr>,
        result_of (''one'' @ [char_of (10 :: nat)] @ ''two'')]
      (Answers (result_of (''one'' @ [char_of (10 :: nat)] @ ''two''))) [''p'', ''go on'']"
    by code_simp
  with one_answer [OF this] show ?thesis by auto
qed

lemma broken_turn_comes_to_witness:
  "list_all sent_on [sample_round ''one'' None [] go_on] \<and>
   fst (snd (turn_rounds ''p'' [] ([sample_round ''one'' None [] go_on] @ [sample_round ''two'' (Some (OSErr ''gone'')) ''enough'' None]))) =
     Answers (result_of (''one'' @ [char_of (10 :: nat)] @ ''two''))"
proof -
  have s: "list_all sent_on [sample_round ''one'' None [] go_on]" by code_simp
  have b: "rn_broke (sample_round ''two'' (Some (OSErr ''gone'')) ''enough'' None) = Some (OSErr ''gone'')"
    by (simp add: sample_round_def)
  have "said_so_far [''one'', ''two''] = ''one'' @ [char_of (10 :: nat)] @ ''two''" by code_simp
  then show ?thesis using broken_turn_comes_to [OF s b, of "''p''"] s
    by (simp add: Let_def sample_round_def talk_made_def texts_of_def result_of_def)
qed

end
