(* ===== verification/Prices.thy ===== *)
theory Prices
  imports PyValue PyFormat "HOL-Library.Char_ord" "HOL-Library.List_Lexorder"
begin

text \<open>
  \<open>hmz.coganchor.prices\<close>: what a token costs. A list somebody else keeps is cut down to the newest
  version's prices and kept; what is kept is looked up under every spelling of a model; and tokens
  come to the money its priced kinds came to. The file and the network are outside: a fetch is what it
  brought, and the file what it holds.
\<close>

section \<open>Reading the source\<close>

text \<open>A price that is no finite number: the model, the kind of token and what was said.\<close>

datatype price_error = NotMoney string string pyfloat | KeptNotMoney string string pyfloat | RefusedList price_error

definition MILLION :: rat where
  "MILLION = 1000000"

definition CATEGORIES :: "(string \<times> string) list" where
  "CATEGORIES = [(''input_tokens'', ''input''), (''output_tokens'', ''output''),
     (''cache_read_tokens'', ''cache_read''), (''cache_write_tokens'', ''cache_write'')]"

definition BILLED :: "(string \<times> string) list" where
  "BILLED = [(''reasoning'', ''output'')]"

definition INSTEAD :: "(string \<times> string) list" where
  "INSTEAD = [(''cache_write'', ''input'')]"

text \<open>A number that is not a bool, as a float: an integer too large for one is infinite.\<close>

fun number_of :: "pyval \<Rightarrow> pyfloat option" where
  "number_of (VInt i) = Some (case float_of_int i of Some x \<Rightarrow> x | None \<Rightarrow> PInf)"
| "number_of (VFloat x s) = Some x"
| "number_of v = None"

definition finite_rate :: "string \<Rightarrow> string \<Rightarrow> pyfloat \<Rightarrow> price_error + pyfloat" where
  "finite_rate model kind dollars = (if is_finite dollars then Inr dollars else Inl (NotMoney model kind dollars))"

definition field_str :: "(string \<times> pyval) list \<Rightarrow> string \<Rightarrow> string" where
  "field_str m k = py_str (or_else (get_or_none m k) (VStr []))"

definition per_item :: "string \<Rightarrow> (string \<times> pyfloat) list \<Rightarrow> pyval \<Rightarrow> price_error + (string \<times> pyfloat) list" where
  "per_item model per one =
     (case one of
        VDict item \<Rightarrow>
          (case (dict_get CATEGORIES (field_str item ''category''), number_of (get_or_none item ''price'')) of
             (Some kind, Some asked) \<Rightarrow>
               if kind \<in> set (dict_keys per) then Inr per
               else res_bind (finite_rate model kind asked)
                 (\<lambda>rate. Inr (if f_lt rate (Fin 0) then per else dict_put kind rate per))
           | _ \<Rightarrow> Inr per)
      | _ \<Rightarrow> Inr per)"

definition per_million :: "pyval \<Rightarrow> string \<Rightarrow> price_error + (string \<times> pyfloat) list" where
  "per_million items model = (case items of VList xs \<Rightarrow> res_fold (per_item model) xs [] | _ \<Rightarrow> Inr [])"

text \<open>The newest version of the document, by its date: the first of those it dates the same.\<close>

definition newer :: "((string \<times> pyval) list \<times> string) option \<Rightarrow> pyval \<Rightarrow> ((string \<times> pyval) list \<times> string) option" where
  "newer best one =
     (case one of
        VDict version \<Rightarrow>
          let when = field_str version ''date'' in
          (case best of
             None \<Rightarrow> Some (version, when)
           | Some (b, latest) \<Rightarrow> if latest < when then Some (version, when) else best)
      | _ \<Rightarrow> best)"

definition newest :: "pyval list \<Rightarrow> (string \<times> pyval) list option" where
  "newest versions = map_option fst (foldl newer None versions)"

text \<open>One model as it is kept: its provider, its name and its prices.\<close>

record listed =
  l_provider :: string
  l_name :: string
  l_per :: "(string \<times> pyfloat) list"

definition model_item :: "(string \<times> listed) list \<Rightarrow> pyval \<Rightarrow> price_error + (string \<times> listed) list" where
  "model_item models one =
     (case one of
        VDict model \<Rightarrow>
          let named = field_str model ''id'' in
          res_bind (per_million (or_else (get_or_none model ''pricingItems'') (VList [])) named)
            (\<lambda>per. Inr (if named \<noteq> [] \<and> per \<noteq> []
               then dict_put named \<lparr>l_provider = field_str model ''provider'', l_name = field_str model ''name'', l_per = per\<rparr> models
               else models))
      | _ \<Rightarrow> Inr models)"

text \<open>What is kept of a document: where it came from, its tag, when, its date and its models.\<close>

record trimmed_list =
  k_source :: string
  k_etag :: string
  k_date :: string
  k_models :: "(string \<times> listed) list"

definition contains_1M :: "string \<Rightarrow> bool" where
  "contains_1M s = contains_sub ''1M'' s"

definition trim :: "pyval \<Rightarrow> string \<Rightarrow> string \<Rightarrow> price_error + trimmed_list option" where
  "trim loaded whence etag =
     (case loaded of
        VDict said \<Rightarrow>
          if field_str said ''currency'' \<noteq> ''USD'' \<or> \<not> contains_1M (field_str said ''unit'') then Inr None
          else
            (case get_or_none said ''versions'' of
               VList versions \<Rightarrow>
                 (case newest versions of
                    None \<Rightarrow> Inr None
                  | Some version \<Rightarrow>
                      res_bind (res_fold model_item
                          (case get_or_none version ''models'' of VList every \<Rightarrow> every | _ \<Rightarrow> []) [])
                        (\<lambda>models. Inr (if models = [] then None
                           else Some \<lparr>k_source = whence, k_etag = etag, k_date = field_str version ''date'', k_models = models\<rparr>)))
             | _ \<Rightarrow> Inr None)
      | _ \<Rightarrow> Inr None)"


text \<open>The same as the dictionary that is written; \<open>shown\<close> is how a float is spelled.\<close>

definition listed_val :: "(pyfloat \<Rightarrow> string) \<Rightarrow> listed \<Rightarrow> pyval" where
  "listed_val shown m = VDict [(''provider'', VStr (l_provider m)), (''name'', VStr (l_name m)),
     (''per_million'', VDict (map (\<lambda>(k, r). (k, VFloat r (shown r))) (l_per m)))]"

definition kept_val :: "(pyfloat \<Rightarrow> string) \<Rightarrow> pyval \<Rightarrow> trimmed_list \<Rightarrow> pyval" where
  "kept_val shown fetched k = VDict [(''source'', VStr (k_source k)), (''etag'', VStr (k_etag k)),
     (''fetched'', fetched), (''date'', VStr (k_date k)),
     (''models'', VDict (map (\<lambda>(n, m). (n, listed_val shown m)) (k_models k)))]"

section \<open>Reading what is kept\<close>

record price =
  p_model :: string
  p_provider :: string
  p_per :: "(string \<times> pyfloat) list"

definition is_alnum :: "char \<Rightarrow> bool" where
  "is_alnum c \<longleftrightarrow> is_digit c \<or> (97 \<le> (of_char c :: nat) \<and> (of_char c :: nat) \<le> 122)"

definition squash :: "string \<Rightarrow> string" where
  "squash named = filter is_alnum (py_lower named)"

definition kept_rate :: "string \<Rightarrow> (string \<times> pyfloat) list \<Rightarrow> string \<times> pyval \<Rightarrow> price_error + (string \<times> pyfloat) list" where
  "kept_rate named per kv =
     (case number_of (snd kv) of
        None \<Rightarrow> Inr per
      | Some rate \<Rightarrow> (case finite_rate named (fst kv) rate of
            Inl e \<Rightarrow> Inl (KeptNotMoney named (fst kv) rate)
          | Inr r \<Rightarrow> Inr (dict_put (fst kv) r per)))"

definition set_default :: "'k \<Rightarrow> 'v \<Rightarrow> ('k \<times> 'v) list \<Rightarrow> ('k \<times> 'v) list" where
  "set_default k v m = (if k \<in> set (dict_keys m) then m else dict_put k v m)"

definition kept_model :: "(string \<times> price) list \<Rightarrow> string \<times> pyval \<Rightarrow> price_error + (string \<times> price) list" where
  "kept_model found kv =
     (case snd kv of
        VDict model \<Rightarrow>
          (case get_or_none model ''per_million'' of
             VDict per \<Rightarrow>
               res_bind (res_fold (kept_rate (fst kv)) per [])
                 (\<lambda>rates. Inr (if rates = [] then found
                    else
                      let priced = \<lparr>p_model = fst kv, p_provider = field_str model ''provider'', p_per = rates\<rparr> in
                      set_default (squash (field_str model ''name'')) priced (dict_put (squash (fst kv)) priced found)))
           | _ \<Rightarrow> Inr found)
      | _ \<Rightarrow> Inr found)"

definition read_prices :: "pyval option \<Rightarrow> price_error + (string \<times> price) list" where
  "read_prices held =
     (case held of
        Some (VDict said) \<Rightarrow>
          (case get_or_none said ''models'' of
             VDict models \<Rightarrow> res_bind (res_fold kept_model models []) (\<lambda>found. Inr (dict_del [] found))
           | _ \<Rightarrow> Inr [])
      | _ \<Rightarrow> Inr [])"

section \<open>Every spelling of a model\<close>

text \<open>
  A scrap cut off the end of a name: \<open>$\<close> of a regular expression stands at the end and before a last
  newline. \<open>f\<close> says what is left of a name that ends in the scrap.
\<close>

definition newline :: char where
  "newline = char_of (10 :: nat)"

definition cut_tail :: "(string \<Rightarrow> string option) \<Rightarrow> string \<Rightarrow> string" where
  "cut_tail f s =
     (case f s of
        Some r \<Rightarrow> r
      | None \<Rightarrow> if s \<noteq> [] \<and> last s = newline then (case f (butlast s) of Some r \<Rightarrow> r @ [newline] | None \<Rightarrow> s) else s)"

definition is_sep :: "char \<Rightarrow> bool" where
  "is_sep c \<longleftrightarrow> c = CHR ''-'' \<or> c = CHR ''@''"

text \<open>\<open>:\<close> and digits; \<open>-v\<close> and digits; \<open>-latest\<close> or \<open>-stable\<close>; a date with its dashes or without.\<close>

definition no_port :: "string \<Rightarrow> string option" where
  "no_port s =
     (case dropWhile is_digit (rev s) of
        c # r \<Rightarrow> if c = CHR '':'' \<and> s \<noteq> [] \<and> is_digit (last s) then Some (rev r) else None
      | [] \<Rightarrow> None)"

definition no_version :: "string \<Rightarrow> string option" where
  "no_version s =
     (case dropWhile is_digit (rev s) of
        c # d # r \<Rightarrow> if c = CHR ''v'' \<and> is_sep d \<and> is_digit (last s) then Some (rev r) else None
      | _ \<Rightarrow> None)"

definition no_latest :: "string \<Rightarrow> string option" where
  "no_latest s =
     (case drop 6 (rev s) of
        c # r \<Rightarrow> if is_sep c \<and> (ends_with ''latest'' s \<or> ends_with ''stable'' s) then Some (rev r) else None
      | [] \<Rightarrow> None)"

definition all_digits :: "string \<Rightarrow> bool" where
  "all_digits s \<longleftrightarrow> list_all is_digit s"

fun no_dash :: "string \<Rightarrow> string" where
  "no_dash (c # s) = (if c = CHR ''-'' then s else c # s)"
| "no_dash [] = []"

definition is_date :: "string \<Rightarrow> bool" where
  "is_date s \<longleftrightarrow>
     (starts_with ''19'' s \<or> starts_with ''20'' s) \<and> 4 < length s \<and> all_digits (take 4 s) \<and>
     (let r = no_dash (drop 4 s); u = no_dash (drop 2 r) in
      2 < length r \<and> all_digits (take 2 r) \<and> length u = 2 \<and> all_digits u)"

definition no_date :: "string \<Rightarrow> string option" where
  "no_date s =
     first_some (\<lambda>k. if k < length s \<and> (is_sep (s ! (length s - k - 1)) \<or> s ! (length s - k - 1) = CHR ''_'')
         \<and> is_date (drop (length s - k) s) then Some (take (length s - k - 1) s) else None) [10, 9, 8]"

text \<open>Before the name: a word and a point, and the cloud a gateway routes to.\<close>

definition is_lower :: "char \<Rightarrow> bool" where
  "is_lower c \<longleftrightarrow> 97 \<le> (of_char c :: nat) \<and> (of_char c :: nat) \<le> 122"

definition unqualified :: "string \<Rightarrow> string" where
  "unqualified s =
     (case dropWhile is_lower s of
        c # r \<Rightarrow> if c = CHR ''.'' \<and> is_lower (hd s) then r else s
      | [] \<Rightarrow> s)"

definition ROUTES :: "string list" where
  "ROUTES = [''bedrock-'', ''vertex-'', ''azure-'', ''aws-'', ''gcp-'']"

definition unrouted :: "string \<Rightarrow> string" where
  "unrouted s = (case first_of (\<lambda>r. starts_with r s) ROUTES of Some r \<Rightarrow> remove_prefix r s | None \<Rightarrow> s)"

definition cuts_of :: "string \<Rightarrow> string list" where
  "cuts_of one = [one, cut_tail no_latest one, cut_tail no_version one, cut_tail no_date one,
     cut_tail no_date (cut_tail no_version (cut_tail no_latest one))]"

definition spellings :: "string \<Rightarrow> string list" where
  "spellings model =
     (let said = cut_tail no_port (py_lower (py_strip model)) in
      concat (map (\<lambda>whole.
          let bare = unqualified (unqualified whole) in
          concat (map cuts_of [whole, bare, unrouted bare]))
        [said, snd (snd (py_rpartition (CHR ''/'') said))]))"

fun once :: "string list \<Rightarrow> string list \<Rightarrow> string list" where
  "once seen [] = []"
| "once seen (k # ks) = (if k = [] \<or> k \<in> set seen then once seen ks else k # once (k # seen) ks)"

definition keys_of :: "string \<Rightarrow> string list" where
  "keys_of model = once [] (map squash (spellings model))"

definition price_of :: "(string \<times> price) list \<Rightarrow> string \<Rightarrow> price option" where
  "price_of listed model = first_some (dict_get listed) (keys_of model)"

section \<open>What tokens come to\<close>

definition rate_for :: "(string \<times> pyfloat) list \<Rightarrow> string \<Rightarrow> pyfloat option" where
  "rate_for per kind =
     (let named = (case dict_get BILLED kind of Some n \<Rightarrow> n | None \<Rightarrow> kind) in
      case dict_get per named of
        Some r \<Rightarrow> Some r
      | None \<Rightarrow> dict_get per (case dict_get INSTEAD named of Some n \<Rightarrow> n | None \<Rightarrow> []))"

text \<open>The money so far and whether anything was priced; a price is finite.\<close>

definition cost_step :: "(string \<times> pyfloat) list \<Rightarrow> pyfloat \<times> bool \<Rightarrow> string \<times> rat \<Rightarrow> pyfloat \<times> bool" where
  "cost_step per acc kt =
     (case rate_for per (fst kt) of
        None \<Rightarrow> acc
      | Some rate \<Rightarrow>
          if 0 < snd kt then (f_add (fst acc) (f_mul (f_mul (Fin (snd kt)) rate) (Fin (1 / MILLION))), True) else acc)"

definition cost :: "(string \<times> rat) list \<Rightarrow> price option \<Rightarrow> pyfloat option" where
  "cost usage listed =
     (case listed of
        None \<Rightarrow> None
      | Some p \<Rightarrow> (case foldl (cost_step (p_per p)) (Fin 0, False) usage of (c, priced) \<Rightarrow> if priced then Some c else None))"


section \<open>Fetching\<close>

text \<open>
  What a fetch brings: the word that nothing changed, nothing that can be used, or a body, its JSON if it is
  any, with its tag. What is kept on the disk, and why the list last fetched from a source was refused.
\<close>

datatype brought = Unchanged | Lost | Body "pyval option" string

record kept_prices =
  kp_file :: "pyval option"
  kp_refused :: "(string \<times> price_error) list"

definition unrefused :: "string \<Rightarrow> kept_prices \<Rightarrow> kept_prices" where
  "unrefused whence s = s\<lparr>kp_refused := dict_del whence (kp_refused s)\<rparr>"

definition fetched :: "(pyfloat \<Rightarrow> string) \<Rightarrow> pyval \<Rightarrow> string \<Rightarrow> brought \<Rightarrow> bool \<Rightarrow> kept_prices \<Rightarrow> kept_prices \<times> bool" where
  "fetched shown now whence got lands s =
     (case got of
        Unchanged \<Rightarrow> (unrefused whence s, True)
      | Lost \<Rightarrow> (s, False)
      | Body None etag \<Rightarrow> (s, False)
      | Body (Some loaded) etag \<Rightarrow>
          (case trim loaded whence etag of
             Inl why \<Rightarrow> (s\<lparr>kp_refused := dict_put whence (RefusedList why) (kp_refused s)\<rparr>, False)
           | Inr None \<Rightarrow> (s, False)
           | Inr (Some k) \<Rightarrow>
               let s = unrefused whence s in
               if lands then (s\<lparr>kp_file := Some (kept_val shown now k)\<rparr>, True) else (s, False)))"

definition index_of :: "string \<Rightarrow> kept_prices \<Rightarrow> price_error + (string \<times> price) list" where
  "index_of whence s =
     (case dict_get (kp_refused s) whence of Some why \<Rightarrow> Inl why | None \<Rightarrow> read_prices (kp_file s))"

definition price_now :: "string \<Rightarrow> kept_prices \<Rightarrow> string \<Rightarrow> price_error + price option" where
  "price_now whence s model = res_bind (index_of whence s) (\<lambda>listed. Inr (price_of listed model))"

definition cost_now :: "string \<Rightarrow> kept_prices \<Rightarrow> (string \<times> rat) list \<Rightarrow> string \<Rightarrow> price_error + pyfloat option" where
  "cost_now whence s usage model = res_bind (price_now whence s model) (\<lambda>p. Inr (cost usage p))"

section \<open>What trimming keeps\<close>

definition rates_ok :: "(string \<times> pyfloat) list \<Rightarrow> bool" where
  "rates_ok per \<longleftrightarrow> dict_ok per \<and> (\<forall>(k, r)\<in>set per. is_finite r \<and> \<not> f_lt r (Fin 0))"

lemma rates_ok_Nil [simp]: "rates_ok []"
  by (simp add: rates_ok_def)

lemma set_dict_put: "kv \<in> set (dict_put k v m) \<Longrightarrow> kv = (k, v) \<or> kv \<in> set m"
  by (induction m) (auto split: if_splits)

lemma rates_ok_put: "rates_ok per \<Longrightarrow> is_finite r \<Longrightarrow> \<not> f_lt r (Fin 0) \<Longrightarrow> rates_ok (dict_put k r per)"
  by (auto simp: rates_ok_def dest!: set_dict_put)

lemma per_million_ok: "per_million items model = Inr per \<Longrightarrow> rates_ok per"
proof (cases items)
  case (VList xs)
  assume "per_million items model = Inr per"
  then have "res_fold (per_item model) xs [] = Inr per" using VList by (simp add: per_million_def)
  then show ?thesis
    by (rule res_fold_inv)
      (auto simp: per_item_def finite_rate_def res_bind_eq_Inr_iff
        split: pyval.splits option.splits if_splits intro: rates_ok_put)
qed (auto simp: per_million_def)

definition listing_ok :: "(string \<times> listed) list \<Rightarrow> bool" where
  "listing_ok ms \<longleftrightarrow> dict_ok ms \<and> (\<forall>(n, m)\<in>set ms. l_per m \<noteq> [] \<and> rates_ok (l_per m))"

lemma trim_ok: "trim loaded whence etag = Inr (Some k) \<Longrightarrow> listing_ok (k_models k)"
proof -
  assume t: "trim loaded whence etag = Inr (Some k)"
  then obtain every where "res_fold model_item every [] = Inr (k_models k)"
    by (auto simp: trim_def res_bind_eq_Inr_iff split: pyval.splits option.splits if_splits)
  then show ?thesis
    by (rule res_fold_inv)
      (auto simp: listing_ok_def model_item_def res_bind_eq_Inr_iff Let_def
        split: pyval.splits if_splits dest!: set_dict_put dest: per_million_ok)
qed


section \<open>What is kept is read\<close>

lemma kept_rates:
  assumes "rates_ok (acc @ per)"
  shows "res_fold (kept_rate n) (map (\<lambda>(k, r). (k, VFloat r (shown r))) per) acc = Inr (acc @ per)"
  using assms
proof (induction per arbitrary: acc)
  case (Cons kr per)
  obtain k r where kr: "kr = (k, r)" by (cases kr)
  have "k \<notin> set (dict_keys acc)" "is_finite r" using Cons.prems kr by (auto simp: rates_ok_def dict_ok_def)
  then have "kept_rate n acc (k, VFloat r (shown r)) = Inr (acc @ [(k, r)])"
    by (simp add: kept_rate_def finite_rate_def dict_put_new)
  then show ?case using Cons kr by simp
qed simp

definition price_listed :: "string \<Rightarrow> listed \<Rightarrow> price" where
  "price_listed n m = \<lparr>p_model = n, p_provider = l_provider m, p_per = l_per m\<rparr>"

lemma field_str_VStr: "dict_get m k = Some (VStr s) \<Longrightarrow> field_str m k = s"
  by (cases s) (auto simp: field_str_def get_or_none_def or_else_def)

lemma kept_model_val:
  assumes "l_per m \<noteq> []" and "rates_ok (l_per m)"
  shows "kept_model found (n, listed_val shown m) =
    Inr (set_default (squash (l_name m)) (price_listed n m) (dict_put (squash n) (price_listed n m) found))"
  using assms kept_rates [of "[]" "l_per m" n shown]
  by (simp add: kept_model_def listed_val_def get_or_none_def field_str_VStr price_listed_def Let_def)

lemma dict_get_set_default:
  "dict_get (set_default k v m) k' = (if dict_get m k = None \<and> k' = k then Some v else dict_get m k')"
proof (cases "dict_get m k")
  case None
  then show ?thesis using dict_get_None_iff [of m k] by (simp add: set_default_def)
next
  case (Some w)
  then have "k \<in> set (dict_keys m)" using dict_get_None_iff [of m k] by auto
  then show ?thesis using Some by (simp add: set_default_def)
qed

lemma dict_ok_set_default: "dict_ok m \<Longrightarrow> dict_ok (set_default k v m)"
  by (simp add: set_default_def)

text \<open>Reading a list of kept models: an entry an id has put is never taken by a name.\<close>

lemma kept_models_fold:
  assumes "\<forall>(n, m)\<in>set ms. l_per m \<noteq> [] \<and> rates_ok (l_per m)" and "dict_ok found"
  shows "\<exists>found'. res_fold kept_model (map (\<lambda>(n, m). (n, listed_val shown m)) ms) found = Inr found' \<and> dict_ok found' \<and>
    (\<forall>q p. dict_get found q = Some p \<longrightarrow> (\<forall>(n, m)\<in>set ms. squash n \<noteq> q) \<longrightarrow> dict_get found' q = Some p)"
  using assms
proof (induction ms arbitrary: found)
  case (Cons nm ms)
  obtain n m where nm: "nm = (n, m)" by (cases nm)
  let ?f = "set_default (squash (l_name m)) (price_listed n m) (dict_put (squash n) (price_listed n m) found)"
  have "dict_ok ?f" using Cons.prems by (simp add: dict_ok_set_default)
  from Cons.IH [OF _ this] Cons.prems obtain found' where f:
    "res_fold kept_model (map (\<lambda>(n, m). (n, listed_val shown m)) ms) ?f = Inr found'" "dict_ok found'"
    "\<forall>q p. dict_get ?f q = Some p \<longrightarrow> (\<forall>(n, m)\<in>set ms. squash n \<noteq> q) \<longrightarrow> dict_get found' q = Some p"
    by auto
  have kept: "dict_get ?f q = Some p" if "dict_get found q = Some p" "squash n \<noteq> q" for q p
    using that by (auto simp: dict_get_set_default)
  show ?case using Cons.prems nm f(1,2) f(3) kept by (auto simp: kept_model_val)
qed simp

text \<open>A model whose id no other model's id is squashed to is found under it, with its own prices.\<close>

lemma kept_model_found:
  assumes "listing_ok ms" and "(n, m) \<in> set ms" and "\<forall>(n', m')\<in>set ms. squash n' = squash n \<longrightarrow> n' = n"
  shows "\<exists>found. res_fold kept_model (map (\<lambda>(n, m). (n, listed_val shown m)) ms) [] = Inr found \<and> dict_ok found \<and>
    dict_get found (squash n) = Some (price_listed n m)"
proof -
  obtain as bs where ms: "ms = as @ (n, m) # bs" using assms(2) by (meson split_list)
  have ok: "\<forall>(n, m)\<in>set as. l_per m \<noteq> [] \<and> rates_ok (l_per m)" "\<forall>(n, m)\<in>set bs. l_per m \<noteq> [] \<and> rates_ok (l_per m)"
    "l_per m \<noteq> []" "rates_ok (l_per m)"
    using assms(1) ms by (auto simp: listing_ok_def)
  have "n \<notin> fst ` set bs" using assms(1) ms by (auto simp: listing_ok_def dict_ok_def)
  moreover have "n' = n" if "(n', m') \<in> set bs" "squash n' = squash n" for n' m'
    using assms(3) ms that by auto
  ultimately have others: "\<forall>(n', m')\<in>set bs. squash n' \<noteq> squash n" by force
  obtain f where f: "res_fold kept_model (map (\<lambda>(n, m). (n, listed_val shown m)) as) [] = Inr f" "dict_ok f"
    using kept_models_fold [OF ok(1), of "[]" shown] by auto
  let ?f = "set_default (squash (l_name m)) (price_listed n m) (dict_put (squash n) (price_listed n m) f)"
  have "dict_ok ?f" using f by (simp add: dict_ok_set_default)
  from kept_models_fold [OF ok(2) this, of shown] obtain f' where
    "res_fold kept_model (map (\<lambda>(n, m). (n, listed_val shown m)) bs) ?f = Inr f'" "dict_ok f'"
    "dict_get f' (squash n) = Some (price_listed n m)"
    using others by (auto simp: dict_get_set_default)
  then show ?thesis using f ok(3,4) ms by (simp add: res_fold_append kept_model_val)
qed


section \<open>What a fetch comes to\<close>

lemma spellings_first: "\<exists>ss. spellings model = cut_tail no_port (py_lower (py_strip model)) # ss"
  by (simp add: spellings_def cuts_of_def Let_def)

lemma keys_first: "squash (cut_tail no_port (py_lower (py_strip model))) = k \<Longrightarrow> k \<noteq> [] \<Longrightarrow> \<exists>ks. keys_of model = k # ks"
  using spellings_first [of model] by (auto simp: keys_of_def)

lemma read_kept:
  "read_prices (Some (kept_val shown now k)) =
   res_bind (res_fold kept_model (map (\<lambda>(n, m). (n, listed_val shown m)) (k_models k)) []) (\<lambda>found. Inr (dict_del [] found))"
  by (simp add: read_prices_def kept_val_def get_or_none_def)

text \<open>
  What a fetch keeps is what is read back: a model of the list, its id squashed to what no other id is,
  is found under any spelling that squashes to it, with the prices it was listed at, whatever names other
  models go by; the refusal of an earlier list is over.
\<close>

theorem kept_prices_are_read:
  assumes "trim loaded whence etag = Inr (Some k)" and "(n, m) \<in> set (k_models k)"
    and "\<forall>(n', m')\<in>set (k_models k). squash n' = squash n \<longrightarrow> n' = n" and "squash n \<noteq> []"
    and "squash (cut_tail no_port (py_lower (py_strip model))) = squash n" and "dict_ok (kp_refused s)"
  shows "price_now whence (fst (fetched shown now whence (Body (Some loaded) etag) True s)) model =
    Inr (Some (price_listed n m))"
proof -
  obtain found where f: "res_fold kept_model (map (\<lambda>(n, m). (n, listed_val shown m)) (k_models k)) [] = Inr found"
    "dict_ok found" "dict_get found (squash n) = Some (price_listed n m)"
    using kept_model_found [OF trim_ok [OF assms(1)] assms(2,3), of shown] by auto
  obtain ks where "keys_of model = squash n # ks" using keys_first [OF assms(5,4)] by auto
  then have "price_of (dict_del [] found) model = Some (price_listed n m)"
    using f(2,3) assms(4) by (simp add: price_of_def dict_get_del)
  then show ?thesis using assms(1,6) f(1)
    by (simp add: fetched_def unrefused_def Let_def price_now_def index_of_def dict_get_del read_kept)
qed

text \<open>Any fetches of any sources, one after another.\<close>

type_synonym fetch = "string \<times> brought \<times> bool"

definition fetch_all :: "(pyfloat \<Rightarrow> string) \<Rightarrow> pyval \<Rightarrow> fetch list \<Rightarrow> kept_prices \<Rightarrow> kept_prices" where
  "fetch_all shown now fs s = foldl (\<lambda>s (whence, got, lands). fst (fetched shown now whence got lands s)) s fs"

text \<open>Whether a fetch brings a list that can be read, or word that the one kept still stands.\<close>

fun clears :: "string \<Rightarrow> brought \<Rightarrow> bool" where
  "clears whence Unchanged = True"
| "clears whence (Body (Some loaded) etag) = (\<exists>k. trim loaded whence etag = Inr (Some k))"
| "clears whence got = False"

lemma fetched_keeps_refusal:
  assumes "dict_get (kp_refused s) whence = Some why" and "dict_ok (kp_refused s)" and "w = whence \<longrightarrow> \<not> clears w got"
  shows "(\<exists>why. dict_get (kp_refused (fst (fetched shown now w got lands s))) whence = Some why) \<and>
    dict_ok (kp_refused (fst (fetched shown now w got lands s)))"
  using assms
  by (cases "(w, got)" rule: clears.cases)
    (auto simp: fetched_def unrefused_def Let_def dict_get_del split: sum.split option.split)

lemma fetch_all_refused:
  assumes "dict_get (kp_refused s) whence = Some why" and "dict_ok (kp_refused s)"
    and "\<forall>(w, got, lands)\<in>set fs. w = whence \<longrightarrow> \<not> clears w got"
  shows "\<exists>why. dict_get (kp_refused (fetch_all shown now fs s)) whence = Some why"
  using assms
proof (induction fs arbitrary: s why)
  case (Cons f fs)
  obtain w got lands where f: "f = (w, got, lands)" by (cases f)
  obtain why' where "dict_get (kp_refused (fst (fetched shown now w got lands s))) whence = Some why'"
    "dict_ok (kp_refused (fst (fetched shown now w got lands s)))"
    using fetched_keeps_refusal [OF Cons.prems(1,2), of w got shown now lands] Cons.prems(3) f by auto
  from Cons.IH [OF this] Cons.prems(3) f show ?case by (simp add: fetch_all_def)
qed (simp add: fetch_all_def)

text \<open>
  A list whose newest version gives a price that is no finite number is never kept, and from then on no
  token is priced at all, whatever other fetches come, until its source brings one that can be read or says
  that the kept one still stands.
\<close>

theorem bad_list_prices_nothing:
  assumes "trim loaded whence etag = Inl why" and "dict_ok (kp_refused s)"
    and "\<forall>(w, got, lands)\<in>set fs. w = whence \<longrightarrow> \<not> clears w got"
  shows "kp_file (fst (fetched shown now whence (Body (Some loaded) etag) lands s)) = kp_file s \<and>
    (\<exists>e. cost_now whence (fetch_all shown now fs (fst (fetched shown now whence (Body (Some loaded) etag) lands s)))
      usage model = Inl e)"
proof -
  let ?s = "fst (fetched shown now whence (Body (Some loaded) etag) lands s)"
  have s: "dict_get (kp_refused ?s) whence = Some (RefusedList why)" "dict_ok (kp_refused ?s)" "kp_file ?s = kp_file s"
    using assms(1,2) by (simp_all add: fetched_def)
  obtain e where "dict_get (kp_refused (fetch_all shown now fs ?s)) whence = Some e"
    using fetch_all_refused [OF s(1,2) assms(3)] by blast
  then show ?thesis using s(3) by (simp add: cost_now_def price_now_def index_of_def)
qed

section \<open>What a bill is\<close>

text \<open>The tokens of the kinds a model is priced for, where any went on them, with their rates.\<close>

definition bills_one :: "(string \<times> pyfloat) list \<Rightarrow> string \<times> rat \<Rightarrow> (rat \<times> rat) list" where
  "bills_one per kt = (case rate_for per (fst kt) of Some (Fin r) \<Rightarrow> if 0 < snd kt then [(snd kt, r)] else [] | _ \<Rightarrow> [])"

definition billed :: "(string \<times> pyfloat) list \<Rightarrow> (string \<times> rat) list \<Rightarrow> (rat \<times> rat) list" where
  "billed per usage = concat (map (bills_one per) usage)"

lemma bills_oneD: "(t, r) \<in> set (bills_one per kt) \<Longrightarrow> 0 < t \<and> rate_for per (fst kt) = Some (Fin r)"
proof (cases "rate_for per (fst kt)")
  case (Some x)
  then show "(t, r) \<in> set (bills_one per kt) \<Longrightarrow> ?thesis"
    by (cases x) (auto simp: bills_one_def split: if_splits)
qed (simp add: bills_one_def)

lemma billedD: "(t, r) \<in> set (billed per usage) \<Longrightarrow> \<exists>k. 0 < t \<and> rate_for per k = Some (Fin r)"
  by (auto simp: billed_def dest!: bills_oneD)

lemma rate_for_finite: "rates_ok per \<Longrightarrow> rate_for per k = Some r \<Longrightarrow> \<exists>x. r = Fin x \<and> 0 \<le> x"
  by (cases r) (force simp: rate_for_def rates_ok_def split: option.splits dest!: dict_get_in_set)+

lemma cost_steps:
  assumes "rates_ok per"
  shows "foldl (cost_step per) (Fin c, priced) usage =
    (Fin (c + sum_list (map (\<lambda>(t, r). t * r / MILLION) (billed per usage))), priced \<or> billed per usage \<noteq> [])"
proof (induction usage arbitrary: c priced)
  case (Cons kt usage)
  show ?case
  proof (cases "rate_for per (fst kt)")
    case None
    then show ?thesis using Cons by (simp add: cost_step_def billed_def bills_one_def)
  next
    case (Some r)
    then obtain x where "r = Fin x" using rate_for_finite [OF assms] by blast
    then show ?thesis using Cons Some by (simp add: cost_step_def billed_def bills_one_def add.assoc)
  qed
qed (simp add: billed_def)

text \<open>
  What tokens come to is the sum over the kinds that are priced of their tokens at their rate, never
  below nothing; where nothing spent is priced there is no bill, rather than one of nothing.
\<close>

theorem cost_is_what_is_priced:
  assumes "rates_ok (p_per p)"
  shows "cost usage (Some p) =
      (if billed (p_per p) usage = [] then None
       else Some (Fin (sum_list (map (\<lambda>(t, r). t * r / MILLION) (billed (p_per p) usage))))) \<and>
    (\<forall>(t, r)\<in>set (billed (p_per p) usage). 0 \<le> t * r / MILLION)"
proof -
  have "0 \<le> t * r / MILLION" if "(t, r) \<in> set (billed (p_per p) usage)" for t r
  proof -
    from billedD [OF that] obtain k where k: "0 < t" "rate_for (p_per p) k = Some (Fin r)" by blast
    moreover from rate_for_finite [OF assms k(2)] have "0 \<le> r" by auto
    ultimately show ?thesis by (simp add: MILLION_def)
  qed
  then show ?thesis using cost_steps [OF assms, of 0 False usage] by (auto simp: cost_def)
qed


section \<open>A list of two models\<close>

definition sample_item :: "string \<Rightarrow> pyval \<Rightarrow> pyval" where
  "sample_item kind price = VDict [(''category'', VStr kind), (''price'', price)]"

definition sample_list :: "pyval \<Rightarrow> pyval" where
  "sample_list rate = VDict [(''currency'', VStr ''USD''), (''unit'', VStr ''1M tokens''), (''versions'', VList
     [VDict [(''date'', VStr ''2025-01-01''), (''models'', VList [])],
      VDict [(''date'', VStr ''2026-01-01''), (''models'', VList
        [VDict [(''id'', VStr ''Opus-5''), (''name'', VStr ''m 1''), (''pricingItems'', VList
           [sample_item ''output_tokens'' (VFloat (Fin 25) ''25.0''), sample_item ''output_tokens'' (VFloat (Fin 99) ''99.0''), sample_item ''cache_storage'' VNone])],
         VDict [(''id'', VStr ''m1''), (''name'', VStr ''opus 5''), (''pricingItems'', VList [sample_item ''input_tokens'' rate])]])]])]"

lemma kept_prices_are_read_witness:
  "\<exists>k m. trim (sample_list (VFloat (Fin 2) ''2.0'')) ''u'' ''e'' = Inr (Some k) \<and>
     price_now ''u'' (fst (fetched (\<lambda>x. []) VNone ''u'' (Body (Some (sample_list (VFloat (Fin 2) ''2.0''))) ''e'') True
       \<lparr>kp_file = None, kp_refused = []\<rparr>)) ''m1:8'' = Inr (Some (price_listed ''m1'' m)) \<and> l_per m = [(''input'', Fin 2)]"
proof -
  let ?k = "\<lparr>k_source = ''u'', k_etag = ''e'', k_date = ''2026-01-01'', k_models =
    [(''Opus-5'', \<lparr>l_provider = [], l_name = ''m 1'', l_per = [(''output'', Fin 25)]\<rparr>),
     (''m1'', \<lparr>l_provider = [], l_name = ''opus 5'', l_per = [(''input'', Fin 2)]\<rparr>)]\<rparr>"
  have t: "trim (sample_list (VFloat (Fin 2) ''2.0'')) ''u'' ''e'' = Inr (Some ?k)" by code_simp
  have q: "squash ''m1'' = ''m1''" "squash ''Opus-5'' = ''opus5''"
    "squash (cut_tail no_port (py_lower (py_strip ''m1:8''))) = ''m1''" by code_simp+
  show ?thesis
    using kept_prices_are_read [OF t, of "''m1''" _ "''m1:8''" "\<lparr>kp_file = None, kp_refused = []\<rparr>"] t q by auto
qed

lemma bad_list_prices_nothing_witness:
  "\<exists>e. cost_now ''u'' (fetch_all (\<lambda>x. []) VNone [(''u'', Lost, True), (''other'', Unchanged, True)]
      (fst (fetched (\<lambda>x. []) VNone ''u'' (Body (Some (sample_list (VFloat NaN ''NaN''))) ''e'') True
        \<lparr>kp_file = None, kp_refused = []\<rparr>))) [(''output'', 5)] ''Opus-5'' = Inl e"
proof -
  have "trim (sample_list (VFloat NaN ''NaN'')) ''u'' ''e'' = Inl (NotMoney ''m1'' ''input'' NaN)" by code_simp
  from bad_list_prices_nothing [OF this, of "\<lparr>kp_file = None, kp_refused = []\<rparr>" "[(''u'', Lost, True), (''other'', Unchanged, True)]"]
  show ?thesis by simp
qed

lemma cost_is_what_is_priced_witness:
  "cost [(''reasoning'', 1000000), (''cache_read'', 7), (''input'', 0)]
     (Some \<lparr>p_model = [], p_provider = [], p_per = [(''output'', Fin 25)]\<rparr>) = Some (Fin 25)"
proof -
  have "rates_ok (p_per \<lparr>p_model = [], p_provider = [], p_per = [(''output'', Fin 25)]\<rparr>)"
    by (simp add: rates_ok_def dict_ok_def)
  moreover have "billed [(''output'', Fin 25)] [(''reasoning'', 1000000), (''cache_read'', 7), (''input'', 0)] = [(1000000, 25)]"
    by code_simp
  ultimately show ?thesis
    using cost_is_what_is_priced [of "\<lparr>p_model = [], p_provider = [], p_per = [(''output'', Fin 25)]\<rparr>"
        "[(''reasoning'', 1000000), (''cache_read'', 7), (''input'', 0)]"] by (simp add: MILLION_def)
qed

end
