(* ===== verification/Allowance.thy ===== *)
theory Allowance
  imports Prices
begin

text \<open>
  \<open>hmz.coganchor.agents.allowance\<close>: what a whole run may spend, and the ledger that adds up what its
  agents spent and stops them, once, when the run is over what it was allowed. The ledger's two looks under
  its lock, and the reading between them, are steps of their own; stopping an agent is the ledger's to ask
  for and the agent's to do.
\<close>

section \<open>What a run may spend\<close>

record allowance =
  a_hours :: pyfloat
  a_tokens :: pyfloat
  a_dollars :: pyfloat

definition allowance_made :: "pyfloat \<Rightarrow> pyfloat \<Rightarrow> pyfloat \<Rightarrow> allowance option" where
  "allowance_made hours tokens dollars =
     (if f_lt hours (Fin 0) \<or> f_lt tokens (Fin 0) \<or> f_lt dollars (Fin 0) then None
      else Some \<lparr>a_hours = hours, a_tokens = tokens, a_dollars = dollars\<rparr>)"

definition caps :: "pyfloat \<Rightarrow> bool" where
  "caps x \<longleftrightarrow> f_lt (Fin 0) x"

definition run_bounded :: "allowance \<Rightarrow> bool" where
  "run_bounded a \<longleftrightarrow> caps (a_hours a) \<or> caps (a_tokens a) \<or> caps (a_dollars a)"

text \<open>Which dimension a reading reaches the end of; a bill that cannot be read reaches none.\<close>

datatype dimension = Hours | Tokens | Dollars

definition reached :: "allowance \<Rightarrow> pyfloat \<Rightarrow> pyfloat \<Rightarrow> pyfloat option \<Rightarrow> dimension option" where
  "reached a seconds output dollars =
     (if caps (a_hours a) \<and> f_le (f_mul (a_hours a) (Fin 3600)) seconds then Some Hours
      else if caps (a_tokens a) \<and> f_le (f_mul (a_tokens a) (Fin MILLION)) output then Some Tokens
      else if caps (a_dollars a) \<and> (case dollars of Some d \<Rightarrow> f_le (a_dollars a) d | None \<Rightarrow> False) then Some Dollars
      else None)"

fun said_over :: "allowance \<Rightarrow> dimension option \<Rightarrow> string" where
  "said_over a (Some Hours) = fmt_g (a_hours a) @ ''h''"
| "said_over a (Some Tokens) = fmt_g (a_tokens a) @ ''M output tokens''"
| "said_over a (Some Dollars) = ''$'' @ fmt_g (a_dollars a)"
| "said_over a None = []"

definition run_over :: "allowance \<Rightarrow> pyfloat \<Rightarrow> pyfloat \<Rightarrow> pyfloat option \<Rightarrow> string" where
  "run_over a seconds output dollars = said_over a (reached a seconds output dollars)"

section \<open>Reading a run\<close>

text \<open>
  An agent as the ledger reads it: whether it spends anything, what its meter says and how many of its
  tokens were written, the model it runs and whether its backend counts what it writes.
\<close>

record spender =
  sp_id :: nat
  sp_spends :: bool
  sp_usage :: "(string \<times> rat) list"
  sp_output :: rat
  sp_model :: string
  sp_counts :: bool

record run_reading =
  rd_seconds :: pyfloat
  rd_output :: pyfloat
  rd_dollars :: "pyfloat option"
  rd_floor :: bool
  rd_blind :: "dimension set"

text \<open>\<open>prices.price\<close> and \<open>prices.cost\<close> as they answer while the reading is taken.\<close>

record price_book =
  pb_source :: string
  pb_kept :: kept_prices

definition priced_model :: "price_book \<Rightarrow> string \<Rightarrow> price_error + price option" where
  "priced_model pb model = price_now (pb_source pb) (pb_kept pb) model"

definition bill_of :: "price_book \<Rightarrow> spender \<Rightarrow> pyfloat option" where
  "bill_of pb a = (case cost_now (pb_source pb) (pb_kept pb) (sp_usage a) (sp_model a) of Inl e \<Rightarrow> Some PInf | Inr money \<Rightarrow> money)"

text \<open>\<open>any\<close> over the models: the first that is priced or cannot be asked settles it.\<close>

fun any_priced :: "price_book \<Rightarrow> string list \<Rightarrow> bool" where
  "any_priced pb [] = False"
| "any_priced pb (m # ms) = (case priced_model pb m of Inl e \<Rightarrow> True | Inr (Some p) \<Rightarrow> True | Inr None \<Rightarrow> any_priced pb ms)"

definition blinded :: "price_book \<Rightarrow> allowance \<Rightarrow> string list \<Rightarrow> bool \<Rightarrow> dimension set" where
  "blinded pb a models counting =
     (if models = [] then {}
      else (if caps (a_tokens a) \<and> \<not> counting then {Tokens} else {}) \<union>
           (if caps (a_dollars a) \<and> \<not> any_priced pb models then {Dollars} else {}))"

definition enrolled :: "spender list \<Rightarrow> spender list" where
  "enrolled agents = filter sp_spends agents"

definition money_of :: "price_book \<Rightarrow> spender list \<Rightarrow> pyfloat list" where
  "money_of pb agents = concat (map (\<lambda>a. case bill_of pb a of Some d \<Rightarrow> [d] | None \<Rightarrow> []) agents)"

definition reads_run :: "price_book \<Rightarrow> allowance \<Rightarrow> rat \<Rightarrow> spender list \<Rightarrow> run_reading" where
  "reads_run pb a seconds agents =
     (let enrolled = enrolled agents; billed = money_of pb enrolled in
      \<lparr>rd_seconds = Fin seconds, rd_output = Fin (sum_list (map sp_output enrolled)),
       rd_dollars = (if billed = [] then None else Some (foldl f_add (Fin 0) billed)),
       rd_floor = (billed \<noteq> [] \<and> length billed < length enrolled),
       rd_blind = blinded pb a (map sp_model enrolled) (list_ex sp_counts enrolled)\<rparr>)"

definition read_over :: "allowance \<Rightarrow> run_reading \<Rightarrow> dimension option" where
  "read_over a r = reached a (rd_seconds r) (rd_output r) (rd_dollars r)"

section \<open>What a reading cannot reach\<close>

lemma sum_list_nothing: "\<forall>x\<in>set xs. f x = (0 :: rat) \<Longrightarrow> sum_list (map f xs) = 0"
  by (induction xs) auto

lemma any_priced_iff: "any_priced pb ms \<longleftrightarrow> (\<exists>m\<in>set ms. priced_model pb m \<noteq> Inr None)"
  by (induction ms) (auto split: sum.split option.split)

lemma unpriced_bill: "priced_model pb (sp_model a) = Inr None \<Longrightarrow> bill_of pb a = None"
  by (simp add: priced_model_def bill_of_def cost_now_def cost_def)

lemma blind_dollars:
  assumes "Dollars \<in> rd_blind (reads_run pb a s agents)"
  shows "rd_dollars (reads_run pb a s agents) = None"
proof -
  have "\<forall>x\<in>set (enrolled agents). bill_of pb x = None"
    using assms by (auto simp: reads_run_def Let_def blinded_def any_priced_iff unpriced_bill split: if_splits)
  then show ?thesis by (simp add: reads_run_def Let_def money_of_def)
qed

lemma blind_tokens:
  assumes "Tokens \<in> rd_blind (reads_run pb a s agents)"
    and "\<forall>x\<in>set agents. \<not> sp_counts x \<longrightarrow> sp_output x = 0"
  shows "rd_output (reads_run pb a s agents) = Fin 0"
proof -
  have "\<forall>x\<in>set (enrolled agents). sp_output x = 0"
    using assms by (auto simp: reads_run_def Let_def blinded_def enrolled_def list_ex_iff split: if_splits)
  then have "sum_list (map sp_output (enrolled agents)) = 0" by (rule sum_list_nothing)
  then show ?thesis by (simp add: reads_run_def Let_def)
qed

lemma caps_million: "caps x \<Longrightarrow> \<not> f_le (f_mul x (Fin MILLION)) (Fin 0)"
  by (cases x) (auto simp: caps_def f_le_def MILLION_def f_inf_def)

text \<open>
  A dimension a reading says nothing in the run can read is never the one the run is over: no such cap
  bites, given that a backend that counts no output reports none.
\<close>

theorem blind_never_bites:
  assumes "d \<in> rd_blind (reads_run pb a s agents)" and "\<forall>x\<in>set agents. \<not> sp_counts x \<longrightarrow> sp_output x = 0"
  shows "d \<noteq> Hours \<and> read_over a (reads_run pb a s agents) \<noteq> Some d"
proof (cases d)
  case Hours
  then show ?thesis using assms(1) by (auto simp: reads_run_def Let_def blinded_def split: if_splits)
next
  case Tokens
  then show ?thesis using blind_tokens [OF _ assms(2)] assms(1) caps_million [of "a_tokens a"]
    by (auto simp: read_over_def reached_def)
next
  case Dollars
  then show ?thesis using blind_dollars assms(1) by (auto simp: read_over_def reached_def)
qed


lemma unreadable_bills:
  assumes "index_of (pb_source pb) (pb_kept pb) = Inl e"
  shows "money_of pb agents = replicate (length agents) PInf"
proof -
  have "bill_of pb a = Some PInf" for a
    using assms by (simp add: bill_of_def cost_now_def price_now_def)
  then show ?thesis by (induction agents) (simp_all add: money_of_def)
qed

lemma sum_PInf: "foldl f_add PInf (replicate n PInf) = PInf"
  by (induction n) auto

text \<open>
  While the list of prices cannot be read as money, a run held to a cost is over it at its first
  reading, however little was spent, as soon as there is an agent in it that spends.
\<close>

theorem unreadable_prices_stop:
  assumes "index_of (pb_source pb) (pb_kept pb) = Inl e" and "caps (a_dollars a)" and "enrolled agents \<noteq> []"
  shows "read_over a (reads_run pb a s agents) \<noteq> None"
proof -
  obtain n where "length (enrolled agents) = Suc n" using assms(3) by (cases "enrolled agents") auto
  then have "rd_dollars (reads_run pb a s agents) = Some PInf"
    using assms(3) by (simp add: reads_run_def Let_def unreadable_bills [OF assms(1)] sum_PInf)
  moreover have "f_le (a_dollars a) PInf" using assms(2) by (cases "a_dollars a") (auto simp: caps_def f_le_def)
  ultimately show ?thesis using assms(2) by (auto simp: read_over_def reached_def)
qed

section \<open>The ledger of a run\<close>

record ledger =
  ld_allowance :: allowance
  ld_began :: rat
  ld_agents :: "spender list"
  ld_why :: string
  ld_stopping :: bool

definition ledger_made :: "allowance \<Rightarrow> rat \<Rightarrow> spender list \<Rightarrow> ledger" where
  "ledger_made a now agents =
     \<lparr>ld_allowance = a, ld_began = now, ld_agents = agents, ld_why = [], ld_stopping = False\<rparr>"

text \<open>The agents are a set, held by who they are.\<close>

definition enrol :: "spender \<Rightarrow> ledger \<Rightarrow> ledger" where
  "enrol a l = (if sp_id a \<in> sp_id ` set (ld_agents l) then l else l\<lparr>ld_agents := ld_agents l @ [a]\<rparr>)"

definition over_looks :: "ledger \<Rightarrow> string option" where
  "over_looks l = (if ld_why l \<noteq> [] \<or> \<not> run_bounded (ld_allowance l) then Some (ld_why l) else None)"

definition over_reads :: "price_book \<Rightarrow> rat \<Rightarrow> ledger \<Rightarrow> string" where
  "over_reads pb now l =
     (let r = reads_run pb (ld_allowance l) (now - ld_began l) (ld_agents l) in
      run_over (ld_allowance l) (rd_seconds r) (rd_output r) (rd_dollars r))"

definition over_writes :: "string \<Rightarrow> ledger \<Rightarrow> ledger \<times> string" where
  "over_writes why l =
     (let l = (if why \<noteq> [] \<and> ld_why l = [] then l\<lparr>ld_why := why\<rparr> else l) in (l, ld_why l))"

definition ledger_spent :: "ledger \<Rightarrow> bool" where
  "ledger_spent l \<longleftrightarrow> ld_why l \<noteq> []"

definition stops_first :: "ledger \<Rightarrow> ledger \<times> bool" where
  "stops_first l = (if ld_stopping l then (l, False) else (l\<lparr>ld_stopping := True\<rparr>, True))"

definition to_stop :: "ledger \<Rightarrow> nat list" where
  "to_stop l = map sp_id (enrolled (ld_agents l))"

section \<open>A run under it\<close>

text \<open>
  Any thread asks whether the run is over, reads it, writes what it read, and where the answer is a reason
  stops the run. Beside the ledger stand the answers read and not yet written, the agents each pass is about
  to stop, the agents stopped, and every reason any reading gave.
\<close>

datatype pass = Gathering | Stopping "nat list"

record accounted =
  ac_ledger :: ledger
  ac_now :: rat
  ac_read :: "string list"
  ac_passes :: "pass list"
  ac_stopped :: "nat list"
  ac_reasons :: "string list"

inductive accounts :: "price_book \<Rightarrow> accounted \<Rightarrow> accounted \<Rightarrow> bool" for pb where
  Reads: "over_looks (ac_ledger w) = None \<Longrightarrow> why = over_reads pb (ac_now w) (ac_ledger w) \<Longrightarrow>
    accounts pb w (w\<lparr>ac_read := why # ac_read w, ac_reasons := why # ac_reasons w\<rparr>)"
| Writes: "why \<in> set (ac_read w) \<Longrightarrow>
    accounts pb w (w\<lparr>ac_read := remove1 why (ac_read w), ac_ledger := fst (over_writes why (ac_ledger w))\<rparr>)"
| Stops: "ledger_spent (ac_ledger w) \<Longrightarrow> stops_first (ac_ledger w) = (l, True) \<Longrightarrow>
    accounts pb w (w\<lparr>ac_ledger := l, ac_passes := Gathering # ac_passes w\<rparr>)"
| Gathers: "Gathering \<in> set (ac_passes w) \<Longrightarrow>
    accounts pb w (w\<lparr>ac_passes := Stopping (to_stop (ac_ledger w)) # remove1 Gathering (ac_passes w)\<rparr>)"
| StopsOne: "Stopping (a # as) \<in> set (ac_passes w) \<Longrightarrow>
    accounts pb w (w\<lparr>ac_passes := Stopping as # remove1 (Stopping (a # as)) (ac_passes w), ac_stopped := a # ac_stopped w\<rparr>)"
| Passes: "0 \<le> d \<Longrightarrow> accounts pb w (w\<lparr>ac_now := ac_now w + d\<rparr>)"
| Enrols: "accounts pb w (w\<lparr>ac_ledger := enrol a (ac_ledger w)\<rparr>)"
| Spends: "map sp_id agents = map sp_id (ld_agents (ac_ledger w)) \<Longrightarrow>
    accounts pb w (w\<lparr>ac_ledger := (ac_ledger w)\<lparr>ld_agents := agents\<rparr>\<rparr>)"
| Drops: "accounts pb w (w\<lparr>ac_ledger := (ac_ledger w)\<lparr>ld_agents := filter keep (ld_agents (ac_ledger w))\<rparr>\<rparr>)"

definition accounted_made :: "ledger \<Rightarrow> accounted" where
  "accounted_made l = \<lparr>ac_ledger = l, ac_now = ld_began l, ac_read = [], ac_passes = [], ac_stopped = [], ac_reasons = []\<rparr>"

text \<open>What each pass has before it, and what was stopped, name no agent twice.\<close>

fun pass_ids :: "pass \<Rightarrow> nat list" where
  "pass_ids Gathering = []"
| "pass_ids (Stopping as) = as"

definition accounted_ok :: "accounted \<Rightarrow> bool" where
  "accounted_ok w \<longleftrightarrow>
     distinct (map sp_id (ld_agents (ac_ledger w))) \<and>
     (ac_passes w \<noteq> [] \<or> ac_stopped w \<noteq> [] \<longrightarrow> ld_stopping (ac_ledger w)) \<and>
     length (ac_passes w) \<le> 1 \<and> (Gathering \<in> set (ac_passes w) \<longrightarrow> ac_stopped w = []) \<and>
     distinct (concat (map pass_ids (ac_passes w)) @ ac_stopped w) \<and>
     (ld_stopping (ac_ledger w) \<longrightarrow> ld_why (ac_ledger w) \<noteq> []) \<and>
     set (ac_read w) \<subseteq> set (ac_reasons w) \<and>
     (ld_why (ac_ledger w) = [] \<or> ld_why (ac_ledger w) \<in> set (ac_reasons w))"

lemma distinct_filtered_ids: "distinct (map sp_id xs) \<Longrightarrow> distinct (map sp_id (filter p xs))"
  by (induction xs) auto


lemma enrol_ids: "distinct (map sp_id (ld_agents l)) \<Longrightarrow> distinct (map sp_id (ld_agents (enrol a l)))"
  by (auto simp: enrol_def)

lemma enrol_rest [simp]:
  "ld_why (enrol a l) = ld_why l" "ld_stopping (enrol a l) = ld_stopping l" "ld_allowance (enrol a l) = ld_allowance l"
  by (simp_all add: enrol_def)

lemma over_writes_rest [simp]:
  "ld_stopping (fst (over_writes why l)) = ld_stopping l" "ld_agents (fst (over_writes why l)) = ld_agents l"
  "ld_why (fst (over_writes why l)) = (if ld_why l = [] then why else ld_why l)"
  by (auto simp: over_writes_def Let_def)

lemma one_pass: "length ps \<le> 1 \<Longrightarrow> p \<in> set ps \<Longrightarrow> ps = [p]"
  by (cases ps) auto

lemma accounted_ok_step:
  assumes "accounts pb w w'" and "accounted_ok w"
  shows "accounted_ok w'"
  using assms(1)
proof (cases rule: accounts.cases)
  case (Writes why)
  then show ?thesis using assms(2) by (auto simp: accounted_ok_def)
next
  case (Stops l)
  then show ?thesis using assms(2) by (auto simp: accounted_ok_def stops_first_def ledger_spent_def split: if_splits)
next
  case Gathers
  then have "ac_passes w = [Gathering]" using assms(2) by (auto simp: accounted_ok_def intro: one_pass)
  then show ?thesis using Gathers assms(2)
    by (auto simp: accounted_ok_def to_stop_def enrolled_def distinct_filtered_ids)
next
  case (StopsOne a as)
  then have "ac_passes w = [Stopping (a # as)]" using assms(2) by (auto simp: accounted_ok_def intro: one_pass)
  then show ?thesis using StopsOne assms(2) by (auto simp: accounted_ok_def)
next
  case (Enrols a)
  then show ?thesis using assms(2) by (simp add: accounted_ok_def enrol_ids)
next
  case (Drops keep)
  then show ?thesis using assms(2) by (simp add: accounted_ok_def distinct_filtered_ids)
qed (use assms(2) in \<open>auto simp: accounted_ok_def\<close>)

lemma accounted_ok_reached: "(accounts pb)\<^sup>*\<^sup>* w w' \<Longrightarrow> accounted_ok w \<Longrightarrow> accounted_ok w'"
  by (induction rule: rtranclp_induct) (auto intro: accounted_ok_step)

lemma why_sticks: "accounts pb w w' \<Longrightarrow> ld_why (ac_ledger w) \<noteq> [] \<Longrightarrow> ld_why (ac_ledger w') = ld_why (ac_ledger w)"
  by (cases rule: accounts.cases) (auto simp: stops_first_def split: if_splits)

lemma why_sticks_reached:
  "(accounts pb)\<^sup>*\<^sup>* w w' \<Longrightarrow> ld_why (ac_ledger w) \<noteq> [] \<Longrightarrow> ld_why (ac_ledger w') = ld_why (ac_ledger w)"
  by (induction rule: rtranclp_induct) (auto dest: why_sticks)

text \<open>
  C22. However the threads of a run interleave, its agents spend, join and are dropped, and the clock runs:
  what a run is over is what some reading of it gave, stands from then on, and each agent is stopped at most
  once, none before the run is over.
\<close>

theorem run_stopped_once:
  assumes "(accounts pb)\<^sup>*\<^sup>* (accounted_made (ledger_made a now agents)) w" and "distinct (map sp_id agents)"
    and "(accounts pb)\<^sup>*\<^sup>* w w'"
  shows "(ld_why (ac_ledger w) \<noteq> [] \<longrightarrow> ld_why (ac_ledger w') = ld_why (ac_ledger w) \<and> ld_why (ac_ledger w) \<in> set (ac_reasons w)) \<and>
    distinct (ac_stopped w') \<and> (ac_stopped w' \<noteq> [] \<longrightarrow> ld_why (ac_ledger w') \<noteq> [])"
proof -
  have "accounted_ok (accounted_made (ledger_made a now agents))"
    using assms(2) by (simp add: accounted_ok_def accounted_made_def ledger_made_def)
  then have "accounted_ok w" "accounted_ok w'"
    using assms(1,3) by (meson accounted_ok_reached rtranclp_trans)+
  then show ?thesis using why_sticks_reached [OF assms(3)] by (auto simp: accounted_ok_def)
qed

section \<open>A run of one agent\<close>

definition one_spender :: "rat \<Rightarrow> spender" where
  "one_spender output = \<lparr>sp_id = 4, sp_spends = True, sp_usage = [(''output'', output)], sp_output = output,
     sp_model = ''m'', sp_counts = True\<rparr>"

definition an_hour :: allowance where
  "an_hour = \<lparr>a_hours = Fin 1, a_tokens = Fin 0, a_dollars = Fin 0\<rparr>"

definition no_prices :: price_book where
  "no_prices = \<lparr>pb_source = ''u'', pb_kept = \<lparr>kp_file = None, kp_refused = []\<rparr>\<rparr>"

definition bad_prices :: price_book where
  "bad_prices = \<lparr>pb_source = ''u'', pb_kept = \<lparr>kp_file = None, kp_refused = [(''u'', NotMoney ''m'' ''input'' NaN)]\<rparr>\<rparr>"

lemma blind_never_bites_witness:
  "Dollars \<in> rd_blind (reads_run no_prices \<lparr>a_hours = Fin 0, a_tokens = Fin 0, a_dollars = Fin 5\<rparr> 9 [one_spender 3]) \<and>
   read_over \<lparr>a_hours = Fin 0, a_tokens = Fin 0, a_dollars = Fin 5\<rparr>
     (reads_run no_prices \<lparr>a_hours = Fin 0, a_tokens = Fin 0, a_dollars = Fin 5\<rparr> 9 [one_spender 3]) \<noteq> Some Dollars"
proof -
  have b: "Dollars \<in> rd_blind (reads_run no_prices \<lparr>a_hours = Fin 0, a_tokens = Fin 0, a_dollars = Fin 5\<rparr> 9 [one_spender 3])"
  proof -
    have "Dollars \<in> blinded no_prices \<lparr>a_hours = Fin 0, a_tokens = Fin 0, a_dollars = Fin 5\<rparr> [''m''] True" by code_simp
    then show ?thesis by (simp add: reads_run_def Let_def enrolled_def one_spender_def)
  qed
  from blind_never_bites [OF this] b show ?thesis by (simp add: one_spender_def)
qed

lemma unreadable_prices_stop_witness:
  "read_over \<lparr>a_hours = Fin 0, a_tokens = Fin 0, a_dollars = Fin 5\<rparr>
     (reads_run bad_prices \<lparr>a_hours = Fin 0, a_tokens = Fin 0, a_dollars = Fin 5\<rparr> 9 [one_spender 3]) \<noteq> None"
  by (rule unreadable_prices_stop [where e = "NotMoney ''m'' ''input'' NaN"])
    (simp_all add: bad_prices_def index_of_def caps_def enrolled_def one_spender_def)

lemma an_hour_over: "run_over an_hour (Fin 3600) x y = ''1h''"
proof -
  have "fmt_g (Fin 1) = ''1''" by code_simp
  then show ?thesis by (simp add: run_over_def reached_def an_hour_def caps_def f_le_def)
qed

lemma run_stopped_once_witness:
  "\<exists>w. (accounts no_prices)\<^sup>*\<^sup>* (accounted_made (ledger_made an_hour 0 [one_spender 3])) w \<and>
     ld_why (ac_ledger w) = ''1h'' \<and> ac_stopped w = [4] \<and> distinct (ac_stopped w)"
proof -
  let ?l = "ledger_made an_hour 0 [one_spender 3]"
  let ?w0 = "accounted_made ?l"
  let ?w1 = "?w0\<lparr>ac_now := 3600\<rparr>"
  let ?w2 = "?w1\<lparr>ac_read := [''1h''], ac_reasons := [''1h'']\<rparr>"
  let ?l3 = "?l\<lparr>ld_why := ''1h''\<rparr>"
  let ?w3 = "?w2\<lparr>ac_read := [], ac_ledger := ?l3\<rparr>"
  let ?l4 = "?l3\<lparr>ld_stopping := True\<rparr>"
  let ?w4 = "?w3\<lparr>ac_ledger := ?l4, ac_passes := [Gathering]\<rparr>"
  let ?w5 = "?w4\<lparr>ac_passes := [Stopping [4]]\<rparr>"
  let ?w6 = "?w5\<lparr>ac_passes := [Stopping []], ac_stopped := [4]\<rparr>"
  have "accounts no_prices ?w0 ?w1" using accounts.Passes [of 3600 no_prices ?w0]
    by (simp add: accounted_made_def ledger_made_def)
  moreover have "over_reads no_prices 3600 ?l = ''1h''" "over_looks ?l = None"
    using an_hour_over by (simp_all add: over_reads_def reads_run_def Let_def ledger_made_def over_looks_def
        run_bounded_def) (simp_all add: an_hour_def caps_def)
  then have "accounts no_prices ?w1 ?w2" using accounts.Reads [of ?w1 "''1h''" no_prices]
    by (simp add: accounted_made_def)
  moreover have "accounts no_prices ?w2 ?w3" using accounts.Writes [of "''1h''" ?w2 no_prices]
    by (simp add: accounted_made_def over_writes_def ledger_made_def)
  moreover have "accounts no_prices ?w3 ?w4" using accounts.Stops [of ?w3 ?l4 no_prices]
    by (simp add: accounted_made_def stops_first_def ledger_spent_def ledger_made_def)
  moreover have "accounts no_prices ?w4 ?w5" using accounts.Gathers [of ?w4 no_prices]
    by (simp add: accounted_made_def to_stop_def enrolled_def ledger_made_def one_spender_def)
  moreover have "accounts no_prices ?w5 ?w6" using accounts.StopsOne [of 4 "[]" ?w5 no_prices]
    by (simp add: accounted_made_def)
  ultimately have "(accounts no_prices)\<^sup>*\<^sup>* ?w0 ?w6" by (meson rtranclp.rtrancl_into_rtrancl rtranclp.rtrancl_refl)
  with run_stopped_once [OF this, of ?w6] show ?thesis by (intro exI [of _ ?w6]) simp
qed

end
