(* ===== verification/RuntimeKinds.thy ===== *)
theory RuntimeKinds
  imports Backends
begin

text \<open>
  The runtimes of \<open>hmz.coganchor.machines.store\<close>: what one of each backend holds, which values it takes, and
  how it is made of the fields somebody wrote. Every check of a class is a conjunct of its \<open>_ok\<close>.
\<close>

section \<open>Names and words\<close>

definition SSH :: string where "SSH = ''ssh''"
definition DOCKER :: string where "DOCKER = ''docker''"
definition APPLE_CONTAINER :: string where "APPLE_CONTAINER = ''apple-container''"
definition SLURM :: string where "SLURM = ''slurm''"

definition BACKENDS :: "string list" where
  "BACKENDS = [SSH, DOCKER, SWARM, APPLE_CONTAINER, SLURM]"

definition ENV :: string where "ENV = ''env''"
definition HERE :: string where "HERE = ''local''"
definition TYPED :: string where "TYPED = ''typed''"
definition IMPORTED :: string where "IMPORTED = ''imported''"

definition PORT_MAX :: int where
  "PORT_MAX = 65535"

definition PREFIX_MAX :: nat where
  "PREFIX_MAX = 63 - length ''-01234567''"

definition ascii_alnum :: "char \<Rightarrow> bool" where
  "ascii_alnum c \<longleftrightarrow> is_letter c \<or> is_digit c"

text \<open>A first character of one set and the rest of another, to the very end.\<close>

definition begun_by :: "(char \<Rightarrow> bool) \<Rightarrow> (char \<Rightarrow> bool) \<Rightarrow> string \<Rightarrow> bool" where
  "begun_by first rest s \<longleftrightarrow> (case s of [] \<Rightarrow> False | c # r \<Rightarrow> first c \<and> list_all rest r)"

definition runtime_name :: "string \<Rightarrow> bool" where
  "runtime_name s = begun_by ascii_alnum (\<lambda>c. ascii_alnum c \<or> c \<in> set ''._-'') s"

definition ssh_word :: "string \<Rightarrow> bool" where
  "ssh_word s = begun_by (\<lambda>c. ascii_alnum c \<or> c = CHR ''_'') (\<lambda>c. ascii_alnum c \<or> c \<in> set ''._%+-'') s"

definition ssh_jump :: "string \<Rightarrow> bool" where
  "ssh_jump s = begun_by (\<lambda>c. ascii_alnum c \<or> c = CHR ''_'') (\<lambda>c. ascii_alnum c \<or> c \<in> set ''._%+@:,[]-'') s"

definition ssh_keyword :: "string \<Rightarrow> bool" where
  "ssh_keyword s = begun_by is_letter ascii_alnum s"

definition variable_name :: "string \<Rightarrow> bool" where
  "variable_name s = begun_by (\<lambda>c. is_letter c \<or> c = CHR ''_'') (\<lambda>c. ascii_alnum c \<or> c = CHR ''_'') s"

definition gpu_id :: "string \<Rightarrow> bool" where
  "gpu_id s = begun_by ascii_alnum (\<lambda>c. ascii_alnum c \<or> c \<in> set ''_.:-'') s"

definition resource_name :: "string \<Rightarrow> bool" where
  "resource_name s = begun_by is_letter (\<lambda>c. ascii_alnum c \<or> c \<in> set ''._-'') s"

definition slurm_name :: "string \<Rightarrow> bool" where
  "slurm_name s = begun_by (\<lambda>c. ascii_alnum c \<or> c = CHR ''_'') (\<lambda>c. ascii_alnum c \<or> c \<in> set ''._-'') s"

definition digits_only :: "string \<Rightarrow> bool" where
  "digits_only s \<longleftrightarrow> s \<noteq> [] \<and> list_all is_digit s"

text \<open>\<open>UID[:GID]\<close>; a prefix from a letter or digit to one; a whole word; text of one line.\<close>

definition exec_user_ok :: "string \<Rightarrow> bool" where
  "exec_user_ok s \<longleftrightarrow> (case py_partition (CHR '':'') s of (uid, colon, gid) \<Rightarrow> digits_only uid \<and> (colon \<longrightarrow> digits_only gid))"

definition prefix_ok :: "string \<Rightarrow> bool" where
  "prefix_ok s \<longleftrightarrow>
     (s = [] \<or> ascii_alnum (hd s) \<and> ascii_alnum (last s) \<and> list_all (\<lambda>c. ascii_alnum c \<or> c \<in> set ''_-'') s) \<and>
     length s \<le> PREFIX_MAX"

definition no_spaces :: "string \<Rightarrow> bool" where
  "no_spaces s \<longleftrightarrow> list_all (\<lambda>c. \<not> is_space c) s"

definition no_breaks :: "string \<Rightarrow> bool" where
  "no_breaks s \<longleftrightarrow> list_all (\<lambda>c. c \<notin> {char_of (10 :: nat), char_of (13 :: nat), char_of (0 :: nat)}) s"

definition one_line :: "string \<Rightarrow> bool" where
  "one_line s \<longleftrightarrow> no_breaks s \<and> char_of (34 :: nat) \<notin> set s"

definition workdir_ok :: "string \<Rightarrow> bool" where
  "workdir_ok s \<longleftrightarrow> one_line s \<and> (s = [] \<or> s = ''~'' \<or> starts_with ''/'' s \<or> starts_with ''~/'' s)"

text \<open>An attribute of a node compared to a value.\<close>

definition constraint_ok :: "string \<Rightarrow> bool" where
  "constraint_ok s \<longleftrightarrow>
     (let attribute = takeWhile (\<lambda>c. ascii_alnum c \<or> c \<in> set ''._/-'') s;
          r = dropWhile is_space (drop (length attribute) s) in
      attribute \<noteq> [] \<and> is_letter (hd attribute) \<and> (starts_with ''=='' r \<or> starts_with ''!='' r) \<and>
      dropWhile is_space (drop 2 r) \<noteq> [] \<and> no_breaks s)"

text \<open>Minutes, \<open>MM:SS\<close>, \<open>HH:MM:SS\<close>, \<open>D-HH[:MM[:SS]]\<close>, or no limit.\<close>

definition two_digits :: "string \<Rightarrow> bool" where
  "two_digits s \<longleftrightarrow> digits_only s \<and> length s \<le> 2"

definition time_ok :: "string \<Rightarrow> bool" where
  "time_ok s \<longleftrightarrow> s \<in> {''UNLIMITED'', ''INFINITE''} \<or>
     (case py_split (CHR '':'') s of
        [] \<Rightarrow> False
      | d # ps \<Rightarrow>
          (digits_only d \<or> (case py_partition (CHR ''-'') d of (days, dash, hours) \<Rightarrow> dash \<and> digits_only days \<and> two_digits hours)) \<and>
          length ps \<le> 2 \<and> list_all two_digits ps)"

section \<open>Docker endpoints\<close>

definition port_ok :: "string \<Rightarrow> bool" where
  "port_ok s \<longleftrightarrow> digits_only s \<and> (case py_int_of s of Some n \<Rightarrow> 0 < n \<and> n \<le> PORT_MAX | None \<Rightarrow> False)"

definition ssh_endpoint_ok :: "string \<Rightarrow> bool" where
  "ssh_endpoint_ok s \<longleftrightarrow>
     (case py_rpartition (CHR ''@'') s of (login, _, at_host) \<Rightarrow>
      case py_partition (CHR '':'') at_host of (host, _, port) \<Rightarrow>
        ssh_word host \<and> (login = [] \<or> ssh_word login) \<and> (port = [] \<or> port_ok port))"

text \<open>
  \<open>_endpoint\<close>: \<open>ssh:\<close> and a runtime's name, an ssh destination, or what \<open>Endpoint.parse\<close> reads with nothing
  asked of it and a port there is.
\<close>

definition endpoint_ok :: "string \<Rightarrow> bool" where
  "endpoint_ok s \<longleftrightarrow>
     (if starts_with ''ssh:'' s \<and> \<not> starts_with ''ssh://'' s then runtime_name (drop 4 s)
      else if starts_with ''ssh://'' s then ssh_endpoint_ok (drop 6 s)
      else if CHR ''?'' \<in> set s then False
      else if s = ''local'' then True
      else if starts_with ''context:'' s \<and> drop 8 s \<noteq> [] then runtime_name (drop 8 s)
      else if starts_with ''unix:///'' s then True
      else starts_with ''tcp://'' s \<and>
        (case py_rpartition (CHR '':'') (drop 6 s) of (host, _, port) \<Rightarrow> host \<noteq> [] \<and> port_ok port))"

definition is_ssh_destination :: "string \<Rightarrow> bool" where
  "is_ssh_destination via = endpoint_ok (''ssh://'' @ via)"

section \<open>What every runtime holds\<close>

record placed =
  r_name :: string
  r_workdir :: string
  r_fallback :: "string list"
  r_made :: string
  r_harness :: string

text \<open>\<open>_falls_back\<close>: each \<open><backend>:<name>\<close> once and never itself.\<close>

definition entry_ok :: "string \<Rightarrow> string \<Rightarrow> string \<Rightarrow> bool" where
  "entry_ok backend name one =
     (case py_partition (CHR '':'') one of (kind, colon, called) \<Rightarrow>
        colon \<and> kind \<in> set BACKENDS \<and> runtime_name called \<and> (kind, called) \<noteq> (backend, name))"

fun fallback_ok :: "string \<Rightarrow> string \<Rightarrow> string list \<Rightarrow> string list \<Rightarrow> bool" where
  "fallback_ok backend name seen [] = True"
| "fallback_ok backend name seen (one # more_of) =
     (entry_ok backend name one \<and> one \<notin> set seen \<and> fallback_ok backend name (one # seen) more_of)"

text \<open>\<open>affine\<close>: the runtime a harness setting names, none for the two places that are not one.\<close>

definition affine :: "string \<Rightarrow> unit + (string \<times> string) option" where
  "affine entry =
     (if entry \<in> {ENV, HERE} then Inr None
      else case py_partition (CHR '':'') entry of (backend, colon, name) \<Rightarrow>
        if \<not> colon \<or> backend \<notin> set BACKENDS \<or> \<not> runtime_name name then Inl () else Inr (Some (backend, name)))"

definition harness_ok :: "string \<Rightarrow> string \<Rightarrow> string \<Rightarrow> bool" where
  "harness_ok backend name harness = (case affine harness of Inl e \<Rightarrow> False | Inr r \<Rightarrow> r \<noteq> Some (backend, name))"

definition placed_ok :: "string \<Rightarrow> string list \<Rightarrow> 'a placed_scheme \<Rightarrow> bool" where
  "placed_ok backend ways r \<longleftrightarrow>
     runtime_name (r_name r) \<and> harness_ok backend (r_name r) (r_harness r) \<and> workdir_ok (r_workdir r) \<and>
     fallback_ok backend (r_name r) [] (r_fallback r) \<and> r_made r \<in> set ways"

section \<open>The five of them\<close>

record ssh_runtime = placed +
  sr_host :: string
  sr_user :: string
  sr_port :: int
  sr_identity :: string
  sr_jump :: string
  sr_options :: "(string \<times> string) list"
  sr_alias :: string
  sr_config :: string

record docker_runtime = placed +
  dr_endpoint :: string
  dr_tls :: string
  dr_container :: string
  dr_user :: string
  dr_env :: "string list"
  dr_wrapper :: "string list"
  dr_image :: string
  dr_runtime :: string
  dr_args :: "string list"
  dr_prefix :: string
  dr_cpus :: pyfloat
  dr_memory :: int
  dr_gpus :: "string list"
  dr_gpu_memory :: int
  dr_most :: int

record swarm_runtime = placed +
  wr_endpoint :: string
  wr_tls :: string
  wr_image :: string
  wr_args :: "string list"
  wr_prefix :: string
  wr_cpus :: pyfloat
  wr_memory :: int
  wr_gpu :: string
  wr_constraints :: "string list"
  wr_most :: int
  wr_nodes :: "(string \<times> string) list"

record apple_runtime = placed +
  ar_image :: string
  ar_args :: "string list"
  ar_cpus :: pyfloat
  ar_memory :: int
  ar_most :: int

record slurm_runtime = placed +
  lr_partition :: string
  lr_account :: string
  lr_qos :: string
  lr_time :: string
  lr_constraint :: string
  lr_python :: string
  lr_via :: string
  lr_args :: "string list"
  lr_cpus :: pyfloat
  lr_memory :: int
  lr_most :: int
  lr_wait :: int

section \<open>What each takes\<close>

definition FIELDS :: "(string \<times> string) list" where
  "FIELDS = [(''hostname'', ''host''), (''user'', ''user''), (''port'', ''port''),
     (''identityfile'', ''identity_file''), (''proxyjump'', ''proxy_jump'')]"

definition option_ok :: "string \<times> string \<Rightarrow> bool" where
  "option_ok kv \<longleftrightarrow> ssh_keyword (fst kv) \<and> fst kv \<noteq> ''F'' \<and>
     py_lower (fst kv) \<notin> set (dict_keys FIELDS) \<and> snd kv \<noteq> [] \<and> one_line (snd kv)"

definition ssh_ok :: "ssh_runtime \<Rightarrow> bool" where
  "ssh_ok r \<longleftrightarrow>
     placed_ok SSH [TYPED, IMPORTED] r \<and> (sr_host r \<noteq> [] \<or> sr_alias r \<noteq> []) \<and>
     (sr_host r = [] \<or> ssh_word (sr_host r)) \<and> (sr_alias r = [] \<or> ssh_word (sr_alias r)) \<and>
     (sr_user r = [] \<or> ssh_word (sr_user r)) \<and> 0 \<le> sr_port r \<and> sr_port r \<le> PORT_MAX \<and>
     (sr_jump r = [] \<or> ssh_jump (sr_jump r)) \<and> one_line (sr_identity r) \<and> one_line (sr_config r) \<and>
     list_all option_ok (sr_options r)"

definition image_ok :: "string \<Rightarrow> bool" where
  "image_ok s \<longleftrightarrow> no_spaces s"

definition not_negative :: "pyfloat \<Rightarrow> bool" where
  "not_negative x \<longleftrightarrow> \<not> f_lt x (Fin 0)"

definition tls_ok :: "string \<Rightarrow> string \<Rightarrow> bool" where
  "tls_ok endpoint tls \<longleftrightarrow> (tls = [] \<or> starts_with ''tcp://'' endpoint) \<and> one_line tls"

text \<open>\<open>_exec\<close>: what is run in a container, and that one already running is not started with anything.\<close>

definition exec_env_ok :: "string \<Rightarrow> bool" where
  "exec_env_ok s \<longleftrightarrow> (case py_partition (CHR ''='') s of (variable, equals, _) \<Rightarrow> equals \<and> variable_name variable \<and> no_breaks s)"

definition starts_none :: "docker_runtime \<Rightarrow> bool" where
  "starts_none r \<longleftrightarrow> dr_image r = [] \<and> dr_runtime r = [] \<and> dr_args r = [] \<and> dr_prefix r = [] \<and> dr_cpus r = Fin 0 \<and>
     dr_memory r = 0 \<and> dr_gpus r = [] \<and> dr_gpu_memory r = 0 \<and> dr_most r = 0"

definition exec_ok :: "docker_runtime \<Rightarrow> bool" where
  "exec_ok r \<longleftrightarrow>
     (dr_container r = [] \<or> runtime_name (dr_container r) \<and> starts_none r) \<and> (dr_user r = [] \<or> exec_user_ok (dr_user r)) \<and>
     list_all exec_env_ok (dr_env r) \<and> list_all (\<lambda>w. w \<noteq> [] \<and> no_breaks w) (dr_wrapper r)"

definition docker_ok :: "docker_runtime \<Rightarrow> bool" where
  "docker_ok r \<longleftrightarrow>
     placed_ok DOCKER [TYPED] r \<and> endpoint_ok (dr_endpoint r) \<and> tls_ok (dr_endpoint r) (dr_tls r) \<and> exec_ok r \<and>
     image_ok (dr_image r) \<and> (dr_runtime r = [] \<or> ssh_word (dr_runtime r)) \<and> list_all no_breaks (dr_args r) \<and>
     prefix_ok (dr_prefix r) \<and> list_all gpu_id (dr_gpus r) \<and> distinct (dr_gpus r) \<and> not_negative (dr_cpus r) \<and>
     0 \<le> dr_memory r \<and> 0 \<le> dr_gpu_memory r \<and> 0 \<le> dr_most r"

definition node_ok :: "string \<times> string \<Rightarrow> bool" where
  "node_ok kv \<longleftrightarrow> ssh_word (fst kv) \<and> (runtime_name (snd kv) \<or> is_ssh_destination (snd kv))"

definition swarm_ok :: "swarm_runtime \<Rightarrow> bool" where
  "swarm_ok r \<longleftrightarrow>
     placed_ok SWARM [TYPED] r \<and> endpoint_ok (wr_endpoint r) \<and> tls_ok (wr_endpoint r) (wr_tls r) \<and> image_ok (wr_image r) \<and>
     list_all no_breaks (wr_args r) \<and> prefix_ok (wr_prefix r) \<and> not_negative (wr_cpus r) \<and> 0 \<le> wr_memory r \<and>
     0 \<le> wr_most r \<and> (wr_gpu r = [] \<or> resource_name (wr_gpu r)) \<and> list_all constraint_ok (wr_constraints r) \<and>
     list_all node_ok (wr_nodes r)"

definition apple_ok :: "apple_runtime \<Rightarrow> bool" where
  "apple_ok r \<longleftrightarrow>
     placed_ok APPLE_CONTAINER [TYPED] r \<and> image_ok (ar_image r) \<and> list_all no_breaks (ar_args r) \<and>
     not_negative (ar_cpus r) \<and> 0 \<le> ar_memory r \<and> 0 \<le> ar_most r"

definition slurm_ok :: "slurm_runtime \<Rightarrow> bool" where
  "slurm_ok r \<longleftrightarrow>
     placed_ok SLURM [TYPED] r \<and> list_all (\<lambda>s. s = [] \<or> slurm_name s) [lr_partition r, lr_account r, lr_qos r] \<and>
     (lr_time r = [] \<or> time_ok (lr_time r)) \<and> \<not> starts_with ''-'' (lr_constraint r) \<and> no_spaces (lr_constraint r) \<and>
     lr_via r \<in> {''srun'', ''tcp''} \<and> one_line (lr_python r) \<and>
     (lr_python r = [] \<or> starts_with ''/'' (lr_python r) \<or> starts_with ''~/'' (lr_python r)) \<and>
     list_all no_breaks (lr_args r) \<and> not_negative (lr_cpus r) \<and> 0 \<le> lr_memory r \<and> 0 \<le> lr_most r \<and> 0 \<le> lr_wait r"

section \<open>Making one of what is written down\<close>

text \<open>
  A value of another type is refused; an integer past the largest float, where a float is held, raises an
  error of another kind, which no reader of the settings catches.
\<close>

datatype not_made = Refused | Overflowed

fun typed_str :: "pyval \<Rightarrow> not_made + string" where
  "typed_str (VStr s) = Inr s"
| "typed_str v = Inl Refused"

fun typed_int :: "pyval \<Rightarrow> not_made + int" where
  "typed_int (VInt i) = Inr i"
| "typed_int (VFloat (Fin x) t) = (if of_int \<lfloor>x\<rfloor> = x then Inr \<lfloor>x\<rfloor> else Inl Refused)"
| "typed_int v = Inl Refused"

fun typed_float :: "pyval \<Rightarrow> not_made + pyfloat" where
  "typed_float (VInt i) = (case float_of_int i of Some x \<Rightarrow> Inr x | None \<Rightarrow> Inl Overflowed)"
| "typed_float (VFloat x t) = Inr x"
| "typed_float v = Inl Refused"

fun typed_list :: "pyval \<Rightarrow> not_made + string list" where
  "typed_list (VList xs) = Inr (map py_str xs)"
| "typed_list v = Inl Refused"

fun typed_map :: "pyval \<Rightarrow> not_made + (string \<times> string) list" where
  "typed_map (VDict m) = Inr (map (\<lambda>(k, v). (k, py_str v)) m)"
| "typed_map v = Inl Refused"

text \<open>A field known by its name: how its value is held, and what holds it.\<close>

type_synonym 'r setting = "string \<times> (pyval \<Rightarrow> 'r \<Rightarrow> not_made + 'r)"

definition holds_as :: "(pyval \<Rightarrow> not_made + 'v) \<Rightarrow> (('v \<Rightarrow> 'v) \<Rightarrow> 'r \<Rightarrow> 'r) \<Rightarrow> pyval \<Rightarrow> 'r \<Rightarrow> not_made + 'r" where
  "holds_as typed upd v r = res_bind (typed v) (\<lambda>x. Inr (upd (\<lambda>_. x) r))"

definition PLACED :: "'a placed_scheme setting list" where
  "PLACED = [(''workdir'', holds_as typed_str r_workdir_update), (''fallback'', holds_as typed_list r_fallback_update),
     (''made'', holds_as typed_str r_made_update), (''harness'', holds_as typed_str r_harness_update)]"

definition SSH_KNOWN :: "ssh_runtime setting list" where
  "SSH_KNOWN = [(''host'', holds_as typed_str sr_host_update), (''user'', holds_as typed_str sr_user_update),
     (''port'', holds_as typed_int sr_port_update), (''identity_file'', holds_as typed_str sr_identity_update),
     (''proxy_jump'', holds_as typed_str sr_jump_update), (''options'', holds_as typed_map sr_options_update),
     (''alias'', holds_as typed_str sr_alias_update), (''config'', holds_as typed_str sr_config_update)] @ PLACED"

definition DOCKER_KNOWN :: "docker_runtime setting list" where
  "DOCKER_KNOWN = [(''endpoint'', holds_as typed_str dr_endpoint_update), (''tls_dir'', holds_as typed_str dr_tls_update),
     (''container'', holds_as typed_str dr_container_update), (''exec_user'', holds_as typed_str dr_user_update),
     (''exec_env'', holds_as typed_list dr_env_update), (''exec_wrapper'', holds_as typed_list dr_wrapper_update),
     (''image'', holds_as typed_str dr_image_update), (''runtime'', holds_as typed_str dr_runtime_update),
     (''run_args'', holds_as typed_list dr_args_update), (''name_prefix'', holds_as typed_str dr_prefix_update),
     (''cpus'', holds_as typed_float dr_cpus_update), (''memory'', holds_as typed_int dr_memory_update),
     (''gpus'', holds_as typed_list dr_gpus_update), (''gpu_memory'', holds_as typed_int dr_gpu_memory_update),
     (''max_containers'', holds_as typed_int dr_most_update)] @ PLACED"

definition SWARM_KNOWN :: "swarm_runtime setting list" where
  "SWARM_KNOWN = [(''endpoint'', holds_as typed_str wr_endpoint_update), (''tls_dir'', holds_as typed_str wr_tls_update),
     (''image'', holds_as typed_str wr_image_update), (''run_args'', holds_as typed_list wr_args_update),
     (''name_prefix'', holds_as typed_str wr_prefix_update), (''cpus'', holds_as typed_float wr_cpus_update),
     (''memory'', holds_as typed_int wr_memory_update), (''gpu_resource'', holds_as typed_str wr_gpu_update),
     (''constraints'', holds_as typed_list wr_constraints_update), (''max_tasks'', holds_as typed_int wr_most_update),
     (''nodes'', holds_as typed_map wr_nodes_update)] @ PLACED"

definition APPLE_KNOWN :: "apple_runtime setting list" where
  "APPLE_KNOWN = [(''image'', holds_as typed_str ar_image_update), (''run_args'', holds_as typed_list ar_args_update),
     (''cpus'', holds_as typed_float ar_cpus_update), (''memory'', holds_as typed_int ar_memory_update),
     (''max_containers'', holds_as typed_int ar_most_update)] @ PLACED"

definition SLURM_KNOWN :: "slurm_runtime setting list" where
  "SLURM_KNOWN = [(''partition'', holds_as typed_str lr_partition_update), (''account'', holds_as typed_str lr_account_update),
     (''qos'', holds_as typed_str lr_qos_update), (''time'', holds_as typed_str lr_time_update),
     (''constraint'', holds_as typed_str lr_constraint_update), (''python'', holds_as typed_str lr_python_update),
     (''via'', holds_as typed_str lr_via_update), (''run_args'', holds_as typed_list lr_args_update),
     (''cpus'', holds_as typed_float lr_cpus_update), (''memory'', holds_as typed_int lr_memory_update),
     (''max_jobs'', holds_as typed_int lr_most_update), (''max_wait'', holds_as typed_int lr_wait_update)] @ PLACED"

text \<open>Every field but the name left as its class has it.\<close>

definition ssh_named :: "string \<Rightarrow> ssh_runtime" where
  "ssh_named name = \<lparr>r_name = name, r_workdir = [], r_fallback = [], r_made = TYPED, r_harness = ENV, sr_host = [],
     sr_user = [], sr_port = 0, sr_identity = [], sr_jump = [], sr_options = [], sr_alias = [], sr_config = []\<rparr>"

definition docker_named :: "string \<Rightarrow> docker_runtime" where
  "docker_named name = \<lparr>r_name = name, r_workdir = [], r_fallback = [], r_made = TYPED, r_harness = ENV,
     dr_endpoint = HERE, dr_tls = [], dr_container = [], dr_user = [], dr_env = [], dr_wrapper = [], dr_image = [],
     dr_runtime = [], dr_args = [], dr_prefix = [], dr_cpus = Fin 0, dr_memory = 0, dr_gpus = [], dr_gpu_memory = 0,
     dr_most = 0\<rparr>"

definition swarm_named :: "string \<Rightarrow> swarm_runtime" where
  "swarm_named name = \<lparr>r_name = name, r_workdir = [], r_fallback = [], r_made = TYPED, r_harness = ENV,
     wr_endpoint = HERE, wr_tls = [], wr_image = [], wr_args = [], wr_prefix = [], wr_cpus = Fin 0, wr_memory = 0,
     wr_gpu = [], wr_constraints = [], wr_most = 0, wr_nodes = []\<rparr>"

definition apple_named :: "string \<Rightarrow> apple_runtime" where
  "apple_named name = \<lparr>r_name = name, r_workdir = [], r_fallback = [], r_made = TYPED, r_harness = ENV, ar_image = [],
     ar_args = [], ar_cpus = Fin 0, ar_memory = 0, ar_most = 0\<rparr>"

definition slurm_named :: "string \<Rightarrow> slurm_runtime" where
  "slurm_named name = \<lparr>r_name = name, r_workdir = [], r_fallback = [], r_made = TYPED, r_harness = ENV,
     lr_partition = [], lr_account = [], lr_qos = [], lr_time = [], lr_constraint = [], lr_python = [], lr_via = ''srun'',
     lr_args = [], lr_cpus = Fin 0, lr_memory = 0, lr_most = 0, lr_wait = 0\<rparr>"

definition field_set :: "'r setting list \<Rightarrow> 'r \<Rightarrow> string \<times> pyval \<Rightarrow> not_made + 'r" where
  "field_set known r kv = (case dict_get known (fst kv) of None \<Rightarrow> Inl Refused | Some f \<Rightarrow> f (snd kv) r)"

text \<open>\<open>new\<close>: the fields given, in their order, and then what the class takes.\<close>

definition new_of :: "'r setting list \<Rightarrow> ('r \<Rightarrow> bool) \<Rightarrow> 'r \<Rightarrow> mapping \<Rightarrow> not_made + 'r" where
  "new_of known ok r given = res_bind (res_fold (field_set known) given r) (\<lambda>r. if ok r then Inr r else Inl Refused)"

datatype runtime =
    SSHRuntime ssh_runtime
  | DockerRuntime docker_runtime
  | SwarmRuntime swarm_runtime
  | AppleContainerRuntime apple_runtime
  | SlurmRuntime slurm_runtime

definition runtime_new :: "string \<Rightarrow> string \<Rightarrow> mapping \<Rightarrow> not_made + runtime" where
  "runtime_new backend name given =
     (if backend = SSH then res_bind (new_of SSH_KNOWN ssh_ok (ssh_named name) given) (Inr \<circ> SSHRuntime)
      else if backend = DOCKER then res_bind (new_of DOCKER_KNOWN docker_ok (docker_named name) given) (Inr \<circ> DockerRuntime)
      else if backend = SWARM then res_bind (new_of SWARM_KNOWN swarm_ok (swarm_named name) given) (Inr \<circ> SwarmRuntime)
      else if backend = APPLE_CONTAINER then res_bind (new_of APPLE_KNOWN apple_ok (apple_named name) given) (Inr \<circ> AppleContainerRuntime)
      else if backend = SLURM then res_bind (new_of SLURM_KNOWN slurm_ok (slurm_named name) given) (Inr \<circ> SlurmRuntime)
      else Inl Refused)"

section \<open>What of one is written down\<close>

text \<open>Every field but the backend and the name, which is where it is kept; \<open>shown\<close> is how a float is spelled.\<close>

definition strs :: "string list \<Rightarrow> pyval" where
  "strs xs = VList (map VStr xs)"

definition pairs :: "(string \<times> string) list \<Rightarrow> pyval" where
  "pairs m = VDict (map (\<lambda>(k, v). (k, VStr v)) m)"

definition placed_entry :: "'a placed_scheme \<Rightarrow> mapping" where
  "placed_entry r = [(''workdir'', VStr (r_workdir r)), (''fallback'', strs (r_fallback r)), (''made'', VStr (r_made r)),
     (''harness'', VStr (r_harness r))]"

definition ssh_entry :: "ssh_runtime \<Rightarrow> mapping" where
  "ssh_entry r =
     [(''host'', VStr (sr_host r)), (''user'', VStr (sr_user r)), (''port'', VInt (sr_port r)),
      (''identity_file'', VStr (sr_identity r)), (''proxy_jump'', VStr (sr_jump r)), (''options'', pairs (sr_options r)),
      (''alias'', VStr (sr_alias r)), (''config'', VStr (sr_config r))] @ placed_entry r"

definition docker_entry :: "(pyfloat \<Rightarrow> string) \<Rightarrow> docker_runtime \<Rightarrow> mapping" where
  "docker_entry shown r =
     [(''endpoint'', VStr (dr_endpoint r)), (''tls_dir'', VStr (dr_tls r)), (''container'', VStr (dr_container r)),
      (''exec_user'', VStr (dr_user r)), (''exec_env'', strs (dr_env r)), (''exec_wrapper'', strs (dr_wrapper r)),
      (''image'', VStr (dr_image r)), (''runtime'', VStr (dr_runtime r)), (''run_args'', strs (dr_args r)),
      (''name_prefix'', VStr (dr_prefix r)), (''cpus'', VFloat (dr_cpus r) (shown (dr_cpus r))), (''memory'', VInt (dr_memory r)),
      (''gpus'', strs (dr_gpus r)), (''gpu_memory'', VInt (dr_gpu_memory r)), (''max_containers'', VInt (dr_most r))] @ placed_entry r"

definition swarm_entry :: "(pyfloat \<Rightarrow> string) \<Rightarrow> swarm_runtime \<Rightarrow> mapping" where
  "swarm_entry shown r =
     [(''endpoint'', VStr (wr_endpoint r)), (''tls_dir'', VStr (wr_tls r)), (''image'', VStr (wr_image r)),
      (''run_args'', strs (wr_args r)), (''name_prefix'', VStr (wr_prefix r)), (''cpus'', VFloat (wr_cpus r) (shown (wr_cpus r))),
      (''memory'', VInt (wr_memory r)), (''gpu_resource'', VStr (wr_gpu r)), (''constraints'', strs (wr_constraints r)),
      (''max_tasks'', VInt (wr_most r)), (''nodes'', pairs (wr_nodes r))] @ placed_entry r"

definition apple_entry :: "(pyfloat \<Rightarrow> string) \<Rightarrow> apple_runtime \<Rightarrow> mapping" where
  "apple_entry shown r =
     [(''image'', VStr (ar_image r)), (''run_args'', strs (ar_args r)), (''cpus'', VFloat (ar_cpus r) (shown (ar_cpus r))),
      (''memory'', VInt (ar_memory r)), (''max_containers'', VInt (ar_most r))] @ placed_entry r"

definition slurm_entry :: "(pyfloat \<Rightarrow> string) \<Rightarrow> slurm_runtime \<Rightarrow> mapping" where
  "slurm_entry shown r =
     [(''partition'', VStr (lr_partition r)), (''account'', VStr (lr_account r)), (''qos'', VStr (lr_qos r)),
      (''time'', VStr (lr_time r)), (''constraint'', VStr (lr_constraint r)), (''python'', VStr (lr_python r)),
      (''via'', VStr (lr_via r)), (''run_args'', strs (lr_args r)), (''cpus'', VFloat (lr_cpus r) (shown (lr_cpus r))),
      (''memory'', VInt (lr_memory r)), (''max_jobs'', VInt (lr_most r)), (''max_wait'', VInt (lr_wait r))] @ placed_entry r"

fun entry_of :: "(pyfloat \<Rightarrow> string) \<Rightarrow> runtime \<Rightarrow> mapping" where
  "entry_of shown (SSHRuntime r) = ssh_entry r"
| "entry_of shown (DockerRuntime r) = docker_entry shown r"
| "entry_of shown (SwarmRuntime r) = swarm_entry shown r"
| "entry_of shown (AppleContainerRuntime r) = apple_entry shown r"
| "entry_of shown (SlurmRuntime r) = slurm_entry shown r"

fun runtime_ok :: "runtime \<Rightarrow> bool" where
  "runtime_ok (SSHRuntime r) = ssh_ok r"
| "runtime_ok (DockerRuntime r) = docker_ok r"
| "runtime_ok (SwarmRuntime r) = swarm_ok r"
| "runtime_ok (AppleContainerRuntime r) = apple_ok r"
| "runtime_ok (SlurmRuntime r) = slurm_ok r"

fun backend_of :: "runtime \<Rightarrow> string" where
  "backend_of (SSHRuntime r) = SSH"
| "backend_of (DockerRuntime r) = DOCKER"
| "backend_of (SwarmRuntime r) = SWARM"
| "backend_of (AppleContainerRuntime r) = APPLE_CONTAINER"
| "backend_of (SlurmRuntime r) = SLURM"

text \<open>What all of them hold, by its own record.\<close>

fun placed_of :: "runtime \<Rightarrow> placed" where
  "placed_of (SSHRuntime r) = placed.truncate r"
| "placed_of (DockerRuntime r) = placed.truncate r"
| "placed_of (SwarmRuntime r) = placed.truncate r"
| "placed_of (AppleContainerRuntime r) = placed.truncate r"
| "placed_of (SlurmRuntime r) = placed.truncate r"

lemma typed_strs [simp]: "typed_list (strs xs) = Inr xs"
  by (simp add: strs_def comp_def py_str_def)

lemma typed_pairs [simp]: "typed_map (pairs m) = Inr m"
  by (induction m) (auto simp: pairs_def py_str_def)

lemma ssh_read: "ssh_ok r \<Longrightarrow> new_of SSH_KNOWN ssh_ok (ssh_named (r_name r)) (ssh_entry r) = Inr r"
  by (cases r) (simp add: new_of_def ssh_entry_def placed_entry_def SSH_KNOWN_def PLACED_def field_set_def holds_as_def ssh_named_def)

lemma docker_read: "docker_ok r \<Longrightarrow> new_of DOCKER_KNOWN docker_ok (docker_named (r_name r)) (docker_entry shown r) = Inr r"
  by (cases r) (simp add: new_of_def docker_entry_def placed_entry_def DOCKER_KNOWN_def PLACED_def field_set_def holds_as_def docker_named_def)

lemma swarm_read: "swarm_ok r \<Longrightarrow> new_of SWARM_KNOWN swarm_ok (swarm_named (r_name r)) (swarm_entry shown r) = Inr r"
  by (cases r) (simp add: new_of_def swarm_entry_def placed_entry_def SWARM_KNOWN_def PLACED_def field_set_def holds_as_def swarm_named_def)

lemma apple_read: "apple_ok r \<Longrightarrow> new_of APPLE_KNOWN apple_ok (apple_named (r_name r)) (apple_entry shown r) = Inr r"
  by (cases r) (simp add: new_of_def apple_entry_def placed_entry_def APPLE_KNOWN_def PLACED_def field_set_def holds_as_def apple_named_def)

lemma slurm_read: "slurm_ok r \<Longrightarrow> new_of SLURM_KNOWN slurm_ok (slurm_named (r_name r)) (slurm_entry shown r) = Inr r"
  by (cases r) (simp add: new_of_def slurm_entry_def placed_entry_def SLURM_KNOWN_def PLACED_def field_set_def holds_as_def slurm_named_def)

text \<open>No field of a runtime is its name.\<close>

definition keeps_name :: "('r \<Rightarrow> string) \<Rightarrow> 'r setting list \<Rightarrow> bool" where
  "keeps_name nm known \<longleftrightarrow> (\<forall>(k, f) \<in> set known. \<forall>v r r'. f v r = Inr r' \<longrightarrow> nm r' = nm r)"

lemma holds_as_Inr: "holds_as typed upd v r = Inr r' \<longleftrightarrow> (\<exists>x. typed v = Inr x \<and> r' = upd (\<lambda>_. x) r)"
  by (auto simp: holds_as_def res_bind_eq_Inr_iff)

lemma known_keep_names:
  "keeps_name r_name SSH_KNOWN" "keeps_name r_name DOCKER_KNOWN" "keeps_name r_name SWARM_KNOWN"
  "keeps_name r_name APPLE_KNOWN" "keeps_name r_name SLURM_KNOWN"
  by (auto simp: keeps_name_def SSH_KNOWN_def DOCKER_KNOWN_def SWARM_KNOWN_def APPLE_KNOWN_def SLURM_KNOWN_def PLACED_def
      holds_as_Inr)

lemma new_of_parts:
  assumes "new_of known ok r given = Inr r'" and "keeps_name nm known"
  shows "ok r' \<and> nm r' = nm r"
proof -
  have f: "res_fold (field_set known) given r = Inr r'" and ok: "ok r'"
    using assms(1) by (auto simp: new_of_def res_bind_eq_Inr_iff split: if_splits)
  have "nm r' = nm r"
  proof (rule res_fold_inv [OF f, of "\<lambda>s. nm s = nm r"])
    show "nm s' = nm r" if "nm s = nm r" "field_set known s kv = Inr s'" for s kv s'
      using assms(2) that by (auto simp: field_set_def keeps_name_def split: option.splits dest!: dict_get_in_set)
  qed simp
  with ok show ?thesis by simp
qed

lemma backends_distinct [simp]: "distinct BACKENDS"
  by (simp add: BACKENDS_def SSH_def DOCKER_def SWARM_def APPLE_CONTAINER_def SLURM_def)

lemma backends_differ [simp]:
  "DOCKER \<noteq> SSH" "SWARM \<noteq> SSH" "SWARM \<noteq> DOCKER" "APPLE_CONTAINER \<noteq> SSH" "APPLE_CONTAINER \<noteq> DOCKER" "APPLE_CONTAINER \<noteq> SWARM"
  "SLURM \<noteq> SSH" "SLURM \<noteq> DOCKER" "SLURM \<noteq> SWARM" "SLURM \<noteq> APPLE_CONTAINER"
  using backends_distinct by (auto simp: BACKENDS_def)

lemma backend_of_in [simp]: "backend_of r \<in> set BACKENDS"
  by (cases r) (simp_all add: BACKENDS_def)

lemma named_names [simp]:
  "r_name (ssh_named n) = n" "r_name (docker_named n) = n" "r_name (swarm_named n) = n" "r_name (apple_named n) = n"
  "r_name (slurm_named n) = n"
  by (simp_all add: ssh_named_def docker_named_def swarm_named_def apple_named_def slurm_named_def)

lemma truncate_name [simp]: "r_name (placed.truncate r) = r_name r"
  by (simp add: placed.truncate_def)

text \<open>What is made is one its backend takes, under the name it was made with; and what is written is made again.\<close>

lemma runtime_new_parts:
  "runtime_new backend name given = Inr r \<Longrightarrow> runtime_ok r \<and> backend_of r = backend \<and> r_name (placed_of r) = name"
  by (auto simp: runtime_new_def res_bind_eq_Inr_iff split: if_splits dest!: new_of_parts known_keep_names [THEN new_of_parts [rotated]])

lemma runtime_new_entry: "runtime_ok r \<Longrightarrow> runtime_new (backend_of r) (r_name (placed_of r)) (entry_of shown r) = Inr r"
  by (cases r) (simp_all add: runtime_new_def ssh_read docker_read swarm_read apple_read slurm_read)

lemma runtime_ok_name: "runtime_ok r \<Longrightarrow> runtime_name (r_name (placed_of r))"
  by (cases r) (simp_all add: ssh_ok_def docker_ok_def swarm_ok_def apple_ok_def slurm_ok_def placed_ok_def)

end
