(* ===== verification/Runtimes.thy ===== *)
theory Runtimes
  imports RuntimeKinds "HOL-Library.Char_ord" "HOL-Library.List_Lexorder"
begin

text \<open>
  The store of \<open>hmz.coganchor.machines.store\<close>: the runtimes written down under \<open>runtimes: <backend>: <name>:\<close> in
  the settings, read back, listed, looked up, written, taken away and imported from an ssh config. What the
  config names, where its path leads and what \<open>~\<close> expands to are arguments; \<open>shown\<close> is how a float is spelled.
\<close>

section \<open>Reading the store\<close>

definition RUNTIMES :: string where
  "RUNTIMES = ''runtimes''"

definition runtimes_of :: "mapping \<Rightarrow> string \<Rightarrow> mapping" where
  "runtimes_of held backend = said_of (get_or_none (said_of (get_or_none held RUNTIMES)) backend)"

datatype store_error = NotABackend | NotAName | ExistsAlready | NoHome | TooLarge | Unwritten settings_error

definition saved_runtime :: "on_disk \<Rightarrow> string \<Rightarrow> string \<Rightarrow> store_error + bool" where
  "saved_runtime disk backend name =
     (if backend \<notin> set BACKENDS then Inl NotABackend
      else if \<not> runtime_name name then Inl NotAName
      else Inr (name \<in> set (dict_keys (runtimes_of (read_settings disk) backend))))"

text \<open>
  \<open>_read\<close>: nothing where the entry makes no runtime of its backend, with the \<open>affinity\<close> an earlier version
  wrote read as its first entry. The one error not caught is the overflow.
\<close>

definition set_missing :: "string \<Rightarrow> pyval \<Rightarrow> mapping \<Rightarrow> mapping" where
  "set_missing k v m = (if k \<in> set (dict_keys m) then m else m @ [(k, v)])"

definition tried_new :: "string \<Rightarrow> string \<Rightarrow> mapping \<Rightarrow> unit + runtime option" where
  "tried_new backend name given =
     (case runtime_new backend name given of
        Inr r \<Rightarrow> Inr (Some r) | Inl Refused \<Rightarrow> Inr None | Inl Overflowed \<Rightarrow> Inl ())"

definition read_runtime :: "string \<Rightarrow> string \<Rightarrow> pyval \<Rightarrow> unit + runtime option" where
  "read_runtime backend name said =
     (case said of
        VDict m \<Rightarrow>
          (let given = filter (\<lambda>kv. fst kv \<notin> {''backend'', ''name''}) m in
           case dict_get given ''affinity'' of
             None \<Rightarrow> tried_new backend name given
           | Some (VList []) \<Rightarrow> tried_new backend name (dict_del ''affinity'' given)
           | Some (VList (one # more_of)) \<Rightarrow>
               tried_new backend name
                 (set_missing ''harness'' (if one = VStr ''self'' then VStr ENV else one) (dict_del ''affinity'' given))
           | Some v \<Rightarrow> Inr None)
      | _ \<Rightarrow> Inr None)"

definition find_runtime :: "on_disk \<Rightarrow> string \<Rightarrow> string \<Rightarrow> unit + runtime option" where
  "find_runtime disk backend name =
     (if backend \<notin> set BACKENDS \<or> \<not> runtime_name name then Inr None
      else read_runtime backend name (get_or_none (runtimes_of (read_settings disk) backend) name))"

text \<open>Every runtime of a backend, or of all of them, by backend and then by name.\<close>

definition lists_one :: "string \<Rightarrow> runtime list \<Rightarrow> string \<times> pyval \<Rightarrow> unit + runtime list" where
  "lists_one backend rs kv =
     (if \<not> runtime_name (fst kv) then Inr rs
      else res_bind (read_runtime backend (fst kv) (snd kv)) (\<lambda>x. Inr (case x of None \<Rightarrow> rs | Some r \<Rightarrow> rs @ [r])))"

definition listed_of :: "on_disk \<Rightarrow> string \<Rightarrow> runtime list \<Rightarrow> string \<Rightarrow> unit + runtime list" where
  "listed_of disk backend rs kind =
     (if backend \<noteq> [] \<and> kind \<noteq> backend then Inr rs
      else res_fold (lists_one kind) (sort_key fst (runtimes_of (read_settings disk) kind)) rs)"

definition all_runtimes :: "on_disk \<Rightarrow> string \<Rightarrow> unit + runtime list" where
  "all_runtimes disk backend = res_fold (listed_of disk backend) BACKENDS []"

definition name_of :: "runtime \<Rightarrow> string" where
  "name_of r = r_name (placed_of r)"

definition workdir_of :: "runtime \<Rightarrow> string" where
  "workdir_of r = r_workdir (placed_of r)"

definition fallback_of :: "runtime \<Rightarrow> string list" where
  "fallback_of r = r_fallback (placed_of r)"

definition runtime_fallbacks :: "on_disk \<Rightarrow> string \<Rightarrow> string \<Rightarrow> unit + (string \<times> string) list" where
  "runtime_fallbacks disk backend name =
     res_bind (find_runtime disk backend name) (\<lambda>x. Inr (case x of
        None \<Rightarrow> []
      | Some r \<Rightarrow> map (\<lambda>one. case py_partition (CHR '':'') one of (kind, _, called) \<Rightarrow> (kind, called)) (fallback_of r)))"

section \<open>What an ssh host is reached with\<close>

definition ssh_destination :: "ssh_runtime \<Rightarrow> string" where
  "ssh_destination r = (if sr_alias r \<noteq> [] then sr_alias r else sr_host r)"

definition ssh_login :: "ssh_runtime \<Rightarrow> string" where
  "ssh_login r = (if sr_user r \<noteq> [] then sr_user r @ ''@'' @ ssh_destination r else ssh_destination r)"

text \<open>A path with its home expanded, nothing where there is no such home.\<close>

definition here_path :: "(string \<Rightarrow> string) \<Rightarrow> string \<Rightarrow> string option" where
  "here_path expand p = (if starts_with ''~'' (expand p) then None else Some (expand p))"

definition ssh_settings :: "(string \<Rightarrow> string) \<Rightarrow> ssh_runtime \<Rightarrow> (string \<times> string) list option" where
  "ssh_settings expand r =
     (case (if sr_config r = [] then Some [] else map_option (\<lambda>p. [(''F'', p)]) (here_path expand (sr_config r))) of
        None \<Rightarrow> None
      | Some said \<Rightarrow> Some (said @
          (if sr_alias r \<noteq> [] \<and> sr_host r \<noteq> [] then [(''HostName'', sr_host r)] else []) @
          (if sr_identity r \<noteq> [] then [(''IdentityFile'', sr_identity r)] else []) @
          (if sr_jump r \<noteq> [] then [(''ProxyJump'', sr_jump r)] else []) @ sr_options r))"

text \<open>\<open>node_of\<close>: the endpoint a swarm node is reached by, nothing for one that is neither.\<close>

definition node_of :: "on_disk \<Rightarrow> string \<Rightarrow> unit + string option" where
  "node_of disk via =
     res_bind (if runtime_name via then find_runtime disk SSH via else Inr None)
       (\<lambda>found. Inr (if found \<noteq> None then Some (''ssh:'' @ via)
          else if is_ssh_destination via then Some (''ssh://'' @ via) else None))"

section \<open>Writing it\<close>

text \<open>The path a runtime is reached with, whose home has to be there for it to be written down.\<close>

fun homed :: "(string \<Rightarrow> string) \<Rightarrow> runtime \<Rightarrow> bool" where
  "homed expand (SSHRuntime r) = (here_path expand (sr_config r) \<noteq> None)"
| "homed expand (DockerRuntime r) = (here_path expand (dr_tls r) \<noteq> None)"
| "homed expand (SwarmRuntime r) = (here_path expand (wr_tls r) \<noteq> None)"
| "homed expand r = True"

definition written_runtime :: "string \<Rightarrow> string \<Rightarrow> mapping \<Rightarrow> mapping \<Rightarrow> mapping" where
  "written_runtime backend name entry held =
     (let kept = said_of (get_or_none held RUNTIMES) in
      dict_put RUNTIMES (VDict (dict_put backend (VDict (dict_put name (VDict entry) (said_of (get_or_none kept backend)))) kept)) held)"

definition write_runtime :: "(pyfloat \<Rightarrow> string) \<Rightarrow> (string \<Rightarrow> string) \<Rightarrow> runtime \<Rightarrow> on_disk \<Rightarrow> store_error + on_disk" where
  "write_runtime shown expand r disk =
     (if \<not> homed expand r then Inl NoHome
      else case saved_runtime disk (backend_of r) (name_of r) of
        Inl e \<Rightarrow> Inl e
      | Inr _ \<Rightarrow>
          (case changes (written_runtime (backend_of r) (name_of r) (entry_of shown r)) disk of
             Inl e \<Rightarrow> Inl (Unwritten e) | Inr disk' \<Rightarrow> Inr disk'))"

definition add_runtime :: "(pyfloat \<Rightarrow> string) \<Rightarrow> (string \<Rightarrow> string) \<Rightarrow> runtime \<Rightarrow> on_disk \<Rightarrow> store_error + on_disk" where
  "add_runtime shown expand r disk =
     (case find_runtime disk (backend_of r) (name_of r) of
        Inl e \<Rightarrow> Inl TooLarge
      | Inr (Some _) \<Rightarrow> Inl ExistsAlready
      | Inr None \<Rightarrow> write_runtime shown expand r disk)"

text \<open>\<open>remove\<close>: the entry popped where its backend's runtimes are a mapping, and nothing made where not.\<close>

definition removed_runtime :: "string \<Rightarrow> string \<Rightarrow> mapping \<Rightarrow> mapping" where
  "removed_runtime backend name held =
     (case get_or_none held RUNTIMES of
        VDict kept \<Rightarrow>
          (case get_or_none kept backend of
             VDict ours \<Rightarrow> dict_put RUNTIMES (VDict (dict_put backend (VDict (dict_del name ours)) kept)) held
           | _ \<Rightarrow> held)
      | _ \<Rightarrow> held)"

definition remove_runtime :: "on_disk \<Rightarrow> on_disk \<Rightarrow> string \<Rightarrow> string \<Rightarrow> store_error + (bool \<times> on_disk)" where
  "remove_runtime was now backend name =
     (case saved_runtime was backend name of
        Inl e \<Rightarrow> Inl e
      | Inr False \<Rightarrow> Inr (False, now)
      | Inr True \<Rightarrow>
          (case changes (removed_runtime backend name) now of
             Inl e \<Rightarrow> Inl (Unwritten e)
           | Inr disk \<Rightarrow> Inr (name \<in> set (dict_keys (runtimes_of (read_settings now) backend)), disk)))"

section \<open>Importing an ssh config\<close>

text \<open>
  \<open>own\<close> is the path of a config that is not the user's own, \<open>[]\<close> for theirs; \<open>found\<close> the hosts it names, in
  order, and \<open>names\<close> those asked for. Every runtime is made before any is written.
\<close>

datatype import_error = NoHostNamed "string list" | CannotImport string | NotARuntime string | ImportTooLarge | ImportUnwritten store_error

definition import_name :: "string \<Rightarrow> string" where
  "import_name alias =
     dropWhile (\<lambda>c. c \<in> set ''._-'') (map (\<lambda>c. if ascii_alnum c \<or> c \<in> set ''._-'' then c else CHR ''-'') alias)"

definition imported_ssh :: "string \<Rightarrow> string \<Rightarrow> string \<Rightarrow> ssh_runtime option \<Rightarrow> ssh_runtime" where
  "imported_ssh own name alias already =
     (ssh_named name)\<lparr>r_workdir := (case already of Some a \<Rightarrow> r_workdir a | None \<Rightarrow> []),
       r_fallback := (case already of Some a \<Rightarrow> r_fallback a | None \<Rightarrow> []), r_made := IMPORTED,
       r_harness := (case already of Some a \<Rightarrow> r_harness a | None \<Rightarrow> ENV), sr_alias := alias, sr_config := own\<rparr>"

definition ssh_found :: "on_disk \<Rightarrow> string \<Rightarrow> unit + ssh_runtime option" where
  "ssh_found disk name =
     (if name = [] then Inr None
      else res_bind (find_runtime disk SSH name) (\<lambda>x. Inr (case x of Some (SSHRuntime r) \<Rightarrow> Some r | _ \<Rightarrow> None)))"

definition not_imported :: "bool \<Rightarrow> (string \<times> string) list \<Rightarrow> string \<Rightarrow> ssh_runtime option \<Rightarrow> bool" where
  "not_imported update seen name already \<longleftrightarrow>
     name = [] \<or> name \<in> set (dict_keys seen) \<or>
     update \<and> (case already of Some a \<Rightarrow> r_made a \<noteq> IMPORTED | None \<Rightarrow> False)"

definition import_one ::
    "on_disk \<Rightarrow> string \<Rightarrow> bool \<Rightarrow> bool \<Rightarrow> ssh_runtime list \<times> (string \<times> string) list \<Rightarrow> string \<Rightarrow>
     import_error + ssh_runtime list \<times> (string \<times> string) list" where
  "import_one disk own asked update st alias =
     (let name = import_name alias; (making, seen) = st in
      case ssh_found disk name of
        Inl e \<Rightarrow> Inl ImportTooLarge
      | Inr already \<Rightarrow>
          if not_imported update seen name already then (if asked then Inl (CannotImport alias) else Inr st)
          else
            let seen = dict_put name alias seen in
            if already \<noteq> None \<and> \<not> update then Inr (making, seen)
            else
              let r = imported_ssh own name alias already in
              if ssh_ok r then Inr (making @ [r], seen) else if asked then Inl (NotARuntime alias) else Inr (making, seen))"

definition writes_all :: "(pyfloat \<Rightarrow> string) \<Rightarrow> (string \<Rightarrow> string) \<Rightarrow> ssh_runtime list \<Rightarrow> on_disk \<Rightarrow> import_error + on_disk" where
  "writes_all shown expand rs disk =
     res_fold (\<lambda>d r. case write_runtime shown expand (SSHRuntime r) d of Inl e \<Rightarrow> Inl (ImportUnwritten e) | Inr d' \<Rightarrow> Inr d') rs disk"

definition import_hosts ::
    "(pyfloat \<Rightarrow> string) \<Rightarrow> (string \<Rightarrow> string) \<Rightarrow> string \<Rightarrow> string list \<Rightarrow> string list option \<Rightarrow> bool \<Rightarrow> on_disk \<Rightarrow>
     import_error + (ssh_runtime list \<times> on_disk)" where
  "import_hosts shown expand own found names update disk =
     (let wanted = (case names of None \<Rightarrow> found | Some ns \<Rightarrow> ns); missing = filter (\<lambda>n. n \<notin> set found) wanted in
      if missing \<noteq> [] then Inl (NoHostNamed missing)
      else res_bind (res_fold (import_one disk own (names \<noteq> None) update) wanted ([], []))
        (\<lambda>(making, seen). res_bind (writes_all shown expand making disk) (\<lambda>disk'. Inr (making, disk'))))"

section \<open>What is written is found\<close>

lemma said_of_VDict [simp]: "said_of (VDict m) = m"
  by (simp add: said_of_def)

lemma runtimes_of_written:
  "runtimes_of (written_runtime backend name entry held) b =
     (if b = backend then dict_put name (VDict entry) (runtimes_of held b) else runtimes_of held b)"
  by (simp add: runtimes_of_def written_runtime_def Let_def)

lemma written_runtime_part: "writes_only RUNTIMES (written_runtime backend name entry)"
  by (simp add: writes_only_def written_runtime_def Let_def)

lemma entry_keys: "fst ` set (entry_of shown r) \<inter> {''backend'', ''name'', ''affinity''} = {}"
  by (cases r) (auto simp: ssh_entry_def docker_entry_def swarm_entry_def apple_entry_def slurm_entry_def placed_entry_def)

lemma read_entry:
  assumes "runtime_ok r"
  shows "read_runtime (backend_of r) (name_of r) (VDict (entry_of shown r)) = Inr (Some r)"
proof -
  have "filter (\<lambda>kv. fst kv \<notin> {''backend'', ''name''}) (entry_of shown r) = entry_of shown r"
    using entry_keys [of shown r] by (intro filter_True) (auto simp: disjoint_iff)
  moreover have "dict_get (entry_of shown r) ''affinity'' = None"
    using entry_keys [of shown r] by (auto simp: dict_get_None_iff)
  ultimately show ?thesis
    by (simp add: read_runtime_def tried_new_def name_of_def runtime_new_entry [OF assms])
qed

lemma written_reads:
  assumes "write_runtime shown expand r disk = Inr disk'"
  shows "changes (written_runtime (backend_of r) (name_of r) (entry_of shown r)) disk = Inr disk'"
  using assms by (auto simp: write_runtime_def split: if_splits sum.splits)

lemma find_other:
  assumes "write_runtime shown expand r disk = Inr disk'" and "(b, n) \<noteq> (backend_of r, name_of r)"
  shows "find_runtime disk' b n = find_runtime disk b n"
  using changes_reads [OF written_reads [OF assms(1)]] assms(2)
  by (auto simp: find_runtime_def runtimes_of_written get_or_none_def)

lemma find_written:
  assumes "write_runtime shown expand r disk = Inr disk'" and "runtime_ok r"
  shows "find_runtime disk' (backend_of r) (name_of r) = Inr (Some r)"
  using changes_reads [OF written_reads [OF assms(1)]] read_entry [OF assms(2)] runtime_ok_name [OF assms(2)]
  by (simp add: find_runtime_def runtimes_of_written name_of_def get_or_none_def)

text \<open>
  C23. A runtime of any backend that its class takes, once it is written down, is found again under its name
  with every field as it was; no other runtime is touched, and neither is any other part of the settings.
\<close>

theorem written_runtime_is_found:
  assumes "write_runtime shown expand r disk = Inr disk'" and "runtime_ok r"
  shows "find_runtime disk' (backend_of r) (name_of r) = Inr (Some r) \<and>
    (\<forall>b n. (b, n) \<noteq> (backend_of r, name_of r) \<longrightarrow> find_runtime disk' b n = find_runtime disk b n) \<and>
    (\<forall>k. k \<noteq> RUNTIMES \<longrightarrow> get_or_none (read_settings disk') k = get_or_none (read_settings disk) k)"
  using find_written [OF assms] find_other [OF assms(1)]
    changes_other_part [OF written_reads [OF assms(1)] written_runtime_part] by blast

definition gpu_box :: runtime where
  "gpu_box = DockerRuntime ((docker_named ''gpu'')\<lparr>dr_endpoint := ''ssh://me@gpu.example:2222'', dr_env := [''A=1=2''],
     dr_cpus := Fin (7 / 2), dr_gpus := [''0'', ''1''], r_workdir := ''~/work'', r_fallback := [''ssh:box''], r_harness := HERE\<rparr>)"

lemma written_runtime_is_found_witness:
  "\<exists>disk. write_runtime (\<lambda>x. ''3.5'') (\<lambda>p. p) gpu_box (Yaml (VDict [(''x'', VInt 1)])) = Inr disk \<and>
     find_runtime disk DOCKER ''gpu'' = Inr (Some gpu_box) \<and> get_or_none (read_settings disk) ''x'' = VInt 1"
proof -
  have ok: "runtime_ok gpu_box" by code_simp
  have n: "name_of gpu_box = ''gpu''" "backend_of gpu_box = DOCKER" "homed (\<lambda>p. p) gpu_box" "runtime_name ''gpu''" "RUNTIMES \<noteq> ''x''"
    by code_simp+
  have "DOCKER \<in> set BACKENDS" using backend_of_in [of gpu_box] by (simp add: n)
  then obtain disk where d: "write_runtime (\<lambda>x. ''3.5'') (\<lambda>p. p) gpu_box (Yaml (VDict [(''x'', VInt 1)])) = Inr disk"
    by (simp add: write_runtime_def saved_runtime_def n changes_def)
  from written_runtime_is_found [OF d ok] n d show ?thesis by (auto simp: get_or_none_def)
qed

section \<open>What is found is a runtime\<close>

lemma tried_new_parts: "tried_new b n given = Inr (Some r) \<Longrightarrow> runtime_ok r \<and> backend_of r = b \<and> name_of r = n"
  by (auto simp: tried_new_def name_of_def split: sum.splits not_made.splits dest: runtime_new_parts)

lemma read_runtime_parts: "read_runtime b n said = Inr (Some r) \<Longrightarrow> runtime_ok r \<and> backend_of r = b \<and> name_of r = n"
  by (auto simp: read_runtime_def Let_def split: pyval.splits option.splits list.splits dest: tried_new_parts)

lemma found_is_ok:
  "find_runtime disk backend name = Inr (Some r) \<Longrightarrow> runtime_ok r \<and> backend_of r = backend \<and> name_of r = name"
  by (auto simp: find_runtime_def split: if_splits dest: read_runtime_parts)



text \<open>An amount of CPUs too large for a float is raised past the reader that leaves unreadable entries out.\<close>

lemma too_many_cpus_escape:
  assumes "float_of_int n = None"
  shows "all_runtimes (Yaml (VDict [(''runtimes'', VDict [(''docker'', VDict [(''big'', VDict [(''cpus'', VInt n)])])])])) ''docker'' = Inl ()"
proof -
  have d: "runtimes_of [(''runtimes'', VDict [(DOCKER, VDict [(''big'', VDict [(''cpus'', VInt n)])])])] DOCKER =
      [(''big'', VDict [(''cpus'', VInt n)])]"
    by (simp add: runtimes_of_def RUNTIMES_def get_or_none_def)
  have big: "runtime_name ''big''" "DOCKER \<noteq> []" by code_simp+
  have "runtime_new DOCKER ''big'' [(''cpus'', VInt n)] = Inl Overflowed"
    by (simp add: runtime_new_def new_of_def field_set_def DOCKER_KNOWN_def holds_as_def assms)
  then have "read_runtime DOCKER ''big'' (VDict [(''cpus'', VInt n)]) = Inl ()"
    by (simp add: read_runtime_def tried_new_def)
  then have "listed_of (Yaml (VDict [(''runtimes'', VDict [(''docker'', VDict [(''big'', VDict [(''cpus'', VInt n)])])])])) ''docker'' [] DOCKER = Inl ()"
    by (simp add: listed_of_def lists_one_def big d DOCKER_def [symmetric])
  then show ?thesis
    by (simp add: all_runtimes_def BACKENDS_def listed_of_def big DOCKER_def [symmetric])
qed

section \<open>What is listed is what is found\<close>

definition reads_to :: "string \<Rightarrow> string \<times> pyval \<Rightarrow> runtime list" where
  "reads_to kind kv =
     (if runtime_name (fst kv) then (case read_runtime kind (fst kv) (snd kv) of Inr (Some r) \<Rightarrow> [r] | _ \<Rightarrow> []) else [])"

lemma lists_reads: "res_fold (lists_one kind) kvs rs = Inr rs' \<Longrightarrow> rs' = rs @ concat (map (reads_to kind) kvs)"
proof (induction kvs arbitrary: rs)
  case (Cons kv kvs)
  then obtain rs1 where one: "lists_one kind rs kv = Inr rs1" "res_fold (lists_one kind) kvs rs1 = Inr rs'"
    by (auto simp: res_bind_eq_Inr_iff)
  then have "rs1 = rs @ reads_to kind kv"
    by (auto simp: lists_one_def reads_to_def res_bind_eq_Inr_iff split: if_splits option.splits)
  then show ?case using Cons.IH [OF one(2)] by simp
qed simp

lemma listed_of_reads:
  "listed_of disk [] rs kind = Inr rs' \<Longrightarrow>
   rs' = rs @ concat (map (reads_to kind) (sort_key fst (runtimes_of (read_settings disk) kind)))"
  by (auto simp: listed_of_def dest: lists_reads)

lemma all_listed:
  "res_fold (listed_of disk []) kinds rs = Inr rs' \<Longrightarrow>
   rs' = rs @ concat (map (\<lambda>kind. concat (map (reads_to kind) (sort_key fst (runtimes_of (read_settings disk) kind)))) kinds)"
proof (induction kinds arbitrary: rs)
  case (Cons kind kinds)
  then obtain rs1 where one: "listed_of disk [] rs kind = Inr rs1" "res_fold (listed_of disk []) kinds rs1 = Inr rs'"
    by (auto simp: res_bind_eq_Inr_iff)
  then show ?case using Cons.IH [OF one(2)] listed_of_reads [OF one(1)] by simp
qed simp

definition runtimes_kept :: "mapping \<Rightarrow> bool" where
  "runtimes_kept m \<longleftrightarrow> (\<forall>b. dict_ok (runtimes_of m b))"

lemma dict_get_iff: "dict_ok m \<Longrightarrow> dict_get m k = Some v \<longleftrightarrow> (k, v) \<in> set m"
  by (induction m) (force simp: dict_ok_def split: if_splits)+

text \<open>
  Every runtime listed is one found under its backend and name, and every one found is listed: an entry that
  makes none of its backend, or stands under a name there may not be, is left out and hides no other.
\<close>

theorem listed_are_found:
  assumes "all_runtimes disk [] = Inr rs" and "runtimes_kept (read_settings disk)"
  shows "r \<in> set rs \<longleftrightarrow> find_runtime disk (backend_of r) (name_of r) = Inr (Some r)"
proof -
  let ?of = "runtimes_of (read_settings disk)"
  have rs: "set rs = (\<Union>kind\<in>set BACKENDS. \<Union>kv\<in>set (?of kind). set (reads_to kind kv))"
    using all_listed [OF assms(1) [unfolded all_runtimes_def]] by auto
  have none: "\<not> runtime_name n \<or> read_runtime kind n said = Inl u \<or> read_runtime kind n said = Inr None \<Longrightarrow> reads_to kind (n, said) = []"
    for kind n said u by (auto simp: reads_to_def)
  have some: "runtime_name n \<Longrightarrow> read_runtime kind n said = Inr (Some r') \<Longrightarrow> reads_to kind (n, said) = [r']" for kind n said r'
    by (simp add: reads_to_def)
  have one: "r \<in> set (reads_to kind (n, said)) \<longleftrightarrow> runtime_name n \<and> read_runtime kind n said = Inr (Some r)" for kind n said
  proof (cases "runtime_name n \<and> (\<exists>r'. read_runtime kind n said = Inr (Some r'))")
    case True
    then obtain r' where "reads_to kind (n, said) = [r']" "read_runtime kind n said = Inr (Some r')" using some by blast
    then show ?thesis using True by auto
  next
    case False
    then have "reads_to kind (n, said) = []" by (metis none not_None_eq old.unit.exhaust sumE)
    then show ?thesis using False by auto
  qed
  show ?thesis
  proof
    assume "r \<in> set rs"
    then obtain kind n said where r: "kind \<in> set BACKENDS" "(n, said) \<in> set (?of kind)" "runtime_name n"
        "read_runtime kind n said = Inr (Some r)"
      unfolding rs using one by fastforce
    have "dict_get (?of kind) n = Some said" using r(2) assms(2) by (simp add: dict_get_iff runtimes_kept_def)
    moreover have "backend_of r = kind" "name_of r = n" using read_runtime_parts [OF r(4)] by auto
    ultimately show "find_runtime disk (backend_of r) (name_of r) = Inr (Some r)"
      using r by (simp add: find_runtime_def get_or_none_def)
  next
    assume f: "find_runtime disk (backend_of r) (name_of r) = Inr (Some r)"
    then obtain said where s: "dict_get (?of (backend_of r)) (name_of r) = Some said"
        "read_runtime (backend_of r) (name_of r) said = Inr (Some r)" "runtime_name (name_of r)"
      by (cases "dict_get (?of (backend_of r)) (name_of r)")
        (simp_all add: find_runtime_def get_or_none_def read_runtime_def split: if_splits)
    then have "(name_of r, said) \<in> set (?of (backend_of r))" by (simp add: dict_get_in_set)
    moreover have "r \<in> set (reads_to (backend_of r) (name_of r, said))" using one s by simp
    ultimately show "r \<in> set rs" unfolding rs by (meson UN_I backend_of_in)
  qed
qed

definition two_hosts :: on_disk where
  "two_hosts = Yaml (VDict [(RUNTIMES, VDict [(SSH, VDict [(''b'', VDict [(''host'', VStr ''far'')]), (''a'', VDict [(''hots'', VStr ''x'')])])])])"

lemma listed_are_found_witness:
  "(SSHRuntime ((ssh_named ''b'')\<lparr>sr_host := ''far''\<rparr>) \<in> set [SSHRuntime ((ssh_named ''b'')\<lparr>sr_host := ''far''\<rparr>)]) =
   (find_runtime two_hosts SSH ''b'' = Inr (Some (SSHRuntime ((ssh_named ''b'')\<lparr>sr_host := ''far''\<rparr>))))"
proof -
  have l: "all_runtimes two_hosts [] = Inr [SSHRuntime ((ssh_named ''b'')\<lparr>sr_host := ''far''\<rparr>)]" by code_simp
  have "runtimes_kept (read_settings two_hosts)"
    by (simp add: runtimes_kept_def two_hosts_def runtimes_of_def get_or_none_def dict_ok_def said_of_def)
  from listed_are_found [OF l this, of "SSHRuntime ((ssh_named ''b'')\<lparr>sr_host := ''far''\<rparr>)"]
  show ?thesis by (simp add: name_of_def)
qed

section \<open>What an import keeps\<close>

definition importable :: "on_disk \<Rightarrow> bool \<Rightarrow> ssh_runtime \<Rightarrow> bool" where
  "importable disk update r \<longleftrightarrow> ssh_ok r \<and> r_made r = IMPORTED \<and> r_name r = import_name (sr_alias r) \<and>
     (case ssh_found disk (r_name r) of Inl e \<Rightarrow> False | Inr None \<Rightarrow> True | Inr (Some a) \<Rightarrow> update \<and> r_made a = IMPORTED)"

definition importing :: "on_disk \<Rightarrow> bool \<Rightarrow> string list \<Rightarrow> ssh_runtime list \<times> (string \<times> string) list \<Rightarrow> bool" where
  "importing disk update wanted st \<longleftrightarrow>
     (\<forall>r\<in>set (fst st). importable disk update r \<and> sr_alias r \<in> set wanted) \<and> distinct (map r_name (fst st)) \<and>
     r_name ` set (fst st) \<subseteq> set (dict_keys (snd st))"

lemma imported_fields [simp]:
  "r_name (imported_ssh own name alias already) = name" "r_made (imported_ssh own name alias already) = IMPORTED"
  "sr_alias (imported_ssh own name alias already) = alias"
  by (simp_all add: imported_ssh_def ssh_named_def)

lemma import_one_keeps:
  assumes "import_one disk own asked update st alias = Inr st'" and "importing disk update wanted st" and "alias \<in> set wanted"
  shows "importing disk update wanted st'"
proof -
  obtain making seen where st: "st = (making, seen)" by (cases st)
  let ?n = "import_name alias"
  obtain already where a: "ssh_found disk ?n = Inr already"
    using assms(1) by (cases "ssh_found disk ?n") (auto simp: import_one_def st)
  let ?r = "imported_ssh own ?n alias already"
  have keys: "set (dict_keys (dict_put ?n alias seen)) = insert ?n (set (dict_keys seen))"
    by (auto simp: dict_keys_put)
  consider "st' = st"
    | "st' = (making, dict_put ?n alias seen)"
    | "st' = (making @ [?r], dict_put ?n alias seen)" "?n \<notin> set (dict_keys seen)" "ssh_ok ?r" "importable disk update ?r"
    using assms(1) a
    by (auto simp: import_one_def st not_imported_def importable_def Let_def split: if_splits option.splits)
  then show ?thesis
  proof cases
    case 1
    then show ?thesis using assms(2) by simp
  next
    case 2
    then show ?thesis using assms(2) keys by (auto simp: importing_def st)
  next
    case 3
    then show ?thesis using assms(2,3) keys by (auto simp: importing_def st)
  qed
qed

lemma import_all_keeps:
  assumes "res_fold (import_one disk own asked update) wanted ([], []) = Inr (making, seen)"
  shows "importing disk update wanted (making, seen)"
  using assms
proof (rule res_fold_inv)
  show "importing disk update wanted ([], [])" by (simp add: importing_def)
qed (rule import_one_keeps)

lemma writes_all_finds:
  assumes "writes_all shown expand rs disk = Inr disk'" and "\<forall>r\<in>set rs. ssh_ok r" and "distinct (map r_name rs)"
  shows "(\<forall>r\<in>set rs. find_runtime disk' SSH (r_name r) = Inr (Some (SSHRuntime r))) \<and>
    (\<forall>b n. b \<noteq> SSH \<or> n \<notin> r_name ` set rs \<longrightarrow> find_runtime disk' b n = find_runtime disk b n)"
  using assms
proof (induction rs arbitrary: disk)
  case Nil
  then show ?case by (simp add: writes_all_def)
next
  case (Cons r rs)
  obtain d where d: "write_runtime shown expand (SSHRuntime r) disk = Inr d" "writes_all shown expand rs d = Inr disk'"
    using Cons.prems(1) by (auto simp: writes_all_def res_bind_eq_Inr_iff split: sum.splits)
  have ih: "\<forall>r\<in>set rs. find_runtime disk' SSH (r_name r) = Inr (Some (SSHRuntime r))"
      "\<forall>b n. b \<noteq> SSH \<or> n \<notin> r_name ` set rs \<longrightarrow> find_runtime disk' b n = find_runtime d b n"
    using Cons.IH [OF d(2)] Cons.prems(2,3) by auto
  have r: "find_runtime d SSH (r_name r) = Inr (Some (SSHRuntime r))"
    using find_written [OF d(1)] Cons.prems(2) by (simp add: name_of_def)
  have others: "(b, n) \<noteq> (SSH, r_name r) \<Longrightarrow> find_runtime d b n = find_runtime disk b n" for b n
    using find_other [OF d(1), of b n] by (simp add: name_of_def)
  show ?case using ih r others Cons.prems(3) by auto
qed

text \<open>
  C24. Importing an ssh config writes a runtime of its own name for each host, every one found again and no name
  twice, and writes over nothing: what stood under a name of one it wrote was an earlier import, and then only
  where updating was asked for; every other runtime, one typed in included, is what it was.
\<close>

theorem imports_write_over_nothing_typed:
  assumes "import_hosts shown expand own found names update disk = Inr (rs, disk')"
  shows "distinct (map r_name rs) \<and>
    (\<forall>r\<in>set rs. find_runtime disk' SSH (r_name r) = Inr (Some (SSHRuntime r)) \<and> sr_alias r \<in> set found \<and>
      (case find_runtime disk SSH (r_name r) of
         Inr (Some (SSHRuntime a)) \<Rightarrow> update \<and> r_made a = IMPORTED | Inr x \<Rightarrow> x = None | Inl e \<Rightarrow> False)) \<and>
    (\<forall>b n. b \<noteq> SSH \<or> n \<notin> r_name ` set rs \<longrightarrow> find_runtime disk' b n = find_runtime disk b n)"
proof -
  let ?wanted = "case names of None \<Rightarrow> found | Some ns \<Rightarrow> ns"
  obtain seen where f: "res_fold (import_one disk own (names \<noteq> None) update) ?wanted ([], []) = Inr (rs, seen)"
      "writes_all shown expand rs disk = Inr disk'" and wanted: "set ?wanted \<subseteq> set found"
    using assms by (auto simp: import_hosts_def Let_def res_bind_eq_Inr_iff filter_empty_conv split: if_splits)
  have kept: "importing disk update ?wanted (rs, seen)" using f(1) by (rule import_all_keeps)
  have ok: "\<forall>r\<in>set rs. ssh_ok r" "distinct (map r_name rs)" using kept by (auto simp: importing_def importable_def)
  have was: "case find_runtime disk SSH (r_name r) of
      Inr (Some (SSHRuntime a)) \<Rightarrow> update \<and> r_made a = IMPORTED | Inr x \<Rightarrow> x = None | Inl e \<Rightarrow> False" if "r \<in> set rs" for r
  proof -
    have r: "importable disk update r" using kept that by (simp add: importing_def)
    then have n: "r_name r \<noteq> []" using runtime_ok_name [of "SSHRuntime r"] by (auto simp: importable_def runtime_name_def begun_by_def)
    show ?thesis
    proof (cases "find_runtime disk SSH (r_name r)")
      case (Inl e)
      then show ?thesis using r n by (simp add: importable_def ssh_found_def)
    next
      case (Inr x)
      show ?thesis
      proof (cases x)
        case None
        show ?thesis unfolding Inr None by simp
      next
        case (Some q)
        then have "backend_of q = SSH" using found_is_ok [of disk SSH "r_name r" q] Inr by simp
        then obtain a where q: "q = SSHRuntime a" by (cases q) auto
        have "ssh_found disk (r_name r) = Inr (Some a)" using n by (simp add: ssh_found_def Inr Some q)
        then have "update \<and> r_made a = IMPORTED" using r by (simp add: importable_def)
        then show ?thesis unfolding Inr Some q by simp
      qed
    qed
  qed
  show ?thesis using writes_all_finds [OF f(2) ok] ok(2) was kept wanted by (auto simp: importing_def)
qed

text \<open>An alias already typed in as a runtime of its name is left, and the one beside it imported.\<close>

definition typed_gpu :: mapping where
  "typed_gpu = [(RUNTIMES, VDict [(SSH, VDict [(''gpu'', VDict [(''host'', VStr ''far'')])])])]"

lemma imports_write_over_nothing_typed_witness:
  "\<exists>disk. find_runtime disk SSH ''a-b'' = Inr (Some (SSHRuntime (imported_ssh [] ''a-b'' ''a%b'' None))) \<and>
     find_runtime disk SSH ''gpu'' = find_runtime (Yaml (VDict typed_gpu)) SSH ''gpu''"
proof -
  have "import_hosts (\<lambda>x. []) (\<lambda>p. p) [] [''gpu'', ''a%b''] None True (Yaml (VDict typed_gpu)) =
      Inr ([imported_ssh [] ''a-b'' ''a%b'' None],
        Yaml (VDict (written_runtime SSH ''a-b'' (ssh_entry (imported_ssh [] ''a-b'' ''a%b'' None)) typed_gpu)))"
    by code_simp
  from imports_write_over_nothing_typed [OF this] show ?thesis
    by (intro exI [where x = "Yaml (VDict (written_runtime SSH ''a-b'' (ssh_entry (imported_ssh [] ''a-b'' ''a%b'' None)) typed_gpu))"])
      simp
qed

end
