(* ===== verification/Parts.thy ===== *)
theory Parts
  imports Runtimes Fallbacks
begin

text \<open>
  The writers of the settings file together: runtimes written down and taken away
  (\<open>coganchor.machines.store\<close>), CLIs remembered and forgotten (\<open>coganchor.backends\<close>) and steps between
  places (\<open>coganchor.fallbacks\<close>), each of which changes one part of the file under the lock they share.
\<close>

section \<open>The parts\<close>
















section \<open>All of them at once\<close>

















end
