(* ===== verification/Specs.thy ===== *)
theory Specs
  imports Runtimes PyFormat CallTree
begin

text \<open>
  \<open>hmz.runtime.flowing.specs\<close>: what a command line says a run is given -- its agents, environments, params
  and budget -- read item by item, and written back; and how an environment spelled the old way is spelled
  now (\<open>respelled\<close> of \<open>coganchor.machines.store\<close>). Reading a duration in ISO 8601 is pydantic's, and is the
  argument \<open>iso8601\<close>.
\<close>

section \<open>Items\<close>

definition BUDGET :: string where
  "BUDGET = ''budget''"

text \<open>\<open>\w\<close> of a regular expression, and the characters a key begins and goes on with.\<close>

definition is_word :: "char \<Rightarrow> bool" where
  "is_word c \<longleftrightarrow>
     (let n = (of_char c :: nat) in
      is_letter c \<or> is_digit c \<or> n = 95 \<or> n \<in> {170, 178, 179, 181, 185, 186, 188, 189, 190} \<or>
      192 \<le> n \<and> n \<le> 214 \<or> 216 \<le> n \<and> n \<le> 246 \<or> 248 \<le> n)"

definition key_start :: "char \<Rightarrow> bool" where
  "key_start c \<longleftrightarrow> is_letter c \<or> c = CHR ''_''"

definition key_rest :: "char \<Rightarrow> bool" where
  "key_rest c \<longleftrightarrow> is_word c \<or> c = CHR ''-''"

text \<open>Whether a string is a key, and whether it begins with one and \<open>=\<close>.\<close>

definition plain_key :: "string \<Rightarrow> bool" where
  "plain_key s = begun_by key_start key_rest s"

definition plain_given :: "string \<Rightarrow> bool" where
  "plain_given s \<longleftrightarrow> s \<noteq> [] \<and> key_start (hd s) \<and> (case dropWhile key_rest s of c # r \<Rightarrow> c = CHR ''='' | [] \<Rightarrow> False)"

definition prefixed :: "(string \<Rightarrow> bool) \<Rightarrow> string \<Rightarrow> bool" where
  "prefixed p s \<longleftrightarrow> p s \<or> starts_with ''budget.'' s \<and>
     (p (drop 7 s) \<or> starts_with ''graceful.'' (drop 7 s) \<and> p (drop 16 s))"

definition is_key :: "string \<Rightarrow> bool" where
  "is_key s = prefixed plain_key s"

definition key_given :: "string \<Rightarrow> bool" where
  "key_given s = prefixed plain_given s"

text \<open>\<open>_ITEMS.split\<close>: at a comma before a key and \<open>=\<close>, the spaces between them gone.\<close>

function split_items :: "string \<Rightarrow> string list" where
  "split_items [] = [[]]"
| "split_items (c # s) =
     (let r = dropWhile is_space s in
      if c = CHR '','' \<and> key_given r then [] # split_items r
      else case split_items s of [] \<Rightarrow> [[c]] | p # ps \<Rightarrow> (c # p) # ps)"
  by pat_completeness auto
termination
  by (relation "measure length") (auto simp: less_Suc_eq_le length_dropWhile_le)

text \<open>Every item of every occurrence of a flag; an empty one is refused when it is come to.\<close>

definition items_of :: "string list \<Rightarrow> string list" where
  "items_of values = concat (map split_items values)"

definition blank :: "string \<Rightarrow> bool" where
  "blank s \<longleftrightarrow> py_strip s = []"

section \<open>Agents\<close>

record agent_spec =
  as_role :: string
  as_harness :: string
  as_provider :: string
  as_model :: string
  as_effort :: string
  as_cli :: string

definition ACP :: string where "ACP = ''acp''"

definition HARNESSES :: "string list" where
  "HARNESSES = [''claude'', ''codex'', ''cursor-agent'', ''opencode'', ''mimo'', ''mcode'', ''qwen'', ''kimi'', ''grok'',
     ''pi'', ''omp'', ''agy'', ''dsh'', ''litellm'']"

datatype agent_spec_refusal = EmptyAgent | NotAnAgentItem string | Unread string read_error | RoleTwice string

definition agent_item :: "on_disk \<Rightarrow> agent_spec list \<Rightarrow> string \<Rightarrow> agent_spec_refusal + agent_spec list" where
  "agent_item disk specs item =
     (if blank item then Inl EmptyAgent
      else
        let said = py_strip item in
        case py_partition (CHR ''='') said of (role, filled, _) \<Rightarrow>
          if \<not> filled \<or> py_strip role = [] then Inl (NotAnAgentItem said)
          else (case read_agent disk said of
                  Inl e \<Rightarrow> Inl (Unread said e)
                | Inr (role, profile, model, effort, provider) \<Rightarrow>
                    if role \<in> as_role ` set specs then Inl (RoleTwice role)
                    else Inr (specs @ [\<lparr>as_role = role,
                      as_harness = (if pname profile \<in> set HARNESSES then pname profile else ACP),
                      as_provider = provider, as_model = model, as_effort = effort, as_cli = pname profile\<rparr>])))"

definition parse_agents :: "on_disk \<Rightarrow> string list \<Rightarrow> agent_spec_refusal + agent_spec list" where
  "parse_agents disk values = res_fold (agent_item disk) (items_of values) []"

definition agent_str :: "agent_spec \<Rightarrow> string" where
  "agent_str s =
     as_role s @ ''='' @ as_cli s @ (if as_provider s = [] then [] else CHR ''@'' # as_provider s) @ ''/'' @ as_model s @ '':'' @
     (if as_effort s = [] then AUTO else as_effort s)"

section \<open>Environments\<close>

definition LOCAL_KIND :: string where "LOCAL_KIND = ''local''"

definition ENV_KINDS :: "string list" where
  "ENV_KINDS = [LOCAL_KIND, SSH, DOCKER, SWARM, APPLE_CONTAINER, SLURM]"

definition HERES :: "string list" where
  "HERES = [DOCKER, SWARM, APPLE_CONTAINER, SLURM]"

text \<open>
  A pure POSIX path, kept as its string: no empty component and no \<open>.\<close>; exactly two slashes in front are
  kept as two.
\<close>

definition path_root :: "string \<Rightarrow> string" where
  "path_root s =
     (if starts_with ''//'' s \<and> \<not> starts_with ''///'' s then ''//'' else if starts_with ''/'' s then ''/'' else [])"

definition pure_path :: "string \<Rightarrow> string" where
  "pure_path s =
     (let body = py_join ''/'' (filter (\<lambda>p. p \<noteq> [] \<and> p \<noteq> ''.'') (py_split (CHR ''/'') s)); whole = path_root s @ body in
      if whole = [] then ''.'' else whole)"

record env_spec =
  es_role :: string
  es_backend :: string
  es_provider :: string
  es_workdir :: string

definition where_str :: "string \<Rightarrow> string \<Rightarrow> string \<Rightarrow> string" where
  "where_str backend provider workdir =
     (let named = (if provider = [] then [] else CHR ''@'' # provider) in
      if workdir \<noteq> [] then backend @ named @ ''/'' @ lstrip_char (CHR ''/'') workdir else backend @ named)"

definition env_str :: "env_spec \<Rightarrow> string" where
  "env_str s = es_role s @ ''='' @ where_str (es_backend s) (es_provider s) (es_workdir s)"

text \<open>\<open>DESTINATION\<close>: a host, a login before it and a port after, each if written.\<close>

definition host_port :: "string \<Rightarrow> bool" where
  "host_port s \<longleftrightarrow>
     (case py_partition (CHR '':'') s of (h, colon, p) \<Rightarrow>
        begun_by (\<lambda>c. ascii_alnum c \<or> c = CHR ''_'') (\<lambda>c. ascii_alnum c \<or> c \<in> set ''._-'') h \<and>
        (colon \<longrightarrow> p \<noteq> [] \<and> length p \<le> 5 \<and> list_all is_digit p))"

definition is_destination :: "string \<Rightarrow> bool" where
  "is_destination s \<longleftrightarrow>
     (case py_partition (CHR ''@'') s of (u, login, r) \<Rightarrow> if login then ssh_word u \<and> host_port r else host_port s)"

text \<open>\<open>_ENV.fullmatch\<close>: the role, the backend, the provider where there is an \<open>@\<close>, the rest from a \<open>/\<close>.\<close>

definition match_env :: "string \<Rightarrow> (string \<times> string \<times> string option \<times> string option) option" where
  "match_env said =
     (case py_partition (CHR ''='') said of (role, eq, rest) \<Rightarrow>
        if \<not> eq then None
        else
          let backend = takeWhile (\<lambda>c. c \<notin> set ''@/[]'') rest; rest = drop (length backend) rest;
              provider = (case rest of c # r \<Rightarrow> if c = CHR ''@'' then Some (takeWhile (\<lambda>c. c \<noteq> CHR ''/'') r) else None | [] \<Rightarrow> None);
              at_dir = (case provider of Some p \<Rightarrow> drop (length p + 1) rest | None \<Rightarrow> rest) in
          if at_dir = [] then Some (role, backend, provider, None)
          else if hd at_dir = CHR ''/'' \<and> char_of (10 :: nat) \<notin> set at_dir then Some (role, backend, provider, Some at_dir)
          else None)"

datatype env_spec_refusal =
    EmptyEnv | NotAnEnv string | NotAnIdentifier string | NotABackendKind string | LocalTakesNone | OnlySSH
  | NotAHost string | NeedsAHost | BareAt | NoHostSaved string | NamesNone | NoneSaved string | NoWorkdir
  | EnvRoleTwice string | RuntimeTooLarge

definition is_saved :: "on_disk \<Rightarrow> string \<Rightarrow> string \<Rightarrow> bool" where
  "is_saved disk backend name = (saved_runtime disk backend name = Inr True)"

definition is_bracketed :: "string \<Rightarrow> bool" where
  "is_bracketed p \<longleftrightarrow> 1 < length p \<and> hd p = CHR ''['' \<and> last p = CHR '']''"

definition env_provider :: "on_disk \<Rightarrow> string \<Rightarrow> string \<Rightarrow> string option \<Rightarrow> env_spec_refusal + string" where
  "env_provider disk said backend said_it =
     (let provider = (case said_it of Some w \<Rightarrow> py_strip w | None \<Rightarrow> []) in
      if \<not> is_bracketed provider \<and> (CHR ''['' \<in> set provider \<or> CHR '']'' \<in> set provider) then Inl (NotAnEnv said)
      else if backend = LOCAL_KIND then (if said_it \<noteq> None then Inl LocalTakesNone else Inr [])
      else if is_bracketed provider then
        (if backend \<noteq> SSH then Inl OnlySSH
         else let host = py_strip (butlast (tl provider)) in
           if is_destination host then Inr (''['' @ host @ '']'') else Inl (NotAHost host))
      else if backend = SSH \<and> provider = [] then Inl NeedsAHost
      else if provider = [] then (if said_it \<noteq> None then Inl BareAt else Inr [])
      else if is_saved disk backend provider then Inr provider
      else if backend = SSH then Inl (NoHostSaved provider)
      else if provider = HERE \<and> backend \<in> set HERES then Inl NamesNone
      else Inl (NoneSaved provider))"

definition saved_workdir :: "on_disk \<Rightarrow> string \<Rightarrow> string \<Rightarrow> env_spec_refusal + string option" where
  "saved_workdir disk backend provider =
     (case find_runtime disk backend provider of
        Inl e \<Rightarrow> Inl RuntimeTooLarge
      | Inr None \<Rightarrow> Inr None
      | Inr (Some r) \<Rightarrow>
          Inr (if workdir_of r = [] then None
               else Some (if starts_with ''/'' (workdir_of r) then workdir_of r else CHR ''/'' # workdir_of r)))"

definition env_path :: "string \<Rightarrow> string" where
  "env_path at_dir = pure_path (if starts_with ''~'' (tl at_dir) then tl at_dir else at_dir)"

definition env_read :: "on_disk \<Rightarrow> string \<Rightarrow> env_spec_refusal + env_spec" where
  "env_read disk item =
     (if blank item then Inl EmptyEnv
      else
        let said = py_strip item in
        case match_env said of
          None \<Rightarrow> Inl (NotAnEnv said)
        | Some (role, kind, said_it, at_dir) \<Rightarrow>
            let role = py_strip role; backend = py_strip kind in
            if \<not> is_identifier role then Inl (NotAnIdentifier role)
            else if backend \<notin> set ENV_KINDS then Inl (NotABackendKind kind)
            else res_bind (env_provider disk said backend said_it) (\<lambda>provider.
              res_bind (case at_dir of Some a \<Rightarrow> Inr (Some a) | None \<Rightarrow> saved_workdir disk backend provider) (\<lambda>found.
                case found of
                  None \<Rightarrow> Inl NoWorkdir
                | Some a \<Rightarrow> Inr \<lparr>es_role = role, es_backend = backend, es_provider = provider, es_workdir = env_path a\<rparr>)))"



definition env_falls :: "on_disk \<Rightarrow> env_spec \<Rightarrow> env_spec list \<Rightarrow> string \<times> string \<Rightarrow> unit + env_spec list" where
  "env_falls disk spec specs one =
     (case one of (backend, name) \<Rightarrow>
        res_bind (find_runtime disk backend name) (\<lambda>found.
          let saved = (case found of Some r \<Rightarrow> workdir_of r | None \<Rightarrow> []);
              here = backend \<in> set HERES \<and> name = HERE \<and> \<not> is_saved disk backend name in
          if backend \<notin> set ENV_KINDS then Inr specs
          else Inr (specs @ [\<lparr>es_role = es_role spec, es_backend = backend, es_provider = (if here then [] else name),
            es_workdir = (if saved = [] then es_workdir spec else pure_path saved)\<rparr>])))"

definition env_fallbacks :: "on_disk \<Rightarrow> env_spec \<Rightarrow> unit + env_spec list" where
  "env_fallbacks disk spec =
     res_bind (runtime_fallbacks disk (es_backend spec) (es_provider spec))
       (\<lambda>falls. res_fold (env_falls disk spec) falls [])"

text \<open>\<open>respelled\<close> of the store: an \<open>-e\<close> of before an \<open>@\<close> was a provider's alone, as it is spelled now.\<close>

definition respelled :: "on_disk \<Rightarrow> string \<Rightarrow> string" where
  "respelled disk spec =
     (let said = py_strip spec; front = takeWhile (\<lambda>c. c \<noteq> CHR ''@'' \<and> c \<noteq> CHR ''/'') said; rest = drop (length front) said in
      if rest = [] \<or> hd rest \<noteq> CHR ''@'' then spec
      else
        let backend = py_strip front in
        case py_partition (CHR ''/'') (tl rest) of (p, slash, workdir) \<Rightarrow>
          let provider = py_strip p; at_dir = (if slash then CHR ''/'' # workdir else []) in
          if backend = LOCAL_KIND \<and> provider = [] \<and> at_dir \<noteq> [] then backend @ at_dir
          else if backend \<notin> set BACKENDS \<or> provider = [] \<or> starts_with ''['' provider then spec
          else if saved_runtime disk backend provider = Inr True then spec
          else if backend = SSH then backend @ ''@['' @ provider @ '']'' @ at_dir
          else if provider = HERE then backend @ at_dir else spec)"

section \<open>Params\<close>

datatype param_refusal = EmptyParam | NotAParam string | BudgetAlone string | GivenTwice string

definition param_item :: "(string \<times> string) list \<Rightarrow> string \<Rightarrow> param_refusal + (string \<times> string) list" where
  "param_item params item =
     (if blank item then Inl EmptyParam
      else case py_partition (CHR ''='') item of (k, filled, v) \<Rightarrow>
        let key = py_strip k in
        if \<not> filled \<or> \<not> is_key key then Inl (NotAParam item)
        else if key = BUDGET then Inl (BudgetAlone item)
        else if key \<in> set (dict_keys params) then Inl (GivenTwice key)
        else Inr (dict_put key v params))"

definition all_params :: "string list \<Rightarrow> param_refusal + (string \<times> string) list" where
  "all_params values = res_fold param_item (items_of values) []"

definition is_budget_key :: "string \<Rightarrow> bool" where
  "is_budget_key k = starts_with ''budget.'' k"

definition parse_params :: "string list \<Rightarrow> param_refusal + (string \<times> string) list" where
  "parse_params values = res_bind (all_params values) (\<lambda>ps. Inr (filter (\<lambda>kv. \<not> is_budget_key (fst kv)) ps))"

section \<open>Durations, costs and counts\<close>

datatype unread = UnitTwice | NotADuration | Negative | NotFinite | TooLong | NotACost | NotACount | NotWhole | NotAFlag

text \<open>The longest \<open>timedelta\<close>, in microseconds, which is what one counts.\<close>

definition LONGEST :: int where
  "LONGEST = 86399999999999999999"

definition MICRO :: rat where
  "MICRO = 1000000"

definition in_seconds :: "pyfloat \<Rightarrow> unread + rat" where
  "in_seconds x =
     (case x of
        Fin r \<Rightarrow>
          if r < 0 then Inl NotFinite
          else let us = round_even (r * MICRO) in if LONGEST < us then Inl TooLong else Inr (of_int us / MICRO)
      | _ \<Rightarrow> Inl NotFinite)"

definition UNITS :: "(char \<times> int) list" where
  "UNITS = [(CHR ''w'', 604800), (CHR ''d'', 86400), (CHR ''h'', 3600), (CHR ''m'', 60), (CHR ''s'', 1)]"

text \<open>A run of digits, a point and more of them if it has one, and what is left.\<close>

definition plain_number :: "string \<Rightarrow> (string \<times> string) option" where
  "plain_number s =
     (let w = takeWhile is_digit s; r = dropWhile is_digit s in
      if w = [] then None
      else case r of
             c # r' \<Rightarrow>
               if c = CHR ''.'' \<and> r' \<noteq> [] \<and> is_digit (hd r')
               then Some (w @ ''.'' @ takeWhile is_digit r', dropWhile is_digit r') else Some (w, r)
           | [] \<Rightarrow> Some (w, []))"

lemma plain_number_shorter: "plain_number s = Some (n, r) \<Longrightarrow> length r < length s"
proof -
  assume n: "plain_number s = Some (n, r)"
  obtain w d where wd: "takeWhile is_digit s = w" "dropWhile is_digit s = d" by blast
  have w: "w \<noteq> []" using n by (auto simp: plain_number_def wd)
  have "length s = length w + length d" by (metis length_append takeWhile_dropWhile_id wd)
  moreover have "length r \<le> length d"
    using n w length_dropWhile_le [of is_digit "tl d"]
    by (cases d) (auto simp: plain_number_def wd split: if_splits)
  ultimately show ?thesis using w by (cases w) auto
qed

text \<open>\<open>_UNITED\<close> and \<open>_UNIT\<close>: numbers each followed by a unit, to the end.\<close>

function unit_parts :: "string \<Rightarrow> (string \<times> char) list option" where
  "unit_parts s =
     (case plain_number s of
        Some (n, u # r) \<Rightarrow>
          if u \<notin> set (dict_keys UNITS) then None
          else if r = [] then Some [(n, u)] else map_option ((#) (n, u)) (unit_parts r)
      | _ \<Rightarrow> None)"
  by pat_completeness auto
termination
  by (relation "measure length") (auto dest: plain_number_shorter)

declare unit_parts.simps [simp del]

definition unit_secs :: "string \<times> char \<Rightarrow> pyfloat" where
  "unit_secs part =
     (case (py_float_of (fst part), dict_get UNITS (snd part)) of
        (Some x, Some k) \<Rightarrow> f_mul x (Fin (of_int k))
      | _ \<Rightarrow> NaN)"

definition duration_in :: "(string \<Rightarrow> rat option) \<Rightarrow> string \<Rightarrow> unread + rat" where
  "duration_in iso8601 said_it =
     (let said = py_strip said_it in
      case py_float_of said of
        Some x \<Rightarrow> in_seconds x
      | None \<Rightarrow>
          (case unit_parts (py_lower said) of
             Some parts \<Rightarrow>
               if \<not> distinct (map snd parts) then Inl UnitTwice
               else in_seconds (foldl f_add (Fin 0) (map unit_secs parts))
           | None \<Rightarrow>
               (case iso8601 said of
                  None \<Rightarrow> Inl NotADuration
                | Some d \<Rightarrow> if d < 0 then Inl Negative else Inr d)))"

definition cost_in :: "string \<Rightarrow> unread + pyfloat" where
  "cost_in said_it =
     (case py_float_of (remove_prefix ''$'' (py_strip said_it)) of
        None \<Rightarrow> Inl NotACost
      | Some c \<Rightarrow> if is_nan c \<or> f_lt c (Fin 0) then Inl NotACost else Inr c)"

text \<open>A product of decimals: 28 digits of it are kept, the rest rounded half to even.\<close>

definition DIGITS :: int where
  "DIGITS = 28"

definition in_digits :: "rat \<Rightarrow> rat" where
  "in_digits x =
     (if x = 0 then 0
      else let e = decade x - (DIGITS - 1) in scale10 (of_int (round_even (scale10 x (- e)))) e)"

definition THOUSANDS :: "(string \<times> int) list" where
  "THOUSANDS = [([], 1), (''k'', 1000), (''m'', 1000000)]"

text \<open>What a plain number says exactly, as \<open>Decimal\<close> reads it.\<close>

definition exactly :: "string \<Rightarrow> rat" where
  "exactly n =
     (case py_partition (CHR ''.'') n of (w, _, p) \<Rightarrow> of_nat (nat_of_digits (w @ p)) / 10 ^ length p)"

definition tokens_in :: "string \<Rightarrow> unread + int" where
  "tokens_in said_it =
     (case plain_number (filter (\<lambda>c. c \<noteq> CHR ''_'') (py_lower (py_strip said_it))) of
        None \<Rightarrow> Inl NotACount
      | Some (n, u) \<Rightarrow>
          (case dict_get THOUSANDS u of
             None \<Rightarrow> Inl NotACount
           | Some k \<Rightarrow>
               let count = in_digits (exactly n * of_int k) in
               if of_int \<lfloor>count\<rfloor> \<noteq> count then Inl NotWhole else Inr \<lfloor>count\<rfloor>))"

definition YES :: "string list" where "YES = [''1'', ''true'', ''yes'', ''on'']"
definition NO :: "string list" where "NO = [''0'', ''false'', ''no'', ''off'']"

definition flag_in :: "string \<Rightarrow> unread + bool" where
  "flag_in said_it =
     (let said = py_lower (py_strip said_it) in
      if said \<in> set YES then Inr True else if said \<in> set NO then Inr False else Inl NotAFlag)"

section \<open>The budget\<close>

definition LIMITS :: "string list" where
  "LIMITS = [''duration'', ''cost'', ''output_tokens'']"

definition BUDGET_KEYS :: "string list" where
  "BUDGET_KEYS = LIMITS @ ''graceful'' # map ((@) ''graceful.'') LIMITS"

datatype limit_refusal = NoParams param_refusal | NotALimit string | LimitUnread string unread | LimitsNothing

text \<open>The fields a budget is made of, as they are read, and the limits said to be graceful or not.\<close>

record limit_fields =
  lf_duration :: "rat option"
  lf_cost :: "pyfloat option"
  lf_tokens :: "int option"
  lf_graceful :: "bool option"
  lf_graces :: "(string \<times> bool) list"

definition no_limits :: limit_fields where
  "no_limits = \<lparr>lf_duration = None, lf_cost = None, lf_tokens = None, lf_graceful = None, lf_graces = []\<rparr>"

definition reads_as :: "string \<Rightarrow> unread + 'a \<Rightarrow> ('a \<Rightarrow> limit_fields) \<Rightarrow> limit_refusal + limit_fields" where
  "reads_as key x f = (case x of Inl e \<Rightarrow> Inl (LimitUnread key e) | Inr v \<Rightarrow> Inr (f v))"

definition limit_item :: "(string \<Rightarrow> rat option) \<Rightarrow> limit_fields \<Rightarrow> string \<times> string \<Rightarrow> limit_refusal + limit_fields" where
  "limit_item iso8601 b kv =
     (let key = fst kv; v = snd kv in
      if starts_with ''graceful.'' key
      then reads_as key (flag_in v) (\<lambda>x. b\<lparr>lf_graces := dict_put (drop 9 key) x (lf_graces b)\<rparr>)
      else if key = ''duration'' then reads_as key (duration_in iso8601 v) (\<lambda>x. b\<lparr>lf_duration := Some x\<rparr>)
      else if key = ''cost'' then reads_as key (cost_in v) (\<lambda>x. b\<lparr>lf_cost := Some x\<rparr>)
      else if key = ''output_tokens'' then reads_as key (tokens_in v) (\<lambda>x. b\<lparr>lf_tokens := Some x\<rparr>)
      else reads_as key (flag_in v) (\<lambda>x. b\<lparr>lf_graceful := Some x\<rparr>))"

definition graceful_in :: "limit_fields \<Rightarrow> graceful" where
  "graceful_in b =
     (let every = (case lf_graceful b of None \<Rightarrow> True | Some g \<Rightarrow> g);
          one = (\<lambda>limit. case dict_get (lf_graces b) limit of None \<Rightarrow> every | Some g \<Rightarrow> g) in
      if lf_graces b = [] then OneFlag every else Each (one ''duration'') (one ''cost'') (one ''output_tokens''))"

definition limits_said :: "(string \<times> string) list \<Rightarrow> (string \<times> string) list" where
  "limits_said ps = map (\<lambda>kv. (drop 7 (fst kv), snd kv)) (filter (\<lambda>kv. is_budget_key (fst kv)) ps)"

definition budget_from :: "limit_fields \<Rightarrow> limit_refusal + budget" where
  "budget_from b =
     (case budget_made (lf_duration b) (lf_cost b) (lf_tokens b) (graceful_in b) of
        None \<Rightarrow> Inl LimitsNothing | Some made_of \<Rightarrow> Inr made_of)"

definition parse_budget :: "(string \<Rightarrow> rat option) \<Rightarrow> string list \<Rightarrow> limit_refusal + budget option" where
  "parse_budget iso8601 values =
     (case all_params values of
        Inl e \<Rightarrow> Inl (NoParams e)
      | Inr ps \<Rightarrow>
          let said = limits_said ps in
          if said = [] then Inr None
          else case first_of (\<lambda>key. key \<notin> set BUDGET_KEYS) (dict_keys said) of
                 Some key \<Rightarrow> Inl (NotALimit key)
               | None \<Rightarrow>
                   res_bind (res_fold (limit_item iso8601) said no_limits) (\<lambda>b. res_bind (budget_from b) (\<lambda>x. Inr (Some x))))"

section \<open>An environment written back is read again\<close>



















lemma newline_not_slash [simp]: "char_of (10 :: nat) \<noteq> CHR ''/''"
  by code_simp













text \<open>Two slashes before a \<open>~\<close> name a directory, and what is written back names one under a home.\<close>

lemma tilde_after_slashes:
  "env_read Missing ''a=local//~x'' = Inr \<lparr>es_role = ''a'', es_backend = ''local'', es_provider = [], es_workdir = ''//~x''\<rparr> \<and>
   env_str \<lparr>es_role = ''a'', es_backend = ''local'', es_provider = [], es_workdir = ''//~x''\<rparr> = ''a=local/~x'' \<and>
   env_read Missing ''a=local/~x'' = Inr \<lparr>es_role = ''a'', es_backend = ''local'', es_provider = [], es_workdir = ''~x''\<rparr>"
proof (intro conjI)
  show "env_read Missing ''a=local//~x'' = Inr \<lparr>es_role = ''a'', es_backend = ''local'', es_provider = [], es_workdir = ''//~x''\<rparr>"
    by code_simp
  show "env_str \<lparr>es_role = ''a'', es_backend = ''local'', es_provider = [], es_workdir = ''//~x''\<rparr> = ''a=local/~x''"
    by code_simp
  show "env_read Missing ''a=local/~x'' = Inr \<lparr>es_role = ''a'', es_backend = ''local'', es_provider = [], es_workdir = ''~x''\<rparr>"
    by code_simp
qed

section \<open>A budget is what its limits say\<close>

text \<open>A loop over pairs of different keys, one of which alone sets a field.\<close>

lemma fold_field:
  assumes "res_fold step kvs s = Inr s'" and "distinct (dict_keys kvs)"
    and "\<And>s kv s'. kv \<in> set kvs \<Longrightarrow> step s kv = Inr s' \<Longrightarrow> fst kv \<noteq> k \<Longrightarrow> pick s' = pick s"
    and "\<And>s v s'. step s (k, v) = Inr s' \<Longrightarrow> r v (pick s')"
  shows "case dict_get kvs k of None \<Rightarrow> pick s' = pick s | Some v \<Rightarrow> r v (pick s')"
  using assms
proof (induction kvs arbitrary: s)
  case Nil
  then show ?case by simp
next
  case (Cons kv kvs)
  obtain k1 v1 where kv: "kv = (k1, v1)" by (cases kv)
  obtain s1 where s1: "step s kv = Inr s1" "res_fold step kvs s1 = Inr s'"
    using Cons.prems(1) by (auto simp: res_bind_eq_Inr_iff)
  have ih: "case dict_get kvs k of None \<Rightarrow> pick s' = pick s1 | Some v \<Rightarrow> r v (pick s')"
  proof (rule Cons.IH [OF s1(2)])
    show "distinct (dict_keys kvs)" using Cons.prems(2) by simp
    show "pick s' = pick s" if "kv \<in> set kvs" "step s kv = Inr s'" "fst kv \<noteq> k" for s kv s'
      using Cons.prems(3) [of kv s s'] that by simp
  qed (rule Cons.prems(4))
  show ?case
  proof (cases "k1 = k")
    case True
    then have "dict_get kvs k = None" using Cons.prems(2) by (auto simp: kv dict_get_None_iff)
    then show ?thesis using ih Cons.prems(4) s1(1) by (simp add: kv True)
  next
    case False
    then have "pick s1 = pick s" using Cons.prems(3) [of kv s s1] s1(1) by (simp add: kv)
    then show ?thesis using ih [unfolded \<open>pick s1 = pick s\<close>] by (simp add: kv False)
  qed
qed

text \<open>What a limit is where it is said, and where it is not.\<close>

definition read_in :: "('v \<Rightarrow> unread + 'a) \<Rightarrow> 'v option \<Rightarrow> 'a option \<Rightarrow> bool" where
  "read_in f said x \<longleftrightarrow> (case said of None \<Rightarrow> x = None | Some v \<Rightarrow> (case x of None \<Rightarrow> False | Some a \<Rightarrow> f v = Inr a))"

text \<open>The flag of one limit: its own, or the one for every limit, or graceful.\<close>

definition grace_in :: "string option \<Rightarrow> string option \<Rightarrow> bool \<Rightarrow> bool" where
  "grace_in own_flag every x \<longleftrightarrow>
     (case own_flag of Some v \<Rightarrow> flag_in v = Inr x | None \<Rightarrow>
       (case every of Some v \<Rightarrow> flag_in v = Inr x | None \<Rightarrow> x))"

lemma reads_as_Inr: "reads_as key x f = Inr b \<longleftrightarrow> (\<exists>v. x = Inr v \<and> b = f v)"
  by (cases x) (auto simp: reads_as_def)

lemma limit_keys:
  "key \<in> set BUDGET_KEYS \<Longrightarrow>
    key \<in> {''duration'', ''cost'', ''output_tokens'', ''graceful'', ''graceful.duration'', ''graceful.cost'', ''graceful.output_tokens''}"
  by (auto simp: BUDGET_KEYS_def LIMITS_def)

lemma limit_step:
  assumes "limit_item iso8601 s (k, v) = Inr s'" and "k \<in> set BUDGET_KEYS"
  shows "lf_duration s' = (if k = ''duration'' then Some (projr (duration_in iso8601 v)) else lf_duration s)"
    and "lf_cost s' = (if k = ''cost'' then Some (projr (cost_in v)) else lf_cost s)"
    and "lf_tokens s' = (if k = ''output_tokens'' then Some (projr (tokens_in v)) else lf_tokens s)"
    and "lf_graceful s' = (if k = ''graceful'' then Some (projr (flag_in v)) else lf_graceful s)"
    and "limit \<in> set LIMITS \<Longrightarrow> dict_get (lf_graces s') limit =
      (if k = ''graceful.'' @ limit then Some (projr (flag_in v)) else dict_get (lf_graces s) limit)"
proof -
  have k: "k = ''duration'' \<or> k = ''cost'' \<or> k = ''output_tokens'' \<or> k = ''graceful'' \<or> k = ''graceful.duration'' \<or>
      k = ''graceful.cost'' \<or> k = ''graceful.output_tokens''"
    using limit_keys [OF assms(2)] by simp
  note step = assms(1) [unfolded limit_item_def Let_def fst_conv snd_conv]
  show "lf_duration s' = (if k = ''duration'' then Some (projr (duration_in iso8601 v)) else lf_duration s)"
    using k by (elim disjE; hypsubst) (use step in \<open>auto simp: reads_as_Inr\<close>)
  show "lf_cost s' = (if k = ''cost'' then Some (projr (cost_in v)) else lf_cost s)"
    using k by (elim disjE; hypsubst) (use step in \<open>auto simp: reads_as_Inr\<close>)
  show "lf_tokens s' = (if k = ''output_tokens'' then Some (projr (tokens_in v)) else lf_tokens s)"
    using k by (elim disjE; hypsubst) (use step in \<open>auto simp: reads_as_Inr\<close>)
  show "lf_graceful s' = (if k = ''graceful'' then Some (projr (flag_in v)) else lf_graceful s)"
    using k by (elim disjE; hypsubst) (use step in \<open>auto simp: reads_as_Inr\<close>)
  assume "limit \<in> set LIMITS"
  then have "limit = ''duration'' \<or> limit = ''cost'' \<or> limit = ''output_tokens''" by (simp add: LIMITS_def)
  then show "dict_get (lf_graces s') limit =
      (if k = ''graceful.'' @ limit then Some (projr (flag_in v)) else dict_get (lf_graces s) limit)"
    using k by (elim disjE; hypsubst) (use step in \<open>auto simp: reads_as_Inr\<close>)
qed

lemma limit_reads:
  assumes "limit_item iso8601 s (k, v) = Inr s'"
  shows "k = ''duration'' \<Longrightarrow> duration_in iso8601 v = Inr (projr (duration_in iso8601 v))"
    and "k = ''cost'' \<Longrightarrow> cost_in v = Inr (projr (cost_in v))"
    and "k = ''output_tokens'' \<Longrightarrow> tokens_in v = Inr (projr (tokens_in v))"
    and "k = ''graceful'' \<or> starts_with ''graceful.'' k \<Longrightarrow> flag_in v = Inr (projr (flag_in v))"
  using assms by (auto simp: limit_item_def reads_as_Inr)

lemma limit_field:
  assumes "res_fold (limit_item iso8601) said no_limits = Inr b" and "distinct (dict_keys said)"
    and "set (dict_keys said) \<subseteq> set BUDGET_KEYS"
    and "k \<in> set BUDGET_KEYS" and "pick no_limits = None"
    and "\<And>s k' v s'. limit_item iso8601 s (k', v) = Inr s' \<Longrightarrow> k' \<in> set BUDGET_KEYS \<Longrightarrow>
      pick s' = (if k' = k then Some (projr (f v)) else pick s)"
    and "\<And>s v s'. limit_item iso8601 s (k, v) = Inr s' \<Longrightarrow> f v = Inr (projr (f v))"
  shows "read_in f (dict_get said k) (pick b)"
proof -
  have "case dict_get said k of None \<Rightarrow> pick b = pick no_limits | Some v \<Rightarrow> read_in f (Some v) (pick b)"
  proof (rule fold_field [OF assms(1,2)])
    show "pick s' = pick s" if "kv \<in> set said" "limit_item iso8601 s kv = Inr s'" "fst kv \<noteq> k" for s kv s'
      using assms(3) assms(6) [of s "fst kv" "snd kv" s'] that by auto
    show "read_in f (Some v) (pick s')" if "limit_item iso8601 s (k, v) = Inr s'" for s v s'
      using assms(6) [OF that assms(4)] assms(7) [OF that] by (simp add: read_in_def)
  qed
  then show ?thesis using assms(5) by (auto simp: read_in_def split: option.splits)
qed

lemma limit_fields_read:
  assumes "res_fold (limit_item iso8601) said no_limits = Inr b" and "distinct (dict_keys said)"
    and "set (dict_keys said) \<subseteq> set BUDGET_KEYS"
  shows "read_in (duration_in iso8601) (dict_get said ''duration'') (lf_duration b)"
    and "read_in cost_in (dict_get said ''cost'') (lf_cost b)"
    and "read_in tokens_in (dict_get said ''output_tokens'') (lf_tokens b)"
    and "read_in flag_in (dict_get said ''graceful'') (lf_graceful b)"
    and "limit \<in> set LIMITS \<Longrightarrow> read_in flag_in (dict_get said (''graceful.'' @ limit)) (dict_get (lf_graces b) limit)"
proof -
  note started = BUDGET_KEYS_def LIMITS_def no_limits_def
  show "read_in (duration_in iso8601) (dict_get said ''duration'') (lf_duration b)"
    by (rule limit_field [OF assms]) (simp add: started, simp add: started, erule (1) limit_step, erule limit_reads, rule refl)
  show "read_in cost_in (dict_get said ''cost'') (lf_cost b)"
    by (rule limit_field [OF assms]) (simp add: started, simp add: started, erule (1) limit_step, erule limit_reads, rule refl)
  show "read_in tokens_in (dict_get said ''output_tokens'') (lf_tokens b)"
    by (rule limit_field [OF assms]) (simp add: started, simp add: started, erule (1) limit_step, erule limit_reads, rule refl)
  show "read_in flag_in (dict_get said ''graceful'') (lf_graceful b)"
    by (rule limit_field [OF assms]) (simp add: started, simp add: started, erule (1) limit_step, erule limit_reads, simp)
  assume l: "limit \<in> set LIMITS"
  show "read_in flag_in (dict_get said (''graceful.'' @ limit)) (dict_get (lf_graces b) limit)"
    by (rule limit_field [OF assms])
      (use l in \<open>simp add: BUDGET_KEYS_def\<close>, simp add: no_limits_def, rule limit_step(5) [OF _ _ l], assumption+, erule limit_reads, simp)
qed

text \<open>The limits as the params hold them, under \<open>budget.\<close>\<close>

lemma limits_said_get: "dict_get (limits_said ps) k = dict_get ps (''budget.'' @ k)"
proof -
  have b: "starts_with ''budget.'' x \<and> drop 7 x = k \<longleftrightarrow> x = ''budget.'' @ k" for x
    by (auto simp: starts_with_iff)
  show ?thesis
  proof (induction ps)
    case Nil
    then show ?case by (simp add: limits_said_def)
  next
    case (Cons kv ps)
    then show ?case using b [of "fst kv"] by (cases kv) (auto simp: limits_said_def is_budget_key_def)
  qed
qed

lemma limits_said_distinct: "dict_ok ps \<Longrightarrow> dict_ok (limits_said ps)"
proof (induction ps)
  case Nil
  then show ?case by (simp add: limits_said_def)
next
  case (Cons kv ps)
  then have "dict_get ps (fst kv) = None" by (auto simp: dict_ok_def dict_get_None_iff)
  then have "is_budget_key (fst kv) \<Longrightarrow> dict_get (limits_said ps) (drop 7 (fst kv)) = None"
    by (auto simp: limits_said_get is_budget_key_def starts_with_iff)
  with Cons show ?case by (auto simp: dict_ok_def limits_said_def dict_get_None_iff)
qed

lemma all_params_ok: "all_params values = Inr ps \<Longrightarrow> dict_ok ps"
  unfolding all_params_def
  by (erule res_fold_inv) (auto simp: param_item_def Let_def split: if_splits prod.splits)

lemma limits_said_put: "starts_with ''budget.'' k \<Longrightarrow> k \<in> set (dict_keys ps) \<Longrightarrow> drop 7 k \<in> set (dict_keys (limits_said ps))"
  by (force simp: limits_said_def is_budget_key_def)

lemma budget_made_parts:
  assumes "budget_made d c t g = Some b"
  shows "b_duration b = d" "b_cost b = c" "b_tokens b = t" "b_graceful b = agreeing g"
    "\<not> (d = None \<and> c = None \<and> t = None)"
  using assms by (auto simp: budget_made_def split: if_splits)

lemma graces_agreeing: "b_graceful b = agreeing (Each d c t) \<Longrightarrow> g_duration (graces b) = d \<and> g_cost (graces b) = c \<and> g_tokens (graces b) = t"
  by (auto simp: graces_def split: if_splits)

lemma grace_in_fields:
  assumes "read_in flag_in every (lf_graceful f)" and "read_in flag_in own_flag (dict_get (lf_graces f) limit)"
  shows "grace_in own_flag every
    (case dict_get (lf_graces f) limit of None \<Rightarrow> (case lf_graceful f of None \<Rightarrow> True | Some g \<Rightarrow> g) | Some g \<Rightarrow> g)"
  using assms by (auto simp: grace_in_def read_in_def split: option.splits)

lemma budget_from_graces:
  assumes "budget_from f = Inr b"
  defines "every \<equiv> (case lf_graceful f of None \<Rightarrow> True | Some g \<Rightarrow> g)"
  defines "one \<equiv> (\<lambda>limit. case dict_get (lf_graces f) limit of None \<Rightarrow> every | Some g \<Rightarrow> g)"
  shows "g_duration (graces b) = one ''duration'' \<and> g_cost (graces b) = one ''cost'' \<and> g_tokens (graces b) = one ''output_tokens''"
proof -
  have "b_graceful b = agreeing (graceful_in f)"
    using assms(1) by (auto simp: budget_from_def dest: budget_made_parts split: option.splits)
  moreover have "agreeing (graceful_in f) = agreeing (Each (one ''duration'') (one ''cost'') (one ''output_tokens''))"
    unfolding graceful_in_def one_def every_def Let_def by (cases "lf_graces f = []"; simp)
  ultimately show ?thesis by (simp only: graces_agreeing)
qed

text \<open>
  C28. The budget of a command line is its params of \<open>budget.\<close> and nothing else: each limit is what the
  one param naming it reads as, and none where none names it; each limit's grace is its own flag's, or the flag
  for every limit, or that it is graceful; every key names a limit, and one is set. With no such param there
  is no budget.
\<close>

theorem budget_is_as_said:
  assumes "parse_budget iso8601 values = Inr x"
  shows "\<exists>ps. all_params values = Inr ps \<and> dict_ok ps \<and>
    (case x of
       None \<Rightarrow> list_all (\<lambda>k. \<not> is_budget_key k) (dict_keys ps)
     | Some b \<Rightarrow>
         list_all (\<lambda>k. is_budget_key k \<longrightarrow> drop 7 k \<in> set BUDGET_KEYS) (dict_keys ps) \<and>
         read_in (duration_in iso8601) (dict_get ps ''budget.duration'') (b_duration b) \<and>
         read_in cost_in (dict_get ps ''budget.cost'') (b_cost b) \<and>
         read_in tokens_in (dict_get ps ''budget.output_tokens'') (b_tokens b) \<and>
         grace_in (dict_get ps ''budget.graceful.duration'') (dict_get ps ''budget.graceful'') (g_duration (graces b)) \<and>
         grace_in (dict_get ps ''budget.graceful.cost'') (dict_get ps ''budget.graceful'') (g_cost (graces b)) \<and>
         grace_in (dict_get ps ''budget.graceful.output_tokens'') (dict_get ps ''budget.graceful'') (g_tokens (graces b)) \<and>
         (b_duration b \<noteq> None \<or> b_cost b \<noteq> None \<or> b_tokens b \<noteq> None))"
proof -
  obtain ps where ps: "all_params values = Inr ps"
    using assms by (cases "all_params values") (auto simp: parse_budget_def)
  note ok = all_params_ok [OF ps]
  show ?thesis
  proof (cases "limits_said ps = []")
    case True
    then have "x = None" using assms by (simp add: parse_budget_def ps)
    moreover from True have "list_all (\<lambda>k. \<not> is_budget_key k) (dict_keys ps)"
      by (auto simp: limits_said_def list_all_iff filter_empty_conv)
    ultimately show ?thesis using ps ok by simp
  next
    case False
    then obtain f b where f: "res_fold (limit_item iso8601) (limits_said ps) no_limits = Inr f" "budget_from f = Inr b" "x = Some b"
      and keys: "set (dict_keys (limits_said ps)) \<subseteq> set BUDGET_KEYS"
      using assms by (auto simp: parse_budget_def ps Let_def res_bind_eq_Inr_iff first_of_None_iff split: option.splits)
    have d: "distinct (dict_keys (limits_said ps))" using limits_said_distinct [OF ok] by (simp add: dict_ok_def)
    note read = limit_fields_read [OF f(1) d keys, unfolded limits_said_get, simplified]
    have "budget_made (lf_duration f) (lf_cost f) (lf_tokens f) (graceful_in f) = Some b"
      using f(2) by (simp add: budget_from_def split: option.splits)
    note parts = budget_made_parts [OF this]
    have "list_all (\<lambda>k. is_budget_key k \<longrightarrow> drop 7 k \<in> set BUDGET_KEYS) (dict_keys ps)"
      using keys limits_said_put [of _ ps] unfolding list_all_iff is_budget_key_def by blast
    then show ?thesis
      using ps ok parts(1-3,5) read(1-3) budget_from_graces [OF f(2)] grace_in_fields [OF read(4)]
        read(5) [of "''duration''"] read(5) [of "''cost''"] read(5) [of "''output_tokens''"]
      by (simp add: f(3) LIMITS_def)
  qed
qed


definition said_budget :: "string list" where
  "said_budget = [''budget.duration=1h30m,budget.cost=$5'', ''budget.output_tokens=1.5k,rounds=3,budget.graceful.cost=no'']"

lemmas floats = py_float_of_def py_strip_def py_lstrip_def py_rstrip_def is_space_def read_decimal_def read_exponent_def
  to_double_def double_max_def is_digit_def py_lower_def lower_char_def is_upper_def nat_of_digits_def digit_val_def scale10_def

lemma said_budget_reads:
  "duration_in (\<lambda>s. None) ''1h30m'' = Inr 5400" "cost_in ''$5'' = Inr (Fin 5)" "tokens_in ''1.5k'' = Inr 1500" "flag_in ''no'' = Inr False"
proof -
  have n: "py_float_of ''1'' = Some (Fin 1)" "py_float_of ''30'' = Some (Fin 30)" "py_float_of ''5'' = Some (Fin 5)" "py_float_of ''1h30m'' = None"
    by (simp_all add: floats)
  have s: "py_strip ''1h30m'' = ''1h30m''" "py_lower ''1h30m'' = ''1h30m''" "unit_parts ''1h30m'' = Some [(''1'', CHR ''h''), (''30'', CHR ''m'')]"
      "remove_prefix ''$'' (py_strip ''$5'') = ''5''" by code_simp+
  have "round_even 5400000000 = 5400000000" using round_even_int [of 5400000000] by simp
  then show "duration_in (\<lambda>s. None) ''1h30m'' = Inr 5400"
    by (simp add: duration_in_def n s unit_secs_def UNITS_def in_seconds_def MICRO_def LONGEST_def)
  show "cost_in ''$5'' = Inr (Fin 5)" by (simp add: cost_in_def n s)
  show "tokens_in ''1.5k'' = Inr 1500" by code_simp
  show "flag_in ''no'' = Inr False" by code_simp
qed

lemma budget_is_as_said_witness:
  "parse_budget (\<lambda>s. None) said_budget = Inr (Some \<lparr>b_duration = Some 5400, b_cost = Some (Fin 5), b_tokens = Some 1500, b_graceful = Each True False True\<rparr>) \<and>
   (\<exists>ps. all_params said_budget = Inr ps \<and> read_in cost_in (dict_get ps ''budget.cost'') (Some (Fin 5)) \<and>
     grace_in (dict_get ps ''budget.graceful.cost'') (dict_get ps ''budget.graceful'') False)"
proof -
  let ?said = "[(''duration'', ''1h30m''), (''cost'', ''$5''), (''output_tokens'', ''1.5k''), (''graceful.cost'', ''no'')]"
  have ps: "all_params said_budget = Inr [(''budget.duration'', ''1h30m''), (''budget.cost'', ''$5''),
      (''budget.output_tokens'', ''1.5k''), (''rounds'', ''3''), (''budget.graceful.cost'', ''no'')]" by code_simp
  have said: "limits_said [(''budget.duration'', ''1h30m''), (''budget.cost'', ''$5''),
      (''budget.output_tokens'', ''1.5k''), (''rounds'', ''3''), (''budget.graceful.cost'', ''no'')] = ?said" by code_simp
  have known: "first_of (\<lambda>key. key \<notin> set BUDGET_KEYS) (dict_keys ?said) = None" by code_simp
  have b: "parse_budget (\<lambda>s. None) said_budget = Inr (Some \<lparr>b_duration = Some 5400, b_cost = Some (Fin 5), b_tokens = Some 1500, b_graceful = Each True False True\<rparr>)"
    using known
    by (simp add: parse_budget_def ps said Let_def limit_item_def reads_as_def said_budget_reads no_limits_def budget_from_def
        budget_made_def graceful_in_def)
  from budget_is_as_said [OF b] show ?thesis using b by (auto simp: graces_def)
qed

text \<open>A count of more digits than a product of decimals keeps is not the count written.\<close>

lemma long_count_rounded: "tokens_in ''10000000000000000000000000001'' = Inr 10000000000000000000000000000"
proof -
  have n: "plain_number (filter (\<lambda>c. c \<noteq> CHR ''_'') (py_lower (py_strip ''10000000000000000000000000001''))) =
      Some (''10000000000000000000000000001'', [])" by code_simp
  have e: "exactly ''10000000000000000000000000001'' = 10000000000000000000000000001"
    by (simp add: exactly_def py_partition_def nat_of_digits_def digit_val_def)
  have d: "decade 10000000000000000000000000001 = 28"
    by (simp add: decade_def quotient_of_int scale10_def Let_def show_nat.simps)
  have "\<lfloor>10000000000000000000000000001 / 10 :: rat\<rfloor> = 1000000000000000000000000000"
    using floor_divide_of_int_eq [where 'a = rat, of 10000000000000000000000000001 10] by simp
  then have "round_even (10000000000000000000000000001 / 10) = 1000000000000000000000000000" by (simp add: round_even_def)
  then show ?thesis by (simp add: tokens_in_def n e d in_digits_def scale10_def THOUSANDS_def DIGITS_def)
qed

end
