(* ===== verification/PyStruct.thy ===== *)
theory PyStruct
  imports Prelude "HOL-Library.Word"
begin

text \<open>
  Bytes, and the unsigned fields \<open>struct\<close> packs into them: a value outside the field's range is refused
  (\<open>struct.error\<close>), little or big end first.
\<close>

type_synonym byte = "8 word"

fun bytes_le :: "nat \<Rightarrow> nat \<Rightarrow> byte list" where
  "bytes_le 0 v = []"
| "bytes_le (Suc n) v = of_nat v # bytes_le n (v div 256)"

fun nat_le :: "byte list \<Rightarrow> nat" where
  "nat_le [] = 0"
| "nat_le (b # bs) = unat b + 256 * nat_le bs"

definition bytes_be :: "nat \<Rightarrow> nat \<Rightarrow> byte list" where
  "bytes_be n v = rev (bytes_le n v)"

definition nat_be :: "byte list \<Rightarrow> nat" where
  "nat_be bs = nat_le (rev bs)"

lemma length_bytes_le [simp]: "length (bytes_le n v) = n"
  by (induction n v rule: bytes_le.induct) auto

lemma length_bytes_be [simp]: "length (bytes_be n v) = n"
  by (simp add: bytes_be_def)

lemma nat_le_bytes: "nat_le (bytes_le n v) = v mod 256 ^ n"
proof (induction n v rule: bytes_le.induct)
  case (2 n v)
  have "unat (of_nat v :: byte) = v mod 256" by (simp add: unat_of_nat)
  then show ?case using 2 by (simp add: mod_mult2_eq)
qed simp

lemma nat_be_bytes: "nat_be (bytes_be n v) = v mod 256 ^ n"
  by (simp add: nat_be_def bytes_be_def nat_le_bytes)

text \<open>One field of so many bytes; a value too large for it, or below zero, is refused.\<close>

datatype struct_error = StructError

definition pack_le :: "nat \<Rightarrow> int \<Rightarrow> struct_error + byte list" where
  "pack_le n v = (if 0 \<le> v \<and> v < 256 ^ n then Inr (bytes_le n (nat v)) else Inl StructError)"

definition pack_be :: "nat \<Rightarrow> int \<Rightarrow> struct_error + byte list" where
  "pack_be n v = (if 0 \<le> v \<and> v < 256 ^ n then Inr (bytes_be n (nat v)) else Inl StructError)"

lemma nat_below_power: "0 \<le> v \<Longrightarrow> v < 256 ^ n \<Longrightarrow> nat v mod 256 ^ n = nat v"
  by (simp add: nat_less_iff)

lemma pack_le_reads: "pack_le n v = Inr bs \<Longrightarrow> length bs = n \<and> int (nat_le bs) = v"
  by (auto simp: pack_le_def nat_le_bytes nat_below_power split: if_splits)

lemma pack_be_reads: "pack_be n v = Inr bs \<Longrightarrow> length bs = n \<and> int (nat_be bs) = v"
  by (auto simp: pack_be_def nat_be_bytes nat_below_power split: if_splits)

end
