(* ===== verification/Seccomp.thy ===== *)
theory Seccomp
  imports PyStruct
begin

unbundle bit_operations_syntax

text \<open>
  \<open>coganchor.linux.seccomp\<close> and the tables of \<open>coganchor.linux.syscalls\<close>: the classic-BPF filters put on
  an agent's processes, assembled to the bytes the kernel is handed, and what a machine that runs them as BPF is
  documented to answers for every call.
\<close>

section \<open>The numbers of an architecture\<close>

text \<open>A call an architecture does not have has a negative number of its own.\<close>

datatype (plugins only: code) call =
    NR_EXECVE | NR_EXECVEAT | NR_EXIT_GROUP | NR_OPEN | NR_OPENAT | NR_OPENAT2 | NR_CREAT | NR_STAT | NR_LSTAT |
    NR_NEWFSTATAT | NR_STATX | NR_ACCESS | NR_FACCESSAT | NR_FACCESSAT2 | NR_READLINK | NR_READLINKAT |
    NR_CHDIR | NR_STATFS | NR_GETXATTR | NR_LGETXATTR | NR_LISTXATTR | NR_LLISTXATTR | NR_NAME_TO_HANDLE_AT |
    NR_OPEN_TREE | NR_INOTIFY_ADD_WATCH | NR_FANOTIFY_MARK | NR_MKDIR | NR_MKDIRAT | NR_RMDIR | NR_UNLINK |
    NR_UNLINKAT | NR_RENAME | NR_RENAMEAT | NR_RENAMEAT2 | NR_SYMLINK | NR_SYMLINKAT | NR_LINK | NR_LINKAT |
    NR_CHMOD | NR_FCHMODAT | NR_FCHMODAT2 | NR_TRUNCATE | NR_UTIMENSAT | NR_UTIMES | NR_UTIME | NR_FUTIMESAT |
    NR_CHOWN | NR_LCHOWN | NR_FCHOWNAT | NR_MKNOD | NR_MKNODAT | NR_SETXATTR | NR_LSETXATTR | NR_REMOVEXATTR |
    NR_LREMOVEXATTR | NR_CONNECT | NR_SOCKET | NR_BIND | NR_LISTEN | NR_IO_URING_SETUP | NR_SECCOMP |
    NR_PIDFD_OPEN | NR_PIDFD_GETFD | NR_PROCESS_VM_READV | NR_PROCESS_VM_WRITEV

primrec X86_64_NUMBERS :: "call \<Rightarrow> int" where
  "X86_64_NUMBERS NR_EXECVE = 59"
| "X86_64_NUMBERS NR_EXECVEAT = 322"
| "X86_64_NUMBERS NR_EXIT_GROUP = 231"
| "X86_64_NUMBERS NR_OPEN = 2"
| "X86_64_NUMBERS NR_OPENAT = 257"
| "X86_64_NUMBERS NR_OPENAT2 = 437"
| "X86_64_NUMBERS NR_CREAT = 85"
| "X86_64_NUMBERS NR_STAT = 4"
| "X86_64_NUMBERS NR_LSTAT = 6"
| "X86_64_NUMBERS NR_NEWFSTATAT = 262"
| "X86_64_NUMBERS NR_STATX = 332"
| "X86_64_NUMBERS NR_ACCESS = 21"
| "X86_64_NUMBERS NR_FACCESSAT = 269"
| "X86_64_NUMBERS NR_FACCESSAT2 = 439"
| "X86_64_NUMBERS NR_READLINK = 89"
| "X86_64_NUMBERS NR_READLINKAT = 267"
| "X86_64_NUMBERS NR_CHDIR = 80"
| "X86_64_NUMBERS NR_STATFS = 137"
| "X86_64_NUMBERS NR_GETXATTR = 191"
| "X86_64_NUMBERS NR_LGETXATTR = 192"
| "X86_64_NUMBERS NR_LISTXATTR = 194"
| "X86_64_NUMBERS NR_LLISTXATTR = 195"
| "X86_64_NUMBERS NR_NAME_TO_HANDLE_AT = 303"
| "X86_64_NUMBERS NR_OPEN_TREE = 428"
| "X86_64_NUMBERS NR_INOTIFY_ADD_WATCH = 254"
| "X86_64_NUMBERS NR_FANOTIFY_MARK = 301"
| "X86_64_NUMBERS NR_MKDIR = 83"
| "X86_64_NUMBERS NR_MKDIRAT = 258"
| "X86_64_NUMBERS NR_RMDIR = 84"
| "X86_64_NUMBERS NR_UNLINK = 87"
| "X86_64_NUMBERS NR_UNLINKAT = 263"
| "X86_64_NUMBERS NR_RENAME = 82"
| "X86_64_NUMBERS NR_RENAMEAT = 264"
| "X86_64_NUMBERS NR_RENAMEAT2 = 316"
| "X86_64_NUMBERS NR_SYMLINK = 88"
| "X86_64_NUMBERS NR_SYMLINKAT = 266"
| "X86_64_NUMBERS NR_LINK = 86"
| "X86_64_NUMBERS NR_LINKAT = 265"
| "X86_64_NUMBERS NR_CHMOD = 90"
| "X86_64_NUMBERS NR_FCHMODAT = 268"
| "X86_64_NUMBERS NR_FCHMODAT2 = 452"
| "X86_64_NUMBERS NR_TRUNCATE = 76"
| "X86_64_NUMBERS NR_UTIMENSAT = 280"
| "X86_64_NUMBERS NR_UTIMES = 235"
| "X86_64_NUMBERS NR_UTIME = 132"
| "X86_64_NUMBERS NR_FUTIMESAT = 261"
| "X86_64_NUMBERS NR_CHOWN = 92"
| "X86_64_NUMBERS NR_LCHOWN = 94"
| "X86_64_NUMBERS NR_FCHOWNAT = 260"
| "X86_64_NUMBERS NR_MKNOD = 133"
| "X86_64_NUMBERS NR_MKNODAT = 259"
| "X86_64_NUMBERS NR_SETXATTR = 188"
| "X86_64_NUMBERS NR_LSETXATTR = 189"
| "X86_64_NUMBERS NR_REMOVEXATTR = 197"
| "X86_64_NUMBERS NR_LREMOVEXATTR = 198"
| "X86_64_NUMBERS NR_CONNECT = 42"
| "X86_64_NUMBERS NR_SOCKET = 41"
| "X86_64_NUMBERS NR_BIND = 49"
| "X86_64_NUMBERS NR_LISTEN = 50"
| "X86_64_NUMBERS NR_IO_URING_SETUP = 425"
| "X86_64_NUMBERS NR_SECCOMP = 317"
| "X86_64_NUMBERS NR_PIDFD_OPEN = 434"
| "X86_64_NUMBERS NR_PIDFD_GETFD = 438"
| "X86_64_NUMBERS NR_PROCESS_VM_READV = 310"
| "X86_64_NUMBERS NR_PROCESS_VM_WRITEV = 311"

primrec AARCH64_NUMBERS :: "call \<Rightarrow> int" where
  "AARCH64_NUMBERS NR_EXECVE = 221"
| "AARCH64_NUMBERS NR_EXECVEAT = 281"
| "AARCH64_NUMBERS NR_EXIT_GROUP = 94"
| "AARCH64_NUMBERS NR_OPEN = -1000"
| "AARCH64_NUMBERS NR_OPENAT = 56"
| "AARCH64_NUMBERS NR_OPENAT2 = 437"
| "AARCH64_NUMBERS NR_CREAT = -1001"
| "AARCH64_NUMBERS NR_STAT = -1002"
| "AARCH64_NUMBERS NR_LSTAT = -1003"
| "AARCH64_NUMBERS NR_NEWFSTATAT = 79"
| "AARCH64_NUMBERS NR_STATX = 291"
| "AARCH64_NUMBERS NR_ACCESS = -1004"
| "AARCH64_NUMBERS NR_FACCESSAT = 48"
| "AARCH64_NUMBERS NR_FACCESSAT2 = 439"
| "AARCH64_NUMBERS NR_READLINK = -1005"
| "AARCH64_NUMBERS NR_READLINKAT = 78"
| "AARCH64_NUMBERS NR_CHDIR = 49"
| "AARCH64_NUMBERS NR_STATFS = 43"
| "AARCH64_NUMBERS NR_GETXATTR = 8"
| "AARCH64_NUMBERS NR_LGETXATTR = 9"
| "AARCH64_NUMBERS NR_LISTXATTR = 11"
| "AARCH64_NUMBERS NR_LLISTXATTR = 12"
| "AARCH64_NUMBERS NR_NAME_TO_HANDLE_AT = 264"
| "AARCH64_NUMBERS NR_OPEN_TREE = 428"
| "AARCH64_NUMBERS NR_INOTIFY_ADD_WATCH = 27"
| "AARCH64_NUMBERS NR_FANOTIFY_MARK = 263"
| "AARCH64_NUMBERS NR_MKDIR = -1006"
| "AARCH64_NUMBERS NR_MKDIRAT = 34"
| "AARCH64_NUMBERS NR_RMDIR = -1007"
| "AARCH64_NUMBERS NR_UNLINK = -1008"
| "AARCH64_NUMBERS NR_UNLINKAT = 35"
| "AARCH64_NUMBERS NR_RENAME = -1009"
| "AARCH64_NUMBERS NR_RENAMEAT = 38"
| "AARCH64_NUMBERS NR_RENAMEAT2 = 276"
| "AARCH64_NUMBERS NR_SYMLINK = -1010"
| "AARCH64_NUMBERS NR_SYMLINKAT = 36"
| "AARCH64_NUMBERS NR_LINK = -1011"
| "AARCH64_NUMBERS NR_LINKAT = 37"
| "AARCH64_NUMBERS NR_CHMOD = -1012"
| "AARCH64_NUMBERS NR_FCHMODAT = 53"
| "AARCH64_NUMBERS NR_FCHMODAT2 = 452"
| "AARCH64_NUMBERS NR_TRUNCATE = 45"
| "AARCH64_NUMBERS NR_UTIMENSAT = 88"
| "AARCH64_NUMBERS NR_UTIMES = -1013"
| "AARCH64_NUMBERS NR_UTIME = -1014"
| "AARCH64_NUMBERS NR_FUTIMESAT = -1015"
| "AARCH64_NUMBERS NR_CHOWN = -1016"
| "AARCH64_NUMBERS NR_LCHOWN = -1017"
| "AARCH64_NUMBERS NR_FCHOWNAT = 54"
| "AARCH64_NUMBERS NR_MKNOD = -1018"
| "AARCH64_NUMBERS NR_MKNODAT = 33"
| "AARCH64_NUMBERS NR_SETXATTR = 5"
| "AARCH64_NUMBERS NR_LSETXATTR = 6"
| "AARCH64_NUMBERS NR_REMOVEXATTR = 14"
| "AARCH64_NUMBERS NR_LREMOVEXATTR = 15"
| "AARCH64_NUMBERS NR_CONNECT = 203"
| "AARCH64_NUMBERS NR_SOCKET = 198"
| "AARCH64_NUMBERS NR_BIND = 200"
| "AARCH64_NUMBERS NR_LISTEN = 201"
| "AARCH64_NUMBERS NR_IO_URING_SETUP = 425"
| "AARCH64_NUMBERS NR_SECCOMP = 277"
| "AARCH64_NUMBERS NR_PIDFD_OPEN = 434"
| "AARCH64_NUMBERS NR_PIDFD_GETFD = 438"
| "AARCH64_NUMBERS NR_PROCESS_VM_READV = 270"
| "AARCH64_NUMBERS NR_PROCESS_VM_WRITEV = 271"


record arch =
  a_audit :: int
  a_numbers :: "call \<Rightarrow> int"

definition X86_64 :: arch where
  "X86_64 = \<lparr>a_audit = 0xC000003E, a_numbers = X86_64_NUMBERS\<rparr>"

definition AARCH64 :: arch where
  "AARCH64 = \<lparr>a_audit = 0xC00000B7, a_numbers = AARCH64_NUMBERS\<rparr>"

definition supported :: "arch list" where
  "supported = [X86_64, AARCH64]"


section \<open>Assembling\<close>

definition RET_ALLOW :: int where "RET_ALLOW = 0x7FFF0000"
definition RET_USER_NOTIF :: int where "RET_USER_NOTIF = 0x7FC00000"
definition RET_TRACE :: int where "RET_TRACE = 0x7FF00000"
definition RET_ERRNO :: int where "RET_ERRNO = 0x00050000"
definition LD_W_ABS :: int where "LD_W_ABS = 0x20"
definition JMP_JEQ_K :: int where "JMP_JEQ_K = 0x15"
definition JMP_JGE_K :: int where "JMP_JGE_K = 0x35"
definition ALU_AND_K :: int where "ALU_AND_K = 0x54"
definition RET_K :: int where "RET_K = 0x06"
definition OFFSET_NR :: int where "OFFSET_NR = 0"
definition OFFSET_ARCH :: int where "OFFSET_ARCH = 4"
definition OFFSET_ARGS :: int where "OFFSET_ARGS = 16"
definition X32_BIT :: int where "X32_BIT = 0x40000000"
definition SOCK_TYPE_MASK :: int where "SOCK_TYPE_MASK = 0xF"
definition MAX_JUMP :: nat where "MAX_JUMP = 255"
definition EACCES :: int where "EACCES = 13"
definition AF_UNSPEC :: int where "AF_UNSPEC = 0"
definition AF_UNIX :: int where "AF_UNIX = 1"
definition AF_INET :: int where "AF_INET = 2"
definition AF_INET6 :: int where "AF_INET6 = 10"
definition AF_NETLINK :: int where "AF_NETLINK = 16"
definition SOCK_STREAM :: int where "SOCK_STREAM = 1"
definition IPPROTO_TCP :: int where "IPPROTO_TCP = 6"

lemmas bpf_constants = RET_ALLOW_def RET_USER_NOTIF_def RET_TRACE_def RET_ERRNO_def LD_W_ABS_def JMP_JEQ_K_def
  JMP_JGE_K_def ALU_AND_K_def RET_K_def OFFSET_NR_def OFFSET_ARCH_def OFFSET_ARGS_def X32_BIT_def SOCK_TYPE_MASK_def
  EACCES_def AF_UNIX_def AF_INET_def AF_INET6_def AF_NETLINK_def SOCK_STREAM_def IPPROTO_TCP_def

datatype filter_error = TrapSetTooLarge | Unpackable | NoLabel string

text \<open>\<open>_insn\<close>: a 16-bit code, two jumps of a byte and a 32-bit operand, little end first.\<close>

type_synonym op = "int \<times> int \<times> int \<times> int"

definition insn :: "op \<Rightarrow> struct_error + byte list" where
  "insn i =
     (case i of (code, jt, jf, k) \<Rightarrow>
        res_bind (pack_le 2 code) (\<lambda>a. res_bind (pack_le 1 jt) (\<lambda>b. res_bind (pack_le 1 jf) (\<lambda>c.
          res_bind (pack_le 4 k) (\<lambda>d. Inr (a @ b @ c @ d))))))"

definition packs_one :: "byte list \<Rightarrow> op \<Rightarrow> filter_error + byte list" where
  "packs_one bs i = (case insn i of Inl e \<Rightarrow> Inl Unpackable | Inr b \<Rightarrow> Inr (bs @ b))"

definition packs :: "op list \<Rightarrow> filter_error + byte list" where
  "packs ops = res_fold packs_one ops []"

definition build_program :: "arch \<Rightarrow> int list \<Rightarrow> filter_error + byte list" where
  "build_program a numbers =
     (let ordered = sorted_list_of_set (set (filter (\<lambda>n. 0 \<le> n) numbers)) in
      if length ordered * 2 + 4 > MAX_JUMP then Inl TrapSetTooLarge
      else packs
        ([(LD_W_ABS, 0, 0, OFFSET_ARCH), (JMP_JEQ_K, 1, 0, a_audit a), (RET_K, 0, 0, RET_ALLOW), (LD_W_ABS, 0, 0, OFFSET_NR)] @
         concat (map (\<lambda>n. [(JMP_JEQ_K, 0, 1, n), (RET_K, 0, 0, RET_TRACE)]) ordered) @ [(RET_K, 0, 0, RET_ALLOW)]))"

text \<open>A body whose jumps are written out or name a label, and the labels between its instructions.\<close>

datatype jump_to = To int | At string

datatype item = Op int jump_to jump_to int | Label string

definition arg :: "int \<Rightarrow> int" where
  "arg index = OFFSET_ARGS + 8 * index"

text \<open>One pass lays out the labels and the program, a label standing for the place of what follows it.\<close>

definition laid :: "(string \<times> int) list \<times> (int \<times> jump_to \<times> jump_to \<times> int) list \<Rightarrow> item \<Rightarrow>
    (string \<times> int) list \<times> (int \<times> jump_to \<times> jump_to \<times> int) list" where
  "laid st i =
     (case st of (labels, program) \<Rightarrow>
        case i of
          Label l \<Rightarrow> (dict_put l (int (length program)) labels, program)
        | Op code jt jf k \<Rightarrow> (labels, program @ [(code, jt, jf, k)]))"

definition jump :: "(string \<times> int) list \<Rightarrow> int \<Rightarrow> jump_to \<Rightarrow> filter_error + int" where
  "jump labels here to =
     (case to of
        To n \<Rightarrow> Inr n
      | At l \<Rightarrow> (case dict_get labels l of None \<Rightarrow> Inl (NoLabel l) | Some t \<Rightarrow> Inr (t - here - 1)))"

definition resolved ::
    "(string \<times> int) list \<Rightarrow> op list \<Rightarrow> int \<times> jump_to \<times> jump_to \<times> int \<Rightarrow> filter_error + op list" where
  "resolved labels ops i =
     (case i of (code, jt, jf, k) \<Rightarrow>
        res_bind (jump labels (int (length ops)) jt) (\<lambda>t.
          res_bind (jump labels (int (length ops)) jf) (\<lambda>f. Inr (ops @ [(code, t, f, k)]))))"

definition assemble :: "item list \<Rightarrow> filter_error + byte list" where
  "assemble body =
     (case foldl laid ([], []) body of (labels, program) \<Rightarrow> res_bind (res_fold (resolved labels) program []) packs)"

definition build_socket_program :: "arch \<Rightarrow> filter_error + byte list" where
  "build_socket_program a = assemble
     [Op LD_W_ABS (To 0) (To 0) OFFSET_ARCH,
      Op JMP_JEQ_K (To 0) (At ''deny'') (a_audit a),
      Op LD_W_ABS (To 0) (To 0) OFFSET_NR,
      Op JMP_JGE_K (At ''deny'') (To 0) X32_BIT,
      Op JMP_JEQ_K (At ''deny'') (To 0) (a_numbers a NR_IO_URING_SETUP),
      Op JMP_JEQ_K (To 0) (At ''allow'') (a_numbers a NR_SOCKET),
      Op LD_W_ABS (To 0) (To 0) (arg 0),
      Op JMP_JEQ_K (At ''allow'') (To 0) AF_UNIX,
      Op JMP_JEQ_K (At ''allow'') (To 0) AF_NETLINK,
      Op JMP_JEQ_K (At ''inet'') (To 0) AF_INET,
      Op JMP_JEQ_K (To 0) (At ''deny'') AF_INET6,
      Label ''inet'',
      Op LD_W_ABS (To 0) (To 0) (arg 1),
      Op ALU_AND_K (To 0) (To 0) SOCK_TYPE_MASK,
      Op JMP_JEQ_K (To 0) (At ''deny'') SOCK_STREAM,
      Op LD_W_ABS (To 0) (To 0) (arg 2),
      Op JMP_JEQ_K (At ''allow'') (To 0) 0,
      Op JMP_JEQ_K (At ''allow'') (At ''deny'') IPPROTO_TCP,
      Label ''allow'',
      Op RET_K (To 0) (To 0) RET_ALLOW,
      Label ''deny'',
      Op RET_K (To 0) (To 0) (RET_ERRNO OR EACCES)]"


section \<open>The machine that runs them\<close>

text \<open>
  What the kernel is documented to do with a filter (\<open>linux/filter.h\<close>, \<open>linux/seccomp.h\<close>): the words of a call a
  filter may read, the instructions eight bytes apiece, and what each of the five this uses does to where the
  program stands and its one register. \<open>run\<close> is the machine, and \<open>bpf_machine\<close> what is relied on of it.
\<close>

type_synonym u32 = "32 word"

record seccomp_data =
  sd_nr :: u32
  sd_arch :: u32
  sd_args :: "64 word list"

definition seccomp_word :: "seccomp_data \<Rightarrow> nat \<Rightarrow> u32 option" where
  "seccomp_word d off =
     (if off = 0 then Some (sd_nr d) else if off = 4 then Some (sd_arch d)
      else if 16 \<le> off \<and> off < 64 \<and> off mod 8 = 0 then Some (ucast (sd_args d ! ((off - 16) div 8)))
      else None)"

type_synonym instr = "nat \<times> nat \<times> nat \<times> u32"

fun instrs_of :: "byte list \<Rightarrow> instr list" where
  "instrs_of (c0 # c1 # t # f # k0 # k1 # k2 # k3 # r) =
     (nat_le [c0, c1], unat t, unat f, of_nat (nat_le [k0, k1, k2, k3])) # instrs_of r"
| "instrs_of bs = []"

type_synonym machine = "instr list \<Rightarrow> seccomp_data \<Rightarrow> nat \<Rightarrow> u32 \<Rightarrow> u32"

definition does_instr :: "machine \<Rightarrow> instr list \<Rightarrow> seccomp_data \<Rightarrow> nat \<Rightarrow> u32 \<Rightarrow> u32 \<Rightarrow> bool" where
  "does_instr run p d i acc res \<longleftrightarrow>
     (case p ! i of (code, jt, jf, k) \<Rightarrow>
        (code = 0x20 \<longrightarrow> (\<forall>w. seccomp_word d (unat k) = Some w \<longrightarrow> res = run p d (i + 1) w)) \<and>
        (code = 0x15 \<longrightarrow> res = run p d (i + 1 + (if acc = k then jt else jf)) acc) \<and>
        (code = 0x35 \<longrightarrow> res = run p d (i + 1 + (if k \<le> acc then jt else jf)) acc) \<and>
        (code = 0x54 \<longrightarrow> res = run p d (i + 1) (acc AND k)) \<and>
        (code = 0x06 \<longrightarrow> res = k))"

definition bpf_machine :: "machine \<Rightarrow> bool" where
  "bpf_machine run \<longleftrightarrow> (\<forall>p d i acc. i < length p \<longrightarrow> does_instr run p d i acc (run p d i acc))"

definition answer :: "machine \<Rightarrow> byte list \<Rightarrow> seccomp_data \<Rightarrow> u32" where
  "answer run program d = run (instrs_of program) d 0 0"

section \<open>What is assembled is what is run\<close>

definition instr_of :: "op \<Rightarrow> instr" where
  "instr_of i = (case i of (code, jt, jf, k) \<Rightarrow> (nat code, nat jt, nat jf, word_of_int k))"

definition packable :: "op \<Rightarrow> bool" where
  "packable i \<longleftrightarrow>
     (case i of (code, jt, jf, k) \<Rightarrow>
        0 \<le> code \<and> code < 65536 \<and> 0 \<le> jt \<and> jt < 256 \<and> 0 \<le> jf \<and> jf < 256 \<and> 0 \<le> k \<and> k < 4294967296)"

lemma insn_packable: "insn i = Inr b \<Longrightarrow> packable i"
  by (auto simp: insn_def packable_def res_bind_eq_Inr_iff pack_le_def split: if_splits)

lemma packable_insn: "packable i \<Longrightarrow> \<exists>b. insn i = Inr b"
  by (auto simp: insn_def packable_def pack_le_def)

lemma insn_reads:
  assumes "insn i = Inr b"
  shows "instrs_of (b @ r) = instr_of i # instrs_of r"
proof -
  obtain code jt jf k where i: "i = (code, jt, jf, k)" by (cases i)
  obtain bc bt bf bk where parts: "pack_le 2 code = Inr bc" "pack_le 1 jt = Inr bt" "pack_le 1 jf = Inr bf"
      "pack_le 4 k = Inr bk" and b: "b = bc @ bt @ bf @ bk"
    using assms by (auto simp: insn_def i res_bind_eq_Inr_iff)
  note lens = parts [THEN pack_le_reads]
  obtain c0 c1 where bc: "bc = [c0, c1]" using lens(1) by (auto simp: numeral_2_eq_2 length_Suc_conv)
  obtain t0 where bt: "bt = [t0]" using lens(2) by (auto simp: length_Suc_conv)
  obtain f0 where bf: "bf = [f0]" using lens(3) by (auto simp: length_Suc_conv)
  obtain k0 k1 k2 k3 where bk: "bk = [k0, k1, k2, k3]" using lens(4) by (auto simp: numeral_eq_Suc length_Suc_conv)
  have "word_of_int k = (of_nat (nat_le bk) :: u32)" using lens(4) by (metis of_int_of_nat_eq)
  moreover have "nat code = nat_le bc" "nat jt = nat_le bt" "nat jf = nat_le bf"
    using lens(1-3) by (metis nat_int)+
  ultimately show ?thesis by (simp add: i b bc bt bf bk instr_of_def)
qed

lemma packs_one_Inr: "packs_one bs i = Inr bs' \<longleftrightarrow> (\<exists>b. insn i = Inr b \<and> bs' = bs @ b)"
  by (auto simp: packs_one_def split: sum.splits)

lemma packs_from:
  "res_fold packs_one ops bs = Inr bs' \<Longrightarrow> \<exists>r. bs' = bs @ r \<and> instrs_of r = map instr_of ops"
proof (induction ops arbitrary: bs)
  case (Cons i ops)
  from Cons.prems obtain b where b: "insn i = Inr b" "res_fold packs_one ops (bs @ b) = Inr bs'"
    by (auto simp: packs_one_Inr res_bind_eq_Inr_iff)
  from Cons.IH [OF b(2)] obtain r where "bs' = bs @ b @ r" "instrs_of r = map instr_of ops" by auto
  then show ?case using insn_reads [OF b(1)] by auto
qed simp

lemma packs_reads: "packs ops = Inr bs \<Longrightarrow> instrs_of bs = map instr_of ops"
  using packs_from [of ops "[]"] by (auto simp: packs_def)

lemma packs_ok_from: "\<forall>i\<in>set ops. packable i \<Longrightarrow> \<exists>bs'. res_fold packs_one ops bs = Inr bs'"
proof (induction ops arbitrary: bs)
  case (Cons i ops)
  then obtain b where "insn i = Inr b" using packable_insn by fastforce
  then show ?case using Cons by (simp add: packs_one_def)
qed simp

lemma packs_ok: "\<forall>i\<in>set ops. packable i \<Longrightarrow> \<exists>bs. packs ops = Inr bs"
  by (simp add: packs_def packs_ok_from)

section \<open>A step of the machine\<close>

text \<open>What each instruction of a program does, as equations a proof runs the program with.\<close>

definition does_op :: "machine \<Rightarrow> op list \<Rightarrow> seccomp_data \<Rightarrow> nat \<Rightarrow> u32 \<Rightarrow> u32" where
  "does_op run ops d i acc = run (map instr_of ops) d i acc"

lemma machine_steps:
  assumes "bpf_machine run" and "i < length ops"
  shows "ops ! i = (LD_W_ABS, jt, jf, k) \<Longrightarrow> seccomp_word d (unat (word_of_int k :: u32)) = Some w \<Longrightarrow>
      does_op run ops d i acc = does_op run ops d (i + 1) w"
    and "ops ! i = (JMP_JEQ_K, jt, jf, k) \<Longrightarrow>
      does_op run ops d i acc = does_op run ops d (i + 1 + nat (if acc = word_of_int k then jt else jf)) acc"
    and "ops ! i = (JMP_JGE_K, jt, jf, k) \<Longrightarrow>
      does_op run ops d i acc = does_op run ops d (i + 1 + nat (if word_of_int k \<le> acc then jt else jf)) acc"
    and "ops ! i = (ALU_AND_K, jt, jf, k) \<Longrightarrow>
      does_op run ops d i acc = does_op run ops d (i + 1) (acc AND word_of_int k)"
    and "ops ! i = (RET_K, jt, jf, k) \<Longrightarrow> does_op run ops d i acc = word_of_int k"
proof -
  have "does_instr run (map instr_of ops) d i acc (does_op run ops d i acc)"
    using assms by (simp add: bpf_machine_def does_op_def)
  then have do: "does_instr run (map instr_of ops) d i acc (does_op run ops d i acc)" .
  note ds = do [unfolded does_instr_def] assms(2)
  show "ops ! i = (LD_W_ABS, jt, jf, k) \<Longrightarrow> seccomp_word d (unat (word_of_int k :: u32)) = Some w \<Longrightarrow>
      does_op run ops d i acc = does_op run ops d (i + 1) w"
    using ds by (simp add: instr_of_def does_op_def LD_W_ABS_def)
  show "ops ! i = (JMP_JEQ_K, jt, jf, k) \<Longrightarrow>
      does_op run ops d i acc = does_op run ops d (i + 1 + nat (if acc = word_of_int k then jt else jf)) acc"
    using ds by (simp add: instr_of_def does_op_def JMP_JEQ_K_def split: if_splits)
  show "ops ! i = (JMP_JGE_K, jt, jf, k) \<Longrightarrow>
      does_op run ops d i acc = does_op run ops d (i + 1 + nat (if word_of_int k \<le> acc then jt else jf)) acc"
    using ds by (simp add: instr_of_def does_op_def JMP_JGE_K_def split: if_splits)
  show "ops ! i = (ALU_AND_K, jt, jf, k) \<Longrightarrow>
      does_op run ops d i acc = does_op run ops d (i + 1) (acc AND word_of_int k)"
    using ds by (simp add: instr_of_def does_op_def ALU_AND_K_def)
  show "ops ! i = (RET_K, jt, jf, k) \<Longrightarrow> does_op run ops d i acc = word_of_int k"
    using ds by (simp add: instr_of_def does_op_def RET_K_def)
qed

lemma answer_packs: "packs ops = Inr p \<Longrightarrow> answer run p d = does_op run ops d 0 0"
  by (simp add: answer_def does_op_def packs_reads)

section \<open>The filter of the calls that are traced\<close>

definition trap_ops :: "arch \<Rightarrow> int list \<Rightarrow> op list" where
  "trap_ops a ordered =
     [(LD_W_ABS, 0, 0, OFFSET_ARCH), (JMP_JEQ_K, 1, 0, a_audit a), (RET_K, 0, 0, RET_ALLOW), (LD_W_ABS, 0, 0, OFFSET_NR)] @
     concat (map (\<lambda>n. [(JMP_JEQ_K, 0, 1, n), (RET_K, 0, 0, RET_TRACE)]) ordered) @ [(RET_K, 0, 0, RET_ALLOW)]"

lemma length_pairs: "length (concat (map (\<lambda>n. [f n, g n]) xs)) = 2 * length xs"
  by (induction xs) auto

lemma nth_pairs:
  "j < length xs \<Longrightarrow> (concat (map (\<lambda>n. [f n, g n]) xs) @ r) ! (2 * j) = f (xs ! j)"
  "j < length xs \<Longrightarrow> (concat (map (\<lambda>n. [f n, g n]) xs) @ r) ! Suc (2 * j) = g (xs ! j)"
  "(concat (map (\<lambda>n. [f n, g n]) xs) @ x # r) ! (2 * length xs) = x"
proof -
  show "j < length xs \<Longrightarrow> (concat (map (\<lambda>n. [f n, g n]) xs) @ r) ! (2 * j) = f (xs ! j)"
    by (induction xs arbitrary: j) (auto simp: nth_Cons split: nat.splits)
  show "j < length xs \<Longrightarrow> (concat (map (\<lambda>n. [f n, g n]) xs) @ r) ! Suc (2 * j) = g (xs ! j)"
    by (induction xs arbitrary: j) (auto simp: nth_Cons split: nat.splits)
  show "(concat (map (\<lambda>n. [f n, g n]) xs) @ x # r) ! (2 * length xs) = x"
    by (simp add: nth_append length_pairs)
qed

lemma trap_nth:
  "j < length os \<Longrightarrow> trap_ops a os ! (4 + 2 * j) = (JMP_JEQ_K, 0, 1, os ! j)"
  "j < length os \<Longrightarrow> trap_ops a os ! (5 + 2 * j) = (RET_K, 0, 0, RET_TRACE)"
  "trap_ops a os ! (4 + 2 * length os) = (RET_K, 0, 0, RET_ALLOW)"
  by (simp_all add: trap_ops_def nth_pairs)

lemma length_trap_ops: "length (trap_ops a os) = 5 + 2 * length os"
  by (simp add: trap_ops_def length_pairs)

lemma trap_from:
  assumes "bpf_machine run" and "j \<le> length os"
  shows "does_op run (trap_ops a os) d (4 + 2 * j) nr =
    (if nr \<in> word_of_int ` set (drop j os) then word_of_int RET_TRACE else word_of_int RET_ALLOW)"
  using assms(2)
proof (induction rule: inc_induct)
  case base
  show ?case
    using machine_steps(5) [OF assms(1), of "4 + 2 * length os" "trap_ops a os" 0 0 RET_ALLOW] trap_nth(3)
    by (simp add: length_trap_ops)
next
  case (step j)
  have here: "does_op run (trap_ops a os) d (4 + 2 * j) nr =
      does_op run (trap_ops a os) d (5 + 2 * j + nat (if nr = word_of_int (os ! j) then 0 else 1)) nr"
    using machine_steps(2) [OF assms(1), of "4 + 2 * j" "trap_ops a os" 0 1 "os ! j"] trap_nth(1) step(2)
    by (simp add: length_trap_ops)
  have hit: "does_op run (trap_ops a os) d (5 + 2 * j) nr = word_of_int RET_TRACE"
    using machine_steps(5) [OF assms(1), of "5 + 2 * j" "trap_ops a os" 0 0 RET_TRACE] trap_nth(2) step(2)
    by (simp add: length_trap_ops)
  have "drop j os = os ! j # drop (Suc j) os" using step(2) by (simp add: Cons_nth_drop_Suc)
  then show ?case using here hit step(3) by (cases "nr = word_of_int (os ! j)") (simp_all add: algebra_simps)
qed

lemma trap_runs:
  assumes "bpf_machine run"
  shows "does_op run (trap_ops a os) d 0 acc =
    (if sd_arch d = word_of_int (a_audit a) \<and> sd_nr d \<in> word_of_int ` set os then word_of_int RET_TRACE else word_of_int RET_ALLOW)"
proof -
  let ?p = "trap_ops a os"
  have nth: "?p ! 0 = (LD_W_ABS, 0, 0, OFFSET_ARCH)" "?p ! 1 = (JMP_JEQ_K, 1, 0, a_audit a)"
      "?p ! 2 = (RET_K, 0, 0, RET_ALLOW)" "?p ! 3 = (LD_W_ABS, 0, 0, OFFSET_NR)"
    by (simp_all add: trap_ops_def)
  have "does_op run ?p d 0 acc = does_op run ?p d 1 (sd_arch d)"
    using machine_steps(1) [OF assms, of 0 ?p, OF _ nth(1)] by (simp add: length_trap_ops OFFSET_ARCH_def seccomp_word_def)
  moreover have "does_op run ?p d 1 (sd_arch d) = does_op run ?p d (if sd_arch d = word_of_int (a_audit a) then 3 else 2) (sd_arch d)"
    using machine_steps(2) [OF assms, of 1 ?p, OF _ nth(2), of d "sd_arch d"]
    by (cases "sd_arch d = word_of_int (a_audit a)") (simp_all add: length_trap_ops eval_nat_numeral)
  moreover have "does_op run ?p d 2 (sd_arch d) = word_of_int RET_ALLOW"
    using machine_steps(5) [OF assms, of 2 ?p, OF _ nth(3)] by (simp add: length_trap_ops)
  moreover have "does_op run ?p d 3 (sd_arch d) = does_op run ?p d 4 (sd_nr d)"
    using machine_steps(1) [OF assms, of 3 ?p, OF _ nth(4)] by (simp add: length_trap_ops OFFSET_NR_def seccomp_word_def)
  moreover have "does_op run ?p d 4 (sd_nr d) =
      (if sd_nr d \<in> word_of_int ` set os then word_of_int RET_TRACE else word_of_int RET_ALLOW)"
    using trap_from [OF assms, of 0 os a d "sd_nr d"] by simp
  ultimately show ?thesis by (cases "sd_arch d = word_of_int (a_audit a)") simp_all
qed

lemma packs_all_packable: "packs ops = Inr bs \<Longrightarrow> i \<in> set ops \<Longrightarrow> packable i"
proof -
  have "res_fold packs_one ops bs = Inr bs' \<Longrightarrow> i \<in> set ops \<Longrightarrow> packable i" for bs bs'
    by (induction ops arbitrary: bs) (auto simp: packs_one_Inr res_bind_eq_Inr_iff dest: insn_packable)
  then show "packs ops = Inr bs \<Longrightarrow> i \<in> set ops \<Longrightarrow> packable i" by (simp add: packs_def)
qed

lemma word_of_int_is: "0 \<le> n \<Longrightarrow> n < 4294967296 \<Longrightarrow> (w :: u32) = word_of_int n \<longleftrightarrow> uint w = n"
  by (auto simp: uint_word_of_int take_bit_eq_mod)

lemma trap_answers:
  assumes "bpf_machine run" and "a \<in> set supported" and "build_program a numbers = Inr p"
  shows "answer run p d =
    (if uint (sd_arch d) = a_audit a \<and> uint (sd_nr d) \<in> set numbers then word_of_int RET_TRACE else word_of_int RET_ALLOW)"
proof -
  let ?os = "sorted_list_of_set (set (filter (\<lambda>n. 0 \<le> n) numbers))"
  have b: "packs (trap_ops a ?os) = Inr p"
    using assms(3) by (simp add: build_program_def trap_ops_def split: if_splits)
  have fits: "n < 4294967296" if "n \<in> set numbers" "0 \<le> n" for n
    using packs_all_packable [OF b, of "(JMP_JEQ_K, 0, 1, n)"] that by (auto simp: trap_ops_def packable_def)
  have "sd_nr d \<in> word_of_int ` set ?os \<longleftrightarrow> uint (sd_nr d) \<in> set numbers"
  proof
    assume "sd_nr d \<in> word_of_int ` set ?os"
    then obtain n where "n \<in> set numbers" "0 \<le> n" "sd_nr d = word_of_int n" by auto
    then show "uint (sd_nr d) \<in> set numbers" using fits word_of_int_is by metis
  next
    assume "uint (sd_nr d) \<in> set numbers"
    then show "sd_nr d \<in> word_of_int ` set ?os" by (intro image_eqI [of _ _ "uint (sd_nr d)"]) auto
  qed
  moreover have "sd_arch d = word_of_int (a_audit a) \<longleftrightarrow> uint (sd_arch d) = a_audit a"
    using assms(2) by (intro word_of_int_is) (auto simp: supported_def X86_64_def AARCH64_def)
  ultimately show ?thesis using trap_runs [OF assms(1)] by (simp add: answer_packs [OF b])
qed

text \<open>
  The filter put on an agent stops, for the tracer, exactly the calls of the agent's own architecture it was
  built of, and lets every other call run: with a machine that does what BPF is documented to do, for every set
  of calls it can be built of, those without a number on this architecture left out.
\<close>

theorem trap_filter_traces_exactly:
  assumes "bpf_machine run" and "a \<in> set supported" and "build_program a numbers = Inr p"
  shows "answer run p d =
    (if uint (sd_arch d) = a_audit a \<and> uint (sd_nr d) \<in> set numbers then word_of_int RET_TRACE else word_of_int RET_ALLOW)"
  using trap_answers [OF assms] .

section \<open>The filters of a process cut off from the network\<close>

definition socket_ops :: "arch \<Rightarrow> op list" where
  "socket_ops a =
     [(LD_W_ABS, 0, 0, OFFSET_ARCH), (JMP_JEQ_K, 0, 16, a_audit a), (LD_W_ABS, 0, 0, OFFSET_NR),
      (JMP_JGE_K, 14, 0, X32_BIT), (JMP_JEQ_K, 13, 0, a_numbers a NR_IO_URING_SETUP), (JMP_JEQ_K, 0, 11, a_numbers a NR_SOCKET),
      (LD_W_ABS, 0, 0, arg 0), (JMP_JEQ_K, 9, 0, AF_UNIX), (JMP_JEQ_K, 8, 0, AF_NETLINK), (JMP_JEQ_K, 1, 0, AF_INET),
      (JMP_JEQ_K, 0, 7, AF_INET6), (LD_W_ABS, 0, 0, arg 1), (ALU_AND_K, 0, 0, SOCK_TYPE_MASK), (JMP_JEQ_K, 0, 4, SOCK_STREAM),
      (LD_W_ABS, 0, 0, arg 2), (JMP_JEQ_K, 1, 0, 0), (JMP_JEQ_K, 0, 1, IPPROTO_TCP), (RET_K, 0, 0, RET_ALLOW),
      (RET_K, 0, 0, RET_ERRNO OR EACCES)]"


text \<open>The labels resolved: every jump is forward and within the program.\<close>

lemma socket_assembled: "build_socket_program a = packs (socket_ops a)"
  by (simp add: build_socket_program_def assemble_def laid_def resolved_def jump_def socket_ops_def)


lemma supported_numbers:
  assumes "a \<in> set supported"
  shows "a_audit a \<in> {0xC000003E, 0xC00000B7}" "a_numbers a NR_IO_URING_SETUP = 425" "a_numbers a NR_SOCKET \<in> {41, 198}"
    "a_numbers a NR_BIND \<in> {49, 200}" "a_numbers a NR_LISTEN \<in> {50, 201}"
  using assms by (auto simp: supported_def X86_64_def AARCH64_def)

lemma numbers_packable:
  assumes "a \<in> set supported" and "n \<in> {a_audit a, a_numbers a NR_IO_URING_SETUP, a_numbers a NR_SOCKET, a_numbers a NR_BIND, a_numbers a NR_LISTEN}"
  shows "0 \<le> n \<and> n < 4294967296"
  using assms(2) supported_numbers [OF assms(1)] by auto

lemma socket_packs: "a \<in> set supported \<Longrightarrow> \<exists>p. packs (socket_ops a) = Inr p"
  by (rule packs_ok) (simp add: socket_ops_def packable_def numbers_packable, simp add: bpf_constants arg_def)


text \<open>What a process cut off may call: its own architecture's calls, no ring, and of sockets those it may make.\<close>

definition arg_word :: "seccomp_data \<Rightarrow> nat \<Rightarrow> u32" where
  "arg_word d i = ucast (sd_args d ! i)"

definition makes_socket :: "seccomp_data \<Rightarrow> bool" where
  "makes_socket d \<longleftrightarrow>
     uint (arg_word d 0) \<in> {AF_UNIX, AF_NETLINK} \<or>
     uint (arg_word d 0) \<in> {AF_INET, AF_INET6} \<and> uint (arg_word d 1 AND word_of_int SOCK_TYPE_MASK) = SOCK_STREAM \<and>
     uint (arg_word d 2) \<in> {0, IPPROTO_TCP}"

definition own_call :: "arch \<Rightarrow> seccomp_data \<Rightarrow> bool" where
  "own_call a d \<longleftrightarrow> uint (sd_arch d) = a_audit a \<and> uint (sd_nr d) < X32_BIT"

definition socket_allowed :: "arch \<Rightarrow> seccomp_data \<Rightarrow> bool" where
  "socket_allowed a d \<longleftrightarrow>
     own_call a d \<and> uint (sd_nr d) \<noteq> a_numbers a NR_IO_URING_SETUP \<and>
     (uint (sd_nr d) = a_numbers a NR_SOCKET \<longrightarrow> makes_socket d)"

text \<open>One step, wherever the program stands, as an equation.\<close>

definition known :: "seccomp_data \<Rightarrow> op \<Rightarrow> bool" where
  "known d i \<longleftrightarrow>
     (case i of (code, jt, jf, k) \<Rightarrow>
        code \<in> {JMP_JEQ_K, JMP_JGE_K, ALU_AND_K, RET_K} \<or> code = LD_W_ABS \<and> seccomp_word d (unat (word_of_int k :: u32)) \<noteq> None)"

definition does_next :: "machine \<Rightarrow> op list \<Rightarrow> seccomp_data \<Rightarrow> nat \<Rightarrow> u32 \<Rightarrow> op \<Rightarrow> u32" where
  "does_next run ops d i acc op =
     (case op of (code, jt, jf, k) \<Rightarrow>
        if code = LD_W_ABS then does_op run ops d (i + 1) (the (seccomp_word d (unat (word_of_int k :: u32))))
        else if code = JMP_JEQ_K then
          (if acc = word_of_int k then does_op run ops d (i + 1 + nat jt) acc else does_op run ops d (i + 1 + nat jf) acc)
        else if code = JMP_JGE_K then
          (if word_of_int k \<le> acc then does_op run ops d (i + 1 + nat jt) acc else does_op run ops d (i + 1 + nat jf) acc)
        else if code = ALU_AND_K then does_op run ops d (i + 1) (acc AND word_of_int k)
        else word_of_int k)"

lemmas bpf_codes = LD_W_ABS_def JMP_JEQ_K_def JMP_JGE_K_def ALU_AND_K_def RET_K_def

lemma step_at:
  assumes "bpf_machine run" and "i < length ops" and "known d (ops ! i)"
  shows "does_op run ops d i acc = does_next run ops d i acc (ops ! i)"
proof -
  obtain code jt jf k where op: "ops ! i = (code, jt, jf, k)" by (cases "ops ! i")
  consider "code = LD_W_ABS" | "code = JMP_JEQ_K" | "code = JMP_JGE_K" | "code = ALU_AND_K" | "code = RET_K"
    using assms(3) by (auto simp: op known_def)
  then show ?thesis
    using assms(3) op machine_steps [OF assms(1,2)]
    by cases (auto simp: does_next_def known_def bpf_codes)
qed

lemma loads:
  "seccomp_word d (unat (word_of_int OFFSET_ARCH :: u32)) = Some (sd_arch d)"
  "seccomp_word d (unat (word_of_int OFFSET_NR :: u32)) = Some (sd_nr d)"
  "seccomp_word d (unat (word_of_int (arg 0) :: u32)) = Some (arg_word d 0)"
  "seccomp_word d (unat (word_of_int (arg 1) :: u32)) = Some (arg_word d 1)"
  "seccomp_word d (unat (word_of_int (arg 2) :: u32)) = Some (arg_word d 2)"
  by (simp_all add: seccomp_word_def arg_word_def arg_def OFFSET_ARCH_def OFFSET_NR_def OFFSET_ARGS_def)



lemma socket_nth:
  "length (socket_ops a) = 19"
  "socket_ops a ! 0 = (LD_W_ABS, 0, 0, OFFSET_ARCH)"
  "socket_ops a ! 1 = (JMP_JEQ_K, 0, 16, a_audit a)"
  "socket_ops a ! 2 = (LD_W_ABS, 0, 0, OFFSET_NR)"
  "socket_ops a ! 3 = (JMP_JGE_K, 14, 0, X32_BIT)"
  "socket_ops a ! 4 = (JMP_JEQ_K, 13, 0, a_numbers a NR_IO_URING_SETUP)"
  "socket_ops a ! 5 = (JMP_JEQ_K, 0, 11, a_numbers a NR_SOCKET)"
  "socket_ops a ! 6 = (LD_W_ABS, 0, 0, arg 0)"
  "socket_ops a ! 7 = (JMP_JEQ_K, 9, 0, AF_UNIX)"
  "socket_ops a ! 8 = (JMP_JEQ_K, 8, 0, AF_NETLINK)"
  "socket_ops a ! 9 = (JMP_JEQ_K, 1, 0, AF_INET)"
  "socket_ops a ! 10 = (JMP_JEQ_K, 0, 7, AF_INET6)"
  "socket_ops a ! 11 = (LD_W_ABS, 0, 0, arg 1)"
  "socket_ops a ! 12 = (ALU_AND_K, 0, 0, SOCK_TYPE_MASK)"
  "socket_ops a ! 13 = (JMP_JEQ_K, 0, 4, SOCK_STREAM)"
  "socket_ops a ! 14 = (LD_W_ABS, 0, 0, arg 2)"
  "socket_ops a ! 15 = (JMP_JEQ_K, 1, 0, 0)"
  "socket_ops a ! 16 = (JMP_JEQ_K, 0, 1, IPPROTO_TCP)"
  "socket_ops a ! 17 = (RET_K, 0, 0, RET_ALLOW)"
  "socket_ops a ! 18 = (RET_K, 0, 0, RET_ERRNO OR EACCES)"
  by (simp_all add: socket_ops_def)

lemma socket_steps:
  assumes "bpf_machine run"
  shows
    "does_op run (socket_ops a) d 0 x = does_op run (socket_ops a) d 1 (sd_arch d)"
    "does_op run (socket_ops a) d 1 x = (if x = word_of_int (a_audit a) then does_op run (socket_ops a) d 2 x else does_op run (socket_ops a) d 18 x)"
    "does_op run (socket_ops a) d 2 x = does_op run (socket_ops a) d 3 (sd_nr d)"
    "does_op run (socket_ops a) d 3 x = (if word_of_int X32_BIT \<le> x then does_op run (socket_ops a) d 18 x else does_op run (socket_ops a) d 4 x)"
    "does_op run (socket_ops a) d 4 x = (if x = word_of_int (a_numbers a NR_IO_URING_SETUP) then does_op run (socket_ops a) d 18 x else does_op run (socket_ops a) d 5 x)"
    "does_op run (socket_ops a) d 5 x = (if x = word_of_int (a_numbers a NR_SOCKET) then does_op run (socket_ops a) d 6 x else does_op run (socket_ops a) d 17 x)"
    "does_op run (socket_ops a) d 6 x = does_op run (socket_ops a) d 7 (arg_word d 0)"
    "does_op run (socket_ops a) d 7 x = (if x = word_of_int AF_UNIX then does_op run (socket_ops a) d 17 x else does_op run (socket_ops a) d 8 x)"
    "does_op run (socket_ops a) d 8 x = (if x = word_of_int AF_NETLINK then does_op run (socket_ops a) d 17 x else does_op run (socket_ops a) d 9 x)"
    "does_op run (socket_ops a) d 9 x = (if x = word_of_int AF_INET then does_op run (socket_ops a) d 11 x else does_op run (socket_ops a) d 10 x)"
    "does_op run (socket_ops a) d 10 x = (if x = word_of_int AF_INET6 then does_op run (socket_ops a) d 11 x else does_op run (socket_ops a) d 18 x)"
    "does_op run (socket_ops a) d 11 x = does_op run (socket_ops a) d 12 (arg_word d 1)"
    "does_op run (socket_ops a) d 12 x = does_op run (socket_ops a) d 13 (x AND word_of_int SOCK_TYPE_MASK)"
    "does_op run (socket_ops a) d 13 x = (if x = word_of_int SOCK_STREAM then does_op run (socket_ops a) d 14 x else does_op run (socket_ops a) d 18 x)"
    "does_op run (socket_ops a) d 14 x = does_op run (socket_ops a) d 15 (arg_word d 2)"
    "does_op run (socket_ops a) d 15 x = (if x = word_of_int 0 then does_op run (socket_ops a) d 17 x else does_op run (socket_ops a) d 16 x)"
    "does_op run (socket_ops a) d 16 x = (if x = word_of_int IPPROTO_TCP then does_op run (socket_ops a) d 17 x else does_op run (socket_ops a) d 18 x)"
    "does_op run (socket_ops a) d 17 x = word_of_int RET_ALLOW"
    "does_op run (socket_ops a) d 18 x = word_of_int (RET_ERRNO OR EACCES)"
  by (subst step_at [OF assms], simp add: socket_nth, simp add: socket_nth known_def bpf_codes loads del: One_nat_def,
      simp add: socket_nth does_next_def bpf_codes loads del: One_nat_def)+



lemma word_le_uint: "0 \<le> n \<Longrightarrow> n < 4294967296 \<Longrightarrow> word_of_int n \<le> (w :: u32) \<longleftrightarrow> n \<le> uint w"
  by (simp add: word_le_def uint_word_of_int take_bit_eq_mod)

lemma word_tests:
  fixes w :: u32
  shows "word_of_int X32_BIT \<le> w \<longleftrightarrow> \<not> uint w < X32_BIT"
    "w = word_of_int AF_UNIX \<longleftrightarrow> uint w = AF_UNIX" "w = word_of_int AF_NETLINK \<longleftrightarrow> uint w = AF_NETLINK"
    "w = word_of_int AF_INET \<longleftrightarrow> uint w = AF_INET" "w = word_of_int AF_INET6 \<longleftrightarrow> uint w = AF_INET6"
    "w = word_of_int SOCK_STREAM \<longleftrightarrow> uint w = SOCK_STREAM" "w = word_of_int 0 \<longleftrightarrow> uint w = 0"
    "w = word_of_int IPPROTO_TCP \<longleftrightarrow> uint w = IPPROTO_TCP"
  by (simp_all only: word_of_int_is word_le_uint bpf_constants not_less)


lemma socket_runs:
  assumes m: "bpf_machine run" and a: "a \<in> set supported"
  shows "does_op run (socket_ops a) d 0 acc =
    (if socket_allowed a d then word_of_int RET_ALLOW else word_of_int (RET_ERRNO OR EACCES))"
proof -
  have n: "w = word_of_int (a_audit a) \<longleftrightarrow> uint w = a_audit a" "w = word_of_int (a_numbers a NR_IO_URING_SETUP) \<longleftrightarrow> uint w = a_numbers a NR_IO_URING_SETUP" "w = word_of_int (a_numbers a NR_SOCKET) \<longleftrightarrow> uint w = a_numbers a NR_SOCKET" for w :: u32
    using numbers_packable [OF a] by (simp_all add: word_of_int_is)
  show ?thesis
    by (simp only: socket_steps [OF m] own_call_def socket_allowed_def makes_socket_def n insert_iff word_tests)
      (cases "uint (sd_nr d) < X32_BIT"; simp)
qed

text \<open>
  C29. The filter of a process cut off from the network assembles on every architecture there is, and lets a call
  run exactly where it is a call of the process's own architecture, is not a ring's, and makes no socket but a
  local one, a netlink one or a plain TCP one; every other is refused with \<open>EACCES\<close>.
\<close>

theorem socket_filter_allows_exactly:
  assumes "bpf_machine run" and "a \<in> set supported"
  shows "\<exists>p. build_socket_program a = Inr p \<and>
    (\<forall>d. answer run p d = (if socket_allowed a d then word_of_int RET_ALLOW else word_of_int (RET_ERRNO OR EACCES)))"
proof -
  obtain p where p: "packs (socket_ops a) = Inr p" using socket_packs [OF assms(2)] by blast
  then show ?thesis using socket_runs [OF assms] by (auto simp: socket_assembled answer_packs [OF p])
qed


section \<open>A machine that does it\<close>

function bpf_run :: machine where
  "bpf_run p d i acc =
     (if i < length p then
        (case p ! i of (code, jt, jf, k) \<Rightarrow>
           if code = 0x20 then (case seccomp_word d (unat k) of Some w \<Rightarrow> bpf_run p d (i + 1) w | None \<Rightarrow> 0)
           else if code = 0x15 then bpf_run p d (i + 1 + (if acc = k then jt else jf)) acc
           else if code = 0x35 then bpf_run p d (i + 1 + (if k \<le> acc then jt else jf)) acc
           else if code = 0x54 then bpf_run p d (i + 1) (acc AND k)
           else k)
      else 0)"
  by pat_completeness auto
termination
  by (relation "measure (\<lambda>(p, d, i, acc). length p - i)") auto

declare bpf_run.simps [simp del]

lemma bpf_run_machine: "bpf_machine bpf_run"
proof -
  have "does_instr bpf_run p d i acc (bpf_run p d i acc)" if "i < length p" for p d i acc
    using that by (subst bpf_run.simps) (auto simp: does_instr_def split: prod.splits)
  then show ?thesis by (simp add: bpf_machine_def)
qed

lemma trap_filter_traces_exactly_witness:
  "\<exists>p. build_program X86_64 [59, -1000, 2, 59] = Inr p \<and>
     answer bpf_run p \<lparr>sd_nr = 2, sd_arch = 0xC000003E, sd_args = [0, 0, 0, 0, 0, 0]\<rparr> = word_of_int RET_TRACE \<and>
     answer bpf_run p \<lparr>sd_nr = 2, sd_arch = 0x40000003, sd_args = [0, 0, 0, 0, 0, 0]\<rparr> = word_of_int RET_ALLOW"
proof -
  have "build_program X86_64 [59, -1000, 2, 59] = packs (trap_ops X86_64 [2, 59])"
  proof -
    have o: "sorted_list_of_set (set (filter (\<lambda>n. 0 \<le> n) [59, -1000, 2, 59 :: int])) = [2, 59]" by code_simp
    show ?thesis unfolding build_program_def Let_def o by (simp add: trap_ops_def MAX_JUMP_def)
  qed
  moreover have "\<exists>p. packs (trap_ops X86_64 [2, 59]) = Inr p"
    by (rule packs_ok) (auto simp: trap_ops_def packable_def bpf_constants X86_64_def)
  ultimately obtain p where p: "build_program X86_64 [59, -1000, 2, 59] = Inr p" by auto
  show ?thesis
    using trap_filter_traces_exactly [OF bpf_run_machine _ p] p
    by (intro exI [of _ p]) (simp add: supported_def X86_64_def)
qed

definition asks_for :: "64 word \<Rightarrow> 64 word \<Rightarrow> 64 word \<Rightarrow> seccomp_data" where
  "asks_for family kind protocol = \<lparr>sd_nr = 198, sd_arch = 0xC00000B7, sd_args = [family, kind, protocol, 0, 0, 0]\<rparr>"

lemma socket_filter_allows_exactly_witness:
  "\<exists>p. build_socket_program AARCH64 = Inr p \<and>
     answer bpf_run p (asks_for 2 0x80801 6) = word_of_int RET_ALLOW \<and> answer bpf_run p (asks_for 2 2 0) = 0x5000D"
proof -
  have "socket_allowed AARCH64 (asks_for 2 0x80801 6)" "\<not> socket_allowed AARCH64 (asks_for 2 2 0)" by code_simp+
  moreover have "AARCH64 \<in> set supported" by (simp add: supported_def)
  ultimately show ?thesis using socket_filter_allows_exactly [OF bpf_run_machine, of AARCH64]
    by (force simp: RET_ERRNO_def EACCES_def)
qed


end
