(* ===== verification/Loopback.thy ===== *)
theory Loopback
  imports Seccomp
begin

text \<open>
  \<open>coganchor.fence.loopback\<close>: the supervisor that answers each \<open>bind\<close> and \<open>listen\<close> of a process cut off from the
  network. A call is answered in the pieces the kernel is entered for, and between any two of them every thread of
  the process may do whatever its kernel lets it.
\<close>

section \<open>Addresses\<close>

definition SOCKADDR :: int where "SOCKADDR = 128"
definition INET :: nat where "INET = 16"
definition INET6 :: nat where "INET6 = 24"

definition slice :: "nat \<Rightarrow> nat \<Rightarrow> 'a list \<Rightarrow> 'a list" where
  "slice i j xs = take (j - i) (drop i xs)"

text \<open>\<open>ipaddress\<close>: \<open>127.0.0.0/8\<close>; \<open>::1\<close>; and the four bytes of an IPv4 address mapped into IPv6.\<close>

definition ipv4_loopback :: "byte list \<Rightarrow> bool" where
  "ipv4_loopback b \<longleftrightarrow> b \<noteq> [] \<and> hd b = 127"

definition ipv4_mapped :: "byte list \<Rightarrow> byte list option" where
  "ipv4_mapped b = (if take 12 b = replicate 10 0 @ [255, 255] then Some (drop 12 b) else None)"

definition ipv6_loopback :: "byte list \<Rightarrow> bool" where
  "ipv6_loopback b \<longleftrightarrow> b = replicate 15 0 @ [1]"

definition loopback :: "byte list \<Rightarrow> bool option" where
  "loopback sockaddr =
     (if length sockaddr < 2 then None
      else let family = int (nat_le (take 2 sockaddr)) in
        if family = AF_UNSPEC then Some False
        else if family = AF_INET then Some (length sockaddr \<ge> INET \<and> ipv4_loopback (slice 4 8 sockaddr))
        else if family = AF_INET6 then
          (if length sockaddr < INET6 then Some False
           else let address = slice 8 24 sockaddr in
             Some (case ipv4_mapped address of Some four \<Rightarrow> ipv4_loopback four | None \<Rightarrow> ipv6_loopback address))
        else None)"

section \<open>Answering a call\<close>

record notification =
  n_id :: nat
  n_pid :: nat
  n_nr :: int
  n_args :: "64 word list"

definition EBADF :: int where "EBADF = 9"
definition ESRCH :: int where "ESRCH = 3"
definition ENOSYS :: int where "ENOSYS = 38"

text \<open>\<open>ctypes.c_int32(x).value\<close>: the low word of a register, read with its sign.\<close>

definition c_int32 :: "64 word \<Rightarrow> int" where
  "c_int32 x = sint (ucast x :: 32 word)"

text \<open>What the kernel is told: to run the call itself, that it failed, or what it returned.\<close>

datatype response = Goes | Errors int | Returns int

definition responds :: "int option \<Rightarrow> response" where
  "responds d = (case d of None \<Rightarrow> Goes | Some n \<Rightarrow> if n < 0 then Errors (- n) else Returns n)"

text \<open>\<open>respond\<close>: the value, the negated errno and the flags a response is packed of.\<close>

fun response_fields :: "response \<Rightarrow> int \<times> int \<times> int" where
  "response_fields Goes = (0, 0, 1)"
| "response_fields (Errors e) = (0, - e, 0)"
| "response_fields (Returns v) = (v, 0, 0)"

text \<open>
  \<open>_bind\<close>: \<open>mem\<close> is what reading the caller's memory gives, \<open>valid\<close> whether the call is still stopped after it.
\<close>

definition binds :: "(64 word \<Rightarrow> int \<Rightarrow> byte list option) \<Rightarrow> bool \<Rightarrow> notification \<Rightarrow> int option" where
  "binds mem valid call =
     (let at_addr = n_args call ! 1; len = c_int32 (n_args call ! 2) in
      if \<not> (0 \<le> len \<and> len \<le> SOCKADDR) then None
      else case mem at_addr len of
        None \<Rightarrow> None
      | Some address \<Rightarrow> if \<not> valid then None else if loopback address = Some False then Some (- EACCES) else None)"

text \<open>
  \<open>_listen\<close>, entered three times: the duplicate is taken, where a pidfd could be opened at all; the duplicate
  is asked what it is bound to; and it is made to listen. What is left is the duplicate or the answer.
\<close>

datatype 'a entered = Answered int | Holds 'a

definition takes :: "bool \<Rightarrow> bool \<Rightarrow> (int \<Rightarrow> int + 's) \<Rightarrow> notification \<Rightarrow> 's entered" where
  "takes opened valid getfd call =
     (if \<not> opened then Answered (- EACCES)
      else if \<not> valid then Answered (- ESRCH)
      else case getfd (c_int32 (n_args call ! 0)) of
        Inl e \<Rightarrow> if - e = - EBADF then Answered (- e) else Answered (- EACCES)
      | Inr s \<Rightarrow> Holds s)"

definition checks :: "int + byte list \<Rightarrow> 's \<Rightarrow> 's entered" where
  "checks name s =
     (case name of
        Inl e \<Rightarrow> Answered (- e)
      | Inr n \<Rightarrow> if loopback (take (nat SOCKADDR) n) = Some False then Answered (- EACCES) else Holds s)"

definition made :: "int option \<Rightarrow> int" where
  "made failed = (case failed of Some e \<Rightarrow> - e | None \<Rightarrow> 0)"

section \<open>The supervisor among the threads it answers\<close>

text \<open>
  A kernel as the supervisor meets it: the sockets there are, which of them each process's descriptors are, what
  its memory reads as, and what each call was told. A turn of the process -- any of its threads, or the kernel
  running a call that was let go -- is a step of \<open>env\<close>, of which two things the kernel is documented to do are
  relied on: a socket comes to listen by \<open>listen\<close> alone, which is always handed over; and one bound on loopback
  stays bound there.
\<close>

record sock =
  so_name :: "byte list"
  so_listening :: bool

record kernel =
  kn_socks :: "nat \<Rightarrow> sock"
  kn_fds :: "nat \<Rightarrow> int \<Rightarrow> nat option"
  kn_mem :: "nat \<Rightarrow> 64 word \<Rightarrow> int \<Rightarrow> byte list option"
  kn_told :: "(nat \<times> response) list"

definition said_name :: "kernel \<Rightarrow> nat \<Rightarrow> byte list" where
  "said_name k s = take (nat SOCKADDR) (so_name (kn_socks k s))"

definition off_loopback :: "kernel \<Rightarrow> nat \<Rightarrow> bool" where
  "off_loopback k s \<longleftrightarrow> loopback (said_name k s) = Some False"

definition listens :: "kernel \<Rightarrow> nat \<Rightarrow> bool" where
  "listens k s \<longleftrightarrow> so_listening (kn_socks k s)"


definition tells :: "notification \<Rightarrow> int option \<Rightarrow> kernel \<Rightarrow> kernel" where
  "tells call d k = k\<lparr>kn_told := kn_told k @ [(n_id call, responds d)]\<rparr>"

definition start_listening :: "nat \<Rightarrow> kernel \<Rightarrow> kernel" where
  "start_listening s k = k\<lparr>kn_socks := (kn_socks k)(s := (kn_socks k s)\<lparr>so_listening := True\<rparr>)\<rparr>"

datatype stage = Idle | Received notification | Duplicated notification nat | Checked notification nat

text \<open>
  \<open>_answering\<close> and \<open>_answer\<close>, a piece at a time: what each system call gives -- a pidfd or none, a descriptor or
  its error, a name or its error -- is any it may give.
\<close>

definition getfd :: "kernel \<Rightarrow> nat \<Rightarrow> int option \<Rightarrow> int \<Rightarrow> int + nat" where
  "getfd k pid denied fd =
     (case denied of Some e \<Rightarrow> Inl e | None \<Rightarrow> case kn_fds k pid fd of None \<Rightarrow> Inl EBADF | Some s \<Rightarrow> Inr s)"

inductive supervises :: "arch \<Rightarrow> (kernel \<Rightarrow> kernel \<Rightarrow> bool) \<Rightarrow> kernel \<times> stage \<Rightarrow> kernel \<times> stage \<Rightarrow> bool" for a env where
  process: "env k k' \<Longrightarrow> supervises a env (k, st) (k', st)"
| receive: "supervises a env (k, Idle) (k, Received call)"
| bind: "n_nr call = a_numbers a NR_BIND \<Longrightarrow> n_nr call \<noteq> a_numbers a NR_LISTEN \<Longrightarrow>
    supervises a env (k, Received call) (tells call (binds (kn_mem k (n_pid call)) valid call) k, Idle)"
| neither: "n_nr call \<notin> {a_numbers a NR_BIND, a_numbers a NR_LISTEN} \<Longrightarrow>
    supervises a env (k, Received call) (tells call (Some (- ENOSYS)) k, Idle)"
| untaken: "n_nr call = a_numbers a NR_LISTEN \<Longrightarrow>
    takes opened valid (getfd k (n_pid call) denied) call = Answered n \<Longrightarrow>
    supervises a env (k, Received call) (tells call (Some n) k, Idle)"
| taken: "n_nr call = a_numbers a NR_LISTEN \<Longrightarrow>
    takes opened valid (getfd k (n_pid call) denied) call = Holds s \<Longrightarrow>
    supervises a env (k, Received call) (k, Duplicated call s)"
| refused: "name \<in> {Inr (said_name k s), Inl e} \<Longrightarrow> checks name s = Answered n \<Longrightarrow>
    supervises a env (k, Duplicated call s) (tells call (Some n) k, Idle)"
| checked: "checks (Inr (said_name k s)) s = Holds s' \<Longrightarrow>
    supervises a env (k, Duplicated call s) (k, Checked call s')"
| failed: "supervises a env (k, Checked call s) (tells call (Some (made (Some e))) k, Idle)"
| listened: "supervises a env (k, Checked call s) (tells call (Some (made None)) (start_listening s k), Idle)"

inductive_cases supervises_cases: "supervises a env x y"


lemma tells_keeps [simp]: "listens (tells call d k) s = listens k s" "off_loopback (tells call d k) s = off_loopback k s"
  by (simp_all add: tells_def listens_def off_loopback_def said_name_def)

lemma start_listening_keeps [simp]:
  "listens (start_listening s k) t = (t = s \<or> listens k t)" "off_loopback (start_listening s k) t = off_loopback k t"
  by (simp_all add: start_listening_def listens_def off_loopback_def said_name_def)

lemma said_name_short [simp]: "take (nat SOCKADDR) (said_name k s) = said_name k s"
  by (simp add: said_name_def)









text \<open>
  A \<open>bind\<close> is told to fail exactly where its address could be read, the call was still stopped after it, and the
  address is an internet one that is not loopback; every other is let run.
\<close>

lemma bind_refused_exactly:
  "responds (binds mem valid call) = Errors EACCES \<longleftrightarrow>
     (\<exists>addr. 0 \<le> c_int32 (n_args call ! 2) \<and> c_int32 (n_args call ! 2) \<le> SOCKADDR \<and>
       mem (n_args call ! 1) (c_int32 (n_args call ! 2)) = Some addr \<and> valid \<and> loopback addr = Some False)"
  by (auto simp: binds_def responds_def Let_def EACCES_def split: option.splits)

end
