(* ===== verification/Frames.thy ===== *)
theory Frames
  imports PyStruct
begin

text \<open>
  \<open>hmz.daemon.proto\<close>: the frames a frontend and the host of its runs say to each other, and \<open>Frames\<close>, which reads
  them off a socket that gives a piece at a time.
\<close>

definition GONE :: byte where "GONE = 88"
definition CONTROL :: byte where "CONTROL = 67"
definition MESSAGE :: byte where "MESSAGE = 77"

definition LONGEST_FRAME :: nat where
  "LONGEST_FRAME = 2 ^ 22"

definition HEAD :: nat where
  "HEAD = 5"

text \<open>\<open>frame\<close>: one byte of kind and four of length, big end first; a payload of 2^32 bytes is no frame.\<close>

definition frame :: "byte \<Rightarrow> byte list \<Rightarrow> struct_error + byte list" where
  "frame kind payload = res_bind (pack_be 4 (int (length payload))) (\<lambda>n. Inr ([kind] @ n @ payload))"

section \<open>Reading\<close>

datatype not_a_frame = NotAFrame nat

text \<open>Every whole frame in what is held, in order, and what is left; a length no frame has ends the reading.\<close>

function taken :: "byte list \<Rightarrow> not_a_frame + (byte \<times> byte list) list \<times> byte list" where
  "taken held =
     (if length held < HEAD then Inr ([], held)
      else
        let kind = hd held; size = nat_be (take 4 (tl held)) in
        if size > LONGEST_FRAME then Inl (NotAFrame size)
        else if length held < HEAD + size then Inr ([], held)
        else
          (case taken (drop (HEAD + size) held) of
             Inl e \<Rightarrow> Inl e
           | Inr (whole, rest) \<Rightarrow> Inr ((kind, take size (drop HEAD held)) # whole, rest)))"
  by pat_completeness auto
termination
  by (relation "measure length") (auto simp: HEAD_def)

declare taken.simps [simp del]

text \<open>\<open>Frames.feed\<close>: what it holds after, and what it gives; what is not a frame leaves nothing held.\<close>

definition feed :: "byte list \<Rightarrow> byte list \<Rightarrow> byte list \<times> (not_a_frame + (byte \<times> byte list) list)" where
  "feed held data =
     (case taken (held @ data) of Inl e \<Rightarrow> ([], Inl e) | Inr (whole, rest) \<Rightarrow> (rest, Inr whole))"


lemma taken_short [simp]: "length held < HEAD \<Longrightarrow> taken held = Inr ([], held)"
  by (simp add: taken.simps)

lemma taken_long:
  assumes "\<not> length h < HEAD" and "nat_be (take 4 (tl h)) = len" and "\<not> len > LONGEST_FRAME" and "\<not> length h < HEAD + len"
  shows "taken h = (case taken (drop (HEAD + len) h) of
      Inl e \<Rightarrow> Inl e | Inr (whole, rest) \<Rightarrow> Inr ((hd h, take len (drop HEAD h)) # whole, rest))"
  using assms by (subst taken.simps) (simp add: Let_def)




section \<open>Frames arrive whole\<close>

definition frame_bytes :: "byte \<times> byte list \<Rightarrow> byte list" where
  "frame_bytes f = [fst f] @ bytes_be 4 (length (snd f)) @ snd f"

definition frame_fits :: "byte \<times> byte list \<Rightarrow> bool" where
  "frame_fits f \<longleftrightarrow> length (snd f) \<le> LONGEST_FRAME"

lemma frame_is: "frame_fits (k, p) \<Longrightarrow> frame k p = Inr (frame_bytes (k, p))"
  by (simp add: frame_def frame_bytes_def pack_be_def frame_fits_def LONGEST_FRAME_def)

lemma length_frame_bytes: "length (frame_bytes f) = HEAD + length (snd f)"
  by (simp add: frame_bytes_def HEAD_def)

lemma frame_bytes_size:
  assumes "frame_fits f" and "n \<ge> HEAD"
  shows "nat_be (take 4 (tl (take n (frame_bytes f @ r)))) = length (snd f)"
proof -
  have "take 4 (tl (take n (frame_bytes f @ r))) = bytes_be 4 (length (snd f))"
    using assms(2) by (auto simp: frame_bytes_def HEAD_def take_tl take_Cons' numeral_eq_Suc)
  then show ?thesis using assms(1) by (simp add: nat_be_bytes frame_fits_def LONGEST_FRAME_def)
qed

lemma taken_frame:
  assumes "frame_fits f"
  shows "taken (frame_bytes f @ r) = res_bind (taken r) (\<lambda>(whole, rest). Inr (f # whole, rest))"
proof -
  have n: "\<not> length (frame_bytes f @ r) < HEAD + length (snd f)" by (simp add: length_frame_bytes)
  have s: "nat_be (take 4 (tl (frame_bytes f @ r))) = length (snd f)"
    using frame_bytes_size [OF assms, of "length (frame_bytes f @ r)" r] by (simp add: length_frame_bytes)
  have d: "drop (HEAD + length (snd f)) (frame_bytes f @ r) = r"
    using length_frame_bytes [of f] by simp
  have e: "take (length (snd f)) (drop HEAD (frame_bytes f @ r)) = snd f" "hd (frame_bytes f @ r) = fst f"
    by (simp_all add: frame_bytes_def HEAD_def)
  show ?thesis
    using taken_long [of "frame_bytes f @ r", OF _ s _ n, unfolded d e] assms
    by (auto simp: frame_fits_def length_frame_bytes res_bind_def split: sum.splits)
qed


definition stream_of :: "(byte \<times> byte list) list \<Rightarrow> byte list" where
  "stream_of fs = concat (map frame_bytes fs)"

lemma taken_stream: "\<forall>f\<in>set fs. frame_fits f \<Longrightarrow> taken (stream_of fs @ r) = res_bind (taken r) (\<lambda>(whole, rest). Inr (fs @ whole, rest))"
  by (induction fs) (auto simp: stream_of_def taken_frame res_bind_def split: sum.splits)




text \<open>A frame's payload of more than the most is written all the same, and refused where it is read.\<close>

lemma long_frame_refused:
  assumes "LONGEST_FRAME < length p" and "length p < 2 ^ 32"
  shows "\<exists>b. frame k p = Inr b \<and> feed [] b = ([], Inl (NotAFrame (length p)))"
proof -
  have "frame k p = Inr (frame_bytes (k, p))" using assms(2) by (simp add: frame_def frame_bytes_def pack_be_def)
  moreover have "nat_be (take 4 (tl (frame_bytes (k, p)))) = length p"
    using assms(2) by (simp add: frame_bytes_def nat_be_bytes)
  ultimately show ?thesis
    using assms(1) by (simp add: feed_def taken.simps [of "frame_bytes (k, p)"] Let_def length_frame_bytes)
qed

end
