(* ===== verification/Carrying.thy ===== *)
theory Carrying
  imports Complex_Main Frames
begin

text \<open>
  What a host puts on its way to one frontend (\<open>hmz.daemon.carrying\<close>): the bytes a socket has not taken, kept against
  it up to a ceiling; the socket taking some of them at a time; and letting it go.
\<close>

section \<open>One socket\<close>

text \<open>
  \<open>rd_wire\<close> is what the socket has taken all told, which the other end reads. A time is a rational of seconds, and
  \<open>rd_leaving\<close> nothing for a socket that has not been told to go.
\<close>

record reading =
  rd_there :: bool
  rd_client :: bool
  rd_sending :: "byte list"
  rd_lengths :: "nat list"
  rd_leaving :: "rat option"
  rd_wire :: "byte list"


definition READ :: nat where "READ = 2 ^ 16"
definition BEHIND :: nat where "BEHIND = 2 ^ 26"
definition FLUSHING :: rat where "FLUSHING = 5"
definition LONGEST_SAID :: nat where "LONGEST_SAID = 2 ^ 22 - 1"

definition message_frame :: "byte list \<Rightarrow> struct_error + byte list" where
  "message_frame payload = frame MESSAGE payload"

definition queues :: "byte list \<Rightarrow> reading \<Rightarrow> reading" where
  "queues w r = r\<lparr>rd_sending := rd_sending r @ w, rd_lengths := rd_lengths r @ [length w]\<rparr>"

text \<open>\<open>{"type": "gone", "why": "too far behind; attach again"}\<close>, as \<open>json\<close> writes it.\<close>

definition too_far_behind :: "byte list" where
  "too_far_behind = map (\<lambda>c. of_nat (of_char c))
     (''{'' @ [char_of (34 :: nat)] @ ''type'' @ [char_of (34 :: nat)] @ '': '' @ [char_of (34 :: nat)] @ ''gone'' @ [char_of (34 :: nat)] @
      '', '' @ [char_of (34 :: nat)] @ ''why'' @ [char_of (34 :: nat)] @ '': '' @ [char_of (34 :: nat)] @
      ''too far behind; attach again'' @ [char_of (34 :: nat)] @ ''}'')"

definition falls_behind :: "rat \<Rightarrow> reading \<Rightarrow> reading" where
  "falls_behind now r =
     (let head = (case rd_lengths r of [] \<Rightarrow> 0 | h # hs \<Rightarrow> h);
          r = r\<lparr>rd_sending := take head (rd_sending r), rd_lengths := (if head \<noteq> 0 then [head] else [])\<rparr> in
      (case message_frame too_far_behind of Inl e \<Rightarrow> r | Inr w \<Rightarrow> queues w r)\<lparr>rd_leaving := Some now\<rparr>)"

text \<open>\<open>_told\<close>: what is left of the socket, and whether its frontend is to be detached.\<close>

definition told :: "rat \<Rightarrow> bool \<Rightarrow> byte list \<Rightarrow> reading \<Rightarrow> reading \<times> bool" where
  "told now says_gone payload r =
     (case message_frame payload of
        Inl e \<Rightarrow> (r, False)
      | Inr w \<Rightarrow>
          if length w > LONGEST_SAID then (r, False)
          else if \<not> rd_there r \<or> rd_leaving r \<noteq> None then (r, False)
          else
            let r = queues w r in
            if length (rd_sending r) > BEHIND then (falls_behind now r, rd_client r)
            else if says_gone then (r\<lparr>rd_leaving := Some now\<rparr>, False)
            else (r, False))"

text \<open>\<open>_tells\<close>: a reply.\<close>

definition replies :: "byte list \<Rightarrow> reading \<Rightarrow> reading" where
  "replies payload r =
     (case message_frame payload of Inl e \<Rightarrow> r | Inr w \<Rightarrow> if \<not> rd_there r then r else queues w r)"

fun lengths_left :: "nat \<Rightarrow> nat list \<Rightarrow> nat list" where
  "lengths_left n [] = []"
| "lengths_left n (l # ls) = (if n = 0 then l # ls else if n \<ge> l then lengths_left (n - l) ls else (l - n) # ls)"

definition took :: "nat \<Rightarrow> reading \<Rightarrow> reading" where
  "took n r = r\<lparr>rd_wire := rd_wire r @ take n (rd_sending r), rd_sending := drop n (rd_sending r), rd_lengths := lengths_left n (rd_lengths r)\<rparr>"

text \<open>\<open>_sends\<close>: what each try at the socket comes to -- so many bytes taken of those offered, none now, or broken.\<close>

datatype sent = Took nat | Blocks | Breaks

fun sends :: "sent list \<Rightarrow> reading \<Rightarrow> reading \<times> bool" where
  "sends [] r = (r, False)"
| "sends (e # es) r =
     (if \<not> rd_there r \<or> rd_sending r = [] then (r, False)
      else case e of
        Blocks \<Rightarrow> (r, False)
      | Breaks \<Rightarrow> (r, True)
      | Took n \<Rightarrow> sends es (took (min n (length (take (READ * 16) (rd_sending r)))) r))"

text \<open>\<open>_closes\<close> and \<open>_drops\<close>: let go once it has taken all it is owed, or had its time; or because it has gone.\<close>

definition closes :: "rat \<Rightarrow> reading \<Rightarrow> reading" where
  "closes now r =
     (case rd_leaving r of
        None \<Rightarrow> r
      | Some since \<Rightarrow> if rd_sending r = [] \<or> now - since > FLUSHING then r\<lparr>rd_there := False\<rparr> else r)"

section \<open>Everything that happens to it\<close>

datatype happening = Tells rat bool "byte list" | Replies "byte list" | Hello | Sends "sent list" | Closes rat | Gone

definition happens :: "reading \<Rightarrow> happening \<Rightarrow> reading" where
  "happens r h =
     (case h of
        Tells now says_gone payload \<Rightarrow> fst (told now says_gone payload r)
      | Replies payload \<Rightarrow> replies payload r
      | Hello \<Rightarrow> r\<lparr>rd_client := True\<rparr>
      | Sends es \<Rightarrow> (case sends es r of (r', broken) \<Rightarrow> if broken then r'\<lparr>rd_there := False\<rparr> else r')
      | Closes now \<Rightarrow> closes now r
      | Gone \<Rightarrow> r\<lparr>rd_there := False\<rparr>)"

section \<open>What the socket has taken is frames\<close>


lemma stream_of_simps [simp]:
  "stream_of [] = []" "stream_of (f # fs) = frame_bytes f @ stream_of fs" "stream_of (fs @ gs) = stream_of fs @ stream_of gs"
  by (simp_all add: stream_of_def)

lemma frame_bytes_some [simp]: "frame_bytes f \<noteq> []" "0 < length (frame_bytes f)"
  by (simp_all add: frame_bytes_def)

lemma take_drop_more [simp]: "take n xs @ drop n xs @ ys = xs @ ys"
  by (simp flip: append_assoc)




lemma lengths_left_0 [simp]: "lengths_left 0 ls = ls"
  by (cases ls) auto









lemma length_message: "frame_fits (MESSAGE, p) \<Longrightarrow> message_frame p = Inr (frame_bytes (MESSAGE, p))"
  by (simp add: message_frame_def frame_is)









section \<open>What a frontend reads\<close>





text \<open>Replies are put on their way whatever is owed already: no number of them lets a frontend go.\<close>

lemma replies_pile_up:
  assumes "rd_there r" and "length p \<le> LONGEST_FRAME"
  shows "length (rd_sending (foldl happens r (replicate n (Replies p)))) = length (rd_sending r) + n * (HEAD + length p) \<and>
    rd_there (foldl happens r (replicate n (Replies p))) \<and> rd_leaving (foldl happens r (replicate n (Replies p))) = rd_leaving r"
  using assms(1)
proof (induction n arbitrary: r)
  case (Suc n)
  have "happens r (Replies p) = queues (frame_bytes (MESSAGE, p)) r"
    using Suc.prems assms(2) by (simp add: happens_def replies_def length_message frame_fits_def)
  then show ?case using Suc by (simp add: queues_def length_frame_bytes)
qed simp

end
