(* ===== verification/Handing.thy ===== *)
theory Handing
  imports Main
begin

text \<open>
  \<open>hmz.daemon.routing\<close>: this machine's one daemon, the hosts it holds by workspace and slot, and the sockets it hands
  each down. Every connection has a thread of its own, and a thread watches each host; a step is what one of them
  does under one lock or in one system call, and they interleave in any order.
\<close>

type_synonym slot = "string \<times> string"

text \<open>
  \<open>_Held\<close>, with the connection it is handed sockets on. \<open>ho_told\<close> is false while the host has not been said to be
  taken on, \<open>ho_sending\<close> is a socket kept and not yet sent -- each holds the host's lock --, \<open>ho_down\<close> and \<open>ho_up\<close>
  what is on its way to the host and back from it, \<open>ho_has\<close> what the host has, \<open>ho_letting\<close> how many sockets its
  watcher has still to let go of, and \<open>ho_gone\<close> that its connection was read to its end.
\<close>

record host =
  ho_slot :: slot
  ho_pid :: nat
  ho_told :: bool
  ho_sending :: "nat option"
  ho_sent :: "nat list"
  ho_down :: "nat list"
  ho_has :: "nat list"
  ho_up :: nat
  ho_letting :: nat
  ho_gone :: bool

text \<open>
  \<open>Router\<close>: the hosts held, every host that ever connected, the sockets this end still has open, the slot each
  frontend asked for, those whose thread has not looked for a host, those that found one and have not its lock yet,
  and the processes that are there.
\<close>

record router =
  ro_held :: "slot \<Rightarrow> nat option"
  ro_hosts :: "nat \<Rightarrow> host option"
  ro_open :: "nat set"
  ro_asked :: "nat \<Rightarrow> slot option"
  ro_waiting :: "nat set"
  ro_found :: "(nat \<times> nat) set"
  ro_alive :: "nat set"
  ro_ever :: bool

definition router_made :: "nat set \<Rightarrow> router" where
  "router_made alive = \<lparr>ro_held = (\<lambda>k. None), ro_hosts = (\<lambda>h. None), ro_open = {}, ro_asked = (\<lambda>s. None), ro_waiting = {}, ro_found = {},
     ro_alive = alive, ro_ever = False\<rparr>"

definition at_host :: "nat \<Rightarrow> host \<Rightarrow> router \<Rightarrow> router" where
  "at_host h x r = r\<lparr>ro_hosts := (ro_hosts r)(h := Some x)\<rparr>"

definition host_made :: "slot \<Rightarrow> nat \<Rightarrow> host" where
  "host_made k pid = \<lparr>ho_slot = k, ho_pid = pid, ho_told = False, ho_sending = None, ho_sent = [], ho_down = [], ho_has = [],
     ho_up = 0, ho_letting = 0, ho_gone = False\<rparr>"

text \<open>\<open>_serves\<close>, under both locks: refused where no workspace is named, or a host that is there holds the slot.\<close>

definition refuses :: "slot \<Rightarrow> router \<Rightarrow> bool" where
  "refuses k r \<longleftrightarrow>
     fst k = [] \<or> (case ro_held r k of None \<Rightarrow> False | Some h \<Rightarrow> case ro_hosts r h of None \<Rightarrow> False | Some x \<Rightarrow> ho_pid x \<in> ro_alive r)"

definition takes_on :: "nat \<Rightarrow> slot \<Rightarrow> nat \<Rightarrow> router \<Rightarrow> router" where
  "takes_on h k pid r = (at_host h (host_made k pid) r)\<lparr>ro_held := (ro_held r)(k := Some h), ro_ever := True\<rparr>"

text \<open>What is held is forgotten only where it is still this host.\<close>

definition forgets :: "nat \<Rightarrow> host \<Rightarrow> router \<Rightarrow> router" where
  "forgets h x r = (if ro_held r (ho_slot x) = Some h then r\<lparr>ro_held := (ro_held r)(ho_slot x := None)\<rparr> else r)"

definition shuts :: "nat \<Rightarrow> router \<Rightarrow> router" where
  "shuts s r = r\<lparr>ro_open := ro_open r - {s}\<rparr>"

text \<open>\<open>_lets_go\<close>, a turn of its loop: the oldest socket kept is closed, and where none is kept it is over.\<close>

definition lets_one_go :: "nat \<Rightarrow> host \<Rightarrow> router \<Rightarrow> router" where
  "lets_one_go h x r =
     (case ho_sent x of
        [] \<Rightarrow> at_host h (x\<lparr>ho_letting := 0\<rparr>) r
      | s # rest \<Rightarrow> shuts s (at_host h (x\<lparr>ho_sent := rest, ho_letting := ho_letting x - 1\<rparr>) r))"

inductive routes :: "router \<Rightarrow> router \<Rightarrow> bool" where
  connects: "ro_asked r s = None \<Longrightarrow>
    routes r (r\<lparr>ro_open := insert s (ro_open r), ro_asked := (ro_asked r)(s := Some k), ro_waiting := insert s (ro_waiting r)\<rparr>)"
| serves: "ro_hosts r h = None \<Longrightarrow> \<not> refuses k r \<Longrightarrow> pid \<in> ro_alive r \<Longrightarrow> routes r (takes_on h k pid r)"
| says_taken: "ro_hosts r h = Some x \<Longrightarrow> \<not> ho_told x \<Longrightarrow> routes r (at_host h (x\<lparr>ho_told := True\<rparr>) r)"
| cannot_say: "ro_hosts r h = Some x \<Longrightarrow> \<not> ho_told x \<Longrightarrow> routes r (forgets h x (at_host h (x\<lparr>ho_gone := True\<rparr>) r))"
| finds: "s \<in> ro_waiting r \<Longrightarrow> ro_asked r s = Some k \<Longrightarrow> ro_held r k = Some h \<Longrightarrow>
    routes r (r\<lparr>ro_waiting := ro_waiting r - {s}, ro_found := insert (s, h) (ro_found r)\<rparr>)"
| finds_none: "s \<in> ro_waiting r \<Longrightarrow> ro_asked r s = Some k \<Longrightarrow> ro_held r k = None \<Longrightarrow>
    routes r (shuts s (r\<lparr>ro_waiting := ro_waiting r - {s}\<rparr>))"
| keeps: "(s, h) \<in> ro_found r \<Longrightarrow> ro_hosts r h = Some x \<Longrightarrow> ho_told x \<Longrightarrow> ho_sending x = None \<Longrightarrow>
    routes r (at_host h (x\<lparr>ho_sent := ho_sent x @ [s], ho_sending := Some s\<rparr>) (r\<lparr>ro_found := ro_found r - {(s, h)}\<rparr>))"
| sends: "ro_hosts r h = Some x \<Longrightarrow> ho_sending x = Some s \<Longrightarrow> \<not> ho_gone x \<Longrightarrow>
    routes r (at_host h (x\<lparr>ho_sending := None, ho_down := ho_down x @ [s]\<rparr>) r)"
| cannot_send: "ro_hosts r h = Some x \<Longrightarrow> ho_sending x = Some s \<Longrightarrow>
    routes r (shuts s (at_host h (x\<lparr>ho_sending := None, ho_sent := remove1 s (ho_sent x)\<rparr>) r))"
| has: "ro_hosts r h = Some x \<Longrightarrow> ho_down x = s # rest \<Longrightarrow>
    routes r (at_host h (x\<lparr>ho_down := rest, ho_has := ho_has x @ [s], ho_up := ho_up x + 1\<rparr>) r)"
| hears: "ro_hosts r h = Some x \<Longrightarrow> ho_told x \<Longrightarrow> ho_letting x = 0 \<Longrightarrow> \<not> ho_gone x \<Longrightarrow> 0 < n \<Longrightarrow> n \<le> ho_up x \<Longrightarrow>
    routes r (at_host h (x\<lparr>ho_up := ho_up x - n, ho_letting := n\<rparr>) r)"
| lets_go: "ro_hosts r h = Some x \<Longrightarrow> 0 < ho_letting x \<Longrightarrow> routes r (lets_one_go h x r)"
| goes: "ro_hosts r h = Some x \<Longrightarrow> ho_told x \<Longrightarrow> ho_letting x = 0 \<Longrightarrow> \<not> ho_gone x \<Longrightarrow>
    routes r (forgets h x (at_host h (x\<lparr>ho_gone := True, ho_letting := length (ho_sent x)\<rparr>) r))"
| dies: "routes r (r\<lparr>ro_alive := ro_alive r - {pid}\<rparr>)"

inductive_cases routes_cases: "routes r r'"

section \<open>What a host holds\<close>

text \<open>
  The sockets kept for a host are those it has and has said it has, in that order, then those on their way, then
  the one being sent.
\<close>

definition host_ok :: "host \<Rightarrow> bool" where
  "host_ok x \<longleftrightarrow>
     (\<not> ho_gone x \<longrightarrow>
       (\<exists>acked. ho_sent x = acked @ ho_down x @ (case ho_sending x of None \<Rightarrow> [] | Some s \<Rightarrow> [s]) \<and>
         length acked = ho_up x + ho_letting x \<and> set acked \<subseteq> set (ho_has x))) \<and>
     distinct (ho_sent x)"

definition sockets_of :: "host \<Rightarrow> nat set" where
  "sockets_of x = set (ho_sent x) \<union> set (ho_down x) \<union> set (ho_has x) \<union> set_option (ho_sending x)"

text \<open>A host that is there holds its slot; its sockets asked for it; none it keeps is anywhere else.\<close>

definition holds_slot :: "router \<Rightarrow> nat \<Rightarrow> host \<Rightarrow> bool" where
  "holds_slot r h x \<longleftrightarrow> (\<not> ho_gone x \<and> ho_pid x \<in> ro_alive r \<longrightarrow> ro_held r (ho_slot x) = Some h)"

definition asked_for :: "router \<Rightarrow> host \<Rightarrow> bool" where
  "asked_for r x \<longleftrightarrow> (\<forall>s\<in>sockets_of x. ro_asked r s = Some (ho_slot x))"

definition kept_once :: "router \<Rightarrow> host \<Rightarrow> bool" where
  "kept_once r x \<longleftrightarrow> (\<forall>s\<in>sockets_of x. s \<notin> ro_waiting r \<and> s \<notin> fst ` ro_found r)"

definition hosts_ok :: "router \<Rightarrow> bool" where
  "hosts_ok r \<longleftrightarrow> (\<forall>h x. ro_hosts r h = Some x \<longrightarrow> host_ok x \<and> holds_slot r h x \<and> asked_for r x \<and> kept_once r x)"

definition held_ok :: "router \<Rightarrow> bool" where
  "held_ok r \<longleftrightarrow> (\<forall>k h. ro_held r k = Some h \<longrightarrow> map_option ho_slot (ro_hosts r h) = Some k)"

definition found_ok :: "router \<Rightarrow> bool" where
  "found_ok r \<longleftrightarrow>
     (\<forall>(s, h)\<in>ro_found r. s \<notin> ro_waiting r \<and> ro_asked r s \<noteq> None \<and> map_option ho_slot (ro_hosts r h) = ro_asked r s) \<and>
     single_valued (ro_found r)"

definition router_ok :: "router \<Rightarrow> bool" where
  "router_ok r \<longleftrightarrow> hosts_ok r \<and> held_ok r \<and> found_ok r"

lemmas router_parts = hosts_ok_def held_ok_def found_ok_def holds_slot_def asked_for_def kept_once_def

lemma at_host_fields [simp]:
  "ro_hosts (at_host h x r) = (ro_hosts r)(h := Some x)" "ro_held (at_host h x r) = ro_held r" "ro_open (at_host h x r) = ro_open r"
  "ro_asked (at_host h x r) = ro_asked r" "ro_waiting (at_host h x r) = ro_waiting r" "ro_found (at_host h x r) = ro_found r"
  "ro_alive (at_host h x r) = ro_alive r"
  by (simp_all add: at_host_def)

lemma shuts_fields [simp]:
  "ro_hosts (shuts s r) = ro_hosts r" "ro_held (shuts s r) = ro_held r" "ro_asked (shuts s r) = ro_asked r"
  "ro_waiting (shuts s r) = ro_waiting r" "ro_found (shuts s r) = ro_found r" "ro_alive (shuts s r) = ro_alive r"
  by (simp_all add: shuts_def)

lemma router_ok_shuts [simp]: "router_ok (shuts s r) = router_ok r"
  by (simp add: router_ok_def router_parts)

text \<open>A host changed in its own steps: its slot and its process the same, nothing new among its sockets.\<close>

lemma router_ok_change:
  assumes "router_ok r" and "ro_hosts r h = Some x" and "host_ok x'" and "ho_slot x' = ho_slot x" and "ho_pid x' = ho_pid x"
    and "ho_gone x \<longrightarrow> ho_gone x'" and "sockets_of x' \<subseteq> sockets_of x"
  shows "router_ok (at_host h x' r)"
proof -
  have r: "hosts_ok r" "held_ok r" "found_ok r" using assms(1) by (simp_all add: router_ok_def)
  have x: "holds_slot r h x" "asked_for r x" "kept_once r x" using r(1) assms(2) by (simp_all add: hosts_ok_def)
  have "holds_slot (at_host h x' r) h x'" using x(1) assms(4-6) by (auto simp: holds_slot_def)
  moreover have "asked_for (at_host h x' r) x'" using x(2) assms(4,7) by (auto simp: asked_for_def)
  moreover have "kept_once (at_host h x' r) x'" using x(3) assms(7) by (auto simp: kept_once_def)
  moreover have "holds_slot (at_host h x' r) g y = holds_slot r g y" "asked_for (at_host h x' r) y = asked_for r y"
      "kept_once (at_host h x' r) y = kept_once r y" for g y
    by (simp_all add: holds_slot_def asked_for_def kept_once_def)
  ultimately have "hosts_ok (at_host h x' r)" using r(1) assms(3) by (simp add: hosts_ok_def)
  moreover have slots: "map_option ho_slot (ro_hosts (at_host h x' r) g) = map_option ho_slot (ro_hosts r g)" for g
    using assms(2,4) by simp
  then have "held_ok (at_host h x' r)" "found_ok (at_host h x' r)" using r(2,3) unfolding held_ok_def found_ok_def slots by simp_all
  ultimately show ?thesis by (simp add: router_ok_def)
qed

section \<open>What every step keeps\<close>

lemma router_ok_forgets:
  assumes "router_ok r" and "ro_hosts r h = Some x" and "ho_gone x" and "ho_slot x' = ho_slot x"
  shows "router_ok (forgets h x' r)"
proof (cases "ro_held r (ho_slot x) = Some h")
  case True
  let ?r = "r\<lparr>ro_held := (ro_held r)(ho_slot x := None)\<rparr>"
  have r: "hosts_ok r" "held_ok r" "found_ok r" using assms(1) by (simp_all add: router_ok_def)
  have "holds_slot ?r g y" if y: "ro_hosts r g = Some y" for g y
    unfolding holds_slot_def
  proof (intro impI)
    assume "\<not> ho_gone y \<and> ho_pid y \<in> ro_alive ?r"
    then have here: "\<not> ho_gone y" "ho_pid y \<in> ro_alive r" by simp_all
    have "holds_slot r g y" using r(1) y by (simp add: hosts_ok_def)
    then have g: "ro_held r (ho_slot y) = Some g" using here by (simp add: holds_slot_def)
    have "ho_slot y \<noteq> ho_slot x" using g True y here assms(2,3) by auto
    then show "ro_held ?r (ho_slot y) = Some g" using g by simp
  qed
  moreover have "asked_for ?r y = asked_for r y" "kept_once ?r y = kept_once r y" for y
    by (simp_all add: asked_for_def kept_once_def)
  ultimately have "hosts_ok ?r" using r(1) by (simp add: hosts_ok_def)
  moreover have "held_ok ?r" "found_ok ?r" using r(2,3) by (auto simp: held_ok_def found_ok_def)
  ultimately show ?thesis using True assms(4) by (simp add: forgets_def router_ok_def)
next
  case False
  then show ?thesis using assms(1,4) by (simp add: forgets_def)
qed

lemma router_ok_connects:
  assumes "router_ok r" and "ro_asked r s = None"
  shows "router_ok (r\<lparr>ro_open := insert s (ro_open r), ro_asked := (ro_asked r)(s := Some k), ro_waiting := insert s (ro_waiting r)\<rparr>)"
    (is "router_ok ?r")
proof -
  have r: "hosts_ok r" "held_ok r" "found_ok r" using assms(1) by (simp_all add: router_ok_def)
  have "s \<notin> sockets_of x" if "ro_hosts r h = Some x" for h x
    using r(1) that assms(2) by (auto simp: hosts_ok_def asked_for_def)
  then have "asked_for ?r x \<and> kept_once ?r x" if "ro_hosts r h = Some x" for h x
    using r(1) that by (force simp: hosts_ok_def asked_for_def kept_once_def sockets_of_def)
  then have "hosts_ok ?r" using r(1) by (auto simp: hosts_ok_def holds_slot_def)
  moreover have "t \<noteq> s" if "(t, g) \<in> ro_found r" for t g using r(3) assms(2) that by (auto simp: found_ok_def)
  then have "found_ok ?r" using r(3) unfolding found_ok_def by (auto split: prod.splits)
  ultimately show ?thesis using r(2) by (simp add: router_ok_def held_ok_def)
qed

lemma router_ok_serves:
  assumes "router_ok r" and "ro_hosts r h = None" and "\<not> refuses k r"
  shows "router_ok (takes_on h k pid r)"
proof -
  let ?r = "takes_on h k pid r"
  have r: "hosts_ok r" "held_ok r" "found_ok r" using assms(1) by (simp_all add: router_ok_def)
  have old: "holds_slot ?r g y" if y: "ro_hosts r g = Some y" for g y
    unfolding holds_slot_def
  proof (intro impI)
    assume "\<not> ho_gone y \<and> ho_pid y \<in> ro_alive ?r"
    then have here: "\<not> ho_gone y" "ho_pid y \<in> ro_alive r" by (simp_all add: takes_on_def)
    have "holds_slot r g y" using r(1) y by (simp add: hosts_ok_def)
    then have g: "ro_held r (ho_slot y) = Some g" using here by (simp add: holds_slot_def)
    have "ho_slot y \<noteq> k" using g y here assms(3) by (auto simp: refuses_def)
    then show "ro_held ?r (ho_slot y) = Some g" using g by (simp add: takes_on_def)
  qed
  have new: "host_ok (host_made k pid)" "holds_slot ?r h (host_made k pid)" "asked_for ?r (host_made k pid)" "kept_once ?r (host_made k pid)"
    by (simp_all add: host_ok_def holds_slot_def asked_for_def kept_once_def host_made_def takes_on_def sockets_of_def)
  have same: "ro_hosts ?r = (ro_hosts r)(h := Some (host_made k pid))" "ro_found ?r = ro_found r" "ro_waiting ?r = ro_waiting r"
    "ro_asked ?r = ro_asked r" "ro_held ?r = (ro_held r)(k := Some h)" by (simp_all add: takes_on_def)
  have "asked_for ?r y = asked_for r y" "kept_once ?r y = kept_once r y" for y
    by (simp_all add: asked_for_def kept_once_def same)
  then have "hosts_ok ?r" using r(1) old new by (simp add: hosts_ok_def same)
  moreover have held: "g \<noteq> h" if "map_option ho_slot (ro_hosts r g) = Some j" for g j using that assms(2) by auto
  have "map_option ho_slot (ro_hosts ?r g) = Some j" if j: "ro_held ?r j = Some g" for j g
  proof (cases "j = k")
    case True
    then show ?thesis using j same(1) same(5) by (auto simp: host_made_def)
  next
    case False
    then have "map_option ho_slot (ro_hosts r g) = Some j" using j r(2) by (simp add: held_ok_def same del: split_paired_All)
    then show ?thesis using held by (simp add: same)
  qed
  then have "held_ok ?r" by (simp add: held_ok_def del: split_paired_All)
  moreover have found: "map_option ho_slot (ro_hosts ?r g) = ro_asked ?r s" "s \<notin> ro_waiting ?r" "ro_asked ?r s \<noteq> None"
    if "(s, g) \<in> ro_found ?r" for s g
  proof -
    have f: "map_option ho_slot (ro_hosts r g) = ro_asked r s" "s \<notin> ro_waiting r" "ro_asked r s \<noteq> None"
      using r(3) that by (auto simp: found_ok_def same)
    then obtain j where "ro_asked r s = Some j" by blast
    then have "g \<noteq> h" using held [of g j] f(1) by simp
    then show "map_option ho_slot (ro_hosts ?r g) = ro_asked ?r s" "s \<notin> ro_waiting ?r" "ro_asked ?r s \<noteq> None"
      using f by (simp_all add: same)
  qed
  have "single_valued (ro_found ?r)" using r(3) by (simp add: found_ok_def same)
  then have "found_ok ?r" using found unfolding found_ok_def by blast
  ultimately show ?thesis by (simp add: router_ok_def takes_on_def)
qed

lemma router_ok_keeps:
  assumes "router_ok r" and "(s, h) \<in> ro_found r" and "ro_hosts r h = Some x" and "ho_sending x = None"
  shows "router_ok (at_host h (x\<lparr>ho_sent := ho_sent x @ [s], ho_sending := Some s\<rparr>) (r\<lparr>ro_found := ro_found r - {(s, h)}\<rparr>))"
    (is "router_ok (at_host h ?x ?r)")
proof -
  have r: "hosts_ok r" "held_ok r" "found_ok r" using assms(1) by (simp_all add: router_ok_def)
  have x: "host_ok x" "holds_slot r h x" "asked_for r x" "kept_once r x" using r(1) assms(3) by (simp_all add: hosts_ok_def)
  have s: "s \<notin> ro_waiting r" "ro_asked r s = Some (ho_slot x)" using r(3) assms(2,3) by (auto simp: found_ok_def)
  have once: "s \<notin> fst ` (ro_found r - {(s, h)})" using r(3) assms(2) by (auto simp: found_ok_def dest: single_valuedD)
  have new: "s \<notin> set (ho_sent x)" using x(4) assms(2) by (force simp: kept_once_def sockets_of_def)
  have "host_ok ?x" using x(1) assms(4) new by (auto simp: host_ok_def)
  moreover have "holds_slot (at_host h ?x ?r) h ?x" "asked_for (at_host h ?x ?r) ?x"
    using x(2,3) s(2) assms(4) by (auto simp: holds_slot_def asked_for_def sockets_of_def)
  moreover have "kept_once (at_host h ?x ?r) ?x" using x(4) s(1) once assms(4) by (auto simp: kept_once_def sockets_of_def)
  moreover have "holds_slot (at_host h ?x ?r) g y" "asked_for (at_host h ?x ?r) y" "kept_once (at_host h ?x ?r) y" "host_ok y"
    if "ro_hosts r g = Some y" for g y
  proof -
    have y: "host_ok y" "holds_slot r g y" "asked_for r y" "kept_once r y" using r(1) that by (simp_all add: hosts_ok_def)
    then show "holds_slot (at_host h ?x ?r) g y" "asked_for (at_host h ?x ?r) y" "kept_once (at_host h ?x ?r) y" "host_ok y"
      by (auto simp: holds_slot_def asked_for_def kept_once_def)
  qed
  ultimately have "hosts_ok (at_host h ?x ?r)" by (simp add: hosts_ok_def)
  moreover have "held_ok (at_host h ?x ?r)" using r(2) assms(3) by (fastforce simp: held_ok_def)
  moreover have "found_ok (at_host h ?x ?r)"
    using r(3) assms(3) unfolding found_ok_def by (auto intro: single_valued_subset)
  ultimately show ?thesis by (simp add: router_ok_def)
qed

lemma router_ok_lets_go:
  assumes "router_ok r" and "ro_hosts r h = Some x" and "0 < ho_letting x"
  shows "router_ok (lets_one_go h x r)"
proof (cases "ho_sent x")
  case Nil
  have "host_ok x" using assms(1,2) by (simp add: router_ok_def hosts_ok_def)
  then have "ho_gone x" using Nil assms(3) by (auto simp: host_ok_def)
  then have "host_ok (x\<lparr>ho_letting := 0\<rparr>)" using Nil by (simp add: host_ok_def)
  then have "router_ok (at_host h (x\<lparr>ho_letting := 0\<rparr>) r)"
    by (intro router_ok_change [OF assms(1,2)]) (simp_all add: sockets_of_def)
  then show ?thesis by (simp add: lets_one_go_def Nil)
next
  case (Cons s rest)
  let ?x = "x\<lparr>ho_sent := rest, ho_letting := ho_letting x - 1\<rparr>"
  have x: "host_ok x" using assms(1,2) by (simp add: router_ok_def hosts_ok_def)
  have ok: "host_ok ?x"
  proof (cases "ho_gone x")
    case True
    then show ?thesis using x Cons by (simp add: host_ok_def)
  next
    case False
    then obtain acked where a: "ho_sent x = acked @ ho_down x @ (case ho_sending x of None \<Rightarrow> [] | Some s \<Rightarrow> [s])"
        "length acked = ho_up x + ho_letting x" "set acked \<subseteq> set (ho_has x)"
      using x by (auto simp: host_ok_def)
    obtain acked' where "acked = s # acked'" using a(1,2) assms(3) Cons by (cases acked) auto
    then show ?thesis using a x Cons assms(3) by (auto simp: host_ok_def)
  qed
  then have "router_ok (at_host h ?x r)" using Cons
    by (intro router_ok_change [OF assms(1,2)]) (auto simp: sockets_of_def)
  then show ?thesis using ok by (auto simp: lets_one_go_def Cons Let_def)
qed

lemma router_ok_waiting: "router_ok r \<Longrightarrow> router_ok (r\<lparr>ro_waiting := ro_waiting r - {s}\<rparr>)"
  by (auto simp: router_ok_def hosts_ok_def holds_slot_def asked_for_def kept_once_def held_ok_def found_ok_def)

lemma router_ok_finds:
  assumes "router_ok r" and "s \<in> ro_waiting r" and "ro_asked r s = Some k" and "ro_held r k = Some h"
  shows "router_ok (r\<lparr>ro_waiting := ro_waiting r - {s}, ro_found := insert (s, h) (ro_found r)\<rparr>)" (is "router_ok ?r")
proof -
  have r: "hosts_ok r" "held_ok r" "found_ok r" using assms(1) by (simp_all add: router_ok_def)
  have "hosts_ok ?r" using r(1) assms(2) by (auto simp: hosts_ok_def holds_slot_def asked_for_def kept_once_def)
  moreover have "single_valued (insert (s, h) (ro_found r))"
    using r(3) assms(2) by (auto simp: found_ok_def single_valued_def)
  moreover have "map_option ho_slot (ro_hosts r h) = ro_asked r s"
    using r(2) assms(3,4) by (simp add: held_ok_def del: split_paired_All)
  ultimately have "found_ok ?r" using r(3) assms(3) by (auto simp: found_ok_def)
  moreover have "hosts_ok ?r" by fact
  ultimately show ?thesis using r(2) by (simp add: router_ok_def held_ok_def)
qed

lemma router_ok_at: "router_ok r \<Longrightarrow> ro_hosts r h = Some x \<Longrightarrow> host_ok x"
  by (simp add: router_ok_def hosts_ok_def)

lemma routes_keeps:
  assumes "routes r r'" and "router_ok r"
  shows "router_ok r'"
  using assms(1)
proof cases
  case (connects s k)
  then show ?thesis using router_ok_connects assms(2) by blast
next
  case (serves h k pid)
  then show ?thesis using router_ok_serves assms(2) by blast
next
  case (says_taken h x)
  then have "host_ok (x\<lparr>ho_told := True\<rparr>)" using router_ok_at [OF assms(2)] by (simp add: host_ok_def)
  then show ?thesis using assms(2) says_taken by (auto intro!: router_ok_change simp: sockets_of_def)
next
  case (cannot_say h x)
  have "router_ok (at_host h (x\<lparr>ho_gone := True\<rparr>) r)"
    using cannot_say router_ok_at [OF assms(2) cannot_say(2)]
    by (intro router_ok_change [OF assms(2) cannot_say(2)]) (simp_all add: host_ok_def sockets_of_def)
  then show ?thesis using cannot_say by (auto intro!: router_ok_forgets [of _ _ "x\<lparr>ho_gone := True\<rparr>"])
next
  case (finds s k h)
  then show ?thesis using assms(2) router_ok_finds by blast
next
  case (finds_none s k)
  then show ?thesis using assms(2) router_ok_waiting by simp
next
  case (keeps s h x)
  then show ?thesis using router_ok_keeps assms(2) by blast
next
  case (sends h x s)
  have "host_ok x" using router_ok_at [OF assms(2)] sends by simp
  then have "host_ok (x\<lparr>ho_sending := None, ho_down := ho_down x @ [s]\<rparr>)" using sends by (simp add: host_ok_def)
  then show ?thesis using assms(2) sends by (auto intro!: router_ok_change simp: sockets_of_def)
next
  case (cannot_send h x s)
  have "host_ok x" using router_ok_at [OF assms(2)] cannot_send by simp
  then have "host_ok (x\<lparr>ho_sending := None, ho_sent := remove1 s (ho_sent x)\<rparr>)"
    using cannot_send by (auto simp: host_ok_def remove1_append)
  then show ?thesis using assms(2) cannot_send by (auto intro!: router_ok_change simp: sockets_of_def dest: notin_set_remove1 set_remove1_subset [THEN subsetD])
next
  case (has h x s rest)
  have "host_ok x" using router_ok_at [OF assms(2)] has by simp
  then have "host_ok (x\<lparr>ho_down := rest, ho_has := ho_has x @ [s], ho_up := ho_up x + 1\<rparr>)"
    using has by (force simp: host_ok_def intro: exI [of _ "_ @ [s]"])
  then show ?thesis using assms(2) has by (auto intro!: router_ok_change simp: sockets_of_def)
next
  case (hears h x n)
  have "host_ok x" using router_ok_at [OF assms(2)] hears by simp
  then have "host_ok (x\<lparr>ho_up := ho_up x - n, ho_letting := n\<rparr>)" using hears by (auto simp: host_ok_def)
  then show ?thesis using assms(2) hears by (auto intro!: router_ok_change simp: sockets_of_def)
next
  case (lets_go h x)
  then show ?thesis using router_ok_lets_go assms(2) by blast
next
  case (goes h x)
  have "router_ok (at_host h (x\<lparr>ho_gone := True, ho_letting := length (ho_sent x)\<rparr>) r)"
    using goes router_ok_at [OF assms(2) goes(2)]
    by (intro router_ok_change [OF assms(2) goes(2)]) (simp_all add: host_ok_def sockets_of_def)
  then show ?thesis using goes by (auto intro!: router_ok_forgets [of _ _ "x\<lparr>ho_gone := True, ho_letting := length (ho_sent x)\<rparr>"])
next
  case (dies pid)
  then show ?thesis using assms(2) by (auto simp: router_ok_def hosts_ok_def holds_slot_def asked_for_def kept_once_def held_ok_def found_ok_def)
qed

lemma router_made_ok: "router_ok (router_made alive)"
  by (simp add: router_ok_def router_parts router_made_def)

lemma handing_reached_ok: "routes\<^sup>*\<^sup>* (router_made alive) r \<Longrightarrow> router_ok r"
  by (induction rule: rtranclp_induct) (simp_all add: router_made_ok routes_keeps)

section \<open>What this end keeps open\<close>

text \<open>Every socket waiting for its host, found one or kept for one is open at this end, and none is at two hosts.\<close>

definition at_hosts :: "router \<Rightarrow> (nat \<times> nat) set" where
  "at_hosts r = {(s, h). \<exists>x. ro_hosts r h = Some x \<and> s \<in> sockets_of x}"

definition open_ok :: "router \<Rightarrow> bool" where
  "open_ok r \<longleftrightarrow> ro_waiting r \<union> fst ` ro_found r \<subseteq> ro_open r \<and>
     (\<forall>h x s. ro_hosts r h = Some x \<and> s \<in> set (ho_sent x) \<longrightarrow> s \<in> ro_open r) \<and> single_valued (at_hosts r)"

lemma at_hosts_unmoved [simp]:
  "at_hosts (shuts s r) = at_hosts r" "at_hosts (forgets h x r) = at_hosts r" "at_hosts (r\<lparr>ro_waiting := w\<rparr>) = at_hosts r"
  "at_hosts (r\<lparr>ro_found := f\<rparr>) = at_hosts r" "at_hosts (r\<lparr>ro_alive := p\<rparr>) = at_hosts r"
  by (simp_all add: at_hosts_def forgets_def)

lemma at_hosts_at_host: "at_hosts (at_host h x r) = {(s, g) \<in> at_hosts r. g \<noteq> h} \<union> sockets_of x \<times> {h}"
  by (auto simp: at_hosts_def split: if_splits)

lemma open_ok_forgets [simp]: "open_ok (forgets h x r) = open_ok r"
  by (simp add: open_ok_def) (simp add: forgets_def)

lemma open_ok_change:
  assumes "open_ok r" and "ro_hosts r h = Some x" and "sockets_of x' \<subseteq> sockets_of x" and "set (ho_sent x') \<subseteq> set (ho_sent x)"
  shows "open_ok (at_host h x' r)"
proof -
  have "at_hosts (at_host h x' r) \<subseteq> at_hosts r" using assms(2,3) by (auto simp: at_hosts_def split: if_splits)
  then have "single_valued (at_hosts (at_host h x' r))" using assms(1) by (auto simp: open_ok_def intro: single_valued_subset)
  then show ?thesis using assms(1,2,4) by (auto simp: open_ok_def)
qed

lemma open_ok_shuts:
  assumes "open_ok r" and "s \<notin> ro_waiting r" and "s \<notin> fst ` ro_found r" and "\<And>h x. ro_hosts r h = Some x \<Longrightarrow> s \<notin> set (ho_sent x)"
  shows "open_ok (shuts s r)"
  using assms unfolding open_ok_def by (simp add: shuts_def at_hosts_def) blast

lemma sent_is_socket: "set (ho_sent x) \<subseteq> sockets_of x"
  by (auto simp: sockets_of_def)

text \<open>A socket of a host, let go of at this end: it is neither waiting nor found, and no other host's.\<close>

lemma open_ok_lets_go:
  assumes "router_ok r" and "open_ok r" and "ro_hosts r h = Some x" and "s \<in> sockets_of x"
    and "sockets_of x' \<subseteq> sockets_of x" and "set (ho_sent x') \<subseteq> set (ho_sent x) - {s}"
  shows "open_ok (shuts s (at_host h x' r))"
proof (rule open_ok_shuts)
  show "open_ok (at_host h x' r)" using assms(2,3,5,6) by (intro open_ok_change) auto
  have "kept_once r x" using assms(1,3) by (simp add: router_ok_def hosts_ok_def)
  then show "s \<notin> ro_waiting (at_host h x' r)" "s \<notin> fst ` ro_found (at_host h x' r)"
    using assms(4) by (simp_all add: kept_once_def)
  show "s \<notin> set (ho_sent y)" if "ro_hosts (at_host h x' r) g = Some y" for g y
  proof (cases "g = h")
    case False
    have "(s, h) \<in> at_hosts r" using assms(3,4) by (auto simp: at_hosts_def)
    then have "(s, g) \<notin> at_hosts r" using assms(2) False by (auto simp: open_ok_def dest: single_valuedD)
    then show ?thesis using that False by (auto simp: at_hosts_def sockets_of_def)
  qed (use that assms(6) in auto)
qed

lemma open_ok_keeps:
  assumes "router_ok r" and "open_ok r" and "(s, h) \<in> ro_found r" and "ro_hosts r h = Some x" and "ho_sending x = None"
  shows "open_ok (at_host h (x\<lparr>ho_sent := ho_sent x @ [s], ho_sending := Some s\<rparr>) (r\<lparr>ro_found := ro_found r - {(s, h)}\<rparr>))"
    (is "open_ok (at_host h ?x ?r)")
proof -
  have more: "sockets_of ?x = insert s (sockets_of x)" using assms(5) by (auto simp: sockets_of_def)
  have "at_hosts (at_host h ?x ?r) = {(t, g) \<in> at_hosts r. g \<noteq> h} \<union> sockets_of ?x \<times> {h}"
    by (auto simp only: at_hosts_at_host at_hosts_unmoved)
  also have "\<dots> = insert (s, h) ({(t, g) \<in> at_hosts r. g \<noteq> h} \<union> sockets_of x \<times> {h})" unfolding more by blast
  also have "\<dots> = insert (s, h) (at_hosts (at_host h x r))" by (simp only: at_hosts_at_host)
  also have "at_host h x r = r" using assms(4) by (simp add: at_host_def fun_upd_idem)
  finally have at: "at_hosts (at_host h ?x ?r) = insert (s, h) (at_hosts r)" .
  have "s \<notin> sockets_of y" if "ro_hosts r g = Some y" for g y
  proof -
    have "kept_once r y" using assms(1) that by (simp add: router_ok_def hosts_ok_def)
    then show ?thesis using assms(3) by (force simp: kept_once_def)
  qed
  then have "(s, g) \<notin> at_hosts r" for g by (auto simp: at_hosts_def)
  then have "single_valued (insert (s, h) (at_hosts r))" using assms(2) by (auto simp: open_ok_def single_valued_def)
  moreover have "s \<in> ro_open r" using assms(2,3) by (force simp: open_ok_def)
  moreover have "t \<in> ro_open r" if "t \<in> set (ho_sent x)" for t using that assms(2,4) by (auto simp: open_ok_def)
  ultimately show ?thesis using assms(2) unfolding open_ok_def at by auto
qed

lemma routes_open:
  assumes "routes r r'" and "router_ok r" and "open_ok r"
  shows "open_ok r'"
  using assms(1)
proof cases
  case (connects s k)
  have "at_hosts r' = at_hosts r" using connects by (simp add: at_hosts_def)
  then show ?thesis using assms(3) connects(1) unfolding open_ok_def by auto
next
  case (serves h k pid)
  have "at_hosts r' = at_hosts r"
    using serves(1,2) by (auto simp: takes_on_def at_hosts_def host_made_def sockets_of_def)
  then show ?thesis using assms(3) serves(1) by (auto simp: open_ok_def takes_on_def host_made_def split: if_splits)
next
  case (finds s k h)
  have "at_hosts r' = at_hosts r" using finds by (simp add: at_hosts_def)
  then show ?thesis using assms(3) finds unfolding open_ok_def by auto
next
  case (finds_none s k)
  have "s \<notin> set (ho_sent x)" if "ro_hosts r h = Some x" for h x
  proof -
    have "kept_once r x" using assms(2) that by (simp add: router_ok_def hosts_ok_def)
    then show ?thesis using finds_none(2) sent_is_socket by (auto simp: kept_once_def)
  qed
  moreover have "s \<notin> fst ` ro_found r" using assms(2) finds_none(2) by (auto simp: router_ok_def found_ok_def)
  moreover have "open_ok (r\<lparr>ro_waiting := ro_waiting r - {s}\<rparr>)" using assms(3) by (auto simp: open_ok_def)
  ultimately show ?thesis using finds_none(1) by (auto intro!: open_ok_shuts)
next
  case (keeps s h x)
  then show ?thesis using open_ok_keeps assms(2,3) by blast
next
  case (cannot_send h x s)
  have "s \<notin> set (remove1 s (ho_sent x))" using router_ok_at [OF assms(2) cannot_send(2)] by (simp add: host_ok_def)
  then show ?thesis using cannot_send
    by (auto intro!: open_ok_lets_go [OF assms(2,3)] simp: sockets_of_def dest: set_remove1_subset [THEN subsetD])
next
  case (lets_go h x)
  show ?thesis
  proof (cases "ho_sent x")
    case Nil
    have "open_ok (at_host h (x\<lparr>ho_letting := 0\<rparr>) r)"
      by (rule open_ok_change [OF assms(3) lets_go(2)]) (simp_all add: sockets_of_def)
    then show ?thesis using lets_go(1) Nil by (simp add: lets_one_go_def)
  next
    case (Cons s rest)
    have "s \<notin> set rest" using router_ok_at [OF assms(2) lets_go(2)] Cons by (simp add: host_ok_def)
    then show ?thesis using lets_go Cons by (auto simp: lets_one_go_def sockets_of_def intro!: open_ok_lets_go [OF assms(2,3)])
  qed
next
  case (dies pid)
  then show ?thesis using assms(3) by (simp add: open_ok_def)
qed (use assms(3) in \<open>auto intro!: open_ok_change simp: sockets_of_def\<close>)

lemma handing_reached_open: "routes\<^sup>*\<^sup>* (router_made alive) r \<Longrightarrow> open_ok r"
proof (induction rule: rtranclp_induct)
  case base
  show ?case by (simp add: open_ok_def at_hosts_def router_made_def)
next
  case (step r r')
  then show ?case using handing_reached_ok routes_open by blast
qed

text \<open>A run of the daemon: a host of a workspace comes up, a frontend connects, and its socket is on its way.\<close>

definition shown_host :: host where
  "shown_host = (host_made (''/w'', []) 7)\<lparr>ho_told := True, ho_sent := [3], ho_down := [3]\<rparr>"

lemma shown_reached:
  "\<exists>r. routes\<^sup>*\<^sup>* (router_made {7}) r \<and> ro_hosts r 0 = Some shown_host \<and> ro_alive r = {7}"
proof -
  let ?k = "(''/w'', [] :: string)" and ?x = "host_made (''/w'', []) 7"
  let ?r1 = "takes_on 0 ?k 7 (router_made {7})"
  let ?r2 = "at_host 0 (?x\<lparr>ho_told := True\<rparr>) ?r1"
  let ?r3 = "?r2\<lparr>ro_open := insert 3 (ro_open ?r2), ro_asked := (ro_asked ?r2)(3 := Some ?k), ro_waiting := insert 3 (ro_waiting ?r2)\<rparr>"
  let ?r4 = "?r3\<lparr>ro_waiting := ro_waiting ?r3 - {3}, ro_found := insert (3, 0) (ro_found ?r3)\<rparr>"
  let ?y = "?x\<lparr>ho_told := True, ho_sent := [3], ho_sending := Some 3\<rparr>"
  let ?r5 = "at_host 0 ?y (?r4\<lparr>ro_found := ro_found ?r4 - {(3, 0)}\<rparr>)"
  let ?r6 = "at_host 0 (?y\<lparr>ho_sending := None, ho_down := [3]\<rparr>) ?r5"
  have "routes (router_made {7}) ?r1" by (rule routes.serves) (simp_all add: router_made_def refuses_def)
  moreover have "routes ?r1 ?r2" by (rule routes.says_taken) (simp_all add: takes_on_def host_made_def)
  moreover have "routes ?r2 ?r3" by (rule routes.connects) (simp add: takes_on_def router_made_def at_host_def)
  moreover have "routes ?r3 ?r4" by (rule routes.finds [where k = ?k]) (simp_all add: takes_on_def at_host_def)
  moreover have "routes ?r4 ?r5"
    using routes.keeps [of 3 0 ?r4 "?x\<lparr>ho_told := True\<rparr>"] by (simp add: host_made_def)
  moreover have "routes ?r5 ?r6"
    using routes.sends [of ?r5 0 ?y 3] by (simp add: host_made_def)
  ultimately have "routes\<^sup>*\<^sup>* (router_made {7}) ?r6" by (meson rtranclp.rtrancl_into_rtrancl rtranclp.rtrancl_refl)
  moreover have "ro_hosts ?r6 0 = Some shown_host" by (simp add: shown_host_def host_made_def)
  moreover have "ro_alive ?r6 = {7}" by (simp add: takes_on_def router_made_def)
  ultimately show ?thesis by blast
qed

text \<open>
  C34. A socket handed to a host is kept open at the daemon's own end until the host has it, however the threads
  interleave and whatever the host has acknowledged: every socket on its way to a host whose connection is still up
  is open here.
\<close>

theorem sockets_kept_until_taken:
  assumes "routes\<^sup>*\<^sup>* (router_made alive) r" and "ro_hosts r h = Some x" and "\<not> ho_gone x" and "s \<in> set (ho_down x)"
  shows "s \<in> ro_open r"
proof -
  have "host_ok x" using handing_reached_ok [OF assms(1)] assms(2) by (rule router_ok_at)
  then have "s \<in> set (ho_sent x)" using assms(3,4) by (auto simp: host_ok_def)
  then show ?thesis using handing_reached_open [OF assms(1)] assms(2) by (auto simp: open_ok_def)
qed

lemma sockets_kept_until_taken_witness:
  "\<exists>r. routes\<^sup>*\<^sup>* (router_made {7}) r \<and> ro_hosts r 0 = Some shown_host \<and> 3 \<in> ro_open r"
proof -
  obtain r where r: "routes\<^sup>*\<^sup>* (router_made {7}) r" "ro_hosts r 0 = Some shown_host" using shown_reached by blast
  have "3 \<in> ro_open r" by (rule sockets_kept_until_taken [OF r]) (simp_all add: shown_host_def host_made_def)
  then show ?thesis using r by blast
qed

text \<open>
  C35. Two hosts never hold one slot of one workspace at once: of two that were taken on, whose connections are up and
  whose processes are there, no two are of one slot, and every socket at a host is of a frontend that asked for that
  host's workspace and slot.
\<close>

theorem one_host_a_slot:
  assumes "routes\<^sup>*\<^sup>* (router_made alive) r" and "ro_hosts r h = Some x" and "ro_hosts r g = Some y"
    and "\<not> ho_gone x" and "\<not> ho_gone y" and "ho_pid x \<in> ro_alive r" and "ho_pid y \<in> ro_alive r" and "ho_slot x = ho_slot y"
  shows "h = g \<and> (\<forall>s\<in>sockets_of x. ro_asked r s = Some (ho_slot x))"
proof -
  have ok: "hosts_ok r" using handing_reached_ok [OF assms(1)] by (simp add: router_ok_def)
  then have "holds_slot r h x" "holds_slot r g y" "asked_for r x" using assms(2,3) by (simp_all add: hosts_ok_def)
  then show ?thesis using assms(4-8) by (simp add: holds_slot_def asked_for_def)
qed

lemma one_host_a_slot_witness:
  "\<exists>r. routes\<^sup>*\<^sup>* (router_made {7}) r \<and> ro_hosts r 0 = Some shown_host \<and> ro_asked r 3 = Some (''/w'', [])"
proof -
  obtain r where r: "routes\<^sup>*\<^sup>* (router_made {7}) r" "ro_hosts r 0 = Some shown_host" "ro_alive r = {7}"
    using shown_reached by blast
  have "\<forall>s\<in>sockets_of shown_host. ro_asked r s = Some (ho_slot shown_host)"
    using one_host_a_slot [OF r(1) r(2) r(2)] r(3) by (simp add: shown_host_def host_made_def)
  then show ?thesis using r(1,2) by (auto simp: shown_host_def host_made_def sockets_of_def)
qed

end
