(* ===== verification/Lines.thy ===== *)
theory Lines
  imports Main
begin

text \<open>
  The lines of a growing file that are finished: what is written of it up to and including its last line feed. Both the
  reading of a backend's log and the copying of a remote one stop there.
\<close>

abbreviation feed_char :: char where "feed_char \<equiv> CHR 0x0A"


text \<open>\<open>written[: written.rfind(b"\n") + 1]\<close>\<close>

definition full_lines :: "string \<Rightarrow> string" where
  "full_lines s = rev (dropWhile (\<lambda>c. c \<noteq> feed_char) (rev s))"

lemma full_lines_ends: "full_lines s = [] \<or> (\<exists>w. full_lines s = w @ [feed_char])"
proof -
  have "dropWhile (\<lambda>c. c \<noteq> feed_char) (rev s) = [] \<or> hd (dropWhile (\<lambda>c. c \<noteq> feed_char) (rev s)) = feed_char"
    using hd_dropWhile [of "\<lambda>c. c \<noteq> feed_char" "rev s"] by blast
  then show ?thesis
    unfolding full_lines_def by (cases "dropWhile (\<lambda>c. c \<noteq> feed_char) (rev s)") auto
qed

lemma full_lines_prefix: "\<exists>r. s = full_lines s @ r \<and> feed_char \<notin> set r"
proof -
  have "s = rev (takeWhile (\<lambda>c. c \<noteq> feed_char) (rev s) @ dropWhile (\<lambda>c. c \<noteq> feed_char) (rev s))" by simp
  then have "s = full_lines s @ rev (takeWhile (\<lambda>c. c \<noteq> feed_char) (rev s))"
    unfolding full_lines_def by (simp only: rev_append)
  moreover have "feed_char \<notin> set (rev (takeWhile (\<lambda>c. c \<noteq> feed_char) (rev s)))"
    by (auto dest: set_takeWhileD)
  ultimately show ?thesis by blast
qed

lemma full_lines_ended: "full_lines (a @ [feed_char] @ r) = a @ [feed_char]" if "feed_char \<notin> set r"
proof -
  have "dropWhile (\<lambda>c. c \<noteq> feed_char) (rev r @ feed_char # rev a) = feed_char # rev a"
    using that by (subst dropWhile_append2) auto
  then show ?thesis by (simp add: full_lines_def)
qed

text \<open>What was read of a log, and then of it grown: the whole of its full lines.\<close>

lemma full_lines_grown: "full_lines (s @ z) = full_lines s @ full_lines (drop (length (full_lines s)) (s @ z))"
proof -
  obtain r where r: "s = full_lines s @ r" "feed_char \<notin> set r" using full_lines_prefix by blast
  then have d: "drop (length (full_lines s)) (s @ z) = r @ z" by (metis append.assoc append_eq_conv_conj)
  obtain u where u: "r @ z = full_lines (r @ z) @ u" "feed_char \<notin> set u" using full_lines_prefix by blast
  have whole: "s @ z = full_lines s @ full_lines (r @ z) @ u" using r(1) u(1) by (metis append.assoc)
  show ?thesis
  proof (cases "full_lines (r @ z)" rule: rev_cases)
    case Nil
    then have none: "feed_char \<notin> set (r @ z)" using u by auto
    show ?thesis
    proof (cases "full_lines s" rule: rev_cases)
      case Nil
      then have "s = r" using r(1) by simp
      then show ?thesis using d Nil by simp
    next
      case (snoc w c)
      then have "c = feed_char" using full_lines_ends [of s] by auto
      then have "full_lines (s @ z) = full_lines s" using snoc whole none \<open>full_lines (r @ z) = []\<close> u(2) full_lines_ended [of u w] by simp
      then show ?thesis using d \<open>full_lines (r @ z) = []\<close> by simp
    qed
  next
    case (snoc w c)
    then have "c = feed_char" using full_lines_ends [of "r @ z"] by auto
    then have "full_lines (s @ z) = full_lines s @ full_lines (r @ z)"
      using snoc whole u(2) full_lines_ended [of u "full_lines s @ w"] by simp
    then show ?thesis using d by simp
  qed
qed

lemma length_full_lines: "length (full_lines s) \<le> length s"
  using full_lines_prefix [of s] by (metis le_add1 length_append)

end
