(* ===== verification/Tallying.thy ===== *)
theory Tallying
  imports Json PyFloat Lines "HOL-Library.Char_ord" "HOL-Library.List_Lexorder"
begin

text \<open>
  \<open>hmz.runtime.watching.tally\<close>: what a run has cost, read from the logs its agents keep. A log is its bytes, written
  as characters; what the disk holds at a look is an argument of that look, and what \<open>datetime.fromisoformat\<close>
  makes of a time is \<open>fromiso\<close>.
\<close>

section \<open>What a row says was spent\<close>

definition EVERYWHERE :: "string list" where
  "EVERYWHERE = [''claude'']"

definition MILLISECONDS :: rat where
  "MILLISECONDS = 100000000000"

definition TOKEN_KINDS :: "(string \<times> (string \<times> string) list) list" where
  "TOKEN_KINDS =
    [(''claude'', [(''input'', ''input_tokens''), (''output'', ''output_tokens''), (''cache_read'', ''cache_read_input_tokens''),
        (''cache_write'', ''cache_creation_input_tokens'')]),
     (''dsh'', [(''input'', ''inputTokens''), (''output'', ''outputTokens''), (''cache_read'', ''cacheReadTokens''),
        (''cache_write'', ''cacheWriteTokens'')]),
     (''codex'', [(''input'', ''input_tokens''), (''output'', ''output_tokens''), (''cache_read'', ''cached_input_tokens'')]),
     (''mcode'', [(''input'', ''input''), (''output'', ''output''), (''cache_read'', ''cacheRead''), (''cache_write'', ''cacheWrite'')]),
     (''litellm'', [(''input'', ''input''), (''output'', ''output''), (''cache_read'', ''cache_read''), (''cache_write'', ''cache_write'')]),
     (''kimi'', [(''input'', ''inputOther''), (''output'', ''output''), (''cache_read'', ''inputCacheRead''),
        (''cache_write'', ''inputCacheCreation'')])]"

definition named_kinds :: "string \<Rightarrow> (string \<times> string) list" where
  "named_kinds backend = (case dict_get TOKEN_KINDS backend of None \<Rightarrow> [] | Some ks \<Rightarrow> ks)"

definition reported :: "string \<Rightarrow> string set" where
  "reported backend = fst ` set (named_kinds backend)"

text \<open>What a row that is not shaped as its backend writes it makes the reading raise.\<close>

datatype tally_error = NotMapping | NotNumber

definition got :: "pyval \<Rightarrow> string \<Rightarrow> tally_error + pyval" where
  "got v k = (case v of VDict m \<Rightarrow> Inr (get_or_none m k) | _ \<Rightarrow> Inl NotMapping)"

text \<open>\<open>v.get(k) or {}\<close>\<close>

definition got_dict :: "pyval \<Rightarrow> string \<Rightarrow> tally_error + pyval" where
  "got_dict v k = res_bind (got v k) (\<lambda>x. Inr (or_else x (VDict [])))"

type_synonym kinds = "(string \<times> pyfloat) list"

definition one_kind :: "pyval \<Rightarrow> kinds \<Rightarrow> string \<times> string \<Rightarrow> tally_error + kinds" where
  "one_kind usage broken kn =
     (case kn of (kind, named) \<Rightarrow>
        res_bind (got usage named) (\<lambda>v.
          if truthy v then (case py_float v of None \<Rightarrow> Inl NotNumber | Some x \<Rightarrow> Inr (broken @ [(kind, x)]))
          else Inr broken))"

definition without_cached :: "kinds \<Rightarrow> kinds" where
  "without_cached broken =
     (case dict_get broken ''cache_read'' of
        None \<Rightarrow> broken
      | Some cached \<Rightarrow>
          let rest = f_sub (case dict_get broken ''input'' of None \<Rightarrow> Fin 0 | Some x \<Rightarrow> x) cached in
          if f_lt (Fin 0) rest then dict_put ''input'' rest broken else dict_del ''input'' broken)"

definition kinds_in :: "string \<Rightarrow> pyval \<Rightarrow> tally_error + kinds" where
  "kinds_in backend usage =
     res_bind (res_fold (one_kind usage) (named_kinds backend) [])
       (\<lambda>broken. Inr (if backend = ''codex'' then without_cached broken else broken))"

definition sum_of :: "kinds \<Rightarrow> pyfloat" where
  "sum_of broken = fold (\<lambda>(k, x) s. f_add s x) broken (Fin 0)"

definition int_sum :: "kinds \<Rightarrow> tally_error + int" where
  "int_sum broken = (case int_of_float (sum_of broken) of None \<Rightarrow> Inl NotNumber | Some n \<Rightarrow> Inr n)"

text \<open>\<open>str(v or "") or None\<close>\<close>

definition name_in :: "pyval \<Rightarrow> string option" where
  "name_in v = (let s = py_str (or_else v (VStr [])) in if s = [] then None else Some s)"

text \<open>
  \<open>json.dumps(thread, sort_keys=True)\<close>, which is only ever compared with another: keys in order, and the rest as
  \<open>jdump\<close> spells it, where a float is spelled as the log has it.
\<close>

fun keys_sorted :: "pyval \<Rightarrow> pyval" where
  "keys_sorted (VList xs) = VList (map keys_sorted xs)"
| "keys_sorted (VDict m) = VDict (sort_key fst (map (\<lambda>(k, v). (k, keys_sorted v)) m))"
| "keys_sorted v = v"

definition thread_name :: "pyval \<Rightarrow> string option" where
  "thread_name v = (if truthy v then Some (jdump (keys_sorted v)) else None)"

record cost_row =
  cr_model :: "string option"
  cr_tokens :: int
  cr_kinds :: kinds
  cr_request :: "string option"

definition no_cost :: cost_row where
  "no_cost = \<lparr>cr_model = None, cr_tokens = 0, cr_kinds = [], cr_request = None\<rparr>"

definition spent_claude :: "pyval \<Rightarrow> tally_error + cost_row" where
  "spent_claude row =
     res_bind (got_dict row ''message'') (\<lambda>message.
     res_bind (got_dict message ''usage'') (\<lambda>usage.
     res_bind (kinds_in ''claude'' usage) (\<lambda>broken.
     res_bind (got message ''model'') (\<lambda>model.
     res_bind (int_sum broken) (\<lambda>tokens.
     res_bind (got message ''id'') (\<lambda>ident.
     res_bind (got row ''requestId'') (\<lambda>asked.
       Inr \<lparr>cr_model = name_in model, cr_tokens = tokens, cr_kinds = broken, cr_request = name_in (or_else ident asked)\<rparr>)))))))"

definition spent_dsh :: "pyval \<Rightarrow> tally_error + cost_row" where
  "spent_dsh row =
     res_bind (got row ''type'') (\<lambda>kind.
     if kind \<noteq> VStr ''assistant/message'' then Inr no_cost
     else
       res_bind (got_dict row ''data'') (\<lambda>data.
       res_bind (got_dict data ''message'') (\<lambda>message.
       res_bind (got_dict message ''source'') (\<lambda>source.
       res_bind (got_dict data ''usage'') (\<lambda>usage.
       res_bind (kinds_in ''dsh'' usage) (\<lambda>broken.
       res_bind (got source ''model'') (\<lambda>model.
       res_bind (int_sum broken) (\<lambda>tokens.
         Inr \<lparr>cr_model = name_in model, cr_tokens = tokens, cr_kinds = broken, cr_request = None\<rparr>))))))))"

definition spent_said :: "string \<Rightarrow> pyval \<Rightarrow> tally_error + cost_row" where
  "spent_said backend row =
     res_bind (got_dict row ''message'') (\<lambda>said.
     res_bind (got said ''role'') (\<lambda>part.
     if part \<noteq> VStr ''assistant'' then Inr no_cost
     else
       res_bind (got_dict said ''usage'') (\<lambda>usage.
       res_bind (kinds_in backend usage) (\<lambda>broken.
       res_bind (got said ''provider'') (\<lambda>provider.
       res_bind (got said ''model'') (\<lambda>model.
       res_bind (int_sum broken) (\<lambda>tokens.
         let answering = rstrip_char (CHR ''/'') (lstrip_char (CHR ''/'')
               (py_str (or_else provider (VStr [])) @ ''/'' @ py_str (or_else model (VStr [])))) in
         Inr \<lparr>cr_model = (if answering = [] then None else Some answering), cr_tokens = tokens, cr_kinds = broken,
           cr_request = None\<rparr>)))))))"

text \<open>\<open>row.get("payload") or envelope.get("payload") or {}\<close>\<close>

definition payload_of :: "pyval \<Rightarrow> tally_error + pyval" where
  "payload_of row =
     res_bind (got_dict row ''envelope'') (\<lambda>envelope.
     res_bind (got row ''payload'') (\<lambda>p.
       if truthy p then Inr p else got_dict envelope ''payload''))"

definition spent_codex :: "pyval \<Rightarrow> tally_error + cost_row" where
  "spent_codex payload =
     res_bind (got_dict payload ''info'') (\<lambda>info.
     res_bind (got_dict info ''last_token_usage'') (\<lambda>counted.
     res_bind (got info ''total_token_usage'') (\<lambda>thread.
     res_bind (got counted ''total_tokens'') (\<lambda>said.
     case py_int (or_else said (VInt 0)) of
       None \<Rightarrow> Inl NotNumber
     | Some tokens \<Rightarrow>
         res_bind (kinds_in ''codex'' counted) (\<lambda>broken.
           Inr \<lparr>cr_model = None, cr_tokens = tokens, cr_kinds = broken, cr_request = thread_name thread\<rparr>)))))"

definition spent_kimi :: "pyval \<Rightarrow> tally_error + cost_row" where
  "spent_kimi payload =
     res_bind (got_dict payload ''usage'') (\<lambda>usage.
     res_bind (kinds_in ''kimi'' usage) (\<lambda>broken.
     res_bind (int_sum broken) (\<lambda>tokens.
       Inr \<lparr>cr_model = None, cr_tokens = tokens, cr_kinds = broken, cr_request = None\<rparr>)))"

definition spent_in :: "string \<Rightarrow> pyval \<Rightarrow> tally_error + cost_row" where
  "spent_in backend row =
     (if backend = ''claude'' then spent_claude row
      else if backend = ''dsh'' then spent_dsh row
      else if backend \<in> {''mcode'', ''litellm''} then spent_said backend row
      else res_bind (payload_of row) (\<lambda>payload. if backend = ''codex'' then spent_codex payload else spent_kimi payload))"

section \<open>When it was said\<close>

definition moment :: "(string \<Rightarrow> pyfloat option) \<Rightarrow> pyval \<Rightarrow> pyfloat option" where
  "moment fromiso said =
     (case said of
        VInt n \<Rightarrow>
          if of_int n > MILLISECONDS
          then (if of_int n / 1000 < double_max then Some (Fin (of_int n / 1000)) else None)
          else float_of_int n
      | VFloat x t \<Rightarrow> Some (if f_lt (Fin MILLISECONDS) x then f_mul x (Fin (1 / 1000)) else x)
      | VStr s \<Rightarrow> if s = [] then None else fromiso s
      | _ \<Rightarrow> None)"

definition written_at :: "(string \<Rightarrow> pyfloat option) \<Rightarrow> string \<Rightarrow> pyval \<Rightarrow> tally_error + pyfloat option" where
  "written_at fromiso backend row =
     (if backend = ''dsh'' then res_bind (got row ''time'') (\<lambda>t. Inr (moment fromiso t))
      else if backend \<in> {''mcode'', ''litellm''}
      then res_bind (got_dict row ''message'') (\<lambda>said.
           res_bind (got said ''timestamp'') (\<lambda>t.
             if truthy t then Inr (moment fromiso t)
             else res_bind (got row ''timestamp'') (\<lambda>t. Inr (moment fromiso t))))
      else res_bind (got_dict row ''envelope'') (\<lambda>envelope.
           res_bind (got row ''timestamp'') (\<lambda>t.
             if truthy t then Inr (moment fromiso t)
             else res_bind (got envelope ''timestamp'') (\<lambda>t. Inr (moment fromiso t)))))"

section \<open>Counters\<close>

type_synonym counter = "(string \<times> int) list"

definition cnt_at :: "counter \<Rightarrow> string \<Rightarrow> int" where
  "cnt_at c k = (case dict_get c k of None \<Rightarrow> 0 | Some n \<Rightarrow> n)"

text \<open>\<open>update\<close>, \<open>-\<close> and \<open>|=\<close> of \<open>collections.Counter\<close>.\<close>

definition cnt_update :: "counter \<Rightarrow> counter \<Rightarrow> counter" where
  "cnt_update c d = fold (\<lambda>(k, n) c. dict_put k (cnt_at c k + n) c) d c"

definition cnt_minus :: "counter \<Rightarrow> counter \<Rightarrow> counter" where
  "cnt_minus c d =
     filter (\<lambda>(k, n). 0 < n) (map (\<lambda>(k, n). (k, n - cnt_at d k)) c) @
     map (\<lambda>(k, n). (k, - n)) (filter (\<lambda>(k, n). k \<notin> fst ` set c \<and> n < 0) d)"

definition cnt_most :: "counter \<Rightarrow> counter \<Rightarrow> counter" where
  "cnt_most c d = filter (\<lambda>(k, n). 0 < n) (fold (\<lambda>(k, n) c. if cnt_at c k < n then dict_put k n c else c) d c)"

text \<open>\<open>Counter({kind: int(count)})\<close>, and whatever the kinds did not account for under no name.\<close>

definition whole_kinds :: "kinds \<Rightarrow> tally_error + counter" where
  "whole_kinds broken =
     res_fold (\<lambda>c (k, x). case int_of_float x of None \<Rightarrow> Inl NotNumber | Some n \<Rightarrow> Inr (c @ [(k, n)])) broken []"

definition counted_row :: "cost_row \<Rightarrow> tally_error + counter" where
  "counted_row c =
     res_bind (whole_kinds (cr_kinds c)) (\<lambda>counted.
     res_bind (int_sum (cr_kinds c)) (\<lambda>told.
       let rest = cr_tokens c - told in Inr (if rest > 0 then cnt_update counted [([], rest)] else counted)))"

section \<open>Reading a log\<close>

record log_reading =
  lr_at :: nat
  lr_spent :: "(string \<times> counter) list"
  lr_last :: "string option"

definition unread :: log_reading where
  "unread = \<lparr>lr_at = 0, lr_spent = [], lr_last = None\<rparr>"

type_synonym requests = "((string \<times> string) \<times> counter) list"

record log_of =
  lo_backend :: string
  lo_model :: string
  lo_since :: pyfloat

definition spends :: "string \<Rightarrow> counter \<Rightarrow> log_reading \<Rightarrow> log_reading" where
  "spends model counted r =
     r\<lparr>lr_spent := dict_put model (cnt_update (case dict_get (lr_spent r) model of None \<Rightarrow> [] | Some c \<Rightarrow> c) counted) (lr_spent r)\<rparr>"

text \<open>What the row adds beyond what was counted of its request; \<open>None\<close> for the row before said again.\<close>

definition noted :: "log_of \<Rightarrow> string option \<Rightarrow> counter \<Rightarrow> log_reading \<times> requests \<Rightarrow> (counter \<times> log_reading \<times> requests) option" where
  "noted l request counted st =
     (case (st, request) of
        (_, None) \<Rightarrow> Some (counted, st)
      | ((r, q), Some name) \<Rightarrow>
          if lo_backend l \<in> set EVERYWHERE
          then let key = (lo_backend l, name); before = (case dict_get q key of None \<Rightarrow> [] | Some c \<Rightarrow> c) in
               Some (cnt_minus counted before, r, dict_put key (cnt_most before counted) q)
          else if lr_last r = Some name then None
          else Some (counted, r\<lparr>lr_last := Some name\<rparr>, q))"

definition takes_row :: "(string \<Rightarrow> pyfloat option) \<Rightarrow> log_of \<Rightarrow> pyval \<Rightarrow> log_reading \<times> requests \<Rightarrow>
    (log_reading \<times> requests) \<times> tally_error option" where
  "takes_row fromiso l row st =
     (case spent_in (lo_backend l) row of
        Inl e \<Rightarrow> (st, Some e)
      | Inr c \<Rightarrow>
          if cr_tokens c \<le> 0 then (st, None)
          else case counted_row c of
            Inl e \<Rightarrow> (st, Some e)
          | Inr counted \<Rightarrow>
              (case noted l (cr_request c) counted st of
                 None \<Rightarrow> (st, None)
               | Some (grown, r, q) \<Rightarrow>
                   (case written_at fromiso (lo_backend l) row of
                      Inl e \<Rightarrow> ((r, q), Some e)
                    | Inr when \<Rightarrow>
                        if (case when of None \<Rightarrow> False | Some t \<Rightarrow> f_lt t (lo_since l)) then ((r, q), None)
                        else ((spends (case cr_model c of None \<Rightarrow> lo_model l | Some m \<Rightarrow> m) grown r, q), None))))"

text \<open>A line: passed over where it is no JSON, or is not a mapping.\<close>

definition takes_line :: "(string \<Rightarrow> pyfloat option) \<Rightarrow> log_of \<Rightarrow> string \<Rightarrow> log_reading \<times> requests \<Rightarrow>
    (log_reading \<times> requests) \<times> tally_error option" where
  "takes_line fromiso l line st =
     (case loads line of Some (VDict m) \<Rightarrow> takes_row fromiso l (VDict m) st | _ \<Rightarrow> (st, None))"

fun takes_lines :: "(string \<Rightarrow> pyfloat option) \<Rightarrow> log_of \<Rightarrow> string list \<Rightarrow> log_reading \<times> requests \<Rightarrow>
    (log_reading \<times> requests) \<times> tally_error option" where
  "takes_lines fromiso l [] st = (st, None)"
| "takes_lines fromiso l (x # xs) st =
     (case takes_line fromiso l x st of (st, Some e) \<Rightarrow> (st, Some e) | (st, None) \<Rightarrow> takes_lines fromiso l xs st)"

text \<open>\<open>bytes.splitlines()\<close>: at a line feed, a carriage return, or one after the other.\<close>

abbreviation return_char :: char where "return_char \<equiv> CHR 0x0D"

fun split_lines :: "string \<Rightarrow> string \<Rightarrow> string list" where
  "split_lines line [] = (if line = [] then [] else [line])"
| "split_lines line (c # s) =
     (if c = feed_char then line # split_lines [] s
      else if c = return_char then line # (case s of d # s' \<Rightarrow> if d = feed_char then split_lines [] s' else split_lines [] s | [] \<Rightarrow> [])
      else split_lines (line @ [c]) s)"

definition take_log :: "(string \<Rightarrow> pyfloat option) \<Rightarrow> log_of \<Rightarrow> string \<Rightarrow> log_reading \<times> requests \<Rightarrow>
    (log_reading \<times> requests) \<times> tally_error option" where
  "take_log fromiso l content st =
     (case st of (r, q) \<Rightarrow>
        let written = full_lines (drop (lr_at r) content) in
        takes_lines fromiso l (split_lines [] written) (r\<lparr>lr_at := lr_at r + length written\<rparr>, q))"

section \<open>A tally\<close>

text \<open>\<open>Seen\<close>, and \<open>Tally\<close>: each log by its path, each request counted so far, and the agents a log was opened of.\<close>

record seen =
  se_id :: string
  se_backend :: string
  se_model :: string
  se_counts :: "string set"
  se_since :: pyfloat

record tally =
  ta_sessions :: "seen list"
  ta_read :: "(string \<times> log_reading) list"
  ta_requests :: requests
  ta_reading :: "string set"

definition tally_made :: "seen list \<Rightarrow> tally" where
  "tally_made sessions = \<lparr>ta_sessions = sessions, ta_read = [], ta_requests = [], ta_reading = {}\<rparr>"

definition tally_add :: "seen \<Rightarrow> tally \<Rightarrow> tally" where
  "tally_add s t = t\<lparr>ta_sessions := ta_sessions t @ [s]\<rparr>"

definition reading_at :: "string \<Rightarrow> tally \<Rightarrow> log_reading" where
  "reading_at path t = (case dict_get (ta_read t) path of None \<Rightarrow> unread | Some r \<Rightarrow> r)"

text \<open>\<open>_take\<close>: what is left of the tally, whether the log was there, and what was raised.\<close>

definition takes_log :: "(string \<Rightarrow> pyfloat option) \<Rightarrow> (string \<Rightarrow> string option) \<Rightarrow> log_of \<Rightarrow> string \<Rightarrow> tally \<Rightarrow>
    tally \<times> bool \<times> tally_error option" where
  "takes_log fromiso disk l path t =
     (case disk path of
        None \<Rightarrow> (t\<lparr>ta_read := dict_put path (reading_at path t) (ta_read t)\<rparr>, False, None)
      | Some content \<Rightarrow>
          (case take_log fromiso l content (reading_at path t, ta_requests t) of
             ((r, q), failed) \<Rightarrow> (t\<lparr>ta_read := dict_put path r (ta_read t), ta_requests := q\<rparr>, True, failed)))"

fun takes_logs :: "(string \<Rightarrow> pyfloat option) \<Rightarrow> (string \<Rightarrow> string option) \<Rightarrow> log_of \<Rightarrow> string list \<Rightarrow> tally \<Rightarrow>
    tally \<times> bool \<times> tally_error option" where
  "takes_logs fromiso disk l [] t = (t, False, None)"
| "takes_logs fromiso disk l (path # paths) t =
     (case takes_log fromiso disk l path t of
        (t, there, Some e) \<Rightarrow> (t, there, Some e)
      | (t, there, None) \<Rightarrow> (case takes_logs fromiso disk l paths t of (t, opened, failed) \<Rightarrow> (t, there \<or> opened, failed)))"

text \<open>
  \<open>read\<close>: \<open>profile\<close> is the name of the backend one answers to, \<open>found\<close> the logs a look finds for a session in the
  order it opens them. What is told to the monitor: what each agent's backend reports, then each model's total.
\<close>

fun reads_sessions :: "(string \<Rightarrow> pyfloat option) \<Rightarrow> (string \<Rightarrow> string option) \<Rightarrow> (string \<Rightarrow> string option) \<Rightarrow>
    (seen \<Rightarrow> string list) \<Rightarrow> seen list \<Rightarrow> tally \<times> (string \<times> string set) list \<Rightarrow>
    (tally \<times> (string \<times> string set) list) \<times> tally_error option" where
  "reads_sessions fromiso profile disk found [] st = (st, None)"
| "reads_sessions fromiso profile disk found (s # ss) (t, told) =
     (case profile (se_backend s) of
        None \<Rightarrow> reads_sessions fromiso profile disk found ss (t, told)
      | Some name \<Rightarrow>
          (case takes_logs fromiso disk \<lparr>lo_backend = name, lo_model = se_model s, lo_since = se_since s\<rparr> (found s) t of
             (t, opened, Some e) \<Rightarrow> ((t, told), Some e)
           | (t, opened, None) \<Rightarrow>
               reads_sessions fromiso profile disk found ss
                 (if opened \<and> se_id s \<notin> ta_reading t
                  then (t\<lparr>ta_reading := insert (se_id s) (ta_reading t)\<rparr>, told @ [(se_id s, se_counts s \<union> reported name)])
                  else (t, told))))"

definition adds_model :: "(string \<times> counter) list \<Rightarrow> string \<times> counter \<Rightarrow> (string \<times> counter) list" where
  "adds_model totals mc =
     (case mc of (model, broken) \<Rightarrow>
        dict_put model (cnt_update (case dict_get totals model of None \<Rightarrow> [] | Some c \<Rightarrow> c) broken) totals)"

definition totals_of :: "tally \<Rightarrow> (string \<times> counter) list" where
  "totals_of t = foldl (\<lambda>totals (path, r). foldl adds_model totals (lr_spent r)) [] (ta_read t)"

definition cnt_sum :: "counter \<Rightarrow> int" where
  "cnt_sum c = sum_list (map snd c)"

definition reads :: "(string \<Rightarrow> pyfloat option) \<Rightarrow> (string \<Rightarrow> string option) \<Rightarrow> (string \<Rightarrow> string option) \<Rightarrow>
    (seen \<Rightarrow> string list) \<Rightarrow> tally \<Rightarrow> tally \<times> ((string \<times> string set) list \<times> (string \<times> int \<times> counter) list) \<times> tally_error option" where
  "reads fromiso profile disk found t =
     (case reads_sessions fromiso profile disk found (ta_sessions t) (t, []) of
        ((t, told), Some e) \<Rightarrow> (t, (told, []), Some e)
      | ((t, told), None) \<Rightarrow> (t, (told, map (\<lambda>(m, c). (m, cnt_sum c, c)) (totals_of t)), None))"

section \<open>A log read in pieces is read once\<close>

lemma split_lines_return:
  "split_lines l (return_char # d # s) = l # (if d = feed_char then split_lines [] s else split_lines [] (d # s))"
  by simp

lemma split_lines_ended: "split_lines l (w @ [feed_char] @ z) = split_lines l (w @ [feed_char]) @ split_lines [] z"
proof (induction "length w" arbitrary: w l rule: less_induct)
  case less
  show ?case
  proof (cases w)
    case Nil
    then show ?thesis by simp
  next
    case (Cons c v)
    show ?thesis
    proof (cases "c = return_char \<and> v \<noteq> []")
      case True
      then obtain d v' where v: "v = d # v'" by (cases v) auto
      have "split_lines [] (v' @ [feed_char] @ z) = split_lines [] (v' @ [feed_char]) @ split_lines [] z"
        using less.hyps [of v' "[]"] Cons v by simp
      moreover have "split_lines [] (v @ [feed_char] @ z) = split_lines [] (v @ [feed_char]) @ split_lines [] z"
        using less.hyps [of v "[]"] Cons by simp
      ultimately show ?thesis
        using Cons v True by (simp only: append_Cons append_Nil append.assoc split_lines_return split: if_split) simp
    next
      case False
      have "split_lines l' (v @ [feed_char] @ z) = split_lines l' (v @ [feed_char]) @ split_lines [] z" for l'
        using less.hyps [of v l'] Cons by simp
      then show ?thesis using Cons False by (cases v) auto
    qed
  qed
qed

lemma takes_lines_append:
  "takes_lines fromiso l (xs @ ys) st =
     (case takes_lines fromiso l xs st of (st, Some e) \<Rightarrow> (st, Some e) | (st, None) \<Rightarrow> takes_lines fromiso l ys st)"
  by (induction xs arbitrary: st) (auto split: prod.split option.split)


text \<open>Where a log is read to is not looked at by its rows.\<close>

definition sets_at :: "nat \<Rightarrow> (log_reading \<times> requests) \<times> tally_error option \<Rightarrow> (log_reading \<times> requests) \<times> tally_error option" where
  "sets_at n x = (case x of ((r, q), e) \<Rightarrow> ((r\<lparr>lr_at := n\<rparr>, q), e))"

lemma takes_row_at: "takes_row fromiso l row (r\<lparr>lr_at := n\<rparr>, q) = sets_at n (takes_row fromiso l row (r, q))"
  unfolding takes_row_def sets_at_def noted_def spends_def Let_def
  by (auto split: sum.split option.split prod.split)

lemma takes_line_at: "takes_line fromiso l x (r\<lparr>lr_at := n\<rparr>, q) = sets_at n (takes_line fromiso l x (r, q))"
  by (auto simp: takes_line_def takes_row_at sets_at_def split: option.split pyval.split)

lemma takes_lines_at: "takes_lines fromiso l xs (r\<lparr>lr_at := n\<rparr>, q) = sets_at n (takes_lines fromiso l xs (r, q))"
proof (induction xs arbitrary: r q)
  case Nil
  then show ?case by (simp add: sets_at_def)
next
  case (Cons x xs)
  obtain r' q' e where "takes_line fromiso l x (r, q) = ((r', q'), e)" by (metis surj_pair)
  then show ?case using Cons by (cases e) (simp_all add: takes_line_at sets_at_def)
qed

lemma sets_at_kept: "lr_at (fst (fst (sets_at n x))) = n"
  by (auto simp: sets_at_def split: prod.split)

lemma sets_at_twice: "sets_at n (sets_at m x) = sets_at n x"
  by (simp add: sets_at_def split: prod.split)

lemma lr_at_set: "lr_at (r\<lparr>lr_at := n\<rparr>) = n"
  by simp

lemma take_log_is:
  "take_log fromiso l content (r, q) =
     sets_at (lr_at r + length (full_lines (drop (lr_at r) content)))
       (takes_lines fromiso l (split_lines [] (full_lines (drop (lr_at r) content))) (r, q))"
  by (simp add: take_log_def Let_def takes_lines_at)

lemma lines_of_grown:
  "split_lines [] (full_lines (s @ z)) =
     split_lines [] (full_lines s) @ split_lines [] (full_lines (drop (length (full_lines s)) (s @ z)))"
proof (cases "full_lines s" rule: rev_cases)
  case Nil
  then show ?thesis using full_lines_grown [of s z] by simp
next
  case (snoc w c)
  then have "c = feed_char" using full_lines_ends [of s] by auto
  then show ?thesis
    using snoc full_lines_grown [of s z] split_lines_ended [of "[]" w "full_lines (drop (length (full_lines s)) (s @ z))"] by simp
qed

lemma drop_further: "n \<le> length s \<Longrightarrow> drop (n + m) (s @ z) = drop m (drop n s @ z)"
  by (metis add.commute drop_append drop_drop diff_is_0_eq' drop_0)

text \<open>A look at a log, and a look at it grown: what the lines of both come to, in turn.\<close>

lemma take_log_grown:
  assumes "lr_at r \<le> length s"
  shows "take_log fromiso l (s @ z) (r, q) =
    (case take_log fromiso l s (r, q) of
       ((r', q'), Some e) \<Rightarrow> sets_at (lr_at r + length (full_lines (drop (lr_at r) (s @ z)))) ((r', q'), Some e)
     | (st, None) \<Rightarrow> take_log fromiso l (s @ z) st)"
proof -
  let ?s = "drop (lr_at r) s"
  let ?n = "lr_at r + length (full_lines ?s)"
  have d: "drop (lr_at r) (s @ z) = ?s @ z" using assms by simp
  have n: "drop ?n (s @ z) = drop (length (full_lines ?s)) (?s @ z)" using assms by (rule drop_further)
  obtain r' q' e where first: "takes_lines fromiso l (split_lines [] (full_lines ?s)) (r, q) = ((r', q'), e)" by (metis surj_pair)
  have len: "length (full_lines (?s @ z)) = length (full_lines ?s) + length (full_lines (drop (length (full_lines ?s)) (?s @ z)))"
    using full_lines_grown [of ?s z] by (metis length_append)
  let ?m = "lr_at r + length (full_lines (?s @ z))" and ?ls = "split_lines [] (full_lines (drop (length (full_lines ?s)) (?s @ z)))"
  have whole: "take_log fromiso l (s @ z) (r, q) =
      sets_at ?m (case ((r', q'), e) of (st, Some e) \<Rightarrow> (st, Some e) | (st, None) \<Rightarrow> takes_lines fromiso l ?ls st)"
    unfolding take_log_is d lines_of_grown [of ?s z] takes_lines_append first ..
  have part: "take_log fromiso l s (r, q) = ((r'\<lparr>lr_at := ?n\<rparr>, q'), e)"
    by (simp only: take_log_is first) (simp add: sets_at_def)
  show ?thesis
  proof (cases e)
    case None
    have "take_log fromiso l (s @ z) (r'\<lparr>lr_at := ?n\<rparr>, q') = sets_at ?m (takes_lines fromiso l ?ls (r', q'))"
      by (simp only: take_log_is takes_lines_at lr_at_set n len add.assoc sets_at_twice)
    then show ?thesis unfolding part by (simp add: whole None)
  next
    case (Some err)
    then show ?thesis unfolding part d by (simp add: whole sets_at_def)
  qed
qed

text \<open>A log looked at again and again as it is appended to.\<close>

fun looks_at :: "(string \<Rightarrow> pyfloat option) \<Rightarrow> log_of \<Rightarrow> string \<Rightarrow> string list \<Rightarrow> log_reading \<times> requests \<Rightarrow>
    (log_reading \<times> requests) \<times> tally_error option" where
  "looks_at fromiso l held [] st = (st, None)"
| "looks_at fromiso l held (piece # pieces) st =
     (case take_log fromiso l (held @ piece) st of
        (st, Some e) \<Rightarrow> (st, Some e)
      | (st, None) \<Rightarrow> looks_at fromiso l (held @ piece) pieces st)"

definition what_of :: "(log_reading \<times> requests) \<times> tally_error option \<Rightarrow>
    (string \<times> counter) list \<times> string option \<times> requests \<times> tally_error option" where
  "what_of x = (case x of ((r, q), e) \<Rightarrow> (lr_spent r, lr_last r, q, e))"

lemma what_of_sets [simp]: "what_of (sets_at n x) = what_of x"
  by (simp add: what_of_def sets_at_def split: prod.split)

lemma take_log_at: "take_log fromiso l s (r, q) = ((r', q'), e) \<Longrightarrow> lr_at r \<le> length s \<Longrightarrow> lr_at r' \<le> length s"
  using length_full_lines [of "drop (lr_at r) s"]
  by (auto simp: take_log_is sets_at_def split: prod.splits)

lemma looks_at_once:
  "lr_at r \<le> length held \<Longrightarrow> pieces \<noteq> [] \<Longrightarrow>
   what_of (looks_at fromiso l held pieces (r, q)) = what_of (take_log fromiso l (held @ concat pieces) (r, q))"
proof (induction pieces arbitrary: held r q)
  case Nil
  then show ?case by simp
next
  case (Cons piece pieces)
  let ?s = "held @ piece"
  have at: "lr_at r \<le> length ?s" using Cons.prems by simp
  have whole: "take_log fromiso l (?s @ concat pieces) (r, q) =
    (case take_log fromiso l ?s (r, q) of
       ((r', q'), Some e) \<Rightarrow> sets_at (lr_at r + length (full_lines (drop (lr_at r) (?s @ concat pieces)))) ((r', q'), Some e)
     | (st, None) \<Rightarrow> take_log fromiso l (?s @ concat pieces) st)"
    by (rule take_log_grown [OF at])
  obtain r1 q1 e1 where one: "take_log fromiso l ?s (r, q) = ((r1, q1), e1)" by (metis surj_pair)
  show ?case
  proof (cases e1)
    case (Some err)
    then show ?thesis using whole one by simp
  next
    case None
    show ?thesis
    proof (cases "pieces = []")
      case True
      then show ?thesis using one None by simp
    next
      case False
      have "lr_at r1 \<le> length ?s" using take_log_at [OF one at] .
      then show ?thesis using Cons.IH [of r1 ?s q1] whole one None False by simp
    qed
  qed
qed

text \<open>
  C37. However a log is cut up into looks as its agent appends to it, mid-line or not, what is counted of it -- by
  model and by kind, the requests noted, and where the reading stops over a row that is not as its backend writes
  it -- is what one look at the whole of it counts: no token is counted twice, and none is lost.
\<close>

theorem log_read_in_pieces:
  "what_of (looks_at fromiso l [] (piece # pieces) (unread, q)) = what_of (take_log fromiso l (piece @ concat pieces) (unread, q))"
  using looks_at_once [of unread "[]" "piece # pieces"] by (simp add: unread_def)

end
