(* ===== verification/Tallied.thy ===== *)
theory Tallied
  imports Tallying
begin

text \<open>
  What the logs of Claude's sessions come to: a request written down on several rows, and in several logs, is counted
  once.
\<close>

section \<open>A request is counted once\<close>

text \<open>What is counted of a kind: in a counter, in a log, in a tally, and of the requests noted.\<close>

definition kind_in :: "string \<Rightarrow> counter \<Rightarrow> int" where
  "kind_in k c = sum_list (map snd (filter (\<lambda>(j, n). j = k) c))"




lemma kind_in_simps [simp]: "kind_in k [] = 0" "kind_in k ((j, n) # c) = (if j = k then n else 0) + kind_in k c"
  "kind_in k (c @ d) = kind_in k c + kind_in k d"
  by (simp_all add: kind_in_def)





lemma cnt_at_simps [simp]: "cnt_at [] k = 0" "cnt_at ((j, n) # c) k = (if j = k then n else cnt_at c k)"
  by (simp_all add: cnt_at_def)

lemma cnt_at_put [simp]: "cnt_at (dict_put j n c) k = (if k = j then n else cnt_at c k)"
  by (simp add: cnt_at_def)
















definition unnamed :: "string \<Rightarrow> (string option \<times> counter) list \<Rightarrow> int" where
  "unnamed k rows = sum_list (map (\<lambda>(m, c). if m = None then kind_in k c else 0) rows)"






lemma unnamed_Nil [simp]: "unnamed k [] = 0"
  by (simp add: unnamed_def)

lemma unnamed_append [simp]: "unnamed k (h @ rows) = unnamed k h + unnamed k rows"
  by (simp add: unnamed_def)




lemma lr_at_spends [simp]: "lr_at (spends m g r) = lr_at r"
  by (simp add: spends_def)









section \<open>Every log of a run\<close>



























text \<open>
  A row that is a mapping but not shaped as Claude writes one ends the look, and what the look had passed is not
  looked at again: nothing of the log after it is ever counted.
\<close>

lemma odd_row_ends_the_look:
  assumes "loads line = Some (VDict m)" and "dict_get m ''message'' = Some (VStr s)" and "s \<noteq> []" and "lo_backend l = ''claude''"
  shows "takes_lines fromiso l (line # rest) st = (st, Some NotMapping)"
  using assms
  by (simp add: takes_line_def takes_row_def spent_in_def spent_claude_def got_dict_def got_def get_or_none_def or_else_def)

end
