(* ===== verification/Monitoring.thy ===== *)
theory Monitoring
  imports Prices PyFormat
begin

text \<open>
  \<open>hmz.runtime.watching.monitor\<close>: what a run is doing and what it has cost, kept as its turns go past. Every operation is
  under the monitor's lock and is one step; the moment it happens at is given. Tokens of a kind are a rational, as a turn's
  are divided between its models.
\<close>

section \<open>Figures\<close>

definition WINDOW :: rat where "WINDOW = 300"
definition FIGURED :: rat where "FIGURED = 5"
definition DUST :: rat where "DUST = 1"
definition THOUSAND :: rat where "THOUSAND = 1000"
definition MINUTE :: rat where "MINUTE = 60"
definition HOUR :: rat where "HOUR = 3600"

definition thousands :: "rat \<Rightarrow> string" where
  "thousands count =
     (if count < THOUSAND then fmt_f 0 (Fin count)
      else if count < MILLION then fmt_f 1 (Fin (count / THOUSAND)) @ ''k''
      else fmt_f 2 (Fin (count / MILLION)) @ ''M'')"

text \<open>\<open>int\<close> of a time that is not negative, and two digits of one.\<close>

definition whole :: "rat \<Rightarrow> nat" where
  "whole x = nat \<lfloor>x\<rfloor>"

definition rat_mod :: "rat \<Rightarrow> rat \<Rightarrow> rat" where
  "rat_mod x y = x - of_int \<lfloor>x / y\<rfloor> * y"

definition lasting :: "rat \<Rightarrow> string" where
  "lasting seconds =
     (if seconds < MINUTE then show_nat (whole seconds) @ ''s''
      else if seconds < HOUR
      then show_nat (whole (seconds / MINUTE)) @ ''m'' @ zfill 2 (show_nat (whole (rat_mod seconds MINUTE))) @ ''s''
      else show_nat (whole (seconds / HOUR)) @ ''h'' @ zfill 2 (show_nat (whole (rat_mod seconds HOUR / MINUTE))) @ ''m'')"

definition remove_suffix :: "string \<Rightarrow> string \<Rightarrow> string" where
  "remove_suffix p s = (if ends_with p s then take (length s - length p) s else s)"

definition short :: "string \<Rightarrow> string" where
  "short agent =
     (case py_partition (CHR ''#'') agent of
        (kind, found, tail) \<Rightarrow>
          if tail = [] then take 16 agent
          else py_lower (remove_suffix ''Code'' (remove_suffix ''CLI'' (remove_suffix ''Agent'' kind))) @ ''#'' @ take 4 tail)"

section \<open>The monitor\<close>

record under =
  un_whose :: string
  un_about :: string
  un_working :: bool

type_synonym amounts = "(string \<times> rat) list"

record monitor =
  mo_working :: "(string \<times> nat) list"
  mo_turns :: "(string \<times> nat) list"
  mo_handovers :: "((string \<times> string) \<times> nat) list"
  mo_models :: "(string \<times> string) list"
  mo_fleets :: "(string \<times> (string \<times> under) list) list"
  mo_opened :: "(string \<times> rat) list"
  mo_rested :: "(string \<times> rat) list"
  mo_handed :: "(string \<times> string) option"
  mo_spent :: "(string \<times> int) list"
  mo_used :: "(string \<times> int) list"
  mo_totals :: "((string \<times> string) \<times> int) list"
  mo_kinds :: "((string \<times> string) \<times> amounts) list"
  mo_parts :: "(string \<times> amounts) list"
  mo_reports :: "(string \<times> string list) list"
  mo_recent :: "(rat \<times> string \<times> amounts) list"
  mo_rates :: "(string \<times> rat) list"
  mo_money :: "(string \<times> pyfloat option) list"
  mo_figured :: "nat option"
  mo_figured_at :: rat
  mo_astir :: bool
  mo_changed :: nat
  mo_began :: rat
  mo_until :: "rat option"
  mo_ended :: "string option"

definition monitor_made :: "rat \<Rightarrow> monitor" where
  "monitor_made began =
     \<lparr>mo_working = [], mo_turns = [], mo_handovers = [], mo_models = [], mo_fleets = [], mo_opened = [], mo_rested = [],
      mo_handed = None, mo_spent = [], mo_used = [], mo_totals = [], mo_kinds = [], mo_parts = [], mo_reports = [], mo_recent = [],
      mo_rates = [], mo_money = [], mo_figured = None, mo_figured_at = 0, mo_astir = False, mo_changed = 0, mo_began = began,
      mo_until = None, mo_ended = None\<rparr>"

text \<open>\<open>d.get(k, v)\<close>; a missing key of a counter counts nothing.\<close>

definition get_or :: "('k \<times> 'v) list \<Rightarrow> 'k \<Rightarrow> 'v \<Rightarrow> 'v" where
  "get_or d k v = (case dict_get d k of None \<Rightarrow> v | Some w \<Rightarrow> w)"

definition begins :: "string \<Rightarrow> string \<Rightarrow> rat \<Rightarrow> monitor \<Rightarrow> monitor" where
  "begins agent model now m =
     (let m = m\<lparr>mo_models := dict_put agent model (mo_models m)\<rparr>;
          m = (if get_or (mo_working m) agent 0 = 0 then m\<lparr>mo_opened := dict_put agent now (mo_opened m)\<rparr> else m);
          m = m\<lparr>mo_working := dict_put agent (get_or (mo_working m) agent 0 + 1) (mo_working m),
                mo_turns := dict_put agent (get_or (mo_turns m) agent 0 + 1) (mo_turns m)\<rparr> in
      case mo_ended m of
        None \<Rightarrow> m
      | Some from_one \<Rightarrow>
          if from_one = agent then m
          else m\<lparr>mo_handovers := dict_put (from_one, agent) (get_or (mo_handovers m) (from_one, agent) 0 + 1) (mo_handovers m),
                 mo_handed := Some (from_one, agent)\<rparr>)"

definition ends :: "string \<Rightarrow> rat \<Rightarrow> monitor \<Rightarrow> monitor" where
  "ends agent now m =
     (if get_or (mo_working m) agent 0 \<le> 1
      then m\<lparr>mo_working := dict_del agent (mo_working m), mo_opened := dict_del agent (mo_opened m),
             mo_rested := dict_put agent now (mo_rested m), mo_ended := Some agent\<rparr>
      else m\<lparr>mo_working := dict_put agent (get_or (mo_working m) agent 0 - 1) (mo_working m), mo_ended := Some agent\<rparr>)"

definition started :: "string \<Rightarrow> string \<Rightarrow> string \<Rightarrow> monitor \<Rightarrow> monitor" where
  "started agent whose about m =
     m\<lparr>mo_fleets := dict_put agent (dict_put whose \<lparr>un_whose = whose, un_about = about, un_working = True\<rparr> (get_or (mo_fleets m) agent []))
         (mo_fleets m)\<rparr>"

definition finished :: "string \<Rightarrow> string \<Rightarrow> string \<Rightarrow> monitor \<Rightarrow> monitor" where
  "finished agent whose about m =
     (let held = get_or (mo_fleets m) agent [];
          was = (case dict_get held whose of None \<Rightarrow> about | Some u \<Rightarrow> un_about u) in
      m\<lparr>mo_fleets := dict_put agent (dict_put whose \<lparr>un_whose = whose, un_about = was, un_working = False\<rparr> held) (mo_fleets m)\<rparr>)"

definition reporting :: "string \<Rightarrow> string list \<Rightarrow> monitor \<Rightarrow> monitor" where
  "reporting agent kinds m = m\<lparr>mo_reports := dict_put agent kinds (mo_reports m)\<rparr>"

definition stirring :: "monitor \<Rightarrow> monitor" where
  "stirring m = m\<lparr>mo_astir := True\<rparr>"

definition stops_clock :: "rat \<Rightarrow> monitor \<Rightarrow> monitor" where
  "stops_clock now m = m\<lparr>mo_until := Some now, mo_figured := None\<rparr>"

section \<open>What is spent\<close>

definition amount_sum :: "amounts \<Rightarrow> rat" where
  "amount_sum a = sum_list (map snd a)"

text \<open>Two dictionaries are equal whatever order they are in.\<close>

definition same_amounts :: "amounts option \<Rightarrow> amounts option \<Rightarrow> bool" where
  "same_amounts a b =
     (case (a, b) of (None, None) \<Rightarrow> True | (Some x, Some y) \<Rightarrow> set x = set y | _ \<Rightarrow> False)"

text \<open>\<open>_fullest\<close>: of the sources that said the kinds, the one that named the most tokens, and of those the one that saw most.\<close>

definition named_amount :: "amounts \<Rightarrow> rat" where
  "named_amount a = sum_list (map snd (filter (\<lambda>(k, n). k \<noteq> []) a))"

definition fuller :: "string \<Rightarrow> ((string \<times> string) \<times> amounts) list \<Rightarrow> (rat \<times> rat) \<times> amounts option \<Rightarrow>
    (string \<times> string) \<times> int \<Rightarrow> (rat \<times> rat) \<times> amounts option" where
  "fuller model kinds best tot =
     (case (best, tot) of
        (((told, held), full), ((source, named), n)) \<Rightarrow>
          if named \<noteq> model then best
          else case dict_get kinds (source, model) of
            None \<Rightarrow> best
          | Some broken \<Rightarrow>
              let t = named_amount broken; h = of_int n in
              if told < t \<or> told = t \<and> held < h then ((t, h), Some broken) else best)"

definition fullest :: "string \<Rightarrow> monitor \<Rightarrow> amounts option" where
  "fullest model m = snd (foldl (fuller model (mo_kinds m)) ((- 1, - 1), None) (mo_totals m))"

definition most_seen :: "string \<Rightarrow> ((string \<times> string) \<times> int) list \<Rightarrow> int" where
  "most_seen model totals = Max (snd ` {x \<in> set totals. snd (fst x) = model})"

text \<open>\<open>_counted\<close>, a piece at a time: the kinds a source says, replaced or dropped; what has grown; the parts; the spent.\<close>

definition said_kinds :: "amounts option \<Rightarrow> amounts option" where
  "said_kinds kinds = (case kinds of None \<Rightarrow> None | Some k \<Rightarrow> if k = [] then None else Some k)"

definition notes_kinds :: "string \<times> string \<Rightarrow> amounts option \<Rightarrow> monitor \<Rightarrow> monitor" where
  "notes_kinds key broken m =
     (if same_amounts broken (dict_get (mo_kinds m) key) then m
      else m\<lparr>mo_kinds := (case broken of None \<Rightarrow> dict_del key (mo_kinds m) | Some b \<Rightarrow> dict_put key b (mo_kinds m)),
             mo_changed := mo_changed m + 1\<rparr>)"

definition grown_of :: "string \<Rightarrow> monitor \<Rightarrow> amounts" where
  "grown_of model m =
     filter (\<lambda>(k, risen). 0 < risen)
       (map (\<lambda>(k, n). (k, n - get_or (get_or (mo_parts m) model []) k 0)) (case fullest model m of None \<Rightarrow> [] | Some f \<Rightarrow> f))"

definition notes_parts :: "string \<Rightarrow> monitor \<Rightarrow> monitor" where
  "notes_parts model m =
     m\<lparr>mo_parts :=
         (case fullest model m of
            None \<Rightarrow> dict_del model (mo_parts m)
          | Some f \<Rightarrow> if same_amounts (Some f) (Some (get_or (mo_parts m) model [])) then mo_parts m else dict_put model f (mo_parts m))\<rparr>"

definition notes_spent :: "string \<Rightarrow> rat \<Rightarrow> amounts \<Rightarrow> monitor \<Rightarrow> monitor" where
  "notes_spent model now grown m =
     (let seen = most_seen model (mo_totals m); risen = seen - get_or (mo_spent m) model 0 in
      if risen \<le> 0 \<and> grown = [] then m
      else m\<lparr>mo_spent := (if 0 < risen then dict_put model seen (mo_spent m) else mo_spent m),
             mo_recent := mo_recent m @ [(now, model, grown)], mo_changed := mo_changed m + 1\<rparr>)"

definition counts :: "string \<Rightarrow> string \<Rightarrow> int \<Rightarrow> rat \<Rightarrow> amounts option \<Rightarrow> monitor \<Rightarrow> monitor" where
  "counts source model tot now kinds m =
     (let key = (source, model); was = get_or (mo_totals m) key 0; broken = said_kinds kinds in
      if tot \<le> was \<and> same_amounts broken (dict_get (mo_kinds m) key) then m
      else
        let m = notes_kinds key broken (m\<lparr>mo_totals := dict_put key (max tot was) (mo_totals m)\<rparr>) in
        notes_spent model now (grown_of model m) (notes_parts model m))"

definition adds_kind :: "amounts \<Rightarrow> string \<times> rat \<Rightarrow> amounts" where
  "adds_kind a kn = dict_put (fst kn) (get_or a (fst kn) 0 + snd kn) a"

definition told_model :: "string \<Rightarrow> string option \<Rightarrow> (string \<times> string) list \<Rightarrow> (string \<times> string) list \<times> string" where
  "told_model agent model models =
     (let models = (case model of None \<Rightarrow> models | Some n \<Rightarrow> dict_put agent n models) in (models, get_or models agent agent))"

definition monitor_spend :: "string \<Rightarrow> int \<Rightarrow> string option \<Rightarrow> rat \<Rightarrow> amounts \<Rightarrow> monitor \<Rightarrow> monitor" where
  "monitor_spend agent tokens model now kinds m =
     (if tokens \<le> 0 then m
      else
        case told_model agent model (mo_models m) of
          (models, model) \<Rightarrow>
            let m = m\<lparr>mo_models := models, mo_used := dict_put agent (get_or (mo_used m) agent 0 + tokens) (mo_used m)\<rparr>;
                running = get_or (mo_totals m) (''told'', model) 0 + tokens;
                broken = foldl adds_kind (get_or (mo_kinds m) (''told'', model) []) kinds;
                rest = of_int tokens - amount_sum kinds;
                broken = (if DUST \<le> rest then adds_kind broken ([], rest) else broken) in
            counts ''told'' model running now (Some broken) m)"

section \<open>What is read of it\<close>

definition priced :: "string \<Rightarrow> kept_prices \<Rightarrow> monitor \<Rightarrow> string \<Rightarrow> pyfloat option" where
  "priced whence kept m model =
     (let broken = get_or (mo_parts m) model [] in
      if broken = [] then None else case cost_now whence kept broken model of Inl e \<Rightarrow> Some PInf | Inr c \<Rightarrow> c)"

record spend_of =
  sp_model :: string
  sp_tokens :: int
  sp_rate :: rat
  sp_dollars :: "pyfloat option"
  sp_kinds :: amounts

definition lately :: "(rat \<times> string \<times> amounts) list \<Rightarrow> string \<Rightarrow> rat" where
  "lately recent model = sum_list (map (\<lambda>(t, n, grown). if n = model then get_or grown ''output'' 0 else 0) recent)"

definition spending :: "string \<Rightarrow> kept_prices \<Rightarrow> rat \<Rightarrow> monitor \<Rightarrow> monitor \<times> spend_of list" where
  "spending whence kept now m =
     (let moment = (case mo_until m of None \<Rightarrow> now | Some u \<Rightarrow> min now u);
          left = dropWhile (\<lambda>(t, r). t < moment - WINDOW) (mo_recent m);
          aged = (length left < length (mo_recent m));
          m = m\<lparr>mo_recent := left\<rparr>;
          m = (if aged \<or> mo_astir m \<or> mo_figured m \<noteq> Some (mo_changed m) \<or> FIGURED \<le> moment - mo_figured_at m
               then (let over = min WINDOW (moment - mo_began m) in
                     m\<lparr>mo_rates := map (\<lambda>(n, t). (n, if 0 < over then lately left n / over else 0)) (mo_spent m),
                       mo_money := map (\<lambda>(n, t). (n, priced whence kept m n)) (mo_spent m),
                       mo_figured := Some (mo_changed m), mo_astir := False, mo_figured_at := moment\<rparr>)
               else m) in
      (m, map (\<lambda>(n, t). \<lparr>sp_model = n, sp_tokens = t, sp_rate = get_or (mo_rates m) n 0, sp_dollars = get_or (mo_money m) n None,
             sp_kinds = get_or (mo_parts m) n []\<rparr>) (mo_spent m)))"

definition TOKEN_ORDER :: "string list" where
  "TOKEN_ORDER = [''input'', ''output'', ''cache_read'', ''cache_write'', ''reasoning'']"

record counted_kind =
  ck_kind :: string
  ck_tokens :: rat
  ck_whole :: bool

text \<open>\<open>reckoning\<close>, over what \<open>spending\<close> gave: kind by kind, what is whole and what is a floor.\<close>

definition counted_kinds :: "spend_of list \<Rightarrow> amounts" where
  "counted_kinds sps = foldl adds_kind [] (filter (\<lambda>(k, n). k \<noteq> []) (concat (map sp_kinds sps)))"

definition left_unnamed :: "spend_of list \<Rightarrow> bool" where
  "left_unnamed sps \<longleftrightarrow>
     (\<exists>s\<in>set sps. (\<exists>(k, n)\<in>set (sp_kinds s). k = [] \<and> DUST \<le> n) \<or> DUST \<le> of_int (sp_tokens s) - amount_sum (sp_kinds s))"

definition reckoning :: "spend_of list \<Rightarrow> monitor \<Rightarrow> counted_kind list" where
  "reckoning sps m =
     (let counted = counted_kinds sps;
          told = map snd (mo_reports m);
          every = (\<lambda>k. if told = [] then k \<in> fst ` set counted else \<forall>ks\<in>set told. k \<in> set ks);
          united = (\<lambda>k. if told = [] then k \<in> fst ` set counted else \<exists>ks\<in>set told. k \<in> set ks);
          held = filter (\<lambda>k. united k \<or> get_or counted k 0 \<noteq> 0) TOKEN_ORDER @
            sort (filter (\<lambda>k. k \<notin> set TOKEN_ORDER) (map fst counted)) in
      map (\<lambda>k. \<lparr>ck_kind = k, ck_tokens = get_or counted k 0, ck_whole = (every k \<and> \<not> left_unnamed sps)\<rparr>) held)"

definition now_working :: "monitor \<Rightarrow> string list" where
  "now_working m = sort (map fst (mo_working m))"

definition counting_from :: "string \<Rightarrow> monitor \<Rightarrow> rat" where
  "counting_from agent m =
     (case dict_get (mo_opened m) agent of Some t \<Rightarrow> t | None \<Rightarrow> get_or (mo_rested m) agent (mo_began m))"

record shape =
  sh_turns :: "(string \<times> nat) list"
  sh_working :: "string list"
  sh_handovers :: "((string \<times> string) \<times> nat) list"
  sh_under :: "(string \<times> under list) list"
  sh_since :: "(string \<times> rat) list"
  sh_latest :: "(string \<times> string) option"
  sh_used :: "(string \<times> int) list"

definition shape_of :: "rat \<Rightarrow> monitor \<Rightarrow> shape" where
  "shape_of now m =
     (let moment = (case mo_until m of None \<Rightarrow> now | Some u \<Rightarrow> u) in
      \<lparr>sh_turns = mo_turns m, sh_working = map fst (mo_working m), sh_handovers = mo_handovers m,
       sh_under = map (\<lambda>(a, held). (a, map snd held)) (filter (\<lambda>(a, held). held \<noteq> []) (mo_fleets m)),
       sh_since = map (\<lambda>(a, n). (a, max 0 (moment - counting_from a m))) (mo_turns m),
       sh_latest = mo_handed m, sh_used = mo_used m\<rparr>)"

section \<open>A run heard of\<close>

text \<open>The run, and the same kept a session at a time, made when the first turn names its session.\<close>

record run_monitor =
  rm_front :: monitor
  rm_sessions :: "monitor option"

definition watched_from :: "rat \<Rightarrow> run_monitor" where
  "watched_from began = \<lparr>rm_front = monitor_made began, rm_sessions = None\<rparr>"

definition by_session :: "string option \<Rightarrow> (string \<Rightarrow> monitor \<Rightarrow> monitor) \<Rightarrow> run_monitor \<Rightarrow> run_monitor" where
  "by_session session f r =
     (case session of
        None \<Rightarrow> r
      | Some s \<Rightarrow> r\<lparr>rm_sessions := Some (f s (case rm_sessions r of None \<Rightarrow> monitor_made (mo_began (rm_front r)) | Some m \<Rightarrow> m))\<rparr>)"

definition at_front :: "(monitor \<Rightarrow> monitor) \<Rightarrow> run_monitor \<Rightarrow> run_monitor" where
  "at_front f r = r\<lparr>rm_front := f (rm_front r)\<rparr>"

datatype heard =
    Begins string string rat "string option" | Ends string rat "string option"
  | Started string string string "string option" | Finished string string string "string option"
  | Spends string int "string option" rat amounts "string option" | CountsRead string int rat "amounts option"
  | Reports string "string list" | Stirs | Stops rat | Looked rat

definition hears :: "string \<Rightarrow> kept_prices \<Rightarrow> run_monitor \<Rightarrow> heard \<Rightarrow> run_monitor" where
  "hears whence kept r h =
     (case h of
        Begins a model now s \<Rightarrow> at_front (begins a model now) (by_session s (\<lambda>x. begins x model now) r)
      | Ends a now s \<Rightarrow> at_front (ends a now) (by_session s (\<lambda>x. ends x now) r)
      | Started a whose about s \<Rightarrow> at_front (started a whose about) (by_session s (\<lambda>x. started x whose about) r)
      | Finished a whose about s \<Rightarrow> at_front (finished a whose about) (by_session s (\<lambda>x. finished x whose about) r)
      | Spends a tokens model now kinds s \<Rightarrow>
          if tokens \<le> 0 then r
          else at_front (monitor_spend a tokens model now kinds) (by_session s (\<lambda>x. monitor_spend x tokens None now []) r)
      | CountsRead model tot now kinds \<Rightarrow> at_front (counts ''read'' model tot now kinds) r
      | Reports a kinds \<Rightarrow> at_front (reporting a kinds) r
      | Stirs \<Rightarrow> at_front stirring r
      | Stops now \<Rightarrow> (at_front (stops_clock now) r)\<lparr>rm_sessions := map_option (stops_clock now) (rm_sessions r)\<rparr>
      | Looked now \<Rightarrow> at_front (\<lambda>m. fst (spending whence kept now m)) r)"

section \<open>What has been spent\<close>

text \<open>What each turn was told to have cost, on the model it is counted against; what the logs were read to come to.\<close>

fun told_on :: "string \<Rightarrow> (string \<times> string) list \<Rightarrow> heard list \<Rightarrow> int" where
  "told_on model models [] = 0"
| "told_on model models (h # hs) =
     (case h of
        Begins a n now s \<Rightarrow> told_on model (dict_put a n models) hs
      | Spends a tokens n now kinds s \<Rightarrow>
          if tokens \<le> 0 then told_on model models hs
          else case told_model a n models of (models, named) \<Rightarrow> (if named = model then tokens else 0) + told_on model models hs
      | _ \<Rightarrow> told_on model models hs)"

definition read_on :: "string \<Rightarrow> heard list \<Rightarrow> int" where
  "read_on model hs = fold (\<lambda>h n. case h of CountsRead m tot now kinds \<Rightarrow> if m = model then max n tot else n | _ \<Rightarrow> n) hs 0"

lemma get_or_put [simp]: "get_or (dict_put k v d) j w = (if j = k then v else get_or d j w)"
  by (simp add: get_or_def)

lemma notes_kinds_fields [simp]:
  "mo_models (notes_kinds key b m) = mo_models m" "mo_totals (notes_kinds key b m) = mo_totals m"
  "mo_parts (notes_kinds key b m) = mo_parts m" "mo_spent (notes_kinds key b m) = mo_spent m"
  by (simp_all add: notes_kinds_def)

lemma notes_parts_fields [simp]:
  "mo_models (notes_parts n m) = mo_models m" "mo_totals (notes_parts n m) = mo_totals m"
  "mo_kinds (notes_parts n m) = mo_kinds m" "mo_spent (notes_parts n m) = mo_spent m"
  by (simp_all add: notes_parts_def)

lemma notes_spent_fields [simp]:
  "mo_models (notes_spent n now g m) = mo_models m" "mo_totals (notes_spent n now g m) = mo_totals m"
  "mo_kinds (notes_spent n now g m) = mo_kinds m" "mo_parts (notes_spent n now g m) = mo_parts m"
  "mo_spent (notes_spent n now g m) =
     (if get_or (mo_spent m) n 0 < most_seen n (mo_totals m) then dict_put n (most_seen n (mo_totals m)) (mo_spent m) else mo_spent m)"
  by (simp_all add: notes_spent_def Let_def)

lemma counts_models [simp]: "mo_models (counts s n tot now kinds m) = mo_models m"
  by (simp add: counts_def Let_def)

lemma counts_totals:
  "get_or (mo_totals (counts s n tot now kinds m)) key 0 = (if key = (s, n) then max tot (get_or (mo_totals m) (s, n) 0) else get_or (mo_totals m) key 0)"
  by (simp add: counts_def Let_def)

lemma fullest_cong: "mo_kinds m = mo_kinds m' \<Longrightarrow> mo_totals m = mo_totals m' \<Longrightarrow> fullest n m = fullest n m'"
  by (simp add: fullest_def)

text \<open>A source saying something of one model leaves what is fullest of another as it was.\<close>

lemma fuller_put:
  assumes "snd key \<noteq> n" and "\<And>s. dict_get kinds (s, n) = dict_get kinds' (s, n)"
  shows "foldl (fuller n kinds) best (dict_put key v totals) = foldl (fuller n kinds') best totals"
proof (induction totals arbitrary: best)
  case Nil
  have "fuller n kinds best (key, v) = best" using assms(1) by (cases best; cases key) (auto simp: fuller_def)
  then show ?case by simp
next
  case (Cons e totals)
  obtain k w where e: "e = (k, w)" by (cases e)
  have same: "fuller n kinds best (k, w) = fuller n kinds' best (k, w)" for best w
    using assms(2) by (cases best; cases k) (auto simp: fuller_def)
  have other: "foldl (fuller n kinds) best totals = foldl (fuller n kinds') best totals" for best
    by (rule foldl_cong) (use assms(2) in \<open>auto simp: fuller_def split: prod.split\<close>)
  show ?case
  proof (cases "k = key")
    case True
    have "fuller n kinds best (key, u) = best" "fuller n kinds' best (key, u) = best" for u best
      using assms(1) by (cases best; cases key; auto simp: fuller_def)+
    then show ?thesis using e True other by simp
  next
    case False
    then show ?thesis using e same Cons.IH by simp
  qed
qed

definition after_kinds :: "string \<times> string \<Rightarrow> int \<Rightarrow> amounts option \<Rightarrow> monitor \<Rightarrow> monitor" where
  "after_kinds key tot kinds m =
     notes_kinds key (said_kinds kinds) (m\<lparr>mo_totals := dict_put key (max tot (get_or (mo_totals m) key 0)) (mo_totals m)\<rparr>)"

lemma counts_is:
  "counts s n tot now kinds m =
     (if tot \<le> get_or (mo_totals m) (s, n) 0 \<and> same_amounts (said_kinds kinds) (dict_get (mo_kinds m) (s, n)) then m
      else let m = after_kinds (s, n) tot kinds m in notes_spent n now (grown_of n m) (notes_parts n m))"
  by (simp add: counts_def after_kinds_def Let_def)

lemma dict_get_del_other: "k \<noteq> j \<Longrightarrow> dict_get (dict_del j d) k = dict_get d k"
  by (induction d) auto

lemma fullest_other: "n' \<noteq> n \<Longrightarrow> fullest n' (after_kinds (s, n) tot kinds m) = fullest n' m"
  unfolding fullest_def after_kinds_def
  by (rule arg_cong [of _ _ snd]) (simp, rule fuller_put, simp_all add: notes_kinds_def dict_get_del_other split: option.split)

lemma after_kinds_fields [simp]:
  "mo_parts (after_kinds key tot kinds m) = mo_parts m" "mo_spent (after_kinds key tot kinds m) = mo_spent m"
  "mo_totals (after_kinds key tot kinds m) = dict_put key (max tot (get_or (mo_totals m) key 0)) (mo_totals m)"
  by (simp_all add: after_kinds_def)


text \<open>
  What is kept of a model: what is spent is the most of what each source said, and its parts are those of the fullest
  source.
\<close>

definition totals_ok :: "((string \<times> string) \<times> int) list \<Rightarrow> bool" where
  "totals_ok ts \<longleftrightarrow> dict_ok ts \<and> (\<forall>((s, n), v)\<in>set ts. s \<in> {''told'', ''read''} \<and> 0 \<le> v)"

definition spent_ok :: "monitor \<Rightarrow> bool" where
  "spent_ok m \<longleftrightarrow>
     totals_ok (mo_totals m) \<and> dict_ok (mo_parts m) \<and> (\<forall>(k, b)\<in>set (mo_kinds m). b \<noteq> []) \<and>
     (\<forall>n. get_or (mo_spent m) n 0 = max (get_or (mo_totals m) (''told'', n) 0) (get_or (mo_totals m) (''read'', n) 0)) \<and>
     (\<forall>n. same_amounts (dict_get (mo_parts m) n) (fullest n m))"

lemma dict_put_entry: "x \<in> set (dict_put k v m) \<Longrightarrow> x = (k, v) \<or> x \<in> set m"
  by (induction m) (auto split: if_splits)

lemma totals_ok_put: "totals_ok ts \<Longrightarrow> s \<in> {''told'', ''read''} \<Longrightarrow> totals_ok (dict_put (s, n) (max v (get_or ts (s, n) 0)) ts)"
proof -
  assume ok: "totals_ok ts" and s: "s \<in> {''told'', ''read''}"
  have nonneg: "0 \<le> get_or ts (s, n) 0"
    using ok by (auto simp: totals_ok_def get_or_def split: option.split dest!: dict_get_in_set)
  then show ?thesis using ok s by (auto simp: totals_ok_def dest!: dict_put_entry)
qed

lemma totals_ok_get: "totals_ok ts \<Longrightarrow> 0 \<le> get_or ts key 0"
  by (auto simp: totals_ok_def get_or_def split: option.split dest!: dict_get_in_set)

lemma most_seen_is:
  assumes "totals_ok ts" and "dict_get ts (s, n) \<noteq> None"
  shows "most_seen n ts = max (get_or ts (''told'', n) 0) (get_or ts (''read'', n) 0)"
  unfolding most_seen_def
proof (rule Max_eqI)
  let ?vs = "snd ` {x \<in> set ts. snd (fst x) = n}"
  show "finite ?vs" by simp
  show "v \<le> max (get_or ts (''told'', n) 0) (get_or ts (''read'', n) 0)" if v: "v \<in> ?vs" for v
  proof -
    obtain s' where "((s', n), v) \<in> set ts" using v by auto
    then have "s' \<in> {''told'', ''read''}" "dict_get ts (s', n) = Some v"
      using assms(1) by (auto simp: totals_ok_def dict_ok_def dict_get_map_of)
    then show ?thesis by (auto simp: get_or_def)
  qed
  have there: "get_or ts (s', n) 0 \<in> ?vs" if "dict_get ts (s', n) \<noteq> None" for s'
    using that by (force simp: get_or_def dest: dict_get_in_set)
  obtain v where "((s, n), v) \<in> set ts" using assms(2) by (auto dest: dict_get_in_set)
  then have "s \<in> {''told'', ''read''}" using assms(1) by (auto simp: totals_ok_def)
  then have some: "dict_get ts (''told'', n) \<noteq> None \<or> dict_get ts (''read'', n) \<noteq> None" using assms(2) by auto
  have none: "get_or ts key 0 = 0" if "dict_get ts key = None" for key using that by (simp add: get_or_def)
  note least = totals_ok_get [OF assms(1), of "(''told'', n)"] totals_ok_get [OF assms(1), of "(''read'', n)"]
  show "max (get_or ts (''told'', n) 0) (get_or ts (''read'', n) 0) \<in> ?vs"
  proof (cases "dict_get ts (''told'', n) = None")
    case True
    then have "max (get_or ts (''told'', n) 0) (get_or ts (''read'', n) 0) = get_or ts (''read'', n) 0"
      using none [OF True] least(2) by (simp add: max_def)
    then show ?thesis using there [of "''read''"] some True by argo
  next
    case told: False
    show ?thesis
    proof (cases "dict_get ts (''read'', n) = None")
      case True
      then have "max (get_or ts (''told'', n) 0) (get_or ts (''read'', n) 0) = get_or ts (''told'', n) 0"
        using none [OF True] least(1) by (simp add: max_def)
      then show ?thesis using there [OF told] by argo
    next
      case False
      then show ?thesis using there [OF told] there [OF False] unfolding max_def by presburger
    qed
  qed
qed

lemma same_amounts_refl [simp]: "same_amounts a a"
  by (simp add: same_amounts_def split: option.split)

lemma same_amounts_some: "same_amounts (Some f) (Some (get_or d n [])) \<Longrightarrow> f \<noteq> [] \<Longrightarrow> same_amounts (dict_get d n) (Some f)"
  by (cases "dict_get d n") (auto simp: same_amounts_def get_or_def)


lemma fullest_kinds: "fullest n m = Some f \<Longrightarrow> \<exists>s. dict_get (mo_kinds m) (s, n) = Some f"
proof -
  have "snd (foldl (fuller n ks) best ts) = Some f \<Longrightarrow> snd best = Some f \<or> (\<exists>s. dict_get ks (s, n) = Some f)" for ks best ts
  proof (induction ts arbitrary: best)
    case Nil
    then show ?case by simp
  next
    case (Cons e ts)
    have "snd (fuller n ks best e) = Some f \<Longrightarrow> snd best = Some f \<or> (\<exists>s. dict_get ks (s, n) = Some f)"
      by (auto simp: fuller_def Let_def split: prod.splits if_splits option.splits)
    then show ?case using Cons.IH [of "fuller n ks best e"] Cons.prems by auto
  qed
  moreover assume "fullest n m = Some f"
  ultimately show ?thesis unfolding fullest_def by fastforce
qed

lemma in_del: "x \<in> set (dict_del k m) \<Longrightarrow> x \<in> set m"
  by (induction m) (auto split: if_splits)

lemma kinds_nonempty:
  assumes "\<forall>(k, b)\<in>set (mo_kinds m). b \<noteq> []"
  shows "\<forall>(k, b)\<in>set (mo_kinds (after_kinds key tot kinds m)). b \<noteq> []"
proof
  fix x assume x: "x \<in> set (mo_kinds (after_kinds key tot kinds m))"
  have "x \<in> set (mo_kinds m) \<or> (\<exists>b. said_kinds kinds = Some b \<and> x = (key, b))"
    using x by (auto simp: after_kinds_def notes_kinds_def dest: in_del dict_put_entry split: option.splits if_splits)
  moreover have "b \<noteq> []" if "said_kinds kinds = Some b" for b using that by (auto simp: said_kinds_def split: option.splits if_splits)
  ultimately show "case x of (k, b) \<Rightarrow> b \<noteq> []" using assms by auto
qed

lemma counts_spent_ok:
  assumes "spent_ok m" and "s \<in> {''told'', ''read''}"
  shows "spent_ok (counts s n tot now kinds m)"
proof (cases "tot \<le> get_or (mo_totals m) (s, n) 0 \<and> same_amounts (said_kinds kinds) (dict_get (mo_kinds m) (s, n))")
  case True
  then show ?thesis using assms(1) by (simp add: counts_is)
next
  case False
  let ?k = "after_kinds (s, n) tot kinds m"
  let ?m = "notes_spent n now (grown_of n ?k) (notes_parts n ?k)"
  let ?ts = "dict_put (s, n) (max tot (get_or (mo_totals m) (s, n) 0)) (mo_totals m)"
  have old: "totals_ok (mo_totals m)" "dict_ok (mo_parts m)" "\<forall>(k, b)\<in>set (mo_kinds m). b \<noteq> []"
      "\<And>n. get_or (mo_spent m) n 0 = max (get_or (mo_totals m) (''told'', n) 0) (get_or (mo_totals m) (''read'', n) 0)"
      "\<And>n. same_amounts (dict_get (mo_parts m) n) (fullest n m)"
    using assms(1) by (simp_all add: spent_ok_def)
  have ts: "totals_ok ?ts" using old(1) assms(2) by (rule totals_ok_put)
  have fields: "mo_totals ?m = ?ts" "mo_kinds ?m = mo_kinds ?k" by simp_all
  have full: "fullest n' ?m = fullest n' ?k" for n' by (rule fullest_cong) simp_all
  have "get_or (mo_spent ?m) n' 0 = max (get_or ?ts (''told'', n') 0) (get_or ?ts (''read'', n') 0)" for n'
  proof (cases "n' = n")
    case True
    have "most_seen n ?ts = max (get_or ?ts (''told'', n) 0) (get_or ?ts (''read'', n) 0)"
      by (rule most_seen_is [OF ts, of s]) simp
    then show ?thesis using old(4) [of n] True assms(2) by (auto simp: max_def)
  next
    case False
    then show ?thesis using old(4) [of n'] by simp
  qed
  moreover have "same_amounts (dict_get (mo_parts ?m) n') (fullest n' ?m)" for n'
  proof (cases "n' = n")
    case True
    show ?thesis
    proof (cases "fullest n ?k")
      case None
      then have "mo_parts ?m = dict_del n (mo_parts m)" by (simp add: notes_parts_def)
      moreover have "fullest n ?m = None" using full None by simp
      ultimately show ?thesis using True old(2) by (simp only: dict_get_del) simp
    next
      case (Some f)
      then have "f \<noteq> []" using fullest_kinds [OF Some] kinds_nonempty [OF old(3), of "(s, n)" tot kinds] by (auto dest!: dict_get_in_set)
      moreover have "mo_parts ?m = (if same_amounts (Some f) (Some (get_or (mo_parts m) n [])) then mo_parts m else dict_put n f (mo_parts m))"
        by (simp add: notes_parts_def Some)
      moreover have "fullest n ?m = Some f" using full Some by simp
      ultimately show ?thesis using True same_amounts_some [of f "mo_parts m" n] by simp
    qed
  next
    case False
    then have "fullest n' ?m = fullest n' m" by (simp add: full fullest_other)
    moreover have "dict_get (mo_parts ?m) n' = dict_get (mo_parts m) n'"
      using False by (simp add: notes_parts_def dict_get_del_other split: option.split)
    ultimately show ?thesis using old(5) by simp
  qed
  moreover have "dict_ok (mo_parts ?m)" using old(2) by (auto simp: notes_parts_def split: option.split)
  ultimately have "spent_ok ?m" using ts kinds_nonempty [OF old(3)] by (simp add: spent_ok_def)
  then show ?thesis by (simp only: counts_is Let_def False if_False)
qed


text \<open>Every other operation leaves what is spent.\<close>

lemma spent_ok_cong:
  "spent_ok m \<Longrightarrow> mo_totals m' = mo_totals m \<Longrightarrow> mo_kinds m' = mo_kinds m \<Longrightarrow> mo_parts m' = mo_parts m \<Longrightarrow> mo_spent m' = mo_spent m \<Longrightarrow>
   spent_ok m'"
  using fullest_cong [of m' m] by (simp add: spent_ok_def)

definition kept_of :: "monitor \<Rightarrow> ((string \<times> string) \<times> int) list \<times> ((string \<times> string) \<times> amounts) list \<times> (string \<times> amounts) list \<times> (string \<times> int) list" where
  "kept_of m = (mo_totals m, mo_kinds m, mo_parts m, mo_spent m)"

lemma kept_of_ok: "kept_of m' = kept_of m \<Longrightarrow> spent_ok m' = spent_ok m"
  using spent_ok_cong [of m m'] spent_ok_cong [of m' m] by (auto simp: kept_of_def)

lemma leaves_spent [simp]:
  "kept_of (begins a n now m) = kept_of m" "kept_of (ends a now m) = kept_of m" "kept_of (started a w b m) = kept_of m"
  "kept_of (finished a w b m) = kept_of m" "kept_of (reporting a ks m) = kept_of m" "kept_of (stirring m) = kept_of m"
  "kept_of (stops_clock now m) = kept_of m" "kept_of (fst (spending whence kept now m)) = kept_of m"
  by (simp_all add: kept_of_def begins_def ends_def started_def finished_def reporting_def stirring_def stops_clock_def spending_def
      Let_def split: option.split)

lemma leaves_models [simp]:
  "mo_models (begins a n now m) = dict_put a n (mo_models m)" "mo_models (ends a now m) = mo_models m"
  "mo_models (started a w b m) = mo_models m" "mo_models (finished a w b m) = mo_models m" "mo_models (reporting a ks m) = mo_models m"
  "mo_models (stirring m) = mo_models m" "mo_models (stops_clock now m) = mo_models m"
  "mo_models (fst (spending whence kept now m)) = mo_models m"
  by (simp_all add: begins_def ends_def started_def finished_def reporting_def stirring_def stops_clock_def spending_def
      Let_def split: option.split)

lemma monitor_spend_is:
  assumes "0 < tokens" and "told_model a n (mo_models m) = (models, named)"
  shows "\<exists>b. monitor_spend a tokens n now kinds m =
    counts ''told'' named (get_or (mo_totals m) (''told'', named) 0 + tokens) now (Some b)
      (m\<lparr>mo_models := models, mo_used := dict_put a (get_or (mo_used m) a 0 + tokens) (mo_used m)\<rparr>)"
  using assms by (auto simp: monitor_spend_def Let_def)

lemma front_by_session [simp]: "rm_front (by_session s f r) = rm_front r"
  by (simp add: by_session_def split: option.split)

lemma front_at_front [simp]: "rm_front (at_front f r) = f (rm_front r)"
  by (simp add: at_front_def)

lemmas leaves_spent_ok = leaves_spent [THEN kept_of_ok]

lemma leaves_totals [simp]:
  "mo_totals (begins a n now m) = mo_totals m" "mo_totals (ends a now m) = mo_totals m" "mo_totals (started a w b m) = mo_totals m"
  "mo_totals (finished a w b m) = mo_totals m" "mo_totals (reporting a ks m) = mo_totals m" "mo_totals (stirring m) = mo_totals m"
  "mo_totals (stops_clock now m) = mo_totals m" "mo_totals (fst (spending whence kept now m)) = mo_totals m"
  using leaves_spent [unfolded kept_of_def] by simp_all

definition reads_one :: "string \<Rightarrow> heard \<Rightarrow> int \<Rightarrow> int" where
  "reads_one model h n = (case h of CountsRead m tot now kinds \<Rightarrow> if m = model then max n tot else n | _ \<Rightarrow> n)"

lemma read_on_is: "read_on model hs = fold (reads_one model) hs 0"
  unfolding read_on_def reads_one_def ..

definition told_at :: "run_monitor \<Rightarrow> string \<Rightarrow> int" where
  "told_at r model = get_or (mo_totals (rm_front r)) (''told'', model) 0"

definition read_at :: "run_monitor \<Rightarrow> string \<Rightarrow> int" where
  "read_at r model = get_or (mo_totals (rm_front r)) (''read'', model) 0"

lemma hears_spends:
  assumes "spent_ok (rm_front r)" and "0 < tokens" and h: "h = Spends a tokens n now kinds s"
  shows "spent_ok (rm_front (hears whence kept r h)) \<and>
    told_at (hears whence kept r h) model + told_on model (mo_models (rm_front (hears whence kept r h))) hs =
      told_at r model + told_on model (mo_models (rm_front r)) (h # hs) \<and>
    read_at (hears whence kept r h) model = read_at r model"
proof -
  let ?m = "rm_front r"
  obtain models named where named: "told_model a n (mo_models ?m) = (models, named)" by (metis surj_pair)
  let ?after = "?m\<lparr>mo_models := models, mo_used := dict_put a (get_or (mo_used ?m) a 0 + tokens) (mo_used ?m)\<rparr>"
  obtain b where b: "monitor_spend a tokens n now kinds ?m =
      counts ''told'' named (get_or (mo_totals ?m) (''told'', named) 0 + tokens) now (Some b) ?after"
    using monitor_spend_is [OF assms(2) named] by blast
  have front: "rm_front (hears whence kept r h) = monitor_spend a tokens n now kinds ?m" using assms(2) by (simp add: hears_def h)
  have "kept_of ?after = kept_of ?m" by (simp add: kept_of_def)
  then have "spent_ok ?after" using assms(1) kept_of_ok by blast
  then have "spent_ok (rm_front (hears whence kept r h))" unfolding front b by (rule counts_spent_ok) simp
  then show ?thesis using named assms(2) by (auto simp: told_at_def read_at_def front [unfolded h] b counts_totals h)
qed

lemma hears_one:
  assumes "spent_ok (rm_front r)"
  shows "spent_ok (rm_front (hears whence kept r h)) \<and>
    told_at (hears whence kept r h) model + told_on model (mo_models (rm_front (hears whence kept r h))) hs =
      told_at r model + told_on model (mo_models (rm_front r)) (h # hs) \<and>
    read_at (hears whence kept r h) model = reads_one model h (read_at r model)"
proof -
  show ?thesis
  proof (cases h)
    case (Spends a tokens n now kinds s)
    show ?thesis
    proof (cases "0 < tokens")
      case True
      then show ?thesis using hears_spends [OF assms True Spends] Spends by (simp add: reads_one_def)
    next
      case False
      then show ?thesis using Spends assms by (simp add: hears_def reads_one_def)
    qed
  next
    case (CountsRead n tot now kinds)
    have "spent_ok (counts ''read'' n tot now kinds (rm_front r))" using assms by (rule counts_spent_ok) simp
    then show ?thesis using CountsRead by (simp add: hears_def told_at_def read_at_def counts_totals reads_one_def max.commute)
  qed (use assms in \<open>simp_all add: hears_def told_at_def read_at_def reads_one_def leaves_spent_ok\<close>)
qed

lemma hears_all:
  assumes "spent_ok (rm_front r)"
  shows "spent_ok (rm_front (foldl (hears whence kept) r hs)) \<and>
    told_at (foldl (hears whence kept) r hs) model = told_at r model + told_on model (mo_models (rm_front r)) hs \<and>
    read_at (foldl (hears whence kept) r hs) model = fold (reads_one model) hs (read_at r model)"
  using assms
proof (induction hs arbitrary: r)
  case Nil
  then show ?case by simp
next
  case (Cons h hs)
  note one = hears_one [OF Cons.prems, of whence kept h model hs]
  show ?case using Cons.IH [of "hears whence kept r h"] one by simp
qed

text \<open>
  C38. What a run has spent on a model, however its turns, the reports of its backends, the readings of its logs and
  the looks at it interleave, is the higher of what the turns were told to have cost, added up, and the most the logs
  were ever read to come to: the two count the same tokens and are never added together.
\<close>

theorem spent_is_the_most_seen:
  "get_or (mo_spent (rm_front (foldl (hears whence kept) (watched_from began) hs))) model 0 = max (told_on model [] hs) (read_on model hs)"
proof -
  have "spent_ok (rm_front (watched_from began))"
    by (simp add: spent_ok_def totals_ok_def watched_from_def monitor_made_def get_or_def fullest_def same_amounts_def)
  note all = hears_all [OF this, of whence kept hs model]
  then show ?thesis
    by (simp add: spent_ok_def told_at_def read_at_def read_on_is) (simp add: watched_from_def monitor_made_def get_or_def)
qed

text \<open>Every figure of a model by kind, and its price, is read off what one source said of it, whole.\<close>

lemma parts_are_one_source:
  assumes "dict_get (mo_parts (rm_front (foldl (hears whence kept) (watched_from began) hs))) model = Some parts"
  shows "\<exists>source b. dict_get (mo_kinds (rm_front (foldl (hears whence kept) (watched_from began) hs))) (source, model) = Some b \<and> set b = set parts"
proof -
  let ?m = "rm_front (foldl (hears whence kept) (watched_from began) hs)"
  have "spent_ok (rm_front (watched_from began))"
    by (simp add: spent_ok_def totals_ok_def watched_from_def monitor_made_def get_or_def fullest_def same_amounts_def)
  then have "spent_ok ?m" using hears_all by blast
  then have "same_amounts (Some parts) (fullest model ?m)" using assms by (metis spent_ok_def)
  then obtain b where "fullest model ?m = Some b" "set parts = set b" by (auto simp: same_amounts_def split: option.splits)
  then show ?thesis using fullest_kinds [of model ?m b] by auto
qed

end
