(* ===== verification/Tailing.thy ===== *)
theory Tailing
  imports PyString PyNumber Lines "HOL-Library.Sublist" "HOL-Library.Char_ord" "HOL-Library.List_Lexorder"
begin

text \<open>
  \<open>hmz.coganchor.tailing\<close>: the copies kept here of the sessions a CLI logs on another machine. A file is its bytes,
  written as characters. What the two scripts answer down the road is a parameter: \<open>lists\<close>, from the arguments of
  \<open>find\<close> to the lines it wrote, and \<open>reads\<close>, from the pieces asked for to the bytes; either may fail.
\<close>

section \<open>What is asked for\<close>

definition MOST_READ :: nat where "MOST_READ = 8388608"
definition ROUNDS :: nat where "ROUNDS = 64"

definition is_lines :: "string \<Rightarrow> bool" where
  "is_lines p = ends_with ''.jsonl'' p"

definition is_wild :: "string \<Rightarrow> bool" where
  "is_wild part \<longleftrightarrow> (\<exists>c\<in>set part. c \<in> {CHR ''*'', CHR ''?'', CHR 0x5B})"

definition glob_root :: "string \<Rightarrow> string" where
  "glob_root glob =
     (let fixed = takeWhile (\<lambda>part. \<not> is_wild part) (butlast (py_split CHR ''/'' glob)); r = py_join ''/'' fixed
      in if r = [] then ''.'' else r)"

text \<open>\<open>glob.replace("**/", "*")\<close>, and the leading \<open>./\<close> that \<open>find\<close> gives what is under \<open>.\<close>\<close>

fun any_depth :: "string \<Rightarrow> string" where
  "any_depth [] = []"
| "any_depth (c # s) =
     (if starts_with ''**/'' (c # s) then CHR ''*'' # any_depth (drop 2 s) else c # any_depth s)"

definition patterns :: "(string \<Rightarrow> string list) \<Rightarrow> string list \<Rightarrow> string list" where
  "patterns logged idents =
     map (\<lambda>p. if glob_root p \<noteq> ''.'' then p else ''./'' @ p) (map any_depth (concat (map logged idents)))"

fun any_path :: "string list \<Rightarrow> string list" where
  "any_path [] = []"
| "any_path [p] = [''-path'', p]"
| "any_path (p # ps) = ''-path'' # p # ''-o'' # any_path ps"

definition find_args :: "string list \<Rightarrow> string list" where
  "find_args ps = sort (remdups (map glob_root ps)) @ [''-type'', ''f'', ''(''] @ any_path ps @ ['')'']"

section \<open>What has grown\<close>

type_synonym copies = "string list \<Rightarrow> string option"

text \<open>Where a path lands under the directory of the copies: its parts, \<open>pathlib\<close> dropping the empty ones and \<open>.\<close>\<close>

definition lands :: "string \<Rightarrow> string list" where
  "lands p = filter (\<lambda>part. part \<noteq> [] \<and> part \<noteq> ''.'') (py_split CHR ''/'' p)"

definition held :: "copies \<Rightarrow> string list \<Rightarrow> string" where
  "held f k = (case f k of None \<Rightarrow> [] | Some b \<Rightarrow> b)"

record piece =
  pc_path :: string
  pc_was :: nat
  pc_have :: nat
  pc_stop :: nat

definition is_size :: "string \<Rightarrow> bool" where
  "is_size s \<longleftrightarrow> s \<noteq> [] \<and> (\<forall>c\<in>set s. is_digit c)"

definition stays_within :: "string \<Rightarrow> bool" where
  "stays_within p \<longleftrightarrow> \<not> starts_with ''/'' p \<and> ''..'' \<notin> set (py_split CHR ''/'' p)"

definition plan_of :: "bool \<Rightarrow> copies \<Rightarrow> string \<Rightarrow> nat \<Rightarrow> piece option" where
  "plan_of whole f p n =
     (if \<not> (is_lines p \<or> whole) then None
      else let was = length (held f (lands p));
               have = (if \<not> is_lines p \<or> n < was then 0 else was)
           in if n > have \<or> \<not> is_lines p
              then Some \<lparr>pc_path = p, pc_was = was, pc_have = have,
                         pc_stop = (if is_lines p then min n (have + MOST_READ) else n)\<rparr>
              else None)"

definition listed_line :: "bool \<Rightarrow> copies \<Rightarrow> string \<Rightarrow> piece option" where
  "listed_line whole f line =
     (case py_partition CHR '' '' line of (n, _, p) \<Rightarrow>
        if \<not> is_size n \<or> \<not> stays_within p then None else plan_of whole f p (nat_of_digits n))"

definition grown :: "bool \<Rightarrow> copies \<Rightarrow> string list \<Rightarrow> piece list" where
  "grown whole f lines = List.map_filter (listed_line whole f) lines"

definition span_of :: "piece \<Rightarrow> nat" where
  "span_of e = pc_stop e - pc_have e"

text \<open>The second script: \<open>tail -c +$(($2 + 1)) | head -c $(($3 - $2))\<close> of each file in turn.\<close>

definition read_one :: "string \<Rightarrow> piece \<Rightarrow> string" where
  "read_one b e = take (span_of e) (drop (pc_have e) b)"

definition read_script :: "(piece \<Rightarrow> string) \<Rightarrow> piece list \<Rightarrow> string" where
  "read_script holds es = concat (map (\<lambda>e. read_one (holds e) e) es)"

section \<open>The copies\<close>

definition capped :: "piece \<Rightarrow> bool" where
  "capped e \<longleftrightarrow> is_lines (pc_path e) \<and> span_of e = MOST_READ"

definition write_one :: "bool \<Rightarrow> piece \<Rightarrow> string \<Rightarrow> copies \<Rightarrow> copies" where
  "write_one whole e read f =
     (let chunk = (if whole \<or> capped e then read else full_lines read); k = lands (pc_path e); here = held f k
      in if chunk = [] then f
         else if length here \<noteq> pc_was e then f(k \<mapsto> here)
         else f(k \<mapsto> take (pc_have e) here @ chunk))"

fun write_all :: "bool \<Rightarrow> piece list \<Rightarrow> string \<Rightarrow> copies \<Rightarrow> copies" where
  "write_all whole [] said f = f"
| "write_all whole (e # es) said f =
     write_all whole es (drop (span_of e) said) (write_one whole e (take (span_of e) said) f)"

record road =
  rd_lists :: "string list \<Rightarrow> string list option"
  rd_reads :: "piece list \<Rightarrow> string option"

text \<open>One home copied from: the copies, and whether a log was left only partly read (\<open>None\<close> where a script failed).\<close>

definition copied_pieces :: "bool \<Rightarrow> road \<Rightarrow> piece list \<Rightarrow> copies \<Rightarrow> copies \<times> bool option" where
  "copied_pieces whole way es f =
     (if es = [] then (f, Some False)
      else case rd_reads way es of
        None \<Rightarrow> (f, None)
      | Some said \<Rightarrow>
          if length said \<noteq> sum_list (map span_of es) then (f, Some whole)
          else (write_all whole es said f, Some (\<exists>e\<in>set es. capped e)))"

definition copied_from :: "bool \<Rightarrow> string list \<Rightarrow> road \<Rightarrow> copies \<Rightarrow> copies \<times> bool option" where
  "copied_from whole ps way f =
     (if ps = [] then (f, Some False)
      else case rd_lists way (find_args ps) of
        None \<Rightarrow> (f, None)
      | Some lines \<Rightarrow> copied_pieces whole way (grown whole f lines) f)"

text \<open>\<open>_copied\<close>: every home in turn, a failure of one leaving the rest; and \<open>copy\<close>, each round on the road as it is then.\<close>

fun copied :: "bool \<Rightarrow> string list \<Rightarrow> road list \<Rightarrow> copies \<Rightarrow> copies \<times> bool option" where
  "copied whole ps [] f = (f, Some False)"
| "copied whole ps (way # ways) f =
     (case copied_from whole ps way f of
        (f', None) \<Rightarrow> (f', None)
      | (f', Some one) \<Rightarrow>
          (case copied whole ps ways f' of
             (f'', None) \<Rightarrow> (f'', None)
           | (f'', Some rest) \<Rightarrow> (f'', Some (one \<or> rest))))"

fun copy_rounds :: "bool \<Rightarrow> string list \<Rightarrow> road list list \<Rightarrow> copies \<Rightarrow> copies" where
  "copy_rounds whole ps [] f = f"
| "copy_rounds whole ps (ways # rounds) f =
     (case copied whole ps ways f of
        (f', Some True) \<Rightarrow> copy_rounds whole ps rounds f'
      | (f', _) \<Rightarrow> f')"

definition copy :: "bool \<Rightarrow> string list \<Rightarrow> road list list \<Rightarrow> copies \<Rightarrow> copies" where
  "copy whole ps rounds f =
     copy_rounds whole ps (take (if whole then ROUNDS else 1) rounds) f"

section \<open>A log only written to at its end\<close>

text \<open>
  A road to a machine where the log landing at \<open>k\<close> grows from \<open>l\<close> to \<open>l'\<close> while it is asked: the length listed is one it had,
  and what is read is read of it as it then is. Nothing is said of any other file.
\<close>

definition serves_log :: "string list \<Rightarrow> string \<Rightarrow> string \<Rightarrow> road \<Rightarrow> bool" where
  "serves_log k l l' way \<longleftrightarrow>
     (\<forall>a lines line n b p. rd_lists way a = Some lines \<longrightarrow> line \<in> set lines \<longrightarrow> py_partition CHR '' '' line = (n, b, p) \<longrightarrow>
        lands p = k \<longrightarrow> is_size n \<longrightarrow> length l \<le> nat_of_digits n) \<and>
     (\<forall>es said. rd_reads way es = Some said \<longrightarrow>
        (\<exists>holds. said = read_script holds es \<and> (\<forall>e. lands (pc_path e) = k \<longrightarrow> prefix (holds e) l')))"

text \<open>The same of one road after another, the log growing all the while.\<close>

fun all_serve :: "string list \<Rightarrow> string \<Rightarrow> road list \<Rightarrow> string \<Rightarrow> bool" where
  "all_serve k l [] l' \<longleftrightarrow> prefix l l'"
| "all_serve k l (way # ways) l' \<longleftrightarrow> (\<exists>m. prefix l m \<and> serves_log k l m way \<and> all_serve k m ways l')"

inductive tails :: "string list \<Rightarrow> string list \<Rightarrow> string \<times> copies \<Rightarrow> string \<times> copies \<Rightarrow> bool"
  for ps k s where
  stays: "tails ps k s s"
| written: "tails ps k s (l, f) \<Longrightarrow> tails ps k s (l @ z, f)"
| copies: "tails ps k s (l, f) \<Longrightarrow> all_serve k l (concat rounds) l' \<Longrightarrow>
    tails ps k s (l', copy whole ps rounds f)"

lemma held_upd [simp]: "held (f(k \<mapsto> b)) k = b" "k \<noteq> k' \<Longrightarrow> held (f(k \<mapsto> b)) k' = held f k'"
  by (simp_all add: held_def)

lemma plan_of_path: "plan_of whole f p n = Some e \<Longrightarrow> pc_path e = p"
  by (auto simp: plan_of_def Let_def split: if_splits)

lemma plan_of_fits:
  assumes "plan_of whole f p n = Some e"
  shows "pc_was e = length (held f (lands p))" "pc_have e \<le> pc_stop e" "pc_stop e \<le> n"
    "length (held f (lands p)) \<le> n \<Longrightarrow> pc_have e = 0 \<and> pc_stop e = n \<and> whole \<and> \<not> is_lines p \<or> pc_have e = length (held f (lands p))"
  using assms by (auto simp: plan_of_def Let_def split: if_splits)

text \<open>A piece that is well asked for: the length of the copy, and the bytes after it or the whole file.\<close>

definition asked_well :: "bool \<Rightarrow> string list \<Rightarrow> string \<Rightarrow> piece \<Rightarrow> bool" where
  "asked_well whole k h e \<longleftrightarrow> (lands (pc_path e) = k \<longrightarrow> pc_was e = length h \<and> pc_have e \<le> pc_stop e \<and>
     (pc_have e = length h \<or> pc_have e = 0 \<and> length h \<le> pc_stop e \<and> whole))"

lemma grown_asked_well:
  assumes "\<And>line n b p. line \<in> set lines \<Longrightarrow> py_partition CHR '' '' line = (n, b, p) \<Longrightarrow> lands p = k \<Longrightarrow> is_size n \<Longrightarrow>
      length (held f k) \<le> nat_of_digits n"
    and "e \<in> set (grown whole f lines)"
  shows "asked_well whole k (held f k) e"
proof -
  obtain line where line: "line \<in> set lines" "listed_line whole f line = Some e"
    using assms(2) by (auto simp: grown_def List.map_filter_def)
  obtain n b p where parts: "py_partition CHR '' '' line = (n, b, p)" by (cases "py_partition CHR '' '' line")
  then have plan: "is_size n" "plan_of whole f p (nat_of_digits n) = Some e"
    using line(2) by (auto simp: listed_line_def split: if_splits)
  show ?thesis
    using plan_of_fits [OF plan(2)] plan_of_path [OF plan(2)] assms(1) [OF line(1) parts _ plan(1)]
    unfolding asked_well_def by auto
qed

text \<open>What \<open>head\<close> gives is never longer than asked for, so an answer of the whole length has each piece whole.\<close>

lemma length_read_one: "length (read_one b e) \<le> span_of e"
  by (simp add: read_one_def)

lemma length_read_script: "length (read_script holds es) \<le> sum_list (map span_of es)"
  by (induction es) (auto simp: read_script_def intro: add_mono length_read_one)

lemma read_script_full:
  assumes "length (read_script holds (e # es)) = sum_list (map span_of (e # es))"
  shows "length (read_one (holds e) e) = span_of e" "length (read_script holds es) = sum_list (map span_of es)"
    "take (span_of e) (read_script holds (e # es)) = read_one (holds e) e"
    "drop (span_of e) (read_script holds (e # es)) = read_script holds es"
proof -
  have split: "read_script holds (e # es) = read_one (holds e) e @ read_script holds es" by (simp add: read_script_def)
  show one: "length (read_one (holds e) e) = span_of e"
    using assms length_read_one [of "holds e" e] length_read_script [of holds es] unfolding split by simp
  show "length (read_script holds es) = sum_list (map span_of es)"
    using assms one unfolding split by simp
  show "take (span_of e) (read_script holds (e # es)) = read_one (holds e) e"
    "drop (span_of e) (read_script holds (e # es)) = read_script holds es"
    using one unfolding split by (simp_all flip: one)
qed

lemma full_lines_is_prefix: "prefix (full_lines s) s"
  using full_lines_prefix [of s] by (auto simp: prefix_def)

lemma write_one_elsewhere: "lands (pc_path e) \<noteq> k \<Longrightarrow> held (write_one whole e r f) k = held f k"
  by (simp add: write_one_def Let_def)

lemma write_one_left: "length (held f k) \<noteq> pc_was e \<Longrightarrow> lands (pc_path e) = k \<Longrightarrow> held (write_one whole e r f) k = held f k"
  by (auto simp: write_one_def Let_def)

lemma write_one_prefix:
  assumes h: "held f k = h" and p: "prefix h l" and asked: "asked_well whole k h e" and k: "lands (pc_path e) = k"
    and b: "prefix b l" and r: "length (read_one b e) = span_of e"
  shows "prefix h (held (write_one whole e (read_one b e) f) k) \<and> prefix (held (write_one whole e (read_one b e) f) k) l"
proof -
  have b_len: "span_of e = 0 \<or> pc_stop e \<le> length b"
    using r by (auto simp: read_one_def span_of_def)
  obtain t where l: "l = b @ t" using b by (auto simp: prefix_def)
  have whole_read: "read_one b e = take (span_of e) (drop (pc_have e) l)"
    using b_len by (cases "span_of e = 0") (auto simp: read_one_def l span_of_def)
  consider (more_of) "pc_have e = length h" | (again) "pc_have e = 0" "length h \<le> pc_stop e" whole
    using asked k by (auto simp: asked_well_def)
  then show ?thesis
  proof cases
    case more_of
    have "prefix (h @ read_one b e) l"
      using p unfolding whole_read more_of by (auto simp: prefix_def) (metis append_take_drop_id)
    moreover from this have "prefix (h @ full_lines (read_one b e)) l"
      using full_lines_is_prefix [of "read_one b e"] by (metis prefix_order.trans same_prefix_prefix)
    ultimately show ?thesis
      using h k p more_of by (auto simp: write_one_def Let_def)
  next
    case again
    have "prefix h (take (pc_stop e) l)"
      using p again(2) by (auto simp: prefix_def)
    then show ?thesis
      using h k p again unfolding whole_read by (auto simp: write_one_def Let_def span_of_def take_is_prefix)
  qed
qed

text \<open>The same file named twice is written once: a copy that is no longer as long as it was is left.\<close>

lemma write_one_grows:
  assumes h0: "prefix h0 (held f k)" and p: "prefix (held f k) l" and asked: "asked_well whole k h0 e"
    and b: "lands (pc_path e) = k \<Longrightarrow> prefix b l" and r: "length (read_one b e) = span_of e"
  shows "prefix (held f k) (held (write_one whole e (read_one b e) f) k) \<and>
    prefix (held (write_one whole e (read_one b e) f) k) l"
proof (cases "lands (pc_path e) = k \<and> held f k = h0")
  case True
  then show ?thesis using write_one_prefix [OF refl p _ _ _ r] asked b by auto
next
  case False
  then have "lands (pc_path e) = k \<Longrightarrow> length (held f k) \<noteq> pc_was e"
    using h0 asked by (auto simp: asked_well_def prefix_def)
  then have "held (write_one whole e (read_one b e) f) k = held f k"
    using write_one_elsewhere write_one_left by metis
  then show ?thesis using p by simp
qed

lemma write_all_grows:
  assumes "prefix h0 (held f k)" "prefix (held f k) l" "\<forall>e\<in>set es. asked_well whole k h0 e"
    "\<forall>e. lands (pc_path e) = k \<longrightarrow> prefix (holds e) l"
    "length (read_script holds es) = sum_list (map span_of es)"
  shows "prefix (held f k) (held (write_all whole es (read_script holds es) f) k) \<and>
    prefix (held (write_all whole es (read_script holds es) f) k) l"
  using assms
proof (induction es arbitrary: f)
  case (Cons e es)
  note full = read_script_full [OF Cons.prems(5)]
  let ?after = "write_one whole e (read_one (holds e) e) f"
  have one: "prefix (held f k) (held ?after k) \<and> prefix (held ?after k) l"
    using Cons.prems by (intro write_one_grows [OF Cons.prems(1,2)] full(1)) auto
  then have "prefix h0 (held ?after k)" using Cons.prems(1) prefix_order.trans by blast
  from Cons.IH [OF this _ _ Cons.prems(4) full(2)] one Cons.prems(3) show ?case
    by (auto simp: full intro: prefix_order.trans)
qed simp

lemma copied_pieces_grows:
  assumes "serves_log k l l' way" "prefix (held f k) l'" "\<forall>e\<in>set es. asked_well whole k (held f k) e"
    "copied_pieces whole way es f = (f', b)"
  shows "prefix (held f k) (held f' k) \<and> prefix (held f' k) l'"
proof (cases "rd_reads way es")
  case (Some said)
  then obtain holds where said: "said = read_script holds es" "\<forall>e. lands (pc_path e) = k \<longrightarrow> prefix (holds e) l'"
    using assms(1) unfolding serves_log_def by metis
  show ?thesis
    using assms Some write_all_grows [OF prefix_order.refl assms(2,3) said(2)] unfolding said(1)
    by (auto simp: copied_pieces_def split: if_splits)
qed (use assms in \<open>auto simp: copied_pieces_def split: if_splits\<close>)

lemma serves_log_sizes:
  "serves_log k l l' way \<Longrightarrow> rd_lists way a = Some lines \<Longrightarrow> line \<in> set lines \<Longrightarrow> py_partition CHR '' '' line = (n, b, p) \<Longrightarrow>
    lands p = k \<Longrightarrow> is_size n \<Longrightarrow> length l \<le> nat_of_digits n"
  unfolding serves_log_def by metis

text \<open>What the copy holds when a round begins is of the log as it was then, or as it is at last.\<close>

lemma copied_from_grows:
  assumes "serves_log k l l' way" "prefix (held f k) l" "prefix l l'" "copied_from whole ps way f = (f', b)"
  shows "prefix (held f k) (held f' k) \<and> prefix (held f' k) l'"
proof (cases "ps = [] \<or> rd_lists way (find_args ps) = None")
  case True
  then show ?thesis using assms by (auto simp: copied_from_def split: if_splits)
next
  case False
  then obtain lines where lines: "rd_lists way (find_args ps) = Some lines" by auto
  have asked: "\<forall>e\<in>set (grown whole f lines). asked_well whole k (held f k) e"
    using serves_log_sizes [OF assms(1) lines] prefix_length_le [OF assms(2)]
    by (intro ballI grown_asked_well) (rule order_trans, blast+)
  have pre: "prefix (held f k) l'" using assms(2,3) prefix_order.trans by blast
  have "copied_pieces whole way (grown whole f lines) f = (f', b)"
    using assms(4) False lines by (simp add: copied_from_def)
  from copied_pieces_grows [OF assms(1) pre asked this] show ?thesis .
qed

lemma all_serve_prefix: "all_serve k l ways l' \<Longrightarrow> prefix l l'"
  by (induction ways arbitrary: l) (auto intro: prefix_order.trans)

lemma copied_grows:
  assumes "all_serve k l (ways @ rest) l'" "prefix (held f k) l" "copied whole ps ways f = (f', b)"
  shows "prefix (held f k) (held f' k) \<and> (\<exists>m. prefix (held f' k) m \<and> prefix m l' \<and> (b \<noteq> None \<longrightarrow> all_serve k m rest l'))"
  using assms
proof (induction ways arbitrary: l f f' b)
  case Nil
  then show ?case using all_serve_prefix by fastforce
next
  case (Cons way ways)
  obtain m where m: "prefix l m" "serves_log k l m way" "all_serve k m (ways @ rest) l'" using Cons.prems(1) by auto
  obtain f1 b1 where one: "copied_from whole ps way f = (f1, b1)" by fastforce
  note step = copied_from_grows [OF m(2) Cons.prems(2) m(1) one]
  show ?case
  proof (cases b1)
    case None
    then show ?thesis using Cons.prems(3) one step all_serve_prefix [OF m(3)] by auto
  next
    case (Some c)
    obtain f2 b2 where two: "copied whole ps ways f1 = (f2, b2)" by fastforce
    have out: "f' = f2" "b \<noteq> None \<longrightarrow> b2 \<noteq> None"
      using Cons.prems(3) one two Some by (auto split: option.splits)
    show ?thesis
      using Cons.IH [OF m(3) _ two] step out prefix_order.trans by blast
  qed
qed

lemma copy_rounds_grows:
  assumes "all_serve k l (concat rounds) l'" "prefix (held f k) l"
  shows "prefix (held f k) (held (copy_rounds whole ps rounds f) k) \<and>
    prefix (held (copy_rounds whole ps rounds f) k) l'"
  using assms
proof (induction rounds arbitrary: l f)
  case Nil
  then show ?case by (auto intro: prefix_order.trans)
next
  case (Cons ways rounds)
  obtain f1 b where one: "copied whole ps ways f = (f1, b)" by fastforce
  have "all_serve k l (ways @ concat rounds) l'" using Cons.prems(1) by simp
  from copied_grows [OF this Cons.prems(2) one] obtain m
    where m: "prefix (held f k) (held f1 k)" "prefix (held f1 k) m" "prefix m l'" "b \<noteq> None \<longrightarrow> all_serve k m (concat rounds) l'"
    by blast
  show ?case
  proof (cases "b = Some True")
    case True
    then show ?thesis using Cons.IH [of m f1] m one prefix_order.trans by auto
  next
    case False
    then have "copy_rounds whole ps (ways # rounds) f = f1"
      using one by (auto split: option.splits bool.splits)
    then show ?thesis using m prefix_order.trans by auto
  qed
qed

lemma all_serve_front: "all_serve k l (ways @ rest) l' \<Longrightarrow> \<exists>m. all_serve k l ways m \<and> prefix m l'"
  by (induction ways arbitrary: l) (use all_serve_prefix in \<open>auto, blast\<close>)

lemma copy_grows:
  assumes "all_serve k l (concat rounds) l'" "prefix (held f k) l"
  shows "prefix (held f k) (held (copy whole ps rounds f) k) \<and>
    prefix (held (copy whole ps rounds f) k) l'"
proof -
  let ?n = "if whole then ROUNDS else 1"
  have "all_serve k l (concat (take ?n rounds) @ concat (drop ?n rounds)) l'"
    using assms(1) by (metis append_take_drop_id concat_append)
  then obtain m where "all_serve k l (concat (take ?n rounds)) m" "prefix m l'"
    using all_serve_front by blast
  then show ?thesis
    using copy_rounds_grows [OF _ assms(2)] prefix_order.trans unfolding copy_def by blast
qed

text \<open>
  C39. A log that is only ever written to at its end is copied as a prefix of it, and no copy takes back what an
  earlier one held, whatever the other files do and whichever commands fail.
\<close>

theorem copies_are_prefixes:
  assumes "tails ps k (l, f) (l', f')" and "prefix (held f k) l"
  shows "prefix (held f k) (held f' k) \<and> prefix (held f' k) l'"
  using assms(1)
proof (induction "(l', f')" arbitrary: l' f' rule: tails.induct)
  case stays
  then show ?case using assms(2) by simp
next
  case (written l1 f1 z)
  then show ?case by (auto intro: prefix_order.trans)
next
  case (copies l1 f1 rounds l2 whole)
  then show ?case using copy_grows [OF copies(3)] prefix_order.trans by blast
qed

section \<open>The last copy of a log that is done\<close>

text \<open>A road to a machine at rest: it lists its files, each once, with their lengths, and reads them as they are.\<close>

definition at_rest :: "string list \<Rightarrow> (string \<Rightarrow> string) \<Rightarrow> road" where
  "at_rest ps holds =
     \<lparr>rd_lists = (\<lambda>_. Some (map (\<lambda>p. show_nat (length (holds p)) @ '' '' @ p) ps)),
      rd_reads = (\<lambda>es. Some (read_script (holds \<circ> pc_path) es))\<rparr>"

definition plain_names :: "string list \<Rightarrow> bool" where
  "plain_names ps \<longleftrightarrow> distinct (map lands ps) \<and> (\<forall>p\<in>set ps. stays_within p)"

lemma is_size_show_nat: "is_size (show_nat n)"
  using show_nat_digits by (simp add: is_size_def)

lemma listed_line_plain:
  assumes "stays_within p"
  shows "listed_line whole f (show_nat n @ '' '' @ p) = plan_of whole f p n"
proof -
  have "CHR '' '' \<notin> set (show_nat n)" using show_nat_digits [of n] by (auto simp: is_digit_def)
  then have "py_partition CHR '' '' (show_nat n @ CHR '' '' # p) = (show_nat n, True, p)" by (rule py_partition_found)
  then show ?thesis using assms by (simp add: listed_line_def is_size_show_nat)
qed

lemma grown_at_rest:
  "\<forall>p\<in>set ps. stays_within p \<Longrightarrow>
    grown whole f (map (\<lambda>p. show_nat (length (holds p)) @ '' '' @ p) ps) =
    List.map_filter (\<lambda>p. plan_of whole f p (length (holds p))) ps"
  by (induction ps) (auto simp: grown_def List.map_filter_simps listed_line_plain [simplified] split: option.splits)

definition pieces_at :: "copies \<Rightarrow> (string \<Rightarrow> string) \<Rightarrow> string list \<Rightarrow> piece list" where
  "pieces_at f holds ps = List.map_filter (\<lambda>p. plan_of True f p (length (holds p))) ps"

lemma plan_of_stop: "plan_of whole f p n = Some e \<Longrightarrow> pc_stop e \<le> n"
  by (auto simp: plan_of_def Let_def split: if_splits)

lemma pieces_at_full:
  assumes "e \<in> set (pieces_at f holds ps)"
  shows "length (read_one (holds (pc_path e)) e) = span_of e"
proof -
  obtain p where p: "plan_of True f p (length (holds p)) = Some e"
    using assms by (auto simp: pieces_at_def List.map_filter_def)
  show ?thesis using plan_of_stop [OF p] plan_of_path [OF p] by (simp add: read_one_def span_of_def)
qed

lemma read_script_length:
  "\<forall>e\<in>set es. length (read_one (holds e) e) = span_of e \<Longrightarrow> length (read_script holds es) = sum_list (map span_of es)"
  by (induction es) (auto simp: read_script_def)

text \<open>Files landing apart are written apart.\<close>

lemma write_all_apart:
  assumes "length (read_script holds es) = sum_list (map span_of es)" "k \<notin> (lands \<circ> pc_path) ` set es"
  shows "held (write_all whole es (read_script holds es) f) k = held f k"
  using assms
proof (induction es arbitrary: f)
  case (Cons e es)
  note full = read_script_full [OF Cons.prems(1)]
  show ?case using Cons.IH [OF full(2)] Cons.prems(2) write_one_elsewhere by (auto simp: full)
qed simp

lemma write_all_at:
  assumes "length (read_script holds es) = sum_list (map span_of es)" "distinct (map (lands \<circ> pc_path) es)" "e \<in> set es"
  shows "held (write_all whole es (read_script holds es) f) (lands (pc_path e)) =
    held (write_one whole e (read_one (holds e) e) f) (lands (pc_path e))"
  using assms
proof (induction es arbitrary: f)
  case (Cons d es)
  note full = read_script_full [OF Cons.prems(1)]
  show ?case
  proof (cases "d = e")
    case True
    then show ?thesis using Cons.prems(2) write_all_apart [OF full(2)] by (simp add: full [unfolded True] comp_def)
  next
    case False
    then have e: "e \<in> set es" "lands (pc_path d) \<noteq> lands (pc_path e)" using Cons.prems by auto
    have same: "held (write_one whole d r f) (lands (pc_path e)) = held f (lands (pc_path e))" for r
      using e(2) by (rule write_one_elsewhere)
    show ?thesis
      using Cons.IH [OF full(2) _ e(1)] Cons.prems(2) same by (simp add: full write_one_def Let_def)
  qed
qed simp

lemma pieces_at_distinct: "distinct (map lands ps) \<Longrightarrow> distinct (map (lands \<circ> pc_path) (pieces_at f holds ps))"
proof (induction ps)
  case Nil
  then show ?case by (simp add: pieces_at_def)
next
  case (Cons p ps)
  have inside: "(lands \<circ> pc_path) ` set (pieces_at f holds ps) \<subseteq> lands ` set ps"
    by (auto simp: pieces_at_def List.map_filter_def dest: plan_of_path)
  show ?case
    using Cons inside by (auto simp: pieces_at_def List.map_filter_simps comp_def dest: plan_of_path split: option.splits)
qed

text \<open>One round of a last copy: each log as far on as one read takes it, and behind while one was cut short.\<close>

lemma round_at_rest:
  assumes names: "plain_names ps" and some: "globs \<noteq> []" and p: "p \<in> set ps" "is_lines p"
    and h: "prefix (held f (lands p)) (holds p)" and c: "copied True globs [at_rest ps holds] f = (f', b)"
  shows "held f' (lands p) = take (length (held f (lands p)) + MOST_READ) (holds p) \<and>
    (b = Some True \<or> b = Some False \<and> held f' (lands p) = holds p)"
proof -
  let ?es = "pieces_at f holds ps" and ?h = "held f (lands p)"
  have es: "grown True f (map (\<lambda>p. show_nat (length (holds p)) @ '' '' @ p) ps) = ?es"
    using names grown_at_rest [of ps True f holds] by (simp add: pieces_at_def plain_names_def)
  have len: "length (read_script (holds \<circ> pc_path) ?es) = sum_list (map span_of ?es)"
    using pieces_at_full [of _ f holds ps] by (intro read_script_length) simp
  have out: "f' = (if ?es = [] then f else write_all True ?es (read_script (holds \<circ> pc_path) ?es) f)"
    "b = Some (\<exists>e\<in>set ?es. capped e)"
    using c some len by (auto simp: copied_from_def copied_pieces_def at_rest_def es [simplified] split: if_splits)
  obtain z where z: "holds p = ?h @ z" using h by (auto simp: prefix_def)
  have plan: "plan_of True f p (length (holds p)) = (if z = [] then None else
      Some \<lparr>pc_path = p, pc_was = length ?h, pc_have = length ?h, pc_stop = length ?h + min (length z) MOST_READ\<rparr>)"
    using p(2) by (auto simp: plan_of_def Let_def z min_def)
  show ?thesis
  proof (cases "z = []")
    case True
    have "lands p \<notin> (lands \<circ> pc_path) ` set ?es"
    proof
      assume "lands p \<in> (lands \<circ> pc_path) ` set ?es"
      then obtain q e where q: "q \<in> set ps" "plan_of True f q (length (holds q)) = Some e" "lands (pc_path e) = lands p"
        by (auto simp: pieces_at_def List.map_filter_def)
      then have "q = p"
        using plan_of_path [OF q(2)] names p(1) by (auto simp: plain_names_def distinct_map dest: inj_onD)
      then show False using q(2) plan True by simp
    qed
    then show ?thesis using out write_all_apart [OF len] z True by auto
  next
    case False
    let ?e = "\<lparr>pc_path = p, pc_was = length ?h, pc_have = length ?h, pc_stop = length ?h + min (length z) MOST_READ\<rparr>"
    have e: "?e \<in> set ?es" using plan False p(1) by (force simp: pieces_at_def List.map_filter_def)
    have "held f' (lands p) = held (write_one True ?e (read_one (holds p) ?e) f) (lands p)"
      using write_all_at [OF len pieces_at_distinct e, of True f] names e out by (auto simp: plain_names_def)
    moreover have "read_one (holds p) ?e = take MOST_READ z"
      by (simp add: read_one_def span_of_def z min_def)
    moreover have "MOST_READ \<noteq> 0" by (simp add: MOST_READ_def)
    ultimately have new: "held f' (lands p) = ?h @ take MOST_READ z"
      using False by (simp add: write_one_def Let_def)
    show ?thesis
    proof (cases "length z < MOST_READ")
      case True
      then show ?thesis using new z out by auto
    next
      case False
      then have "capped ?e" using p(2) by (simp add: capped_def span_of_def)
      then show ?thesis using new z out e by auto
    qed
  qed
qed

lemma rounds_at_rest:
  assumes names: "plain_names ps" "globs \<noteq> []" "p \<in> set ps" "is_lines p"
    and h: "prefix (held f (lands p)) (holds p)" "length (holds p) \<le> length (held f (lands p)) + n * MOST_READ"
  shows "held (copy_rounds True globs (replicate n [at_rest ps holds]) f) (lands p) = holds p"
  using h
proof (induction n arbitrary: f)
  case 0
  then show ?case by (auto simp: prefix_def)
next
  case (Suc n)
  obtain f1 b where one: "copied True globs [at_rest ps holds] f = (f1, b)" by fastforce
  note new = round_at_rest [OF names Suc.prems(1) one]
  show ?case
  proof (cases "b = Some True")
    case True
    have "prefix (held f1 (lands p)) (holds p)" "length (holds p) \<le> length (held f1 (lands p)) + n * MOST_READ"
      using new [THEN conjunct1] Suc.prems(2) by (simp_all add: take_is_prefix min_def)
    from Suc.IH [OF this] show ?thesis using one True by simp
  next
    case False
    then have "b = Some False" "held f1 (lands p) = holds p" using new by blast+
    then show ?thesis using one by simp
  qed
qed

text \<open>
  C40. The last copy of a session whose machine has gone quiet leaves nothing of a log of lines behind: the copy is the whole log,
  where no more than the reads of a last copy can take is missing of it.
\<close>

theorem last_copy_is_whole:
  assumes "plain_names ps" "globs \<noteq> []" "p \<in> set ps" "is_lines p"
    and "prefix (held f (lands p)) (holds p)" "length (holds p) \<le> length (held f (lands p)) + ROUNDS * MOST_READ"
  shows "held (copy True globs (replicate ROUNDS [at_rest ps holds]) f) (lands p) = holds p"
  using rounds_at_rest [where holds = holds and p = p and f = f and n = ROUNDS] assms by (simp add: copy_def)

lemma last_copy_is_whole_witness:
  "held (copy True [''s/*''] (replicate ROUNDS [at_rest [''s/a.jsonl''] (\<lambda>_. [CHR ''a'', feed_char, CHR ''b''])])
     (\<lambda>_. Some [CHR ''a''])) (lands ''s/a.jsonl'') = [CHR ''a'', feed_char, CHR ''b'']"
proof -
  have "plain_names [''s/a.jsonl'']" "is_lines ''s/a.jsonl''" by code_simp+
  then show ?thesis by (intro last_copy_is_whole) (auto simp: held_def ROUNDS_def MOST_READ_def)
qed

lemma serves_log_example:
  "serves_log k l l (at_rest [p] (\<lambda>_. l))"
proof -
  have "CHR '' '' \<notin> set (show_nat n)" for n using show_nat_digits [of n] by (auto simp: is_digit_def)
  from py_partition_found [OF this]
  have "py_partition CHR '' '' (show_nat n @ CHR '' '' # p) = (show_nat n, True, p)" for n .
  then show ?thesis by (auto simp: serves_log_def at_rest_def comp_def)
qed

lemma copies_are_prefixes_witness:
  "held (copy False [''s/*''] [[at_rest [''s/a.jsonl''] (\<lambda>_. [CHR ''a'', feed_char, CHR ''b''])]] Map.empty) [''s'', ''a.jsonl'']
     = [CHR ''a'', feed_char]
   \<and> prefix [CHR ''a'', feed_char] [CHR ''a'', feed_char, CHR ''b'']"
proof -
  let ?l = "[CHR ''a'', feed_char, CHR ''b'']" and ?k = "[''s'', ''a.jsonl'']"
  let ?r = "[[at_rest [''s/a.jsonl''] (\<lambda>_. ?l)]]"
  have "tails [''s/*''] ?k ([], Map.empty) ([] @ ?l, Map.empty)"
    by (intro tails.written tails.stays)
  then have "tails [''s/*''] ?k ([], Map.empty) (?l, Map.empty)" by simp
  moreover have "all_serve ?k ?l (concat ?r) ?l" using serves_log_example by auto
  ultimately have "tails [''s/*''] ?k ([], Map.empty) (?l, copy False [''s/*''] ?r Map.empty)"
    by (rule tails.copies)
  from copies_are_prefixes [OF this]
  have "prefix (held (copy False [''s/*''] ?r Map.empty) ?k) ?l" by (simp add: held_def)
  moreover have "held (copy False [''s/*''] ?r Map.empty) ?k = [CHR ''a'', feed_char]"
  proof -
    have k: "lands ''s/a.jsonl'' = ?k" "is_lines ''s/a.jsonl''" "stays_within ''s/a.jsonl''" by code_simp+
    have fl: "full_lines ?l = [CHR ''a'', feed_char]" by code_simp
    have plan: "plan_of False Map.empty ''s/a.jsonl'' (Suc (Suc (Suc 0))) = Some \<lparr>pc_path = ''s/a.jsonl'', pc_was = 0, pc_have = 0, pc_stop = Suc (Suc (Suc 0))\<rparr>"
      by (simp add: plan_of_def k held_def MOST_READ_def Let_def)
    show ?thesis
      using grown_at_rest [of "[''s/a.jsonl'']" False Map.empty "\<lambda>_. ?l"]
      by (simp add: copy_def copied_from_def copied_pieces_def at_rest_def k plan List.map_filter_simps
          read_script_def read_one_def span_of_def write_one_def Let_def held_def capped_def MOST_READ_def fl)
  qed
  ultimately show ?thesis by simp
qed

end
