(* ===== verification/Spec2Isabelle.thy ===== *)
theory Spec2Isabelle
  imports Backends Lifecycle Journaled Recovered Watchdog Routing Turning Allowance Parts Specs Loopback Carrying Handing Tallied Monitoring Tailing
begin

text \<open>
  \<^bold>\<open>Humanize\<close> runs \<^emph>\<open>flows\<close>: Python programs that drive coding agents (external command lines) on machines,
  under budgets, and that can be picked up again after they die. This development models the parts of
  \<open>src/hmz\<close> that decide something -- what a call may spend, who may do what, when a turn is ended, what is
  kept on a disk and what is read back -- and proves what those decisions come to. File names below are
  under \<open>src/hmz\<close>.

  \<^bold>\<open>How the parts work together.\<close> A command line is read (\<open>Specs\<close>) against what the settings hold
  (\<open>Settings\<close>, \<open>Backends\<close>, \<open>Runtimes\<close>, \<open>Places\<close>, all writing parts of one file, \<open>Parts\<close>). The engine
  makes a tree of flow calls, each under a budget and a clock, holding resources (\<open>CallTree\<close>, \<open>Budgets\<close>,
  \<open>Clocks\<close>, \<open>Calls\<close>, \<open>Lifecycle\<close>), hands agents and environments on through roles (\<open>Grants\<close>), and writes
  each call and its state in a journal (\<open>Journal\<close> and those after it). A call's agent takes turns: a turn
  is opened, driven round by round through its hooks and closed (\<open>Turning\<close>), cut off by its budget, a
  person or the watchdog (\<open>Cutting\<close>, \<open>Watchdog\<close>), and taken again or elsewhere where it fails
  (\<open>Recovering\<close>, \<open>Recovered\<close>, walking the chain of \<open>Places\<close>). What turns spend is priced (\<open>Prices\<close>) and
  held to the allowance of the whole run (\<open>Allowance\<close>); what a run has cost is also read off the logs its agents
  keep (\<open>Tallying\<close>, \<open>Tallied\<close>), copied here from other machines (\<open>Tailing\<close>), and both are told to its monitor
  (\<open>Monitoring\<close>). Inside a turn, the paths an agent asks for are
  routed to the machine that has them (\<open>Paths\<close>, \<open>Routing\<close>), and its processes are held to filters the
  kernel runs and to a supervisor of what they listen on (\<open>Seccomp\<close>, \<open>Loopback\<close>). A run is held by a host
  process; this machine's one daemon hands each frontend's socket to its host (\<open>Handing\<close>), and the host tells
  every frontend what happens, in frames (\<open>Frames\<close>, \<open>Carrying\<close>).
\<close>

text \<open>
  \<^bold>\<open>Shared by all.\<close>
  \<^item> \<open>Prelude\<close>: results with errors to the left and their sequencing, a loop that may raise (\<open>res_fold\<close>),
    ordered dictionaries, and the collections of facts.
  \<^item> \<open>PyString\<close>, \<open>PyNumber\<close>, \<open>PyFloat\<close>, \<open>PyValue\<close>, \<open>PyFormat\<close>: the strings, numbers, values and number
    formats of Python that the code uses. A character is Latin-1; a finite float is an exact rational,
    infinities and NaN as in IEEE 754, and a value past the largest double is infinite. Rounding of sums
    is not modelled.
  \<^item> \<open>Json\<close>: writing and reading JSON as \<open>json\<close> does it, with the round trip between them.

  \<^bold>\<open>The engine\<close> (\<open>runtime/flowing/engine.py\<close>, \<open>viewing.py\<close>, \<open>declaring.py\<close>, \<open>flows/agents.py\<close>).
  \<^item> \<open>CallTree\<close>: \<open>Budget\<close>, \<open>Call\<close> and the calls of a run as a list, a parent before its callees;
    \<open>check\<close>, \<open>limits\<close>, \<open>add\<close>, \<open>usage\<close>, \<open>effective\<close> are \<open>Call.check\<close>, \<open>Call.limits\<close>, \<open>_Sink.add\<close>,
    \<open>Call.usage\<close>, \<open>Call.budget\<close>. \<open>Budgets\<close>: what a turn is handed is the least every budget above leaves,
    a refusal is final, spending rolls up.
  \<^item> \<open>Clocks\<close>: \<open>_Clock\<close> as transitions on its fields and the cancel count of its task, interleaved with other
    cancels; the count is restored and a graceful deadline waits for the turns under way.
  \<^item> \<open>Calls\<close>, \<open>Lifecycle\<close>: \<open>FlowImpl.__call__\<close>, \<open>hold\<close>, \<open>made\<close>, \<open>unmade\<close>, \<open>_finish\<close>, \<open>_cascade\<close>, \<open>_released\<close>,
    \<open>Run.close\<close> as steps of a run; cleanup waits for callees, nothing is released twice.
  \<^item> \<open>Grants\<close>: \<open>Permission\<close>, roles, \<open>_agent\<close>, \<open>_narrowed\<close>, \<open>meets\<close>, the memo of a role; nothing handed on
    exceeds what was held.
\<close>

text \<open>
  \<^bold>\<open>The journal of a resumable run\<close> (\<open>runtime/flowing/journaling.py\<close>).
  \<^item> \<open>Journal\<close>: records, reading them back, the buffer and the flush. \<open>JournalText\<close>: the locale \<open>dumper\<close> of
    what \<open>pydantic_core.to_json\<close> promises, interpreted on \<open>Json\<close>. \<open>JournalReplay\<close>, \<open>JournalRuns\<close>,
    \<open>JournalKeeps\<close>, \<open>Journaled\<close>: the simulation between the state a flow call holds and what its file
    says, over writes torn at any byte, any number of deaths and compactions.

  \<^bold>\<open>Turns\<close> (\<open>coganchor/agents/base.py\<close>, \<open>hooks.py\<close>, \<open>config.py\<close>, \<open>watchdog.py\<close>, \<open>coganchor/fallbacks.py\<close>).
  \<^item> \<open>Cutting\<close>: \<open>SessionBase._interrupts\<close>, \<open>_checks\<close>, \<open>_budgeting\<close>, \<open>_waits\<close>, \<open>_budgeted\<close>, \<open>_wedges\<close> and
    \<open>_taking\<close>. Each stretch of code under \<open>_turn_guard\<close> is one function of the session (\<open>talk\<close>), each call
    still under way an element of \<open>w_flights\<close>, and \<open>moves\<close> interleaves them; \<open>schedule\<close> runs one interleaving,
    for the witnesses. The lemma \<open>late_cut_off_ends_the_next\<close> is the one way a cut-off still reaches another turn.
  \<^item> \<open>Turning\<close>: \<open>SessionBase._turning\<close>, \<open>_short\<close> and \<open>Hooks\<close>; a turn is a list of rounds, each with what the
    backend said, how its stream ended and what the session then stands at.
  \<^item> \<open>Watchdog\<close>: \<open>Watchdog\<close> whole as ticks. \<open>Places\<close>, \<open>Fallbacks\<close>: the steps from place to place, their
    policies and waits. \<open>Recovering\<close>, \<open>Recovered\<close>: \<open>_falling_back\<close> over inputs saying what each try met; a
    walk ends because a chain names no place twice.

  \<^bold>\<open>Money\<close> (\<open>coganchor/prices.py\<close>, \<open>coganchor/agents/allowance.py\<close>).
  \<^item> \<open>Prices\<close>: \<open>_trim\<close>, \<open>_fetch\<close>, \<open>_read\<close>, \<open>_index\<close>, \<open>_keys\<close>, \<open>price\<close>, \<open>cost\<close>. \<open>Allowance\<close>: \<open>Allowance\<close>,
    \<open>Ledger\<close> and \<open>blinded\<close>, with \<open>accounts\<close> the interleaving of every thread of a run on one ledger.

  \<^bold>\<open>Watching a run\<close> (\<open>runtime/watching/tally.py\<close>, \<open>runtime/watching/monitor.py\<close>, \<open>coganchor/tailing.py\<close>).
  \<^item> \<open>Lines\<close>: the finished lines of a growing file. \<open>Tallying\<close>: \<open>_kinds\<close>, \<open>_spent\<close>, \<open>_moment\<close>, \<open>_written\<close> and \<open>Tally\<close>;
    what the disk holds, and which logs are found, are inputs of a look. A log read in pieces counts as one read whole.
    \<open>Tallied\<close>: over the logs of Claude's sessions, the one backend whose names for a request hold across logs
    (\<open>EVERYWHERE\<close>), every request is counted once. The lemma \<open>odd_row_ends_the_look\<close> is the one way a look is cut short.
  \<^item> \<open>Monitoring\<close>: \<open>Monitor\<close>, each operation one step under its lock; what was spent is the most either source has seen.
  \<^item> \<open>Tailing\<close>: \<open>_root\<close>, \<open>Tail.copy\<close>, \<open>_copied\<close>, \<open>_copied_from\<close>. A road answers what it likes, or fails; \<open>serves_log\<close> says
    that one log is only written to at its end, and \<open>tails\<close> interleaves its growing with copies. Names are of letters the
    script can list on a line.
\<close>

text \<open>
  \<^bold>\<open>Settings and command lines.\<close>
  \<^item> \<open>Settings\<close> (\<open>coganchor/settings.py\<close>): the file as read and as changed under its lock; the locales
    \<open>settings_part\<close> and \<open>keyed_part\<close> say what a writer of one part owes the others. \<open>Backends\<close>
    (\<open>coganchor/backends.py\<close>, \<open>spelling.py\<close>), \<open>Runtimes\<close> (\<open>coganchor/machines/store.py\<close>, its five classes in \<open>RuntimeKinds\<close>) and \<open>Fallbacks\<close> are such
    writers; \<open>Parts\<close> interprets the locales on them and proves that any interleaving of their writes leaves
    each part as its own writes would.
  \<^item> \<open>Specs\<close> (\<open>runtime/flowing/specs.py\<close>): items of a flag, agents, environments, params, durations, costs,
    counts and the budget of a run.

  \<^bold>\<open>Paths\<close> (\<open>coganchor/proto.py\<close>, \<open>coganchor/policy.py\<close>). \<open>Paths\<close>: the key and the spellings of a path.
  \<open>Routing\<close>: \<open>Layout\<close> and \<open>Router\<close>.

  \<^bold>\<open>Fences\<close> (\<open>coganchor/linux/seccomp.py\<close>, \<open>linux/syscalls.py\<close>, \<open>coganchor/fence/loopback.py\<close>).
  \<^item> \<open>PyStruct\<close>: \<open>struct.pack\<close> of integers. \<open>Seccomp\<close>: the call numbers of both architectures, and the three
    filters assembled to bytes; \<open>bpf_machine run\<close> is the documented meaning of classic BPF, and what each filter
    answers for every call follows for every such machine. \<open>Loopback\<close>: the supervisor of \<open>bind\<close> and \<open>listen\<close>
    racing the threads it answers, over \<open>kernel_keeps env\<close>, what the kernel is documented not to do by itself.

  \<^bold>\<open>The daemon\<close> (\<open>daemon/proto.py\<close>, \<open>daemon/carrying.py\<close>, \<open>daemon/routing.py\<close>).
  \<^item> \<open>Frames\<close>: writing frames and \<open>Frames.feed\<close>, whatever pieces a stream comes in. \<open>Carrying\<close>: what goes out to
    one frontend. \<open>Handing\<close>: the hosts of \<open>Router\<close> and the sockets handed to them, one step a thread.

  \<^bold>\<open>Bounds and fuel.\<close> No definition takes fuel: every recursion is on the data or has a measure (the place
  in the list of calls, the length of a text, the places of a chain not yet tried). \<open>DEPTH\<close>, \<open>CEILING\<close>,
  \<open>LANDING\<close>, \<open>GRANTS\<close>, \<open>LONGEST\<close>, \<open>ROUNDS\<close> and \<open>DIGITS\<close> are the constants of the source and of Python. Interleavings are
  unbounded: invariants are proved by induction over every step.

  \<^bold>\<open>Parameters.\<close> The JSON text of \<open>pydantic_core\<close> (laws as locale assumptions), the reading of ISO 8601
  durations, \<open>shlex\<close>, \<open>expanduser\<close>, how a float is spelled, the hosts of an ssh config, regular expression
  searches in a backend's output, \<open>datetime.fromisoformat\<close> and the hash of a digest are arguments of the definitions that use them. The
  machine a filter runs on and the kernel between the supervisor's looks are held to named hypotheses.

  \<^bold>\<open>Not modelled.\<close> Drawing and input (\<open>tui\<close>, \<open>web\<close>, \<open>cli\<close>), drivers of one external program each
  (\<open>agents/*\<close> but the base, machines, what fences start, ptrace, providers, environment drivers), sockets, system
  calls and files below the level of a whole text, module loading, exporting and telemetry. Their behaviour
  is another program's or the operating system's; where a modelled part relies on one, what it answers is
  an input of the step.
\<close>

end
